(* ===== verification/Prelude.thy ===== *)
theory Prelude
  imports Main "HOL-Library.Word"
begin

text \<open>
  Shared material of the development: the machine integers of the Rust sources, the outcome of a
  Rust function (\<open>Ok\<close>, \<open>Err\<close> or a panic), the error enums, a model of the standard library's
  \<open>HashMap\<close> as an association list in iteration order, and the generic lemmas the component
  theories use.  Arithmetic that overflows is a panic here, as in a build with overflow checks
  (the dev profile of \<open>Cargo.toml\<close>); \<open>usize\<close> is 64 bits wide and is modelled by \<open>nat\<close>, since it
  only counts elements of lists that are in memory.
\<close>

unbundle bit_operations_syntax

type_synonym u8 = "8 word"
type_synonym i32 = "32 word"
type_synonym u32 = "32 word"
type_synonym u64 = "64 word"
type_synonym i64 = "64 word"
type_synonym bytes = "u8 list"

named_theorems outcome_simps \<open>rewrite rules for the outcome of a bind\<close>
named_theorems word_facts \<open>facts that move word arithmetic to natural numbers\<close>

section \<open>Outcomes\<close>

datatype ('e, 'a) result = Ok 'a | Err 'e | Panic

fun rbind :: "('e, 'a) result \<Rightarrow> ('a \<Rightarrow> ('e, 'b) result) \<Rightarrow> ('e, 'b) result" where
  "rbind (Ok x) f = f x"
| "rbind (Err e) f = Err e"
| "rbind Panic f = Panic"

fun map_err :: "('e \<Rightarrow> 'f) \<Rightarrow> ('e, 'a) result \<Rightarrow> ('f, 'a) result" where
  "map_err g (Ok x) = Ok x"
| "map_err g (Err e) = Err (g e)"
| "map_err g Panic = Panic"

fun is_ok :: "('e, 'a) result \<Rightarrow> bool" where
  "is_ok (Ok _) = True"
| "is_ok _ = False"

definition unwrap :: "'a option \<Rightarrow> ('e, 'a) result" where
  "unwrap x = (case x of None \<Rightarrow> Panic | Some y \<Rightarrow> Ok y)"

definition debug_assert :: "bool \<Rightarrow> ('e, unit) result" where
  "debug_assert b = (if b then Ok () else Panic)"

lemma rbind_eq_Ok [outcome_simps]:
  "rbind m f = Ok y \<longleftrightarrow> (\<exists>x. m = Ok x \<and> f x = Ok y)"
  by (cases m) auto

lemma rbind_eq_Panic [outcome_simps]:
  "rbind m f = Panic \<longleftrightarrow> m = Panic \<or> (\<exists>x. m = Ok x \<and> f x = Panic)"
  by (cases m) auto

lemma rbind_eq_Err [outcome_simps]:
  "rbind m f = Err e \<longleftrightarrow> m = Err e \<or> (\<exists>x. m = Ok x \<and> f x = Err e)"
  by (cases m) auto

lemma rbind_assoc: "rbind (rbind m f) g = rbind m (\<lambda>x. rbind (f x) g)"
  by (cases m) auto

lemma rbind_cong [fundef_cong]:
  "m = m' \<Longrightarrow> (\<And>x. m' = Ok x \<Longrightarrow> f x = f' x) \<Longrightarrow> rbind m f = rbind m' f'"
  by (cases m') auto

lemma map_err_eq_Ok [outcome_simps]: "map_err g m = Ok y \<longleftrightarrow> m = Ok y"
  by (cases m) auto

lemma map_err_eq_Panic [outcome_simps]: "map_err g m = Panic \<longleftrightarrow> m = Panic"
  by (cases m) auto

lemma unwrap_eq [outcome_simps]:
  "unwrap x = Ok y \<longleftrightarrow> x = Some y" "unwrap x = Panic \<longleftrightarrow> x = None" "unwrap x \<noteq> Err e"
  by (auto simp: unwrap_def split: option.splits)

lemma unwrap_Some [simp]: "unwrap (Some y) = Ok y" "unwrap None = Panic"
  by (simp_all add: unwrap_def)

lemma debug_assert_simps [simp]: "debug_assert True = Ok ()" "debug_assert False = Panic"
  by (simp_all add: debug_assert_def)

lemma debug_assert_eq [outcome_simps]:
  "debug_assert b = Ok u \<longleftrightarrow> b" "debug_assert b = Panic \<longleftrightarrow> \<not> b" "debug_assert b \<noteq> Err e"
  by (auto simp: debug_assert_def)

section \<open>Errors of the sources\<close>

text \<open>The error kinds of the \<open>nom\<close> parsers the code can produce, and \<open>nom::Err\<close> over an input type.\<close>

datatype nom_kind = Eof | Tag | MapRes | Count

datatype 'i nom_err = Incomplete nat | NomError 'i nom_kind | NomFailure 'i nom_kind

text \<open>
  \<open>JwstCodecError\<close>.  The message of \<open>IncompleteDocument\<close> is kept as its cause, not as text;
  the type names of \<open>InvalidStructType\<close>, \<open>TypeCastError\<close> and \<open>UnexpectedType\<close> are kept as strings.
\<close>

datatype incomplete_cause = ReadError | UnknownYType u64 | UnknownContentType u8

datatype codec_error =
    Unexpected
  | DamagedDocumentJson
  | IncompleteDocument incomplete_cause
  | InvalidWriteBuffer
  | ContentSplitNotSupport u64
  | ItemSplitNotSupport
  | UpdateIsEmpty
  | UpdateInvalid "nat nom_err"
  | UpdateNotFullyConsumed nat
  | StructClockInvalid u64 u64
  | StructSequenceInvalid u64 u64
  | StructSequenceNotExists u64
  | InvalidParent
  | ParentNotFound
  | InvalidStructType string
  | TypeCastError string
  | RootStructNotFound bytes
  | IndexOutOfBound u64
  | DocReleased
  | UnexpectedType string

type_synonym 'a iresult = "(bytes nom_err, bytes \<times> 'a) result"
type_synonym 'a codec_result = "(codec_error, 'a) result"

section \<open>Machine arithmetic\<close>

text \<open>\<open>u64\<close> addition and subtraction with the overflow check, and Rust's \<open>wrapping_shl\<close>.\<close>

definition add_u64 :: "u64 \<Rightarrow> u64 \<Rightarrow> ('e, u64) result" where
  "add_u64 a b = (if unat a + unat b < 2 ^ 64 then Ok (a + b) else Panic)"

definition sub_u64 :: "u64 \<Rightarrow> u64 \<Rightarrow> ('e, u64) result" where
  "sub_u64 a b = (if b \<le> a then Ok (a - b) else Panic)"

definition wrapping_shl :: "u64 \<Rightarrow> nat \<Rightarrow> u64" where
  "wrapping_shl x s = push_bit (s mod 64) x"

lemma unat_u64_less: "unat (x :: u64) < 18446744073709551616"
  using unsigned_less [of x] by simp

lemma unat_u8_less: "unat (x :: u8) < 256"
  using unsigned_less [of x] by simp

lemma add_u64_Ok [outcome_simps]:
  "add_u64 a b = Ok c \<longleftrightarrow> unat a + unat b < 2 ^ 64 \<and> c = a + b"
  by (auto simp: add_u64_def)

lemma add_u64_Panic [outcome_simps]: "add_u64 a b = Panic \<longleftrightarrow> 2 ^ 64 \<le> unat a + unat b"
  by (auto simp: add_u64_def)

lemma add_u64_not_Err [simp]: "add_u64 a b \<noteq> Err e"
  by (simp add: add_u64_def)

lemma sub_u64_Ok [outcome_simps]: "sub_u64 a b = Ok c \<longleftrightarrow> b \<le> a \<and> c = a - b"
  by (auto simp: sub_u64_def)

lemma sub_u64_Panic [outcome_simps]: "sub_u64 a b = Panic \<longleftrightarrow> a < b"
  by (auto simp: sub_u64_def not_le)

lemma sub_u64_not_Err [simp]: "sub_u64 a b \<noteq> Err e"
  by (simp add: sub_u64_def)

lemma unat_plus_u64 [word_facts]:
  "unat (a :: u64) + unat b < 2 ^ 64 \<Longrightarrow> unat (a + b) = unat a + unat b"
  by (simp add: unat_word_ariths)

lemma unat_minus_u64 [word_facts]: "(b :: u64) \<le> a \<Longrightarrow> unat (a - b) = unat a - unat b"
  by (simp add: unat_sub word_le_nat_alt)

lemma le_unat [word_facts]: "(a :: u64) \<le> b \<longleftrightarrow> unat a \<le> unat b"
  by (simp add: word_le_nat_alt)

lemma less_unat [word_facts]: "(a :: u64) < b \<longleftrightarrow> unat a < unat b"
  by (simp add: word_less_nat_alt)

section \<open>HashMap\<close>

text \<open>
  A \<open>HashMap\<close> is the list of its entries in iteration order, with distinct keys.  The order is
  unspecified in Rust: the theorems about a map hold for every order of its entries, or are about
  its lookup function \<^term>\<open>map_of\<close>.
\<close>

type_synonym ('k, 'v) hashmap = "('k \<times> 'v) list"

fun hm_insert :: "'k \<Rightarrow> 'v \<Rightarrow> ('k, 'v) hashmap \<Rightarrow> ('k, 'v) hashmap" where
  "hm_insert k v [] = [(k, v)]"
| "hm_insert k v ((k', v') # m) = (if k' = k then (k, v) # m else (k', v') # hm_insert k v m)"

definition hm_remove :: "'k \<Rightarrow> ('k, 'v) hashmap \<Rightarrow> ('k, 'v) hashmap" where
  "hm_remove k m = filter (\<lambda>(k', _). k' \<noteq> k) m"

definition hm_collect :: "('k \<times> 'v) list \<Rightarrow> ('k, 'v) hashmap" where
  "hm_collect kvs = fold (\<lambda>(k, v) m. hm_insert k v m) kvs []"

definition hm_wf :: "('k, 'v) hashmap \<Rightarrow> bool" where
  "hm_wf m = distinct (map fst m)"

lemma hm_wf_Nil [simp]: "hm_wf []"
  by (simp add: hm_wf_def)

lemma map_of_hm_insert [simp]: "map_of (hm_insert k v m) = (map_of m)(k \<mapsto> v)"
  by (induction k v m rule: hm_insert.induct) auto

lemma keys_hm_insert [simp]: "fst ` set (hm_insert k v m) = insert k (fst ` set m)"
  by (induction k v m rule: hm_insert.induct) auto

lemma hm_wf_insert [simp]: "hm_wf m \<Longrightarrow> hm_wf (hm_insert k v m)"
proof (induction k v m rule: hm_insert.induct)
  case (2 k v k' v' m)
  then show ?case
    using keys_hm_insert [of k v m] by (auto simp: hm_wf_def)
qed (simp add: hm_wf_def)

lemma map_of_hm_remove [simp]: "map_of (hm_remove k m) = (map_of m)(k := None)"
  by (induction m) (auto simp: hm_remove_def)

lemma hm_wf_remove [simp]: "hm_wf m \<Longrightarrow> hm_wf (hm_remove k m)"
  unfolding hm_wf_def hm_remove_def by (induction m) auto

lemma hm_insert_fresh: "k \<notin> fst ` set m \<Longrightarrow> hm_insert k v m = m @ [(k, v)]"
  by (induction k v m rule: hm_insert.induct) auto

lemma hm_collect_append_distinct:
  "distinct (map fst (acc @ kvs)) \<Longrightarrow>
   fold (\<lambda>(k, v) m. hm_insert k v m) kvs acc = acc @ kvs"
  by (induction kvs arbitrary: acc) (auto simp: hm_insert_fresh)

lemma hm_collect_distinct [simp]: "hm_wf kvs \<Longrightarrow> hm_collect kvs = kvs"
  using hm_collect_append_distinct [of "[]" kvs] by (simp add: hm_collect_def hm_wf_def)

lemma hm_wf_fold_insert:
  "hm_wf m \<Longrightarrow> hm_wf (fold (\<lambda>(k, v) m. hm_insert k v m) kvs m)"
  by (induction kvs arbitrary: m) auto

lemma hm_wf_collect [simp]: "hm_wf (hm_collect kvs)"
  by (simp add: hm_collect_def hm_wf_fold_insert)

lemma hm_wf_map_of_mem: "hm_wf m \<Longrightarrow> (k, v) \<in> set m \<longleftrightarrow> map_of m k = Some v"
  by (auto simp: hm_wf_def intro: map_of_SomeD)

section \<open>Byte strings\<close>

text \<open>
  A Rust \<open>String\<close> is its UTF-8 bytes; a literal of the sources is written as an ASCII
  string and turned into bytes.
\<close>

definition str_bytes :: "string \<Rightarrow> bytes" where
  "str_bytes s = map (\<lambda>c. of_nat (of_char c)) s"

section \<open>Lists\<close>

lemma take_drop_split: "i < length xs \<Longrightarrow> xs = take i xs @ xs ! i # drop (Suc i) xs"
  by (simp add: id_take_nth_drop)

lemma drop_eq_append: "drop p xs = ys @ zs \<Longrightarrow> drop (p + length ys) xs = zs"
  by (metis add.commute append_eq_conv_conj drop_drop)

end
