(* ===== verification/Var_Int.thy ===== *)
theory Var_Int
  imports Prelude
begin

text \<open>
  The variable-length integers of \<open>libs/jwst-codec/src/codec/integer.rs\<close>: seven bits per byte,
  low bits first, the top bit of a byte marks that another byte follows; in the signed form the
  first byte holds a sign bit and six bits.  A reader takes the input slice and gives the rest of
  the slice and the number (\<open>IResult\<close>); a writer appends to a \<open>Vec<u8>\<close>, which does not fail.
\<close>

section \<open>Definitions\<close>

text \<open>The loop of both readers; \<open>shift\<close> is a \<open>u32\<close>, so its increment is checked.\<close>

fun read_var_loop :: "nat \<Rightarrow> u8 \<Rightarrow> nat \<Rightarrow> u64 \<Rightarrow> bytes \<Rightarrow> u64 iresult" where
  "read_var_loop input_len curr_byte shift num rest =
     (if drop_bit 7 curr_byte AND 1 \<noteq> 0 then
        (case rest of
           [] \<Rightarrow> Err (Incomplete (input_len + 1))
         | next_byte # rest' \<Rightarrow>
             if shift + 7 < 2 ^ 32
             then read_var_loop input_len next_byte (shift + 7)
                    (num OR wrapping_shl (ucast (next_byte AND 0x7F)) shift) rest'
             else Panic)
      else Ok (rest, num))"

declare read_var_loop.simps [simp del]

definition read_var_u64 :: "bytes \<Rightarrow> u64 iresult" where
  "read_var_u64 input =
     (case input of
        [] \<Rightarrow> Err (Incomplete 1)
      | next_byte # rest \<Rightarrow>
          read_var_loop (length input) next_byte 7 (ucast (next_byte AND 0x7F)) rest)"

function write_var_u64 :: "bytes \<Rightarrow> u64 \<Rightarrow> bytes" where
  "write_var_u64 buffer num =
     (if 0x80 \<le> num
      then write_var_u64 (buffer @ [ucast num AND 0x7F OR 0x80]) (drop_bit 7 num)
      else buffer @ [ucast (num AND 0x7F)])"
  by pat_completeness auto
termination
proof (relation "measure (\<lambda>(buffer, num). unat num)")
  fix buffer :: bytes and num :: u64
  assume "0x80 \<le> num"
  then have "128 \<le> unat num" by (simp add: word_le_nat_alt)
  then have "unat (drop_bit 7 num) < unat num"
    by (simp add: drop_bit_eq_div unat_div)
  then show "((buffer @ [ucast num AND 0x7F OR 0x80], drop_bit 7 num), buffer, num)
      \<in> measure (\<lambda>(buffer, num). unat num)"
    by simp
qed auto

declare write_var_u64.simps [simp del]

text \<open>The number is an \<open>i64\<close> while it is read; negating \<open>i64::MIN\<close> overflows.\<close>

definition read_var_i32 :: "bytes \<Rightarrow> i32 iresult" where
  "read_var_i32 input =
     (case input of
        [] \<Rightarrow> Err (Incomplete 1)
      | curr_byte # rest \<Rightarrow>
          (let sign_bit = drop_bit 6 curr_byte AND 1 in
           rbind (read_var_loop (length input) curr_byte 6 (ucast (curr_byte AND 0x3F)) rest)
             (\<lambda>(rest', num).
                if sign_bit = 1
                then (if num = 0x8000000000000000 then Panic else Ok (rest', ucast (- num)))
                else Ok (rest', ucast num))))"

text \<open>
  \<open>num\<close> is an \<open>i64\<close> that holds the magnitude of an \<open>i32\<close>, so nothing overflows: an \<open>int\<close>.
\<close>

function write_var_i32_loop :: "bytes \<Rightarrow> int \<Rightarrow> bytes" where
  "write_var_i32_loop buffer num =
     (if 0 < num
      then write_var_i32_loop
             (buffer @ [(if 0x7F < num then 0x80 else 0) OR (word_of_int num AND 0x7F)])
             (num div 2 ^ 7)
      else buffer)"
  by pat_completeness auto
termination by (relation "measure (\<lambda>(buffer, num). nat num)") auto

declare write_var_i32_loop.simps [simp del]

definition write_var_i32 :: "bytes \<Rightarrow> i32 \<Rightarrow> bytes" where
  "write_var_i32 buffer n =
     (let num0 = sint n; is_negative = num0 < 0; num = (if is_negative then - num0 else num0) in
      write_var_i32_loop
        (buffer @ [(if 0x3F < num then 0x80 else 0) OR (if is_negative then 0x40 else 0)
                   OR (word_of_int num AND 0x3F)])
        (num div 2 ^ 6))"

section \<open>The unsigned form\<close>

lemma cont_bit: "drop_bit 7 (b :: u8) AND 1 \<noteq> 0 \<longleftrightarrow> bit b 7"
  by (simp add: bit_iff_odd_drop_bit and_one_eq odd_iff_mod_2_eq_one)


lemma write_var_u64_acc: "write_var_u64 (a @ buffer) num = a @ write_var_u64 buffer num"
proof (induction buffer num rule: write_var_u64.induct)
  case (1 buffer num)
  show ?case
  proof (cases "0x80 \<le> num")
    case True
    from "1.IH" [OF True] show ?thesis
      using True by (simp add: write_var_u64.simps [of _ num])
  next
    case False
    then show ?thesis by (simp add: write_var_u64.simps [of _ num])
  qed
qed

lemma write_var_u64_append: "write_var_u64 buffer num = buffer @ write_var_u64 [] num"
  using write_var_u64_acc [of buffer "[]" num] by simp

text \<open>The encoding as a function of its own, and as arithmetic on natural numbers.\<close>

definition var_u64_bytes :: "u64 \<Rightarrow> bytes" where
  "var_u64_bytes num = write_var_u64 [] num"

fun base128 :: "nat \<Rightarrow> bytes" where
  "base128 n = (if n < 128 then [of_nat n] else of_nat (n mod 128 + 128) # base128 (n div 128))"

declare base128.simps [simp del]

lemma var_u64_bytes_rec:
  "var_u64_bytes num =
     (if 0x80 \<le> num then (ucast num AND 0x7F OR 0x80) # var_u64_bytes (drop_bit 7 num)
      else [ucast (num AND 0x7F)])"
  unfolding var_u64_bytes_def
  by (subst write_var_u64.simps) (simp add: write_var_u64_append [of "[_]"])

lemma w7F: "(0x7F :: 'a::len word) = mask 7"
  by (simp add: mask_eq_exp_minus_1)

lemma bit_80_int: "bit (0x80 :: int) n \<longleftrightarrow> n = 7"
proof -
  have "(0x80 :: int) = push_bit 7 1" by simp
  then show ?thesis
    by (simp only: bit_push_bit_iff bit_1_iff) auto
qed

lemma cont_marked: "bit (x AND 0x7F OR 0x80 :: u8) 7"
  unfolding w7F by (simp add: bit_simps bit_80_int)

lemma cont_masked: "(x AND 0x7F OR 0x80 :: u8) AND 0x7F = x AND 0x7F"
  unfolding w7F by (rule bit_word_eqI) (auto simp: bit_simps bit_80_int)

lemma last_unmarked: "\<not> bit (ucast (num AND 0x7F) :: u8) 7" for num :: u64
  unfolding w7F by (simp add: bit_simps)


lemma small_masked: "num AND 0x7F = num" if "num < 0x80" for num :: u64
proof -
  have "num < 2 ^ 7" using that by simp
  then have "num AND mask 7 = num" by (rule less_mask_eq)
  then show ?thesis unfolding w7F .
qed

lemma group_shift:
  "push_bit s (num AND 0x7F) OR push_bit (s + 7) (drop_bit 7 num) = push_bit s num" for num :: u64
proof (rule bit_word_eqI)
  fix n assume "n < LENGTH(64)"
  show "bit (push_bit s (num AND 0x7F) OR push_bit (s + 7) (drop_bit 7 num)) n \<longleftrightarrow> bit (push_bit s num) n"
  proof (cases "n < s + 7")
    case True
    then show ?thesis unfolding w7F by (auto simp: bit_simps)
  next
    case False
    then have "7 + (n - (s + 7)) = n - s" by simp
    with False show ?thesis unfolding w7F by (auto simp: bit_simps)
  qed
qed

lemma ucast_group: "ucast (ucast num AND 0x7F :: u8) = num AND 0x7F" for num :: u64
  unfolding w7F by (rule bit_word_eqI) (auto simp: bit_simps)

lemma ucast_last: "ucast (ucast (num AND 0x7F) :: u8) = num AND 0x7F" for num :: u64
  unfolding w7F by (rule bit_word_eqI) (auto simp: bit_simps)

lemma ucast_last_masked: "ucast (num AND 0x7F) AND 0x7F = (ucast (num AND 0x7F) :: u8)" for num :: u64
  unfolding w7F by (rule bit_word_eqI) (auto simp: bit_simps)

text \<open>
  The bytes of \<open>num\<close> read back at shift \<open>s\<close>: seven bits per byte, at most ten bytes.
\<close>

lemma read_var_loop_bytes:
  assumes "unat num < 2 ^ (64 - s)" "s < 64" "var_u64_bytes num = b # bs"
  shows "read_var_loop k b (s + 7) (acc OR push_bit s (ucast (b AND 0x7F))) (bs @ tail)
    = Ok (tail, acc OR push_bit s num)"
  using assms
proof (induction num arbitrary: s acc b bs rule: measure_induct_rule [where f = unat])
  case (less num)
  show ?case
  proof (cases "0x80 \<le> num")
    case False
    with less.prems(3) have b: "b = ucast (num AND 0x7F)" "bs = []"
      by (auto simp: var_u64_bytes_rec [of num])
    have "\<not> bit b 7" using last_unmarked b by simp
    moreover have "num AND 0x7F = num" using False by (intro small_masked) simp
    ultimately show ?thesis
      using b ucast_last [of num] ucast_group [of num]
      by (simp add: read_var_loop.simps [of _ "ucast num"] cont_bit ucast_last_masked [of num, simplified])
  next
    case True
    let ?n = "drop_bit 7 num"
    from True less.prems(3) have b: "b = ucast num AND 0x7F OR 0x80" and bs: "bs = var_u64_bytes ?n"
      by (auto simp: var_u64_bytes_rec [of num])
    from True have ge: "128 \<le> unat num" by (simp add: word_le_nat_alt)
    have n: "unat ?n = unat num div 128" by (simp add: drop_bit_eq_div unat_div)
    have s: "7 < 64 - s"
    proof (rule ccontr)
      assume "\<not> 7 < 64 - s"
      then have "(2::nat) ^ (64 - s) \<le> 2 ^ 7" by (intro power_increasing) auto
      with less.prems(1) ge show False by simp
    qed
    have "unat num < 128 * 2 ^ (64 - (s + 7))"
    proof -
      have "64 - s = 7 + (64 - (s + 7))" using s by simp
      then have "(2::nat) ^ (64 - s) = 2 ^ 7 * 2 ^ (64 - (s + 7))" by (metis power_add)
      then show ?thesis using less.prems(1) by simp
    qed
    then have small: "unat ?n < 2 ^ (64 - (s + 7))" using n by (simp add: less_mult_imp_div_less mult.commute)
    obtain b' bs' where b': "var_u64_bytes ?n = b' # bs'"
      by (cases "var_u64_bytes ?n") (auto simp: var_u64_bytes_rec [of ?n] split: if_splits)
    have "read_var_loop k b' (s + 7 + 7)
        ((acc OR push_bit s (num AND 0x7F)) OR push_bit (s + 7) (ucast (b' AND 0x7F))) (bs' @ tail)
      = Ok (tail, (acc OR push_bit s (num AND 0x7F)) OR push_bit (s + 7) ?n)"
      using less.IH [of ?n "s + 7" b' bs' "acc OR push_bit s (num AND 0x7F)"] ge n s small b' by simp
    moreover have "read_var_loop k b (s + 7) acc' (bs @ tail)
      = read_var_loop k b' (s + 7 + 7) (acc' OR push_bit (s + 7) (ucast (b' AND 0x7F))) (bs' @ tail)"
      for acc'
    proof -
      have "bit b 7" unfolding b by (rule cont_marked)
      with bs b' s less.prems(2) show ?thesis
        by (subst read_var_loop.simps) (simp add: cont_bit wrapping_shl_def)
    qed
    moreover have "ucast (b AND 0x7F) = num AND 0x7F"
      unfolding b by (simp only: cont_masked ucast_group)
    ultimately show ?thesis
      by (simp only: group_shift [of s num, symmetric] or.assoc)
  qed
qed

lemma read_var_u64_bytes: "read_var_u64 (var_u64_bytes num @ tail) = Ok (tail, num)"
proof -
  obtain b bs where b: "var_u64_bytes num = b # bs"
    by (cases "var_u64_bytes num") (auto simp: var_u64_bytes_rec [of num] split: if_splits)
  have "unat num < 2 ^ (64 - 0)" using unat_u64_less [of num] by simp
  then show ?thesis
    using read_var_loop_bytes [of num 0 b bs _ 0 tail] b by (simp add: read_var_u64_def)
qed

lemma var_u64_bytes_not_Nil [simp]: "var_u64_bytes num \<noteq> []"
  by (simp add: var_u64_bytes_rec [of num])

lemma write_var_u64_eq: "write_var_u64 buffer num = buffer @ var_u64_bytes num"
  unfolding var_u64_bytes_def by (rule write_var_u64_append)

lemma group_arith: "(ucast num AND 0x7F OR 0x80 :: u8) = of_nat (unat num mod 128 + 128)" for num :: u64
proof -
  have "(ucast num AND 0x7F :: u8) AND 0x80 = 0"
    unfolding w7F by (rule bit_word_eqI) (auto simp: bit_simps bit_80_int)
  then have "(ucast num AND 0x7F OR 0x80 :: u8) = (ucast num AND 0x7F) + 0x80"
    by (simp add: disjunctive_add_eq_or)
  moreover have "(ucast num AND 0x7F :: u8) = of_nat (unat num mod 128)"
    unfolding w7F take_bit_eq_mask [symmetric] word_unat_eq_iff
    by (simp only: unsigned_take_bit_eq unsigned_ucast_eq)
      (simp add: unat_of_nat take_bit_eq_mod mod_mod_cancel)
  ultimately show ?thesis by simp
qed

lemma var_u64_bytes_base128: "var_u64_bytes num = base128 (unat num)"
proof (induction num rule: measure_induct_rule [where f = unat])
  case (less num)
  show ?case
  proof (cases "0x80 \<le> num")
    case True
    let ?n = "drop_bit 7 num"
    have n: "unat ?n = unat num div 128" by (simp add: drop_bit_eq_div unat_div)
    from True have ge: "128 \<le> unat num" by (simp add: word_le_nat_alt)
    have "(ucast num AND 0x7F OR 0x80 :: u8) = of_nat (unat num mod 128 + 128)"
      by (rule group_arith)
    with True ge n less.IH [of ?n] show ?thesis
      by (simp add: var_u64_bytes_rec [of num] base128.simps [of "unat num"])
  next
    case False
    then have "num AND 0x7F = num" by (intro small_masked) simp
    moreover from False have "unat num < 128" by (simp add: not_le word_less_nat_alt)
    ultimately show ?thesis using False
      by (simp add: var_u64_bytes_rec [of num] base128.simps [of "unat num"])
  qed
qed

lemma base128_length: "n < 128 ^ Suc k \<Longrightarrow> length (base128 n) \<le> Suc k"
proof (induction k arbitrary: n)
  case (Suc k)
  then have "n div 128 < 128 ^ Suc k"
    by (simp add: less_mult_imp_div_less mult.commute)
  with Suc.IH show ?case by (simp add: base128.simps [of n])
qed (simp add: base128.simps)

lemma var_u64_bytes_length: "length (var_u64_bytes num) \<le> 10"
  using base128_length [of "unat num" 9] unat_u64_less [of num] by (simp add: var_u64_bytes_base128)

text \<open>What a reader consumes, and when it fails.\<close>

lemma read_var_loop_Ok:
  "read_var_loop k b s num rest = Ok (tail, n) \<Longrightarrow> \<exists>pre. rest = pre @ tail"
proof (induction k b s num rest rule: read_var_loop.induct)
  case (1 k b s num rest)
  show ?case
  proof (cases "bit b 7")
    case False
    with "1.prems" show ?thesis by (simp add: read_var_loop.simps [of _ b] cont_bit)
  next
    case True
    with "1.prems" obtain b' rest' where r: "rest = b' # rest'" "s + 7 < 2 ^ 32"
      "read_var_loop k b' (s + 7) (num OR wrapping_shl (ucast (b' AND 0x7F)) s) rest' = Ok (tail, n)"
      by (auto simp: read_var_loop.simps [of _ b] cont_bit split: list.splits if_splits)
    with "1.IH" [of b' rest'] True obtain pre where "rest' = pre @ tail" by (auto simp: cont_bit)
    with r show ?thesis by (intro exI [of _ "b' # pre"]) simp
  qed
qed

lemma read_var_loop_fails:
  "s + 7 * length rest < 2 ^ 32 \<Longrightarrow>
   (\<exists>e. read_var_loop k b s num rest = Err e) \<longleftrightarrow> (\<forall>x \<in> set (b # rest). bit x 7)"
  "s + 7 * length rest < 2 ^ 32 \<Longrightarrow> read_var_loop k b s num rest \<noteq> Panic"
proof (induction k b s num rest rule: read_var_loop.induct)
  case (1 k b s num rest)
  {
    case 1
    show ?case using "1.IH"(1) 1
      by (cases rest) (auto simp: read_var_loop.simps [of _ b] cont_bit)
  next
    case 2
    show ?case using "1.IH"(2) 2
      by (cases rest) (auto simp: read_var_loop.simps [of _ b] cont_bit)
  }
qed

lemma read_var_u64_consumes:
  "read_var_u64 input = Ok (tail, n) \<Longrightarrow> \<exists>pre. pre \<noteq> [] \<and> input = pre @ tail"
proof -
  assume a: "read_var_u64 input = Ok (tail, n)"
  then obtain b rest where b: "input = b # rest" by (auto simp: read_var_u64_def split: list.splits)
  with a obtain pre where "rest = pre @ tail"
    by (auto simp: read_var_u64_def dest: read_var_loop_Ok)
  with b show ?thesis by (intro exI [of _ "b # pre"]) simp
qed

section \<open>The signed form\<close>

lemma write_var_i32_loop_acc: "write_var_i32_loop (a @ buffer) n = a @ write_var_i32_loop buffer n"
proof (induction buffer n rule: write_var_i32_loop.induct)
  case (1 buffer n)
  then show ?case
    by (cases "0 < n") (simp_all add: write_var_i32_loop.simps [of _ n])
qed

lemma uint_small: "0 \<le> n \<Longrightarrow> n < 2 ^ 63 \<Longrightarrow> uint (word_of_int n :: u64) = n"
  by (simp add: uint_word_of_int_eq take_bit_int_eq_self)

lemma drop_bit_small:
  assumes "0 \<le> n" "n < 2 ^ 63"
  shows "drop_bit k (word_of_int n :: u64) = word_of_int (n div 2 ^ k)"
proof -
  have "n div 2 ^ k \<le> n" using assms by (cases "n = 0") (auto intro: int_div_le_self)
  then have "uint (word_of_int (n div 2 ^ k) :: u64) = n div 2 ^ k"
    using assms by (intro uint_small) (auto simp: pos_imp_zdiv_nonneg_iff)
  moreover have "take_bit LENGTH(64) n = n" using assms by (simp add: take_bit_int_eq_self)
  then have "uint (drop_bit k (word_of_int n :: u64)) = n div 2 ^ k"
    unfolding unsigned_drop_bit_eq uint_small [OF assms] by (simp only: drop_bit_eq_div)
  ultimately show ?thesis
    by (simp only: word_uint_eq_iff)
qed

lemma marked_small: "0 \<le> n \<Longrightarrow> n < 2 ^ 63 \<Longrightarrow> 0x80 \<le> (word_of_int n :: u64) \<longleftrightarrow> 0x7F < n"
  using uint_small [of n] by (auto simp: word_le_def)

lemma write_var_i32_loop_bytes:
  "0 < n \<Longrightarrow> n < 2 ^ 63 \<Longrightarrow> write_var_i32_loop buffer n = buffer @ var_u64_bytes (word_of_int n)"
proof (induction buffer n rule: write_var_i32_loop.induct)
  case (1 buffer n)
  have marked: "(0x80 :: u8) OR (word_of_int n AND 0x7F) = ucast (word_of_int n :: u64) AND 0x7F OR 0x80"
    unfolding w7F by (rule bit_word_eqI) (auto simp: bit_simps bit_80_int)
  have plain: "(word_of_int n AND 0x7F :: u8) = ucast ((word_of_int n :: u64) AND 0x7F)"
    unfolding w7F by (rule bit_word_eqI) (auto simp: bit_simps)
  show ?case
  proof (cases "0x7F < n")
    case True
    then have "0 < n div 2 ^ 7" "n div 2 ^ 7 < 2 ^ 63"
      using "1.prems" by (auto simp: pos_imp_zdiv_pos_iff)
    then show ?thesis
      using "1.IH" "1.prems" True marked drop_bit_small [of n 7] marked_small [of n]
      by (simp add: write_var_i32_loop.simps [of _ n] var_u64_bytes_rec [of "word_of_int n"])
  next
    case False
    then have "n div 2 ^ 7 = 0" using "1.prems" by simp
    then show ?thesis
      using "1.prems" False plain marked_small [of n]
      by (simp add: write_var_i32_loop.simps [of _ n] write_var_i32_loop.simps [of _ 0]
          var_u64_bytes_rec [of "word_of_int n"])
  qed
qed

text \<open>The first byte: the continuation bit, the sign bit and six bits of the magnitude.\<close>

definition i32_head :: "int \<Rightarrow> bool \<Rightarrow> u8" where
  "i32_head m neg = (if 0x3F < m then 0x80 else 0) OR (if neg then 0x40 else 0)
     OR (word_of_int m AND 0x3F)"

lemma w3F: "(0x3F :: 'a::len word) = mask 6"
  by (simp add: mask_eq_exp_minus_1)

lemma bit_40_int: "bit (0x40 :: int) n \<longleftrightarrow> n = 6"
proof -
  have "(0x40 :: int) = push_bit 6 1" by simp
  then show ?thesis by (simp only: bit_push_bit_iff bit_1_iff) auto
qed

lemma i32_head:
  "bit (i32_head m neg) 7 = (0x3F < m)"
  "drop_bit 6 (i32_head m neg) AND 1 = (if neg then 1 else 0)"
  "(ucast (i32_head m neg AND 0x3F) :: u64) = word_of_int m AND 0x3F"
proof -
  show "bit (i32_head m neg) 7 = (0x3F < m)"
    unfolding i32_head_def w3F by (simp add: bit_simps bit_80_int bit_40_int)
  show "drop_bit 6 (i32_head m neg) AND 1 = (if neg then 1 else 0)"
    unfolding i32_head_def w3F by (rule bit_word_eqI) (auto simp: bit_simps bit_80_int bit_40_int)
  show "(ucast (i32_head m neg AND 0x3F) :: u64) = word_of_int m AND 0x3F"
    unfolding i32_head_def w3F by (rule bit_word_eqI) (auto simp: bit_simps bit_80_int bit_40_int)
qed

lemma low_high_small:
  assumes "0 \<le> n" "n < 2 ^ 63"
  shows "(word_of_int n AND 0x3F :: u64) OR push_bit 6 (word_of_int (n div 2 ^ 6)) = word_of_int n"
  unfolding w3F drop_bit_small [OF assms, of 6, symmetric]
  by (rule bit_word_eqI) (auto simp: bit_simps)

definition var_i32_bytes :: "i32 \<Rightarrow> bytes" where
  "var_i32_bytes n = write_var_i32 [] n"

lemma read_magnitude:
  assumes "0 \<le> m" "m < 2 ^ 63"
  shows "read_var_loop k (i32_head m neg) 6 (word_of_int m AND 0x3F)
     (write_var_i32_loop [] (m div 2 ^ 6) @ tail) = Ok (tail, word_of_int m)"
proof (cases "0x3F < m")
  case False
  then have m: "m div 2 ^ 6 = 0" using assms by simp
  moreover have "(word_of_int m AND 0x3F :: u64) = word_of_int m"
    using low_high_small [OF assms] m by simp
  ultimately show ?thesis using False
    by (simp add: read_var_loop.simps [of _ "i32_head m neg"] cont_bit i32_head
        write_var_i32_loop.simps [of _ 0])
next
  case True
  let ?m = "m div 2 ^ 6"
  have m: "0 < ?m" "?m < 2 ^ 58" using True assms by (auto simp: pos_imp_zdiv_pos_iff)
  obtain b bs where b: "var_u64_bytes (word_of_int ?m) = b # bs"
    by (cases "var_u64_bytes (word_of_int ?m)") auto
  have "uint (word_of_int ?m :: u64) = ?m" using m by (intro uint_small) auto
  with m have "unat (word_of_int ?m :: u64) < 2 ^ (64 - 6)"
    by (simp add: unat_eq_nat_uint nat_less_iff)
  from read_var_loop_bytes [OF this _ b, of k "word_of_int m AND 0x3F" tail] b True m
  show ?thesis
    using low_high_small [OF assms]
    by (simp add: read_var_loop.simps [of _ "i32_head m neg"] cont_bit i32_head
        write_var_i32_loop_bytes wrapping_shl_def)
qed

lemma write_var_i32_eq: "write_var_i32 buffer n = buffer @ var_i32_bytes n"
  by (simp add: write_var_i32_def var_i32_bytes_def Let_def write_var_i32_loop_acc)

lemma ucast_sint: "ucast (word_of_int (sint n) :: u64) = n" for n :: i32
  by (rule bit_word_eqI) (auto simp: bit_simps)

lemma read_var_i32_bytes: "read_var_i32 (var_i32_bytes n @ tail) = Ok (tail, n)"
proof -
  let ?neg = "sint n < 0"
  define m where "m = (if ?neg then - sint n else sint n)"
  have m: "0 \<le> m" "m \<le> 2 ^ 31" using sint_lt [of n] sint_ge [of n] by (auto simp: m_def)
  have bytes: "var_i32_bytes n = i32_head m ?neg # write_var_i32_loop [] (m div 2 ^ 6)"
    using write_var_i32_loop_acc [of "[i32_head m ?neg]" "[]" "m div 2 ^ 6"]
    by (simp add: var_i32_bytes_def write_var_i32_def Let_def m_def i32_head_def)
  have "uint (word_of_int m :: u64) = m" using m by (intro uint_small) auto
  then have "(word_of_int m :: u64) \<noteq> 0x8000000000000000"
    using m by (auto simp: word_uint_eq_iff)
  moreover have "ucast (if ?neg then - word_of_int m else word_of_int m :: u64) = n"
    using ucast_sint [of n] by (simp add: m_def wi_hom_neg)
  moreover note read_magnitude [of m _ ?neg tail] m
  ultimately show ?thesis
    by (auto simp: read_var_i32_def bytes i32_head Let_def split: if_splits)
qed

lemma read_var_i32_consumes:
  assumes "read_var_i32 input = Ok (tail, n)"
  shows "\<exists>pre. pre \<noteq> [] \<and> input = pre @ tail"
proof -
  obtain b rest where b: "input = b # rest"
    using assms by (auto simp: read_var_i32_def split: list.splits)
  with assms obtain x where "read_var_loop (length input) b 6 (ucast (b AND 0x3F)) rest = Ok (tail, x)"
    by (auto simp: read_var_i32_def Let_def outcome_simps split: if_splits)
  then obtain pre where "rest = pre @ tail" by (auto dest: read_var_loop_Ok)
  with b show ?thesis by (intro exI [of _ "b # pre"]) simp
qed

end
