(* ===== verification/Codec_IO.thy ===== *)
theory Codec_IO
  imports Var_Int
begin

text \<open>
  Byte buffers, strings and the raw encoder and decoder of \<open>libs/jwst-codec/src/codec/buffer.rs\<close>,
  \<open>codec/string.rs\<close> and \<open>doc/codec/io/\<close>.  A decoder is a cursor over the input; an encoder
  is the vector written so far.  The identifiers of items and the loops over counted sequences
  are at the end.
\<close>

section \<open>Buffers\<close>

text \<open>\<open>nom\<close>'s \<open>complete::take\<close>: the first \<open>n\<close> bytes, or \<open>Eof\<close>.\<close>

definition nom_take :: "nat \<Rightarrow> bytes \<Rightarrow> bytes iresult" where
  "nom_take n input =
     (if n \<le> length input then Ok (drop n input, take n input) else Err (NomError input Eof))"

definition read_var_buffer :: "bytes \<Rightarrow> bytes iresult" where
  "read_var_buffer input =
     rbind (read_var_u64 input) (\<lambda>(tail, len). nom_take (unat len) tail)"

definition write_var_buffer :: "bytes \<Rightarrow> bytes \<Rightarrow> bytes" where
  "write_var_buffer buffer data = write_var_u64 buffer (of_nat (length data)) @ data"

section \<open>Strings\<close>

text \<open>
  UTF-8 as the standard library checks it: one character is its code point and its width, with
  overlong forms, surrogates and code points above \<open>0x10FFFF\<close> refused.
\<close>

definition utf8_cont :: "u8 \<Rightarrow> bool" where
  "utf8_cont b \<longleftrightarrow> 0x80 \<le> b \<and> b \<le> 0xBF"

definition low6 :: "u8 \<Rightarrow> nat" where
  "low6 b = unat b mod 64"

definition utf8_char :: "bytes \<Rightarrow> (nat \<times> nat) option" where
  "utf8_char bs =
     (case bs of
        [] \<Rightarrow> None
      | b0 # r0 \<Rightarrow>
          if b0 < 0x80 then Some (unat b0, 1)
          else (case r0 of
              [] \<Rightarrow> None
            | b1 # r1 \<Rightarrow>
                if 0xC2 \<le> b0 \<and> b0 \<le> 0xDF then
                  (if utf8_cont b1 then Some (unat b0 mod 32 * 64 + low6 b1, 2) else None)
                else (case r1 of
                    [] \<Rightarrow> None
                  | b2 # r2 \<Rightarrow>
                      if 0xE0 \<le> b0 \<and> b0 \<le> 0xEF then
                        (if utf8_cont b1 \<and> utf8_cont b2 \<and> (b0 = 0xE0 \<longrightarrow> 0xA0 \<le> b1)
                            \<and> (b0 = 0xED \<longrightarrow> b1 \<le> 0x9F)
                         then Some (unat b0 mod 16 * 4096 + low6 b1 * 64 + low6 b2, 3) else None)
                      else (case r2 of
                          [] \<Rightarrow> None
                        | b3 # r3 \<Rightarrow>
                            if 0xF0 \<le> b0 \<and> b0 \<le> 0xF4 \<and> utf8_cont b1 \<and> utf8_cont b2
                              \<and> utf8_cont b3 \<and> (b0 = 0xF0 \<longrightarrow> 0x90 \<le> b1) \<and> (b0 = 0xF4 \<longrightarrow> b1 \<le> 0x8F)
                            then Some (unat b0 mod 8 * 262144 + low6 b1 * 4096 + low6 b2 * 64
                                         + low6 b3, 4)
                            else None))))"

lemma utf8_char_width: "utf8_char bs = Some (c, w) \<Longrightarrow> 0 < w \<and> w \<le> length bs"
  by (auto simp: utf8_char_def split: list.splits if_splits)

text \<open>\<open>chars()\<close>: the code points with their UTF-8 widths; \<open>None\<close> where the bytes are no string.\<close>

function utf8_chars :: "bytes \<Rightarrow> (nat \<times> nat) list option" where
  "utf8_chars bs =
     (if bs = [] then Some []
      else (case utf8_char bs of
              None \<Rightarrow> None
            | Some (c, w) \<Rightarrow> map_option ((#) (c, w)) (utf8_chars (drop w bs))))"
  by pat_completeness auto
termination
  by (relation "measure length") (auto dest: utf8_char_width)

declare utf8_chars.simps [simp del]

definition utf8_valid :: "bytes \<Rightarrow> bool" where
  "utf8_valid bs \<longleftrightarrow> utf8_chars bs \<noteq> None"

definition read_var_string :: "bytes \<Rightarrow> bytes iresult" where
  "read_var_string input =
     rbind (read_var_buffer input)
       (\<lambda>(tail, s). if utf8_valid s then Ok (tail, s) else Err (NomError input MapRes))"

definition write_var_string :: "bytes \<Rightarrow> bytes \<Rightarrow> bytes" where
  "write_var_string buffer input = write_var_buffer buffer input"

section \<open>The raw decoder\<close>

record raw_decoder =
  dec_buffer :: bytes
  dec_pos :: nat

definition new_decoder :: "bytes \<Rightarrow> raw_decoder" where
  "new_decoder buffer = \<lparr>dec_buffer = buffer, dec_pos = 0\<rparr>"

type_synonym 'a reader = "raw_decoder \<Rightarrow> (codec_error, 'a \<times> raw_decoder) result"

fun map_nom_err :: "('i \<Rightarrow> 'j) \<Rightarrow> 'i nom_err \<Rightarrow> 'j nom_err" where
  "map_nom_err f (Incomplete n) = Incomplete n"
| "map_nom_err f (NomError i k) = NomError (f i) k"
| "map_nom_err f (NomFailure i k) = NomFailure (f i) k"

definition read_with_cursor :: "(bytes \<Rightarrow> 'a iresult) \<Rightarrow> 'a reader" where
  "read_with_cursor f d =
     (let rest_pos = min (dec_pos d) (length (dec_buffer d));
          input = drop rest_pos (dec_buffer d)
      in rbind (map_err (\<lambda>e. UpdateInvalid (map_nom_err length e)) (f input))
           (\<lambda>(tail, r). Ok (r, d\<lparr>dec_pos := rest_pos + length input - length tail\<rparr>)))"

definition rest_ref :: "raw_decoder \<Rightarrow> bytes" where
  "rest_ref d = drop (min (dec_pos d) (length (dec_buffer d))) (dec_buffer d)"

definition drain :: "raw_decoder \<Rightarrow> (codec_error, bytes) result" where
  "drain d = (if dec_pos d = 0 then Ok (dec_buffer d)
              else if dec_pos d \<le> length (dec_buffer d) then Ok (drop (dec_pos d) (dec_buffer d))
              else Panic)"

definition decoder_is_empty :: "raw_decoder \<Rightarrow> bool" where
  "decoder_is_empty d \<longleftrightarrow> length (dec_buffer d) \<le> dec_pos d"

definition decoder_len :: "raw_decoder \<Rightarrow> (codec_error, nat) result" where
  "decoder_len d = (if dec_pos d \<le> length (dec_buffer d)
                    then Ok (length (dec_buffer d) - dec_pos d) else Panic)"

definition dec_read_var_u64 :: "u64 reader" where
  "dec_read_var_u64 = read_with_cursor read_var_u64"

definition dec_read_var_i32 :: "i32 reader" where
  "dec_read_var_i32 = read_with_cursor read_var_i32"

definition dec_read_var_string :: "bytes reader" where
  "dec_read_var_string = read_with_cursor read_var_string"

definition dec_read_var_buffer :: "bytes reader" where
  "dec_read_var_buffer = read_with_cursor read_var_buffer"

text \<open>\<open>Cursor::read_exact\<close> of \<open>n\<close> bytes, and the fixed-width big-endian numbers.\<close>

definition read_exact :: "nat \<Rightarrow> bytes reader" where
  "read_exact n d =
     (if n \<le> length (rest_ref d)
      then Ok (take n (rest_ref d), d\<lparr>dec_pos := dec_pos d + n\<rparr>)
      else Err (IncompleteDocument ReadError))"

definition dec_read_u8 :: "u8 reader" where
  "dec_read_u8 d = rbind (read_exact 1 d) (\<lambda>(bs, d'). Ok (hd bs, d'))"

definition be_val :: "bytes \<Rightarrow> nat" where
  "be_val bs = foldl (\<lambda>n b. n * 256 + unat b) 0 bs"

text \<open>A float is its IEEE bit pattern.\<close>

definition dec_read_f32_be :: "u32 reader" where
  "dec_read_f32_be d = rbind (read_exact 4 d) (\<lambda>(bs, d'). Ok (of_nat (be_val bs), d'))"

definition dec_read_f64_be :: "u64 reader" where
  "dec_read_f64_be d = rbind (read_exact 8 d) (\<lambda>(bs, d'). Ok (of_nat (be_val bs), d'))"

definition dec_read_i64_be :: "i64 reader" where
  "dec_read_i64_be d = rbind (read_exact 8 d) (\<lambda>(bs, d'). Ok (of_nat (be_val bs), d'))"

section \<open>The raw encoder\<close>

record raw_encoder =
  enc_buffer :: bytes

type_synonym 'a writer = "raw_encoder \<Rightarrow> 'a \<Rightarrow> (codec_error, raw_encoder) result"

definition new_encoder :: raw_encoder where
  "new_encoder = \<lparr>enc_buffer = []\<rparr>"

definition enc_write_var_u64 :: "u64 writer" where
  "enc_write_var_u64 e num = Ok (e\<lparr>enc_buffer := write_var_u64 (enc_buffer e) num\<rparr>)"

definition enc_write_var_i32 :: "i32 writer" where
  "enc_write_var_i32 e num = Ok (e\<lparr>enc_buffer := write_var_i32 (enc_buffer e) num\<rparr>)"

definition enc_write_var_string :: "bytes writer" where
  "enc_write_var_string e s = Ok (e\<lparr>enc_buffer := write_var_string (enc_buffer e) s\<rparr>)"

definition enc_write_var_buffer :: "bytes writer" where
  "enc_write_var_buffer e buf = Ok (e\<lparr>enc_buffer := write_var_buffer (enc_buffer e) buf\<rparr>)"

definition enc_write_u8 :: "u8 writer" where
  "enc_write_u8 e num = Ok (e\<lparr>enc_buffer := enc_buffer e @ [num]\<rparr>)"

definition be_bytes :: "nat \<Rightarrow> nat \<Rightarrow> bytes" where
  "be_bytes k n = map (\<lambda>i. of_nat (n div 256 ^ i)) (rev [0..<k])"

definition enc_write_f32_be :: "u32 writer" where
  "enc_write_f32_be e num = Ok (e\<lparr>enc_buffer := enc_buffer e @ be_bytes 4 (unat num)\<rparr>)"

definition enc_write_f64_be :: "u64 writer" where
  "enc_write_f64_be e num = Ok (e\<lparr>enc_buffer := enc_buffer e @ be_bytes 8 (unat num)\<rparr>)"

definition enc_write_i64_be :: "i64 writer" where
  "enc_write_i64_be e num = Ok (e\<lparr>enc_buffer := enc_buffer e @ be_bytes 8 (unat num)\<rparr>)"

section \<open>Item identifiers\<close>

type_synonym client = u64
type_synonym clock = u64

record id =
  id_client :: client
  id_clock :: clock

definition new_id :: "client \<Rightarrow> clock \<Rightarrow> id" where
  "new_id client clock = \<lparr>id_client = client, id_clock = clock\<rparr>"

definition id_sub :: "id \<Rightarrow> clock \<Rightarrow> ('e, id) result" where
  "id_sub i rhs = rbind (sub_u64 (id_clock i) rhs) (\<lambda>c. Ok (new_id (id_client i) c))"

definition id_add :: "id \<Rightarrow> clock \<Rightarrow> ('e, id) result" where
  "id_add i rhs = rbind (add_u64 (id_clock i) rhs) (\<lambda>c. Ok (new_id (id_client i) c))"

definition dec_read_info :: "u8 reader" where
  "dec_read_info = dec_read_u8"

definition dec_read_item_id :: "id reader" where
  "dec_read_item_id d =
     rbind (dec_read_var_u64 d) (\<lambda>(client, d).
     rbind (dec_read_var_u64 d) (\<lambda>(clock, d).
     Ok (new_id client clock, d)))"

definition enc_write_info :: "u8 writer" where
  "enc_write_info = enc_write_u8"

definition enc_write_item_id :: "id writer" where
  "enc_write_item_id e i =
     rbind (enc_write_var_u64 e (id_client i)) (\<lambda>e. enc_write_var_u64 e (id_clock i))"

section \<open>Loops over counted sequences\<close>

text \<open>\<open>for _ in 0..n\<close> around a reader, and \<open>for x in xs\<close> around a writer; both stop at an error.\<close>

fun read_times :: "'a reader \<Rightarrow> nat \<Rightarrow> 'a list reader" where
  "read_times rd 0 d = Ok ([], d)"
| "read_times rd (Suc n) d =
     rbind (rd d) (\<lambda>(x, d). rbind (read_times rd n d) (\<lambda>(xs, d). Ok (x # xs, d)))"

fun write_each :: "'a writer \<Rightarrow> 'a list writer" where
  "write_each wr e [] = Ok e"
| "write_each wr e (x # xs) = rbind (wr e x) (\<lambda>e. write_each wr e xs)"

end
