(* ===== verification/Codec_Interface.thy ===== *)
theory Codec_Interface
  imports Codec_IO
begin

text \<open>
  The interface between the raw encoder and decoder and the codecs of the document types.
  \<open>decodes rd bs x\<close> says that the reader takes exactly the bytes \<open>bs\<close>, wherever they stand in the
  input and whatever follows, and gives \<open>x\<close>; \<open>appends wr x bs\<close> that the writer succeeds and adds
  \<open>bs\<close> to the end of the output.  The locales \<open>reader\<close> and \<open>codec\<close> state what a document codec may
  rely on; they are interpreted for every primitive of the raw encoder and decoder.
\<close>

named_theorems decode_intros \<open>composition rules for the bytes a reader takes\<close>
named_theorems advance_intros \<open>composition rules for the progress of a reader\<close>

section \<open>The bytes a reader takes\<close>

definition decodes :: "'a reader \<Rightarrow> bytes \<Rightarrow> 'a \<Rightarrow> bool" where
  "decodes rd bs x \<longleftrightarrow>
     (\<forall>pre rest. rd \<lparr>dec_buffer = pre @ bs @ rest, dec_pos = length pre\<rparr>
        = Ok (x, \<lparr>dec_buffer = pre @ bs @ rest, dec_pos = length pre + length bs\<rparr>))"

definition appends :: "'a writer \<Rightarrow> 'a \<Rightarrow> bytes \<Rightarrow> bool" where
  "appends wr x bs \<longleftrightarrow> (\<forall>e. wr e x = Ok (e\<lparr>enc_buffer := enc_buffer e @ bs\<rparr>))"

lemma decodesD:
  "decodes rd bs x \<Longrightarrow> rd \<lparr>dec_buffer = pre @ bs @ rest, dec_pos = length pre\<rparr>
     = Ok (x, \<lparr>dec_buffer = pre @ bs @ rest, dec_pos = length pre + length bs\<rparr>)"
  by (simp add: decodes_def)

lemma decodes_fresh:
  "decodes rd bs x \<Longrightarrow> rd (new_decoder (bs @ rest)) = Ok (x, \<lparr>dec_buffer = bs @ rest, dec_pos = length bs\<rparr>)"
  using decodesD [of rd bs x "[]" rest] by (simp add: new_decoder_def)

lemma decodes_unique: "decodes rd bs x \<Longrightarrow> decodes rd bs y \<Longrightarrow> x = y"
  by (fastforce dest: decodes_fresh [of _ _ _ "[]"])

lemma decodes_return [decode_intros]: "decodes (\<lambda>d. Ok (x, d)) [] x"
  by (simp add: decodes_def)

lemma decodes_bind [decode_intros]:
  assumes "decodes rd as x" "decodes (f x) bs y"
  shows "decodes (\<lambda>d. rbind (rd d) (\<lambda>(x, d). f x d)) (as @ bs) y"
  unfolding decodes_def
proof (intro allI)
  fix pre rest
  have "rd \<lparr>dec_buffer = pre @ (as @ bs) @ rest, dec_pos = length pre\<rparr>
      = Ok (x, \<lparr>dec_buffer = (pre @ as) @ bs @ rest, dec_pos = length (pre @ as)\<rparr>)"
    using decodesD [OF assms(1), of pre "bs @ rest"] by simp
  moreover have "f x \<lparr>dec_buffer = (pre @ as) @ bs @ rest, dec_pos = length (pre @ as)\<rparr>
      = Ok (y, \<lparr>dec_buffer = (pre @ as) @ bs @ rest, dec_pos = length (pre @ as) + length bs\<rparr>)"
    using assms(2) by (rule decodesD)
  ultimately show "rbind (rd \<lparr>dec_buffer = pre @ (as @ bs) @ rest, dec_pos = length pre\<rparr>) (\<lambda>(x, d). f x d)
      = Ok (y, \<lparr>dec_buffer = pre @ (as @ bs) @ rest, dec_pos = length pre + length (as @ bs)\<rparr>)"
    by (simp add: add.assoc)
qed

lemma decodes_map:
  assumes "decodes rd bs x"
  shows "decodes (\<lambda>d. rbind (rd d) (\<lambda>(x, d). Ok (g x, d))) bs (g x)"
  using decodes_bind [where f = "\<lambda>x d. Ok (g x, d)", OF assms decodes_return] by simp

lemma decodes_times [decode_intros]:
  "(\<And>x. x \<in> set xs \<Longrightarrow> decodes rd (enc x) x) \<Longrightarrow>
   decodes (read_times rd (length xs)) (concat (map enc xs)) xs"
proof (induction xs)
  case Nil
  show ?case by (simp add: decodes_def)
next
  case (Cons x xs)
  have "decodes (\<lambda>d. rbind (rd d) (\<lambda>(x, d). rbind (read_times rd (length xs) d) (\<lambda>(xs, d). Ok (x # xs, d))))
      (enc x @ concat (map enc xs)) (x # xs)"
    using Cons by (intro decodes_bind [where x = x] decodes_map) simp_all
  moreover have "read_times rd (length (x # xs))
      = (\<lambda>d. rbind (rd d) (\<lambda>(x, d). rbind (read_times rd (length xs) d) (\<lambda>(xs, d). Ok (x # xs, d))))"
    by (rule ext) simp
  ultimately show ?case by simp
qed

lemma appendsD: "appends wr x bs \<Longrightarrow> wr e x = Ok (e\<lparr>enc_buffer := enc_buffer e @ bs\<rparr>)"
  by (simp add: appends_def)

lemma write_each_appends:
  "(\<And>x. x \<in> set xs \<Longrightarrow> appends wr x (enc x)) \<Longrightarrow>
   appends (write_each wr) xs (concat (map enc xs))"
proof (induction xs)
  case (Cons x xs)
  then have "appends wr x (enc x)" "appends (write_each wr) xs (concat (map enc xs))" by auto
  then show ?case by (simp add: appends_def)
qed (simp add: appends_def)

section \<open>Progress\<close>

text \<open>
  A reader leaves the buffer alone and, when it succeeds, has moved forward by at least \<open>k\<close> bytes
  and not past the end.
\<close>

definition advances :: "nat \<Rightarrow> 'a reader \<Rightarrow> bool" where
  "advances k rd \<longleftrightarrow>
     (\<forall>d x d'. rd d = Ok (x, d') \<and> dec_pos d \<le> length (dec_buffer d) \<longrightarrow>
        dec_buffer d' = dec_buffer d \<and> dec_pos d + k \<le> dec_pos d' \<and> dec_pos d' \<le> length (dec_buffer d'))"

lemma advancesD:
  assumes "advances k rd" "rd d = Ok (x, d')" "dec_pos d \<le> length (dec_buffer d)"
  shows "dec_buffer d' = dec_buffer d" "dec_pos d + k \<le> dec_pos d'" "dec_pos d' \<le> length (dec_buffer d')"
  using assms unfolding advances_def by blast+

lemma advances_mono:
  assumes "advances k rd" "j \<le> k"
  shows "advances j rd"
  unfolding advances_def
proof (intro allI impI, elim conjE)
  fix d x d'
  assume "rd d = Ok (x, d')" "dec_pos d \<le> length (dec_buffer d)"
  from advancesD [OF assms(1) this] assms(2)
  show "dec_buffer d' = dec_buffer d \<and> dec_pos d + j \<le> dec_pos d' \<and> dec_pos d' \<le> length (dec_buffer d')"
    by simp
qed

lemma advances_return [advance_intros]: "advances 0 (\<lambda>d. Ok (x, d))"
  by (simp add: advances_def)

lemma advances_fail [advance_intros]: "advances k (\<lambda>d. Err e)" "advances k (\<lambda>d. Panic)"
  by (simp_all add: advances_def)

lemma advances_bind [advance_intros]:
  assumes "advances k rd" "\<And>x. advances 0 (f x)"
  shows "advances k (\<lambda>d. rbind (rd d) (\<lambda>(x, d). f x d))"
  unfolding advances_def
proof (intro allI impI, elim conjE)
  fix d y d'
  assume r: "rbind (rd d) (\<lambda>(x, d). f x d) = Ok (y, d')" and p: "dec_pos d \<le> length (dec_buffer d)"
  then obtain x d1 where d1: "rd d = Ok (x, d1)" "f x d1 = Ok (y, d')" by (auto simp: outcome_simps)
  note a = advancesD [OF assms(1) d1(1) p]
  note b = advancesD [OF assms(2) d1(2) a(3)]
  from a b show "dec_buffer d' = dec_buffer d \<and> dec_pos d + k \<le> dec_pos d' \<and> dec_pos d' \<le> length (dec_buffer d')"
    by auto
qed

lemma advances_let [advance_intros]: "(\<And>x. advances k (f x)) \<Longrightarrow> advances k (\<lambda>d. let x = v in f x d)"
  by simp

lemma advances_if [advance_intros]:
  "(b \<Longrightarrow> advances k f) \<Longrightarrow> (\<not> b \<Longrightarrow> advances k g) \<Longrightarrow> advances k (\<lambda>d. if b then f d else g d)"
  by (cases b) auto

lemma advances_case_option [advance_intros]:
  "(x = None \<Longrightarrow> advances k f) \<Longrightarrow> (\<And>y. x = Some y \<Longrightarrow> advances k (g y)) \<Longrightarrow>
   advances k (\<lambda>d. case x of None \<Rightarrow> f d | Some y \<Rightarrow> g y d)"
  by (cases x) auto

lemma advances_times [advance_intros]:
  assumes "advances k rd"
  shows "advances 0 (read_times rd n)"
proof (induction n)
  case 0
  show ?case by (simp add: advances_def)
next
  case (Suc n)
  have "advances 0 (\<lambda>d. rbind (rd d) (\<lambda>(x, d). rbind (read_times rd n d) (\<lambda>(xs, d). Ok (x # xs, d))))"
    by (intro advances_bind advances_return Suc advances_mono [OF assms]) simp_all
  moreover have "read_times rd (Suc n)
      = (\<lambda>d. rbind (rd d) (\<lambda>(x, d). rbind (read_times rd n d) (\<lambda>(xs, d). Ok (x # xs, d))))"
    by (rule ext) simp
  ultimately show ?case by simp
qed

text \<open>A loop over a reader that consumes at least one byte cannot read more elements than bytes.\<close>

lemma read_times_bound:
  assumes "advances (Suc k) rd" "read_times rd n d = Ok (xs, d')" "dec_pos d \<le> length (dec_buffer d)"
  shows "length xs = n \<and> dec_pos d + n \<le> dec_pos d' \<and> dec_pos d' \<le> length (dec_buffer d)"
  using assms(2,3)
proof (induction n arbitrary: d xs)
  case (Suc n)
  then obtain x d1 ys where r: "rd d = Ok (x, d1)" "read_times rd n d1 = Ok (ys, d')" "xs = x # ys"
    by (auto simp: outcome_simps)
  note a = advancesD [OF assms(1) r(1) Suc.prems(2)]
  from Suc.IH [OF r(2)] a r(3) show ?case by auto
qed simp

section \<open>The interface\<close>

locale reader =
  fixes rd :: "'a reader" and width :: nat
  assumes progress: "advances width rd"
begin

lemma stays_inside:
  "rd d = Ok (x, d') \<Longrightarrow> dec_pos d \<le> length (dec_buffer d) \<Longrightarrow>
   dec_buffer d' = dec_buffer d \<and> dec_pos d' \<le> length (dec_buffer d)"
  using advancesD [OF progress] by metis

lemma nothing_from_empty:
  "0 < width \<Longrightarrow> dec_pos d = length (dec_buffer d) \<Longrightarrow> rd d \<noteq> Ok (x, d')"
  using advancesD [OF progress, of d x d'] by auto

lemma times_progress: "advances 0 (read_times rd n)"
  by (rule advances_times [OF progress])

end

locale codec = reader rd width
  for rd :: "'a reader" and width :: nat +
  fixes wr :: "'a writer" and enc :: "'a \<Rightarrow> bytes" and wf :: "'a \<Rightarrow> bool"
  assumes rd_enc: "wf x \<Longrightarrow> decodes rd (enc x) x"
    and wr_enc: "wf x \<Longrightarrow> appends wr x (enc x)"
begin

lemma roundtrip:
  assumes "wf x"
  shows "rbind (wr new_encoder x) (\<lambda>e. rd (new_decoder (enc_buffer e @ rest)))
    = Ok (x, \<lparr>dec_buffer = enc x @ rest, dec_pos = length (enc x)\<rparr>)"
  using appendsD [OF wr_enc [OF assms], of new_encoder] decodes_fresh [OF rd_enc [OF assms], of rest]
  by (simp add: new_encoder_def)

lemma enc_width: "wf x \<Longrightarrow> width \<le> length (enc x)"
  using advancesD(2) [OF progress decodes_fresh [OF rd_enc, of x "[]"]] by (simp add: new_decoder_def)

lemma enc_inject: "wf x \<Longrightarrow> wf y \<Longrightarrow> enc x = enc y \<Longrightarrow> x = y"
  using rd_enc decodes_unique by metis

lemma many_rd: "(\<And>x. x \<in> set xs \<Longrightarrow> wf x) \<Longrightarrow> decodes (read_times rd (length xs)) (concat (map enc xs)) xs"
  by (intro decodes_times rd_enc)

lemma many_wr: "(\<And>x. x \<in> set xs \<Longrightarrow> wf x) \<Longrightarrow> appends (write_each wr) xs (concat (map enc xs))"
  by (intro write_each_appends wr_enc)

end

section \<open>The primitives satisfy the interface\<close>

lemma decodes_read_with_cursor:
  assumes "\<And>tail. f (bs @ tail) = Ok (tail, x)"
  shows "decodes (read_with_cursor f) bs x"
  using assms by (simp add: decodes_def read_with_cursor_def Let_def)

lemma advances_read_with_cursor:
  assumes "\<And>input tail x. f input = Ok (tail, x) \<Longrightarrow> \<exists>pre. k \<le> length pre \<and> input = pre @ tail"
  shows "advances k (read_with_cursor f)"
  unfolding advances_def
proof (intro allI impI, elim conjE)
  fix d x d'
  assume r: "read_with_cursor f d = Ok (x, d')" and p: "dec_pos d \<le> length (dec_buffer d)"
  then obtain tail where t: "f (drop (dec_pos d) (dec_buffer d)) = Ok (tail, x)"
    "d' = d\<lparr>dec_pos := length (dec_buffer d) - length tail\<rparr>"
    by (auto simp: read_with_cursor_def Let_def outcome_simps min_absorb1)
  from assms [OF t(1)] obtain pre where pre: "k \<le> length pre" "drop (dec_pos d) (dec_buffer d) = pre @ tail"
    by auto
  from arg_cong [OF pre(2), of length] have "length (dec_buffer d) - dec_pos d = length pre + length tail"
    by simp
  with p pre(1) t(2) show "dec_buffer d' = dec_buffer d \<and> dec_pos d + k \<le> dec_pos d' \<and> dec_pos d' \<le> length (dec_buffer d')"
    by auto
qed

interpretation var_u64: codec dec_read_var_u64 1 enc_write_var_u64 var_u64_bytes "\<lambda>_. True"
proof
  show "advances 1 dec_read_var_u64"
    unfolding dec_read_var_u64_def
    by (rule advances_read_with_cursor) (auto dest!: read_var_u64_consumes simp: Suc_le_eq)
  show "decodes dec_read_var_u64 (var_u64_bytes x) x" for x
    unfolding dec_read_var_u64_def by (intro decodes_read_with_cursor read_var_u64_bytes)
  show "appends enc_write_var_u64 x (var_u64_bytes x)" for x
    by (simp add: appends_def enc_write_var_u64_def write_var_u64_eq)
qed

interpretation var_i32: codec dec_read_var_i32 1 enc_write_var_i32 var_i32_bytes "\<lambda>_. True"
proof
  show "advances 1 dec_read_var_i32"
    unfolding dec_read_var_i32_def
    by (rule advances_read_with_cursor) (auto dest!: read_var_i32_consumes simp: Suc_le_eq)
  show "decodes dec_read_var_i32 (var_i32_bytes x) x" for x
    unfolding dec_read_var_i32_def by (intro decodes_read_with_cursor read_var_i32_bytes)
  show "appends enc_write_var_i32 x (var_i32_bytes x)" for x
    by (simp add: appends_def enc_write_var_i32_def write_var_i32_eq)
qed

text \<open>Buffers and strings: a length and the bytes.\<close>

definition buffer_bytes :: "bytes \<Rightarrow> bytes" where
  "buffer_bytes data = var_u64_bytes (of_nat (length data)) @ data"

definition fits :: "bytes \<Rightarrow> bool" where
  "fits data \<longleftrightarrow> length data < 2 ^ 64"

definition string_ok :: "bytes \<Rightarrow> bool" where
  "string_ok s \<longleftrightarrow> fits s \<and> utf8_valid s"

lemma unat_length: "n < 2 ^ 64 \<Longrightarrow> unat (of_nat n :: u64) = n"
  by (simp add: unat_of_nat)

lemma read_var_buffer_bytes: "fits data \<Longrightarrow> read_var_buffer (buffer_bytes data @ tail) = Ok (tail, data)"
  by (simp add: read_var_buffer_def buffer_bytes_def read_var_u64_bytes nom_take_def unat_length fits_def)

lemma read_var_string_bytes: "string_ok s \<Longrightarrow> read_var_string (buffer_bytes s @ tail) = Ok (tail, s)"
  by (simp add: read_var_string_def read_var_buffer_bytes string_ok_def)

lemma read_var_buffer_consumes:
  assumes "read_var_buffer input = Ok (tail, data)"
  shows "\<exists>pre. 1 + length data \<le> length pre \<and> input = pre @ tail"
proof -
  from assms obtain t n where t: "read_var_u64 input = Ok (t, n)" "nom_take (unat n) t = Ok (tail, data)"
    by (auto simp: read_var_buffer_def outcome_simps)
  then have "t = data @ tail" by (auto simp: nom_take_def split: if_splits)
  moreover from t(1) obtain p where "p \<noteq> []" "input = p @ t" by (auto dest: read_var_u64_consumes)
  ultimately show ?thesis by (intro exI [of _ "p @ data"]) (cases p, auto)
qed

lemma read_var_string_buffer: "read_var_string input = Ok (tail, s) \<Longrightarrow> read_var_buffer input = Ok (tail, s)"
  by (auto simp: read_var_string_def outcome_simps split: if_splits)

interpretation var_buffer: codec dec_read_var_buffer 1 enc_write_var_buffer buffer_bytes fits
proof
  show "advances 1 dec_read_var_buffer"
    unfolding dec_read_var_buffer_def
    by (rule advances_read_with_cursor) (auto dest!: read_var_buffer_consumes)
  show "decodes dec_read_var_buffer (buffer_bytes x) x" if "fits x" for x
    unfolding dec_read_var_buffer_def by (intro decodes_read_with_cursor read_var_buffer_bytes that)
  show "appends enc_write_var_buffer x (buffer_bytes x)" if "fits x" for x
    by (simp add: appends_def enc_write_var_buffer_def write_var_buffer_def buffer_bytes_def write_var_u64_eq)
qed

interpretation var_string: codec dec_read_var_string 1 enc_write_var_string buffer_bytes string_ok
proof
  show "advances 1 dec_read_var_string"
    unfolding dec_read_var_string_def
    by (rule advances_read_with_cursor) (auto dest!: read_var_string_buffer read_var_buffer_consumes)
  show "decodes dec_read_var_string (buffer_bytes x) x" if "string_ok x" for x
    unfolding dec_read_var_string_def by (intro decodes_read_with_cursor read_var_string_bytes that)
  show "appends enc_write_var_string x (buffer_bytes x)" if "string_ok x" for x
    by (simp add: appends_def enc_write_var_string_def write_var_string_def write_var_buffer_def
        buffer_bytes_def write_var_u64_eq)
qed

text \<open>Fixed-width numbers.\<close>

lemma decodes_read_exact: "length bs = n \<Longrightarrow> decodes (read_exact n) bs bs"
  by (simp add: decodes_def read_exact_def rest_ref_def)

lemma advances_read_exact: "advances n (read_exact n)"
  by (auto simp: advances_def read_exact_def rest_ref_def split: if_splits)

lemma be_val_append: "be_val (as @ [b]) = be_val as * 256 + unat b"
  by (simp add: be_val_def)

lemma be_bytes_Suc: "be_bytes (Suc k) n = be_bytes k (n div 256) @ [of_nat n]"
proof -
  have "rev [0..<Suc k] = map Suc (rev [0..<k]) @ [0]"
    by (simp add: upt_conv_Cons map_Suc_upt [symmetric] rev_map del: upt_Suc)
  then show ?thesis by (simp add: be_bytes_def div_mult2_eq)
qed

lemma be_val_bytes: "be_val (be_bytes k n) = n mod 256 ^ k"
proof (induction k arbitrary: n)
  case (Suc k)
  have "be_val (be_bytes (Suc k) n) = (n div 256 mod 256 ^ k) * 256 + n mod 256"
    by (simp add: be_bytes_Suc be_val_append Suc unat_of_nat)
  also have "\<dots> = n mod 256 ^ Suc k"
    by (simp add: mod_mult2_eq mult.commute add.commute)
  finally show ?case .
qed (simp add: be_val_def be_bytes_def)

lemma length_be_bytes [simp]: "length (be_bytes k n) = k"
  by (simp add: be_bytes_def)

lemma be_val_u32: "of_nat (be_val (be_bytes 4 (unat x))) = x" for x :: u32
  using unsigned_less [of x, where 'a = nat] by (simp add: be_val_bytes word_unat_eq_iff unat_of_nat)

lemma be_val_u64: "of_nat (be_val (be_bytes 8 (unat x))) = x" for x :: u64
  using unsigned_less [of x, where 'a = nat] by (simp add: be_val_bytes word_unat_eq_iff unat_of_nat)

interpretation u8: codec dec_read_u8 1 enc_write_u8 "\<lambda>b. [b]" "\<lambda>_. True"
proof
  show "advances 1 dec_read_u8"
    unfolding dec_read_u8_def by (intro advances_bind advances_return advances_read_exact)
  show "decodes dec_read_u8 [x] x" for x
    unfolding dec_read_u8_def using decodes_map [OF decodes_read_exact [of "[x]" 1], of hd] by simp
  show "appends enc_write_u8 x [x]" for x
    by (simp add: appends_def enc_write_u8_def)
qed

interpretation f32_be: codec dec_read_f32_be 4 enc_write_f32_be "\<lambda>x. be_bytes 4 (unat x)" "\<lambda>_. True"
proof
  show "advances 4 dec_read_f32_be"
    unfolding dec_read_f32_be_def by (intro advances_bind advances_return advances_read_exact)
  show "decodes dec_read_f32_be (be_bytes 4 (unat x)) x" for x
    unfolding dec_read_f32_be_def
    using decodes_map [OF decodes_read_exact [OF length_be_bytes [of 4 "unat x"]],
        of "\<lambda>bs. of_nat (be_val bs) :: u32"]
    by (simp only: be_val_u32)
  show "appends enc_write_f32_be x (be_bytes 4 (unat x))" for x
    by (simp add: appends_def enc_write_f32_be_def)
qed

interpretation f64_be: codec dec_read_f64_be 8 enc_write_f64_be "\<lambda>x. be_bytes 8 (unat x)" "\<lambda>_. True"
proof
  show "advances 8 dec_read_f64_be"
    unfolding dec_read_f64_be_def by (intro advances_bind advances_return advances_read_exact)
  show "decodes dec_read_f64_be (be_bytes 8 (unat x)) x" for x
    unfolding dec_read_f64_be_def
    using decodes_map [OF decodes_read_exact [OF length_be_bytes [of 8 "unat x"]],
        of "\<lambda>bs. of_nat (be_val bs) :: u64"]
    by (simp only: be_val_u64)
  show "appends enc_write_f64_be x (be_bytes 8 (unat x))" for x
    by (simp add: appends_def enc_write_f64_be_def)
qed

interpretation i64_be: codec dec_read_i64_be 8 enc_write_i64_be "\<lambda>x. be_bytes 8 (unat x)" "\<lambda>_. True"
proof
  show "advances 8 dec_read_i64_be"
    unfolding dec_read_i64_be_def by (intro advances_bind advances_return advances_read_exact)
  show "decodes dec_read_i64_be (be_bytes 8 (unat x)) x" for x
    unfolding dec_read_i64_be_def
    using decodes_map [OF decodes_read_exact [OF length_be_bytes [of 8 "unat x"]],
        of "\<lambda>bs. of_nat (be_val bs) :: u64"]
    by (simp only: be_val_u64)
  show "appends enc_write_i64_be x (be_bytes 8 (unat x))" for x
    by (simp add: appends_def enc_write_i64_be_def)
qed

definition item_id_bytes :: "id \<Rightarrow> bytes" where
  "item_id_bytes i = var_u64_bytes (id_client i) @ var_u64_bytes (id_clock i)"

interpretation item_id: codec dec_read_item_id 1 enc_write_item_id item_id_bytes "\<lambda>_. True"
proof
  show "advances 1 dec_read_item_id"
    unfolding dec_read_item_id_def
    by (intro advance_intros var_u64.progress advances_mono [OF var_u64.progress]) simp
  show "decodes dec_read_item_id (item_id_bytes x) x" for x
  proof -
    have "decodes (\<lambda>d. rbind (dec_read_var_u64 d) (\<lambda>(c, d). Ok (new_id (id_client x) c, d)))
        (var_u64_bytes (id_clock x)) (new_id (id_client x) (id_clock x))"
      by (intro decodes_map var_u64.rd_enc TrueI)
    moreover have "new_id (id_client x) (id_clock x) = x" by (simp add: new_id_def)
    ultimately show ?thesis
      unfolding dec_read_item_id_def item_id_bytes_def
      by (intro decodes_bind [OF var_u64.rd_enc]) simp_all
  qed
  show "appends enc_write_item_id x (item_id_bytes x)" for x
    by (simp add: appends_def enc_write_item_id_def item_id_bytes_def appendsD [OF var_u64.wr_enc])
qed

section \<open>Properties\<close>

lemma read_var_loop_more:
  "bit b 7 \<Longrightarrow> s + 7 < 2 ^ 32 \<Longrightarrow> read_var_loop k b s num (b' # rest)
     = read_var_loop k b' (s + 7) (num OR push_bit (s mod 64) (ucast (b' AND 0x7F))) rest"
  by (simp add: read_var_loop.simps [of k b] cont_bit wrapping_shl_def)

lemma read_var_loop_stop: "\<not> bit b 7 \<Longrightarrow> read_var_loop k b s num rest = Ok (rest, num)"
  by (simp add: read_var_loop.simps [of k b] cont_bit)

text \<open>The variable-length integers are lossless and canonical.  A \<open>u64\<close> is written as its base-128
  digits, least significant first, in at most ten bytes; reading them back gives the number and
  leaves what follows.  The same holds of an \<open>i32\<close>, \<open>i32::MIN\<close> included.\<close>

lemma varint_roundtrip:
  "write_var_u64 [] n = base128 (unat n) \<and> length (write_var_u64 [] n) \<le> 10
   \<and> read_var_u64 (write_var_u64 [] n @ tail) = Ok (tail, n)
   \<and> read_var_i32 (write_var_i32 [] i @ tail) = Ok (tail, i)"
  using var_u64_bytes_length [of n]
  by (simp add: write_var_u64_eq write_var_i32_eq read_var_u64_bytes read_var_i32_bytes
      flip: var_u64_bytes_base128)

text \<open>Ten bytes crash the reader of signed numbers.  The magnitude is collected in an \<open>i64\<close> whose
  sign bit the tenth byte can set; negating \<open>i64::MIN\<close> overflows.\<close>

lemma read_var_i32_overflow_panics:
  "read_var_i32 ([0xC0, 0x80, 0x80, 0x80, 0x80, 0x80, 0x80, 0x80, 0x80, 0x02] @ tail) = Panic"
proof -
  have "bit (0xC0 :: u8) 7" "bit (0x80 :: u8) 7" "\<not> bit (0x02 :: u8) 7" by simp_all
  then show ?thesis
    by (simp add: read_var_i32_def read_var_loop_more read_var_loop_stop)
qed

text \<open>The unsigned reader accepts overlong forms and aliases them: bits shifted past the 64th come
  back at the bottom, because the shift count wraps, so eleven bytes can read as 64.\<close>

lemma read_var_u64_overlong_alias:
  "read_var_u64 ([0x80, 0x80, 0x80, 0x80, 0x80, 0x80, 0x80, 0x80, 0x80, 0x80, 0x01] @ tail) = Ok (tail, 64)"
proof -
  have "bit (0x80 :: u8) 7" "\<not> bit (0x01 :: u8) 7" by simp_all
  then show ?thesis
    by (simp add: read_var_u64_def read_var_loop_more read_var_loop_stop)
qed

text \<open>A cursor over a buffer of strings is exact.  A string or buffer that was written at any place
  of the output is read back from that place, the position moves to its end, and bytes that are
  not UTF-8 are refused as a string although they are a buffer.\<close>

lemma decoder_string_buffer_exact:
  assumes "fits s" "dec_pos d \<le> length (dec_buffer d)"
    "drop (dec_pos d) (dec_buffer d) = write_var_buffer [] s @ rest"
  shows "dec_read_var_buffer d = Ok (s, d\<lparr>dec_pos := dec_pos d + length (write_var_buffer [] s)\<rparr>)
    \<and> dec_read_var_string d =
        (if utf8_valid s then Ok (s, d\<lparr>dec_pos := dec_pos d + length (write_var_buffer [] s)\<rparr>)
         else Err (UpdateInvalid (NomError (length (dec_buffer d) - dec_pos d) MapRes)))"
proof -
  have w: "write_var_buffer [] s = buffer_bytes s"
    by (simp add: write_var_buffer_def buffer_bytes_def write_var_u64_eq)
  have len: "length (dec_buffer d) - dec_pos d = length (buffer_bytes s) + length rest"
    using arg_cong [OF assms(3), of length] by (simp add: w)
  show ?thesis
    using assms len read_var_buffer_bytes [OF assms(1), of rest]
    by (simp add: dec_read_var_buffer_def dec_read_var_string_def read_with_cursor_def w min_absorb1
        read_var_string_def Let_def)
qed

lemma decoder_string_buffer_exact_witness:
  "dec_read_var_string \<lparr>dec_buffer = [9] @ write_var_buffer [] [0xFF] @ [7], dec_pos = 1\<rparr>
     = Err (UpdateInvalid (NomError 3 MapRes))"
proof -
  have v: "\<not> utf8_valid [0xFF]" by (simp add: utf8_valid_def utf8_chars.simps utf8_char_def)
  have b: "write_var_buffer [] [0xFF] = [1, 0xFF]"
    by (simp add: write_var_buffer_def write_var_u64_eq var_u64_bytes_base128 base128.simps)
  show ?thesis
    using decoder_string_buffer_exact [of "[0xFF]" "\<lparr>dec_buffer = [9] @ write_var_buffer [] [0xFF] @ [7], dec_pos = 1\<rparr>" "[7]"]
    by (simp add: v b fits_def)
qed

end
