(* ===== verification/Any.thy ===== *)
theory Any
  imports Codec_Interface
begin

text \<open>
  The dynamic value type \<open>Any\<close>, \<open>libs/jwst-codec/src/doc/codec/any.rs\<close>: its binary form, the
  conversions from Rust numbers, and its \<open>serde\<close> serialisation.  Reading is recursive on the
  input, so the decoder takes fuel; one more than the bytes that are left is always enough, and
  \<open>read_any\<close> satisfies the recursion of the source.
\<close>

section \<open>Definitions\<close>

text \<open>\<open>OrderedFloat\<close> is the bit pattern of the float.\<close>

datatype any =
    AnyUndefined
  | AnyNull
  | AnyInteger i32
  | AnyFloat32 u32
  | AnyFloat64 u64
  | AnyBigInt64 i64
  | AnyFalse
  | AnyTrue
  | AnyString bytes
  | AnyObject "(bytes \<times> any) list"
  | AnyArray "any list"
  | AnyBinary bytes

definition read_key_value :: "any reader \<Rightarrow> (bytes \<times> any) reader" where
  "read_key_value read_value decoder =
     rbind (dec_read_var_string decoder) (\<lambda>(key, decoder).
     rbind (read_value decoder) (\<lambda>(value, decoder).
     Ok ((key, value), decoder)))"

text \<open>
  The \<open>match\<close> of \<open>Any::read\<close>; \<open>rec\<close> reads the values inside an object or an array.
\<close>

definition any_read_tag :: "any reader \<Rightarrow> u8 \<Rightarrow> any reader" where
  "any_read_tag rec tag decoder =
     (if tag = 0 then Ok (AnyUndefined, decoder)
      else if tag = 1 then Ok (AnyNull, decoder)
      else if tag = 2 then rbind (dec_read_var_i32 decoder) (\<lambda>(v, decoder). Ok (AnyInteger v, decoder))
      else if tag = 3 then rbind (dec_read_f32_be decoder) (\<lambda>(v, decoder). Ok (AnyFloat32 v, decoder))
      else if tag = 4 then rbind (dec_read_f64_be decoder) (\<lambda>(v, decoder). Ok (AnyFloat64 v, decoder))
      else if tag = 5 then rbind (dec_read_i64_be decoder) (\<lambda>(v, decoder). Ok (AnyBigInt64 v, decoder))
      else if tag = 6 then Ok (AnyFalse, decoder)
      else if tag = 7 then Ok (AnyTrue, decoder)
      else if tag = 8 then rbind (dec_read_var_string decoder) (\<lambda>(v, decoder). Ok (AnyString v, decoder))
      else if tag = 9 then
        rbind (dec_read_var_u64 decoder) (\<lambda>(len, decoder).
        rbind (read_times (read_key_value rec) (unat len) decoder) (\<lambda>(object, decoder).
        Ok (AnyObject (hm_collect object), decoder)))
      else if tag = 10 then
        rbind (dec_read_var_u64 decoder) (\<lambda>(len, decoder).
        rbind (read_times rec (unat len) decoder) (\<lambda>(any, decoder).
        Ok (AnyArray any, decoder)))
      else if tag = 11 then rbind (dec_read_var_buffer decoder) (\<lambda>(v, decoder). Ok (AnyBinary v, decoder))
      else Ok (AnyUndefined, decoder))"

definition any_read_step :: "any reader \<Rightarrow> any reader" where
  "any_read_step rec decoder =
     rbind (dec_read_u8 decoder) (\<lambda>(index, decoder). any_read_tag rec (127 - index) decoder)"

primrec any_read :: "nat \<Rightarrow> any reader" where
  "any_read 0 = (\<lambda>decoder. Panic)"
| "any_read (Suc fuel) = any_read_step (any_read fuel)"

definition remaining :: "raw_decoder \<Rightarrow> nat" where
  "remaining d = length (dec_buffer d) - dec_pos d"

definition read_any :: "any reader" where
  "read_any decoder = any_read (Suc (remaining decoder)) decoder"

lemma write_each_cong [fundef_cong]:
  "e = e' \<Longrightarrow> xs = xs' \<Longrightarrow> (\<And>e x. x \<in> set xs' \<Longrightarrow> wr e x = wr' e x) \<Longrightarrow> write_each wr e xs = write_each wr' e' xs'"
proof (induction xs arbitrary: e e' xs')
  case (Cons x xs)
  have "(\<lambda>e. write_each wr e xs) = (\<lambda>e. write_each wr' e xs)" using Cons by auto
  then show ?case using Cons by auto
qed auto

lemma any_entry_size [termination_simp]:
  "(k, v) \<in> set kvs \<Longrightarrow> size v < Suc (size_list (size_prod (\<lambda>_. 0) size) kvs)"
  by (induction kvs) auto

fun write_any :: "raw_encoder \<Rightarrow> any \<Rightarrow> (codec_error, raw_encoder) result" where
  "write_any writer AnyUndefined = enc_write_u8 writer 127"
| "write_any writer AnyNull = enc_write_u8 writer (127 - 1)"
| "write_any writer (AnyInteger value) =
     rbind (enc_write_u8 writer (127 - 2)) (\<lambda>writer. enc_write_var_i32 writer value)"
| "write_any writer (AnyFloat32 value) =
     rbind (enc_write_u8 writer (127 - 3)) (\<lambda>writer. enc_write_f32_be writer value)"
| "write_any writer (AnyFloat64 value) =
     rbind (enc_write_u8 writer (127 - 4)) (\<lambda>writer. enc_write_f64_be writer value)"
| "write_any writer (AnyBigInt64 value) =
     rbind (enc_write_u8 writer (127 - 5)) (\<lambda>writer. enc_write_i64_be writer value)"
| "write_any writer AnyFalse = enc_write_u8 writer (127 - 6)"
| "write_any writer AnyTrue = enc_write_u8 writer (127 - 7)"
| "write_any writer (AnyString value) =
     rbind (enc_write_u8 writer (127 - 8)) (\<lambda>writer. enc_write_var_string writer value)"
| "write_any writer (AnyObject entries) =
     rbind (enc_write_u8 writer (127 - 9)) (\<lambda>writer.
     rbind (enc_write_var_u64 writer (of_nat (length entries))) (\<lambda>writer.
     write_each (\<lambda>writer kv. case kv of (key, value) \<Rightarrow>
       rbind (enc_write_var_string writer key) (\<lambda>writer. write_any writer value)) writer entries))"
| "write_any writer (AnyArray values) =
     rbind (enc_write_u8 writer (127 - 10)) (\<lambda>writer.
     rbind (enc_write_var_u64 writer (of_nat (length values))) (\<lambda>writer.
     write_each (\<lambda>writer value. write_any writer value) writer values))"
| "write_any writer (AnyBinary value) =
     rbind (enc_write_u8 writer (127 - 11)) (\<lambda>writer. enc_write_var_buffer writer value)"

text \<open>
  \<open>Vec::with_capacity\<close> for elements of \<open>elem\<close> bytes panics when they would take more than
  \<open>isize::MAX\<close> bytes; the size of an \<open>Any\<close> is up to the compiler.
\<close>

definition vec_capacity :: "nat \<Rightarrow> nat \<Rightarrow> ('e, unit) result" where
  "vec_capacity elem n = (if n * elem < 2 ^ 63 then Ok () else Panic)"

definition any_read_multiple :: "nat \<Rightarrow> any list reader" where
  "any_read_multiple size_of_any decoder =
     rbind (dec_read_var_u64 decoder) (\<lambda>(len, decoder).
     rbind (vec_capacity size_of_any (unat len)) (\<lambda>_.
     read_times read_any (unat len) decoder))"

definition any_write_multiple :: "any list writer" where
  "any_write_multiple writer any =
     rbind (enc_write_var_u64 writer (of_nat (length any))) (\<lambda>writer. write_each write_any writer any)"

section \<open>Fuel\<close>

lemma advances_key_value:
  "advances 0 rec \<Longrightarrow> advances 1 (read_key_value rec)"
  unfolding read_key_value_def by (intro advances_bind advances_return var_string.progress)

lemma advances_any_read_step:
  assumes "advances 0 rec"
  shows "advances 1 (any_read_step rec)"
  unfolding any_read_step_def any_read_tag_def
  by (intro advances_bind advances_if advances_return u8.progress advances_times [OF assms]
      advances_times [OF advances_key_value [OF assms]]
      advances_mono [OF var_i32.progress] advances_mono [OF f32_be.progress] advances_mono [OF f64_be.progress]
      advances_mono [OF i64_be.progress] advances_mono [OF var_string.progress] advances_mono [OF var_u64.progress]
      advances_mono [OF var_buffer.progress]) simp_all

lemma advances_any_read: "advances 1 (any_read fuel)"
proof (induction fuel)
  case 0
  show ?case by (simp add: advances_def)
next
  case (Suc fuel)
  from Suc have "advances 0 (any_read fuel)" by (rule advances_mono) simp
  then show ?case unfolding any_read.simps by (rule advances_any_read_step)
qed

definition inside :: "raw_decoder \<Rightarrow> bool" where
  "inside d \<longleftrightarrow> dec_pos d \<le> length (dec_buffer d)"

lemma advances_inside:
  "advances k rd \<Longrightarrow> rd d = Ok (x, d') \<Longrightarrow> inside d \<Longrightarrow> inside d' \<and> remaining d' + k \<le> remaining d"
  using advancesD [of k rd d x d'] by (auto simp: inside_def remaining_def)

lemma read_times_cong:
  assumes "advances 0 rd" "\<And>d. inside d \<Longrightarrow> remaining d \<le> r \<Longrightarrow> rd d = rd' d"
  shows "inside d \<Longrightarrow> remaining d \<le> r \<Longrightarrow> read_times rd n d = read_times rd' n d"
proof (induction n arbitrary: d)
  case (Suc n)
  have eq: "rd d = rd' d" using assms(2) Suc.prems .
  show ?case
  proof (cases "rd d")
    case (Ok y)
    obtain x d1 where y: "y = (x, d1)" by (cases y)
    with advances_inside [OF assms(1) Ok [unfolded y] Suc.prems(1)] Suc.prems(2)
    have "read_times rd n d1 = read_times rd' n d1" by (intro Suc.IH) auto
    with Ok y eq show ?thesis by simp
  qed (use eq in simp_all)
qed simp

lemma rbind_progress_cong:
  assumes "advances k rd" "inside d" "\<And>x d'. inside d' \<Longrightarrow> remaining d' + k \<le> remaining d \<Longrightarrow> f x d' = g x d'"
  shows "rbind (rd d) (\<lambda>(x, d). f x d) = rbind (rd d) (\<lambda>(x, d). g x d)"
proof (cases "rd d")
  case (Ok y)
  obtain x d1 where y: "y = (x, d1)" by (cases y)
  with advances_inside [OF assms(1) Ok [unfolded y] assms(2)] assms(3) [of d1 x] Ok show ?thesis by simp
qed simp_all

lemma any_read_step_cong:
  assumes "advances 0 rec" "inside d" "\<And>d'. inside d' \<Longrightarrow> remaining d' < remaining d \<Longrightarrow> rec d' = rec' d'"
  shows "any_read_step rec d = any_read_step rec' d"
  unfolding any_read_step_def
proof (rule rbind_progress_cong [OF u8.progress assms(2)])
  fix index d1
  assume d1: "inside d1" "remaining d1 + 1 \<le> remaining d"
  have rec: "rec d' = rec' d'" if "inside d'" "remaining d' \<le> remaining d1" for d'
    using assms(3) that d1(2) by simp
  have kv: "read_key_value rec d' = read_key_value rec' d'" if "inside d'" "remaining d' \<le> remaining d1" for d'
    unfolding read_key_value_def
    by (rule rbind_progress_cong [OF var_string.progress that(1)]) (use rec that in simp)
  have object: "rbind (dec_read_var_u64 d1) (\<lambda>(len, d). rbind (read_times (read_key_value rec) (unat len) d)
        (\<lambda>(object, d). Ok (AnyObject (hm_collect object), d)))
      = rbind (dec_read_var_u64 d1) (\<lambda>(len, d). rbind (read_times (read_key_value rec') (unat len) d)
        (\<lambda>(object, d). Ok (AnyObject (hm_collect object), d)))"
    by (rule rbind_progress_cong [OF var_u64.progress d1(1)])
      (simp add: read_times_cong [OF advances_mono [OF advances_key_value [OF assms(1)]] kv])
  have array: "rbind (dec_read_var_u64 d1) (\<lambda>(len, d). rbind (read_times rec (unat len) d) (\<lambda>(any, d). Ok (AnyArray any, d)))
      = rbind (dec_read_var_u64 d1) (\<lambda>(len, d). rbind (read_times rec' (unat len) d) (\<lambda>(any, d). Ok (AnyArray any, d)))"
    by (rule rbind_progress_cong [OF var_u64.progress d1(1)])
      (simp add: read_times_cong [OF assms(1) rec])
  show "any_read_tag rec (127 - index) d1 = any_read_tag rec' (127 - index) d1"
    unfolding any_read_tag_def object array ..
qed

text \<open>All fuel above the bytes that are left is the same, so \<open>read_any\<close> is the recursion of the source.\<close>

lemma any_read_fuel:
  "inside d \<Longrightarrow> remaining d < f \<Longrightarrow> remaining d < f' \<Longrightarrow> any_read f d = any_read f' d"
proof (induction f arbitrary: f' d)
  case (Suc f)
  then obtain g where g: "f' = Suc g" by (cases f') auto
  have "any_read f d' = any_read g d'" if "inside d'" "remaining d' < remaining d" for d'
    using Suc.IH [of d' g] Suc.prems g that by simp
  then have "any_read_step (any_read f) d = any_read_step (any_read g) d"
    using Suc.prems(1) by (intro any_read_step_cong advances_mono [OF advances_any_read]) simp_all
  then show ?case by (simp add: g)
qed simp

lemma read_any_fuel: "inside d \<Longrightarrow> remaining d < f \<Longrightarrow> any_read f d = read_any d"
  unfolding read_any_def by (rule any_read_fuel) simp_all

lemma advances_read_any: "advances 1 read_any"
  unfolding advances_def read_any_def
  using advancesD [OF advances_any_read] by blast

lemma read_any_unfold:
  assumes "inside d"
  shows "read_any d = any_read_step read_any d"
proof -
  have "read_any d = any_read_step (any_read (remaining d)) d" by (simp add: read_any_def)
  also have "\<dots> = any_read_step read_any d"
    using assms by (intro any_read_step_cong advances_mono [OF advances_any_read] read_any_fuel) auto
  finally show ?thesis .
qed

section \<open>The codec\<close>

fun any_bytes :: "any \<Rightarrow> bytes" where
  "any_bytes AnyUndefined = [127]"
| "any_bytes AnyNull = [126]"
| "any_bytes (AnyInteger v) = 125 # var_i32_bytes v"
| "any_bytes (AnyFloat32 v) = 124 # be_bytes 4 (unat v)"
| "any_bytes (AnyFloat64 v) = 123 # be_bytes 8 (unat v)"
| "any_bytes (AnyBigInt64 v) = 122 # be_bytes 8 (unat v)"
| "any_bytes AnyFalse = [121]"
| "any_bytes AnyTrue = [120]"
| "any_bytes (AnyString v) = 119 # buffer_bytes v"
| "any_bytes (AnyObject kvs) = 118 # var_u64_bytes (of_nat (length kvs))
     @ concat (map (\<lambda>kv. case kv of (k, v) \<Rightarrow> buffer_bytes k @ any_bytes v) kvs)"
| "any_bytes (AnyArray vs) = 117 # var_u64_bytes (of_nat (length vs)) @ concat (map any_bytes vs)"
| "any_bytes (AnyBinary v) = 116 # buffer_bytes v"

text \<open>A value as Rust can hold it: UTF-8 strings, lengths in 64 bits, distinct keys in an object.\<close>

fun any_ok :: "any \<Rightarrow> bool" where
  "any_ok (AnyString v) = string_ok v"
| "any_ok (AnyObject kvs) = (hm_wf kvs \<and> length kvs < 2 ^ 64 \<and>
     list_all (\<lambda>kv. case kv of (k, v) \<Rightarrow> string_ok k \<and> any_ok v) kvs)"
| "any_ok (AnyArray vs) = (length vs < 2 ^ 64 \<and> list_all any_ok vs)"
| "any_ok (AnyBinary v) = fits v"
| "any_ok _ = True"

lemma decodes_tag:
  assumes "decodes (any_read_tag rec (127 - index)) bs x"
  shows "decodes (any_read_step rec) (index # bs) x"
proof -
  have "decodes (any_read_step rec) ([index] @ bs) x"
    unfolding any_read_step_def by (intro decodes_bind [OF u8.rd_enc] assms TrueI)
  then show ?thesis by simp
qed

lemma decodes_key_value:
  assumes "string_ok k" "decodes rec bs v"
  shows "decodes (read_key_value rec) (buffer_bytes k @ bs) (k, v)"
  unfolding read_key_value_def
  by (intro decodes_bind [OF var_string.rd_enc] decodes_map assms)

lemma any_value_size: "(k, v) \<in> set kvs \<Longrightarrow> size v < size (AnyObject kvs)"
  using any_entry_size [of k v kvs] by simp

lemma any_element_size: "v \<in> set vs \<Longrightarrow> size v < size (AnyArray vs)"
  by (induction vs) auto

lemma any_read_tags:
  "any_read_tag rec 0 = (\<lambda>d. Ok (AnyUndefined, d))"
  "any_read_tag rec 1 = (\<lambda>d. Ok (AnyNull, d))"
  "any_read_tag rec 2 = (\<lambda>d. rbind (dec_read_var_i32 d) (\<lambda>(v, d). Ok (AnyInteger v, d)))"
  "any_read_tag rec 3 = (\<lambda>d. rbind (dec_read_f32_be d) (\<lambda>(v, d). Ok (AnyFloat32 v, d)))"
  "any_read_tag rec 4 = (\<lambda>d. rbind (dec_read_f64_be d) (\<lambda>(v, d). Ok (AnyFloat64 v, d)))"
  "any_read_tag rec 5 = (\<lambda>d. rbind (dec_read_i64_be d) (\<lambda>(v, d). Ok (AnyBigInt64 v, d)))"
  "any_read_tag rec 6 = (\<lambda>d. Ok (AnyFalse, d))"
  "any_read_tag rec 7 = (\<lambda>d. Ok (AnyTrue, d))"
  "any_read_tag rec 8 = (\<lambda>d. rbind (dec_read_var_string d) (\<lambda>(v, d). Ok (AnyString v, d)))"
  "any_read_tag rec 9 = (\<lambda>d. rbind (dec_read_var_u64 d) (\<lambda>(len, d).
     rbind (read_times (read_key_value rec) (unat len) d) (\<lambda>(object, d). Ok (AnyObject (hm_collect object), d))))"
  "any_read_tag rec 10 = (\<lambda>d. rbind (dec_read_var_u64 d) (\<lambda>(len, d).
     rbind (read_times rec (unat len) d) (\<lambda>(any, d). Ok (AnyArray any, d))))"
  "any_read_tag rec 11 = (\<lambda>d. rbind (dec_read_var_buffer d) (\<lambda>(v, d). Ok (AnyBinary v, d)))"
  by (simp_all add: any_read_tag_def fun_eq_iff)

lemma any_read_decodes: "any_ok a \<Longrightarrow> size a < f \<Longrightarrow> decodes (any_read f) (any_bytes a) a"
proof (induction a arbitrary: f rule: any_bytes.induct)
  case (10 kvs)
  obtain g where g: "f = Suc g" using "10.prems"(2) by (cases f) auto
  have "decodes (read_times (read_key_value (any_read g)) (length kvs))
      (concat (map (\<lambda>kv. case kv of (k, v) \<Rightarrow> buffer_bytes k @ any_bytes v) kvs)) kvs"
  proof (rule decodes_times)
    fix kv assume kv: "kv \<in> set kvs"
    obtain k v where e: "kv = (k, v)" by (cases kv)
    have "string_ok k" "any_ok v" using "10.prems"(1) kv e by (auto simp: list_all_iff)
    moreover have "size v < g" using any_value_size [of k v kvs] kv e "10.prems"(2) g by simp
    ultimately show "decodes (read_key_value (any_read g)) (case kv of (k, v) \<Rightarrow> buffer_bytes k @ any_bytes v) kv"
      using "10.IH" [OF kv e [symmetric], of g] e by (simp add: decodes_key_value)
  qed
  then have "decodes (\<lambda>d. rbind (read_times (read_key_value (any_read g)) (length kvs) d)
      (\<lambda>(object, d). Ok (AnyObject (hm_collect object), d)))
      (concat (map (\<lambda>kv. case kv of (k, v) \<Rightarrow> buffer_bytes k @ any_bytes v) kvs)) (AnyObject (hm_collect kvs))"
    by (rule decodes_map)
  moreover have "hm_collect kvs = kvs" "length kvs < 2 ^ 64" using "10.prems"(1) by simp_all
  ultimately have "decodes (any_read_tag (any_read g) 9) (var_u64_bytes (of_nat (length kvs))
      @ concat (map (\<lambda>kv. case kv of (k, v) \<Rightarrow> buffer_bytes k @ any_bytes v) kvs)) (AnyObject kvs)"
    unfolding any_read_tags by (intro decodes_bind [OF var_u64.rd_enc]) (simp_all add: unat_length)
  then show ?case
    unfolding g any_read.simps any_bytes.simps by (intro decodes_tag) simp
next
  case (11 vs)
  obtain g where g: "f = Suc g" using "11.prems"(2) by (cases f) auto
  have "decodes (read_times (any_read g) (length vs)) (concat (map any_bytes vs)) vs"
  proof (rule decodes_times)
    fix v assume v: "v \<in> set vs"
    have "any_ok v" "size v < g"
      using "11.prems" any_element_size [OF v] v g by (auto simp: list_all_iff)
    then show "decodes (any_read g) (any_bytes v) v" using "11.IH" [OF v] by simp
  qed
  then have "decodes (\<lambda>d. rbind (read_times (any_read g) (length vs) d) (\<lambda>(any, d). Ok (AnyArray any, d)))
      (concat (map any_bytes vs)) (AnyArray vs)"
    by (rule decodes_map)
  moreover have "length vs < 2 ^ 64" using "11.prems"(1) by simp
  ultimately have "decodes (any_read_tag (any_read g) 10)
      (var_u64_bytes (of_nat (length vs)) @ concat (map any_bytes vs)) (AnyArray vs)"
    unfolding any_read_tags by (intro decodes_bind [OF var_u64.rd_enc]) (simp_all add: unat_length)
  then show ?case
    unfolding g any_read.simps any_bytes.simps by (intro decodes_tag) simp
qed (case_tac f, simp, simp only: any_read.simps any_bytes.simps, rule decodes_tag,
    simp add: any_read_tags decodes_return decodes_map [OF var_i32.rd_enc] decodes_map [OF f32_be.rd_enc]
      decodes_map [OF f64_be.rd_enc] decodes_map [OF i64_be.rd_enc] decodes_map [OF var_string.rd_enc]
      decodes_map [OF var_buffer.rd_enc])+

lemma read_any_decodes:
  assumes "any_ok a"
  shows "decodes read_any (any_bytes a) a"
  unfolding decodes_def
proof (intro allI)
  fix pre rest
  let ?d = "\<lparr>dec_buffer = pre @ any_bytes a @ rest, dec_pos = length pre\<rparr>"
  have "inside ?d" by (simp add: inside_def)
  then have "read_any ?d = any_read (Suc (size a + remaining ?d)) ?d" by (rule read_any_fuel [symmetric]) simp
  with decodesD [OF any_read_decodes [OF assms, of "Suc (size a + remaining ?d)"], of pre rest]
  show "read_any ?d = Ok (a, \<lparr>dec_buffer = pre @ any_bytes a @ rest, dec_pos = length pre + length (any_bytes a)\<rparr>)"
    by simp
qed

lemma write_any_appends: "write_any e a = Ok (e\<lparr>enc_buffer := enc_buffer e @ any_bytes a\<rparr>)"
proof (induction a arbitrary: e rule: any_bytes.induct)
  case (10 kvs)
  have "appends (write_each (\<lambda>writer kv. case kv of (key, value) \<Rightarrow>
       rbind (enc_write_var_string writer key) (\<lambda>writer. write_any writer value))) kvs
      (concat (map (\<lambda>kv. case kv of (k, v) \<Rightarrow> buffer_bytes k @ any_bytes v) kvs))"
    using 10
    by (intro write_each_appends) (auto simp: appends_def enc_write_var_string_def write_var_string_def
        write_var_buffer_def buffer_bytes_def write_var_u64_eq)
  then show ?case by (simp add: appends_def enc_write_u8_def enc_write_var_u64_def write_var_u64_eq)
next
  case (11 vs)
  have "appends (write_each (\<lambda>writer value. write_any writer value)) vs (concat (map any_bytes vs))"
    using 11 by (intro write_each_appends) (auto simp: appends_def)
  then show ?case by (simp add: appends_def enc_write_u8_def enc_write_var_u64_def write_var_u64_eq)
qed (simp_all add: enc_write_u8_def enc_write_var_i32_def write_var_i32_eq enc_write_f32_be_def
    enc_write_f64_be_def enc_write_i64_be_def enc_write_var_string_def write_var_string_def
    write_var_buffer_def buffer_bytes_def write_var_u64_eq enc_write_var_buffer_def)

interpretation any: codec read_any 1 write_any any_bytes any_ok
proof
  show "advances 1 read_any" by (rule advances_read_any)
qed (simp_all add: read_any_decodes appends_def write_any_appends)

definition any_multiple_bytes :: "any list \<Rightarrow> bytes" where
  "any_multiple_bytes any = var_u64_bytes (of_nat (length any)) @ concat (map any_bytes any)"

definition any_multiple_ok :: "nat \<Rightarrow> any list \<Rightarrow> bool" where
  "any_multiple_ok elem any \<longleftrightarrow> list_all any_ok any \<and> length any * elem < 2 ^ 63 \<and> length any < 2 ^ 64"

lemma advances_any_multiple: "advances 1 (any_read_multiple elem)"
proof -
  have "advances 0 (\<lambda>d. rbind m (\<lambda>_. read_times read_any n d))" for m :: "unit codec_result" and n
    by (cases m) (simp_all add: advances_fail any.times_progress)
  then show ?thesis
    unfolding any_read_multiple_def by (intro advances_bind var_u64.progress) simp
qed

lemma any_multiple_decodes:
  assumes "any_multiple_ok elem xs"
  shows "decodes (any_read_multiple elem) (any_multiple_bytes xs) xs"
proof -
  have n: "unat (of_nat (length xs) :: u64) = length xs" using assms by (simp add: any_multiple_ok_def unat_length)
  have c: "(vec_capacity elem (length xs) :: unit codec_result) = Ok ()"
    using assms by (simp add: any_multiple_ok_def vec_capacity_def)
  have "decodes (read_times read_any (length xs)) (concat (map any_bytes xs)) xs"
    using assms by (intro any.many_rd) (simp add: any_multiple_ok_def list_all_iff)
  with n c show ?thesis
    unfolding any_read_multiple_def any_multiple_bytes_def
    by (intro decodes_bind [OF var_u64.rd_enc]) simp_all
qed

lemma any_multiple_appends: "appends any_write_multiple xs (any_multiple_bytes xs)"
proof -
  have "appends (write_each write_any) xs (concat (map any_bytes xs))"
    by (intro write_each_appends) (simp add: appends_def write_any_appends)
  then show ?thesis
    by (simp add: appends_def any_write_multiple_def any_multiple_bytes_def appendsD [OF var_u64.wr_enc])
qed

section \<open>Conversions\<close>

subsection \<open>Numbers\<close>

definition max_js_int :: int where
  "max_js_int = 0x001FFFFFFFFFFFFF"

definition js_int_range :: "int \<Rightarrow> bool" where
  "js_int_range i \<longleftrightarrow> - max_js_int \<le> i \<and> i \<le> max_js_int"

text \<open>
  \<open>int as f32\<close> and \<open>int as f64\<close> for a positive \<open>int\<close>: to the nearest float of \<open>p\<close> significant bits,
  ties to even; the fields of the result from the position of the leading bit.
\<close>

fun bit_length :: "nat \<Rightarrow> nat" where
  "bit_length n = (if n = 0 then 0 else Suc (bit_length (n div 2)))"

declare bit_length.simps [simp del]

definition round_sig :: "nat \<Rightarrow> nat \<Rightarrow> nat" where
  "round_sig p n =
     (let s = bit_length n - p; q = n div 2 ^ s; r = n mod 2 ^ s; half = 2 ^ (s - 1)
      in if s = 0 then n else if half < r \<or> r = half \<and> odd q then (q + 1) * 2 ^ s else q * 2 ^ s)"

definition float_fields :: "nat \<Rightarrow> nat \<Rightarrow> nat \<Rightarrow> nat" where
  "float_fields p bias n =
     (let r = round_sig p n; l = bit_length r;
          m = (if p \<le> l then r div 2 ^ (l - p) else r * 2 ^ (p - l))
      in (l - 1 + bias) * 2 ^ (p - 1) + (m - 2 ^ (p - 1)))"

definition f32_of_nat :: "nat \<Rightarrow> u32" where
  "f32_of_nat n = of_nat (float_fields 24 127 n)"

definition f64_of_nat :: "nat \<Rightarrow> u64" where
  "f64_of_nat n = of_nat (float_fields 53 1023 n)"

text \<open>The \<open>From\<close> instances of the integer types; the unsigned ones are cast to \<open>i64\<close> first.\<close>

definition any_from_i64 :: "i64 \<Rightarrow> any" where
  "any_from_i64 value =
     (let i = sint value in
      if js_int_range i then
        (if i \<le> 2 ^ 31 - 1 then AnyInteger (word_of_int i)
         else if round_sig 24 (nat i) = nat i then AnyFloat32 (f32_of_nat (nat i))
         else AnyFloat64 (f64_of_nat (nat i)))
      else AnyBigInt64 value)"

definition any_from_u64 :: "u64 \<Rightarrow> any" where
  "any_from_u64 value = any_from_i64 value"

definition any_from_bool :: "bool \<Rightarrow> any" where
  "any_from_bool value = (if value then AnyTrue else AnyFalse)"

definition any_from_option :: "('a \<Rightarrow> any) \<Rightarrow> 'a option \<Rightarrow> any" where
  "any_from_option f value = (case value of None \<Rightarrow> AnyNull | Some v \<Rightarrow> f v)"

definition any_from_entries :: "(bytes \<times> any) list \<Rightarrow> any" where
  "any_from_entries entries = AnyObject (hm_collect entries)"

text \<open>The \<open>TryFrom\<close> instances.\<close>

fun any_try_string :: "any \<Rightarrow> bytes codec_result" where
  "any_try_string (AnyString s) = Ok s"
| "any_try_string _ = Err (UnexpectedType ''String'')"

fun any_try_object :: "any \<Rightarrow> (bytes \<times> any) list codec_result" where
  "any_try_object (AnyObject m) = Ok m"
| "any_try_object _ = Err (UnexpectedType ''Object'')"

fun any_try_array :: "any \<Rightarrow> any list codec_result" where
  "any_try_array (AnyArray vec) = Ok vec"
| "any_try_array _ = Err (UnexpectedType ''Array'')"

fun any_try_bool :: "any \<Rightarrow> bool codec_result" where
  "any_try_bool AnyTrue = Ok True"
| "any_try_bool AnyFalse = Ok False"
| "any_try_bool _ = Err (UnexpectedType ''Boolean'')"

subsection \<open>JSON values\<close>

text \<open>
  \<open>serde_json::Value\<close>.  A number is a float or an integer of \<open>i64\<close> or \<open>u64\<close>; \<open>is_i64\<close> holds of
  every integer up to \<open>i64::MAX\<close>.  Both integer branches cast with \<open>as i32\<close>.
\<close>

datatype json_number = JFloat u64 | JInt int

datatype json =
  JNull | JBool bool | JNumber json_number | JString bytes | JArray "json list" | JObject "(bytes \<times> json) list"

lemma json_entry_size [termination_simp]:
  "(k, v) \<in> set kvs \<Longrightarrow> size v < Suc (size_list (size_prod (\<lambda>_. 0) size) kvs)" for v :: json
  by (induction kvs) auto

fun any_from_json :: "json \<Rightarrow> any" where
  "any_from_json JNull = AnyNull"
| "any_from_json (JBool b) = (if b then AnyTrue else AnyFalse)"
| "any_from_json (JNumber (JFloat f)) = AnyFloat64 f"
| "any_from_json (JNumber (JInt n)) =
     (if n \<le> 2 ^ 63 - 1 then AnyInteger (word_of_int n) else AnyInteger (word_of_int n))"
| "any_from_json (JString s) = AnyString s"
| "any_from_json (JArray vec) = AnyArray (map any_from_json vec)"
| "any_from_json (JObject obj) = AnyObject (hm_collect (map (\<lambda>kv. case kv of (k, v) \<Rightarrow> (k, any_from_json v)) obj))"

text \<open>The calls \<open>serialize\<close> makes on its serializer, as a tree, and those a deserializer makes on the visitor.\<close>

datatype ser =
    SerNone | SerBool bool | SerF32 u32 | SerF64 u64 | SerI32 i32 | SerI64 i64 | SerStr bytes
  | SerSeq "ser list" | SerMap "(bytes \<times> ser) list" | SerBytes bytes

datatype de =
    DeNone | DeUnit | DeBool bool | DeI64 i64 | DeU64 u64 | DeF64 u64 | DeStr bytes
  | DeSeq "de list" | DeMap "(bytes \<times> de) list"

lemma ser_entry_size [termination_simp]:
  "(k, v) \<in> set kvs \<Longrightarrow> size v < Suc (size_list (size_prod (\<lambda>_. 0) size) kvs)" for v :: ser
  by (induction kvs) auto

lemma de_entry_size [termination_simp]:
  "(k, v) \<in> set kvs \<Longrightarrow> size v < Suc (size_list (size_prod (\<lambda>_. 0) size) kvs)" for v :: de
  by (induction kvs) auto

fun any_serialize :: "any \<Rightarrow> ser" where
  "any_serialize AnyNull = SerNone"
| "any_serialize AnyUndefined = SerNone"
| "any_serialize AnyTrue = SerBool True"
| "any_serialize AnyFalse = SerBool False"
| "any_serialize (AnyFloat32 v) = SerF32 v"
| "any_serialize (AnyFloat64 v) = SerF64 v"
| "any_serialize (AnyInteger v) = SerI32 v"
| "any_serialize (AnyBigInt64 v) = SerI64 v"
| "any_serialize (AnyString v) = SerStr v"
| "any_serialize (AnyArray vs) = SerSeq (map any_serialize vs)"
| "any_serialize (AnyObject kvs) = SerMap (map (\<lambda>kv. case kv of (k, v) \<Rightarrow> (k, any_serialize v)) kvs)"
| "any_serialize (AnyBinary buf) = SerBytes buf"

fun any_deserialize :: "de \<Rightarrow> any" where
  "any_deserialize (DeBool b) = (if b then AnyTrue else AnyFalse)"
| "any_deserialize (DeI64 v) = AnyBigInt64 v"
| "any_deserialize (DeU64 v) = any_from_i64 v"
| "any_deserialize (DeF64 v) = AnyFloat64 v"
| "any_deserialize (DeStr v) = AnyString v"
| "any_deserialize DeNone = AnyNull"
| "any_deserialize DeUnit = AnyNull"
| "any_deserialize (DeSeq vs) = AnyArray (map any_deserialize vs)"
| "any_deserialize (DeMap kvs) = AnyObject (hm_collect (map (\<lambda>kv. case kv of (k, v) \<Rightarrow> (k, any_deserialize v)) kvs))"

section \<open>Numbers keep their value\<close>

text \<open>The integer a float of these fields stands for.\<close>

definition float_int :: "nat \<Rightarrow> nat \<Rightarrow> nat \<Rightarrow> nat" where
  "float_int p bias bits =
     (let e = bits div 2 ^ (p - 1); m = 2 ^ (p - 1) + bits mod 2 ^ (p - 1)
      in if bias + (p - 1) \<le> e then m * 2 ^ (e - bias - (p - 1)) else m div 2 ^ (bias + (p - 1) - e))"

fun any_int_value :: "any \<Rightarrow> int option" where
  "any_int_value (AnyInteger v) = Some (sint v)"
| "any_int_value (AnyBigInt64 v) = Some (sint v)"
| "any_int_value (AnyFloat32 v) = Some (int (float_int 24 127 (unat v)))"
| "any_int_value (AnyFloat64 v) = Some (int (float_int 53 1023 (unat v)))"
| "any_int_value _ = None"

lemma bit_length_bounds: "0 < n \<Longrightarrow> 0 < bit_length n \<and> 2 ^ (bit_length n - 1) \<le> n \<and> n < 2 ^ bit_length n"
proof (induction n rule: bit_length.induct)
  case (1 n)
  show ?case
  proof (cases "n div 2 = 0")
    case True
    with 1 have "n = 1" by auto
    then show ?thesis by (simp add: bit_length.simps)
  next
    case False
    with 1 have IH: "0 < bit_length (n div 2)" "2 ^ (bit_length (n div 2) - 1) \<le> n div 2"
      "n div 2 < 2 ^ bit_length (n div 2)" by auto
    have "bit_length n = Suc (bit_length (n div 2))" using "1.prems" by (subst bit_length.simps) simp
    moreover have "(2 :: nat) ^ bit_length (n div 2) = 2 * 2 ^ (bit_length (n div 2) - 1)"
      using IH(1) by (simp flip: power_Suc)
    moreover have "2 * P \<le> n \<and> n < 4 * P" if "P \<le> n div 2" "n div 2 < 2 * P" for P
      using that by presburger
    ultimately show ?thesis using IH by simp
  qed
qed

lemma bit_length_le: "n < 2 ^ k \<Longrightarrow> bit_length n \<le> k"
proof (cases "n = 0")
  case False
  assume "n < 2 ^ k"
  with bit_length_bounds [of n] False have "(2 :: nat) ^ (bit_length n - 1) < 2 ^ k"
    by (blast intro: le_less_trans)
  then have "bit_length n - 1 < k" by (rule power_less_imp_less_exp [rotated]) simp
  then show ?thesis by simp
qed (simp add: bit_length.simps)

lemma bit_length_ge: "2 ^ k \<le> n \<Longrightarrow> Suc k \<le> bit_length n"
proof -
  assume k: "2 ^ k \<le> n"
  have "(0 :: nat) < 2 ^ k" by simp
  from this k have "0 < n" by (rule less_le_trans)
  with bit_length_bounds [of n] k have "(2 :: nat) ^ k < 2 ^ bit_length n" by (blast intro: le_less_trans)
  then show ?thesis by (simp add: Suc_le_eq)
qed

lemma mantissa_range: "2 ^ (p - 1) \<le> m \<Longrightarrow> m < 2 ^ p \<Longrightarrow> 0 < p \<Longrightarrow>
   (e * 2 ^ (p - 1) + (m - 2 ^ (p - 1))) div 2 ^ (p - 1) = (e :: nat)
   \<and> (e * 2 ^ (p - 1) + (m - 2 ^ (p - 1))) mod 2 ^ (p - 1) = m - 2 ^ (p - 1)"
proof -
  assume a: "2 ^ (p - 1) \<le> m" "m < 2 ^ p" "0 < p"
  have "(2 :: nat) ^ p = 2 * 2 ^ (p - 1)" using a(3) by (simp flip: power_Suc)
  then have "m - 2 ^ (p - 1) < 2 ^ (p - 1)" using a by simp
  then show ?thesis by simp
qed

lemma float_int_fields:
  assumes "2 ^ (p - 1) \<le> m" "m < 2 ^ p" "0 < p"
  shows "float_int p bias (e * 2 ^ (p - 1) + (m - 2 ^ (p - 1)))
    = (if bias + (p - 1) \<le> e then m * 2 ^ (e - bias - (p - 1)) else m div 2 ^ (bias + (p - 1) - e))"
  unfolding float_int_def Let_def
  using assms(1) by (simp only: mantissa_range [OF assms] le_add_diff_inverse)

text \<open>A number that fits the significand is exact.\<close>

lemma float_fields_small:
  assumes "0 < n" "n < 2 ^ p"
  shows "float_int p bias (float_fields p bias n) = n"
    "float_fields p bias n < (bit_length n + bias) * 2 ^ (p - 1)"
proof -
  let ?l = "bit_length n"
  have l: "0 < ?l" "?l \<le> p" "2 ^ (?l - 1) \<le> n" "n < 2 ^ ?l"
    using bit_length_bounds [OF assms(1)] bit_length_le [OF assms(2)] by auto
  let ?m = "n * 2 ^ (p - ?l)"
  have pow: "(2 :: nat) ^ (p - 1) = 2 ^ (?l - 1) * 2 ^ (p - ?l)" "(2 :: nat) ^ p = 2 ^ ?l * 2 ^ (p - ?l)"
    using l(1,2) by (simp_all flip: power_add)
  have m: "2 ^ (p - 1) \<le> ?m" "?m < 2 ^ p" using l(3,4) unfolding pow by simp_all
  have p: "0 < p" using l by simp
  have fields: "float_fields p bias n = (?l - 1 + bias) * 2 ^ (p - 1) + (?m - 2 ^ (p - 1))"
    using l(2) by (auto simp: float_fields_def round_sig_def Let_def)
  have "float_int p bias (float_fields p bias n) = ?m div 2 ^ (p - ?l)"
  proof (cases "?l = p")
    case True
    then have "bias + (p - 1) \<le> ?l - 1 + bias" "?l - 1 + bias - bias - (p - 1) = 0" "p - ?l = 0" using p by auto
    then show ?thesis unfolding fields float_int_fields [OF m p] by simp
  next
    case False
    then have "\<not> bias + (p - 1) \<le> ?l - 1 + bias" "bias + (p - 1) - (?l - 1 + bias) = p - ?l" using l by auto
    then show ?thesis unfolding fields float_int_fields [OF m p] by (simp only: if_False)
  qed
  then show "float_int p bias (float_fields p bias n) = n" by simp
  have "(2 :: nat) ^ p = 2 * 2 ^ (p - 1)" using p by (simp flip: power_Suc)
  then have "?m - 2 ^ (p - 1) < 2 ^ (p - 1)" using m by simp
  then have "float_fields p bias n < (?l - 1 + bias) * 2 ^ (p - 1) + 2 ^ (p - 1)" by (simp add: fields)
  also have "\<dots> = Suc (?l - 1 + bias) * 2 ^ (p - 1)" by simp
  also have "Suc (?l - 1 + bias) = ?l + bias" using l(1) by simp
  finally show "float_fields p bias n < (?l + bias) * 2 ^ (p - 1)" .
qed

text \<open>A longer number that rounding leaves alone is exact too.\<close>

lemma float_fields_exact:
  assumes "2 ^ p \<le> n" "0 < p" "round_sig p n = n"
  shows "float_int p bias (float_fields p bias n) = n"
    "float_fields p bias n < (bit_length n + bias) * 2 ^ (p - 1)"
proof -
  let ?l = "bit_length n"
  have n: "0 < n" using assms(1) by (cases n) simp_all
  have l: "p < ?l" "2 ^ (?l - 1) \<le> n" "n < 2 ^ ?l"
    using bit_length_bounds [OF n] bit_length_ge [OF assms(1)] by auto
  let ?s = "?l - p" and ?q = "n div 2 ^ (?l - p)"
  have s: "0 < ?s" using l by simp
  have exact: "n = ?q * 2 ^ ?s"
  proof (rule ccontr)
    assume ne: "n \<noteq> ?q * 2 ^ ?s"
    then have "n mod 2 ^ ?s \<noteq> 0" by (metis add.right_neutral div_mult_mod_eq)
    moreover have "n = (?q + 1) * 2 ^ ?s"
      using assms(3) ne s by (auto simp: round_sig_def Let_def split: if_splits)
    then have "n mod 2 ^ ?s = 0" by (metis mod_mult_self2_is_0)
    ultimately show False by simp
  qed
  have pow: "(2 :: nat) ^ (?l - 1) = 2 ^ (p - 1) * 2 ^ ?s" "(2 :: nat) ^ ?l = 2 ^ p * 2 ^ ?s"
    using l(1) assms(2) by (simp_all flip: power_add)
  have "2 ^ (p - 1) * 2 ^ ?s \<le> ?q * 2 ^ ?s" using l(2) exact unfolding pow(1) by simp
  then have m1: "2 ^ (p - 1) \<le> ?q" by simp
  have "?q * 2 ^ ?s < 2 ^ p * 2 ^ ?s" using l(3) exact unfolding pow(2) by simp
  then have m2: "?q < 2 ^ p" by simp
  have fields: "float_fields p bias n = (?l - 1 + bias) * 2 ^ (p - 1) + (?q - 2 ^ (p - 1))"
    using l(1) by (simp add: float_fields_def assms(3) Let_def)
  have "bias + (p - 1) \<le> ?l - 1 + bias" "?l - 1 + bias - bias - (p - 1) = ?s" using l(1) assms(2) by auto
  then have "float_int p bias (float_fields p bias n) = ?q * 2 ^ ?s"
    unfolding fields float_int_fields [OF m1 m2 assms(2)] by (simp only: if_True)
  then show "float_int p bias (float_fields p bias n) = n" using exact by simp
  have "(2 :: nat) ^ p = 2 * 2 ^ (p - 1)" using assms(2) by (simp flip: power_Suc)
  then have "?q - 2 ^ (p - 1) < 2 ^ (p - 1)" using m1 m2 by simp
  then have "float_fields p bias n < (?l - 1 + bias) * 2 ^ (p - 1) + 2 ^ (p - 1)" by (simp add: fields)
  also have "\<dots> = Suc (?l - 1 + bias) * 2 ^ (p - 1)" by simp
  also have "Suc (?l - 1 + bias) = ?l + bias" using l(1) by simp
  finally show "float_fields p bias n < (?l + bias) * 2 ^ (p - 1)" .
qed

lemma f32_value: "0 < n \<Longrightarrow> n < 2 ^ 53 \<Longrightarrow> round_sig 24 n = n \<Longrightarrow> float_int 24 127 (unat (f32_of_nat n)) = n"
proof -
  assume n: "0 < n" "n < 2 ^ 53" "round_sig 24 n = n"
  have f: "float_int 24 127 (float_fields 24 127 n) = n
      \<and> float_fields 24 127 n < (bit_length n + 127) * 2 ^ (24 - 1)"
    using float_fields_small [OF n(1), of 24 127] float_fields_exact [of 24 n 127] n(3)
    by (cases "n < 2 ^ 24") simp_all
  have "bit_length n \<le> 53" using n(2) by (rule bit_length_le)
  then have "(bit_length n + 127) * 2 ^ (24 - 1) \<le> (180 * 2 ^ 23 :: nat)" by simp
  with f have "float_fields 24 127 n < 2 ^ 32" by simp
  then have "unat (of_nat (float_fields 24 127 n) :: u32) = float_fields 24 127 n" by (simp add: unat_of_nat)
  with f show ?thesis by (simp add: f32_of_nat_def)
qed

lemma f64_value: "0 < n \<Longrightarrow> n < 2 ^ 53 \<Longrightarrow> float_int 53 1023 (unat (f64_of_nat n)) = n"
proof -
  assume n: "0 < n" "n < 2 ^ 53"
  note f = float_fields_small [OF n, of 1023]
  have "bit_length n \<le> 53" using n(2) by (rule bit_length_le)
  then have "(bit_length n + 1023) * 2 ^ (53 - 1) \<le> (1076 * 2 ^ 52 :: nat)" by simp
  with f(2) have "float_fields 53 1023 n < 2 ^ 64" by simp
  then have "unat (of_nat (float_fields 53 1023 n) :: u64) = float_fields 53 1023 n" by (simp add: unat_of_nat)
  with f show ?thesis by (simp add: f64_of_nat_def)
qed

lemma sint_word32: "- (2 ^ 31) \<le> i \<Longrightarrow> i < 2 ^ 31 \<Longrightarrow> sint (word_of_int i :: i32) = i"
  by (simp add: sint_word_ariths signed_of_int signed_take_bit_int_eq_self)

lemma any_from_i64_value:
  assumes "- (2 ^ 31) \<le> sint v"
  shows "any_int_value (any_from_i64 v) = Some (sint v)"
proof (cases "js_int_range (sint v)")
  case True
  then have top: "sint v < 2 ^ 53" by (simp add: js_int_range_def max_js_int_def)
  consider "sint v < 2 ^ 31" | "2 ^ 31 \<le> sint v" by linarith
  then show ?thesis
  proof cases
    case 1
    then show ?thesis using True assms sint_word32 [of "sint v"] by (simp add: any_from_i64_def)
  next
    case 2
    then have n: "0 < nat (sint v)" "nat (sint v) < 2 ^ 53" "int (nat (sint v)) = sint v" using top by auto
    then show ?thesis
      using True 2 f32_value [OF n(1,2)] f64_value [OF n(1,2)] by (simp add: any_from_i64_def Let_def)
  qed
qed (simp add: any_from_i64_def)

section \<open>JSON\<close>

text \<open>
  What the JSON text of a serialised value parses to, as documented for \<open>serde_json\<close>: no \<open>Some\<close>
  layer, integers by sign, bytes as an array of numbers.  Floats are left out: their text is the
  printer's choice.
\<close>

fun json_view :: "ser \<Rightarrow> de option" where
  "json_view SerNone = Some DeUnit"
| "json_view (SerBool b) = Some (DeBool b)"
| "json_view (SerI32 v) = Some (if sint v < 0 then DeI64 (scast v) else DeU64 (scast v))"
| "json_view (SerI64 v) = Some (if sint v < 0 then DeI64 v else DeU64 v)"
| "json_view (SerStr v) = Some (DeStr v)"
| "json_view (SerSeq vs) = map_option DeSeq (those (map json_view vs))"
| "json_view (SerMap kvs) = map_option DeMap
     (those (map (\<lambda>kv. case kv of (k, v) \<Rightarrow> map_option (Pair k) (json_view v)) kvs))"
| "json_view (SerBytes bs) = Some (DeSeq (map (\<lambda>b. DeU64 (ucast b)) bs))"
| "json_view _ = None"

text \<open>The values that come back unchanged: no floats, no bytes, no negative \<open>i32\<close>.\<close>

fun json_stable :: "any \<Rightarrow> bool" where
  "json_stable AnyUndefined = False"
| "json_stable (AnyInteger v) = (0 \<le> sint v)"
| "json_stable (AnyFloat32 _) = False"
| "json_stable (AnyFloat64 _) = False"
| "json_stable (AnyBigInt64 v) = (sint v < 0 \<or> max_js_int < sint v)"
| "json_stable (AnyBinary _) = False"
| "json_stable (AnyArray vs) = list_all json_stable vs"
| "json_stable (AnyObject kvs) = (hm_wf kvs \<and> list_all (\<lambda>kv. case kv of (k, v) \<Rightarrow> json_stable v) kvs)"
| "json_stable _ = True"

lemma those_map_Some: "(\<And>x. x \<in> set xs \<Longrightarrow> f x = Some (g x)) \<Longrightarrow> those (map f xs) = Some (map g xs)"
  by (induction xs) auto

lemma sint_i32_range: "- (2 ^ 31) \<le> sint v" "sint v < 2 ^ 31" for v :: i32
  using sint_ge [of v] sint_lt [of v] by simp_all

lemma scast_i32: "sint (scast v :: i64) = sint v" for v :: i32
  using sint_i32_range [of v] by (simp add: signed_scast_eq signed_take_bit_int_eq_self_iff)

lemma any_from_scast: "0 \<le> sint v \<Longrightarrow> any_from_i64 (scast v) = AnyInteger v" for v :: i32
  using sint_i32_range [of v]
  by (simp add: any_from_i64_def scast_i32 js_int_range_def max_js_int_def)

lemma json_stable_back: "json_stable a \<Longrightarrow> \<exists>d. json_view (any_serialize a) = Some d \<and> any_deserialize d = a"
proof (induction a rule: any_bytes.induct)
  case (3 v)
  then show ?case by (simp add: any_from_scast)
next
  case (6 v)
  then show ?case by (auto simp: any_from_i64_def js_int_range_def)
next
  case (10 kvs)
  define g where "g v = (SOME d. json_view (any_serialize v) = Some d \<and> any_deserialize d = v)" for v
  have g: "json_view (any_serialize v) = Some (g v) \<and> any_deserialize (g v) = v" if "(k, v) \<in> set kvs" for k v
    using "10.IH" [OF that refl] "10.prems" that someI_ex [of "\<lambda>d. json_view (any_serialize v) = Some d \<and> any_deserialize d = v"]
    by (auto simp: g_def list_all_iff)
  have "those (map (\<lambda>kv. case kv of (k, v) \<Rightarrow> map_option (Pair k) (json_view v))
      (map (\<lambda>kv. case kv of (k, v) \<Rightarrow> (k, any_serialize v)) kvs)) = Some (map (\<lambda>kv. (fst kv, g (snd kv))) kvs)"
    unfolding map_map by (rule those_map_Some) (use g in \<open>auto simp: comp_def\<close>)
  moreover have "map (\<lambda>kv. case kv of (k, v) \<Rightarrow> (k, any_deserialize v)) (map (\<lambda>kv. (fst kv, g (snd kv))) kvs) = kvs"
    unfolding map_map by (rule map_idI) (use g in auto)
  ultimately show ?case using "10.prems" by simp
next
  case (11 vs)
  define g where "g v = (SOME d. json_view (any_serialize v) = Some d \<and> any_deserialize d = v)" for v
  have g: "json_view (any_serialize v) = Some (g v) \<and> any_deserialize (g v) = v" if "v \<in> set vs" for v
    using "11.IH" [OF that] "11.prems" that someI_ex [of "\<lambda>d. json_view (any_serialize v) = Some d \<and> any_deserialize d = v"]
    by (auto simp: g_def list_all_iff)
  have "those (map json_view (map any_serialize vs)) = Some (map g vs)"
    unfolding map_map by (rule those_map_Some) (use g in simp)
  moreover have "map any_deserialize (map g vs) = vs"
    unfolding map_map by (rule map_idI) (use g in simp)
  ultimately show ?case by simp
qed simp_all

section \<open>Properties\<close>

text \<open>C25: Every \<open>Any\<close> value survives the wire, whatever its nesting: reading what \<open>Any::write\<close>
  wrote, with anything behind it, gives the value back and stops right behind it.\<close>

theorem any_roundtrip:
  assumes "any_ok a"
  shows "\<exists>bs. write_any new_encoder a = Ok \<lparr>enc_buffer = bs\<rparr>
    \<and> read_any (new_decoder (bs @ rest)) = Ok (a, \<lparr>dec_buffer = bs @ rest, dec_pos = length bs\<rparr>)"
  using decodes_fresh [OF any.rd_enc [OF assms], of rest] by (simp add: write_any_appends new_encoder_def)

lemma any_roundtrip_witness:
  "\<exists>bs. write_any new_encoder (AnyArray [AnyObject [([0x61], AnyInteger (- 5))], AnyNull]) = Ok \<lparr>enc_buffer = bs\<rparr>
    \<and> read_any (new_decoder (bs @ [1])) = Ok (AnyArray [AnyObject [([0x61], AnyInteger (- 5))], AnyNull],
        \<lparr>dec_buffer = bs @ [1], dec_pos = length bs\<rparr>)"
  by (rule any_roundtrip)
    (simp add: hm_wf_def string_ok_def fits_def utf8_valid_def utf8_chars.simps utf8_char_def)

text \<open>The fuel of the reader is never the reason it stops: on every decoder \<open>read_any\<close> satisfies
  the recursive equation of \<open>Any::read\<close>, in which the nested values are read by \<open>read_any\<close>
  itself, and a value it returns has used up at least one byte.\<close>

lemma any_read_total:
  assumes "dec_pos d \<le> length (dec_buffer d)"
  shows "read_any d = any_read_step read_any d
    \<and> (\<forall>a d'. read_any d = Ok (a, d') \<longrightarrow> dec_pos d < dec_pos d' \<and> dec_pos d' \<le> length (dec_buffer d))"
proof (intro conjI allI impI)
  show "read_any d = any_read_step read_any d" using assms by (intro read_any_unfold) (simp add: inside_def)
  fix a d' assume "read_any d = Ok (a, d')"
  note a = advancesD [OF advances_read_any this assms]
  show "dec_pos d < dec_pos d'" using a(2) by simp
  show "dec_pos d' \<le> length (dec_buffer d)" using a(1,3) by metis
qed

lemma any_read_total_witness:
  "read_any \<lparr>dec_buffer = [126], dec_pos = 0\<rparr> = any_read_step read_any \<lparr>dec_buffer = [126], dec_pos = 0\<rparr>"
  using any_read_total [of "\<lparr>dec_buffer = [126], dec_pos = 0\<rparr>"] by simp

text \<open>A number keeps its value: the \<open>Any\<close> made from an \<open>i64\<close> of at least \<open>i32::MIN\<close>, whichever
  of the four representations is chosen, stands for exactly that number.\<close>

lemma any_from_i64_keeps_value:
  assumes "- (2 ^ 31) \<le> sint v"
  shows "any_int_value (any_from_i64 v) = Some (sint v)"
  using assms by (rule any_from_i64_value)

lemma any_from_i64_keeps_value_witness:
  "any_int_value (any_from_i64 4294967296) = Some 4294967296"
  using any_from_i64_keeps_value [of 4294967296] by simp

text \<open>Below \<open>i32::MIN\<close> it does not.  Only the upper end of the \<open>i32\<close> range is tested, so every
  number from \<open>-(2^53 - 1)\<close> up to there becomes an \<open>Integer\<close> of its low 32 bits, another number.\<close>

lemma any_from_i64_truncates:
  assumes "- max_js_int \<le> sint v" "sint v < - (2 ^ 31)"
  shows "any_from_i64 v = AnyInteger (word_of_int (sint v)) \<and> any_int_value (any_from_i64 v) \<noteq> Some (sint v)"
proof -
  have "any_from_i64 v = AnyInteger (word_of_int (sint v))"
    using assms by (simp add: any_from_i64_def js_int_range_def max_js_int_def)
  moreover have "sint (word_of_int (sint v) :: i32) \<noteq> sint v"
    using sint_i32_range(1) [of "word_of_int (sint v)"] assms(2) by simp
  ultimately show ?thesis by simp
qed

lemma any_from_i64_truncates_witness:
  "any_from_i64 (- 3000000000) = AnyInteger 1294967296"
  using any_from_i64_truncates [of "- 3000000000"] by (simp add: max_js_int_def)

text \<open>The JSON form used for embedded and formatted content brings back every value without
  floats, bytes and negative \<open>i32\<close> numbers.  A negative \<open>Integer\<close> comes back as a \<open>BigInt64\<close>, which
  is a different \<open>Any\<close>, because \<open>visit_i64\<close> does not go through the number conversion.\<close>

lemma any_json_stable:
  assumes "json_stable a" "sint v < 0"
  shows "(\<exists>d. json_view (any_serialize a) = Some d \<and> any_deserialize d = a)
    \<and> (\<exists>d. json_view (any_serialize (AnyInteger v)) = Some d \<and> any_deserialize d = AnyBigInt64 (scast v))"
  using json_stable_back [OF assms(1)] assms(2) by simp

lemma any_json_stable_witness:
  "\<exists>d. json_view (any_serialize (AnyObject [([0x61], AnyArray [AnyInteger 7, AnyTrue])])) = Some d
     \<and> any_deserialize d = AnyObject [([0x61], AnyArray [AnyInteger 7, AnyTrue])]"
  using any_json_stable [of "AnyObject [([0x61], AnyArray [AnyInteger 7, AnyTrue])]" "- 1"]
  by (simp add: hm_wf_def)

end
