(* ===== verification/Item_Model.thy ===== *)
theory Item_Model
  imports Any Codec_Interface
begin

text \<open>
  Items and their heap: \<open>libs/jwst-codec/src/doc/codec/item_flag.rs\<close>, \<open>item.rs\<close>, \<open>content.rs\<close>
  (all but the codec), \<open>refs.rs\<close>, \<open>utils/items.rs\<close>, the pointers of \<open>doc/common/somr.rs\<close> and
  the type record of \<open>doc/types/mod.rs\<close>.  Items and types are shared and mutated through
  \<open>Somr\<close> pointers, so they live in an explicit heap; a pointer to a freed cell reads as \<open>None\<close>.
\<close>

section \<open>Flags\<close>

type_synonym item_flag = u8

definition item_keep :: u8 where "item_keep = 1"
definition item_countable :: u8 where "item_countable = 2"
definition item_deleted :: u8 where "item_deleted = 4"
definition item_marked :: u8 where "item_marked = 8"
definition item_has_parent_sub :: u8 where "item_has_parent_sub = 32"
definition item_has_right_id :: u8 where "item_has_right_id = 64"
definition item_has_left_id :: u8 where "item_has_left_id = 128"
definition item_has_sibling :: u8 where "item_has_sibling = 192"

lemmas item_flag_values = item_keep_def item_countable_def item_deleted_def item_marked_def
  item_has_parent_sub_def item_has_right_id_def item_has_left_id_def item_has_sibling_def

definition flag_set :: "u8 \<Rightarrow> item_flag \<Rightarrow> item_flag" where
  "flag_set flag flags = flags OR flag"

definition flag_clear :: "u8 \<Rightarrow> item_flag \<Rightarrow> item_flag" where
  "flag_clear flag flags = flags AND NOT flag"

definition flag_check :: "u8 \<Rightarrow> item_flag \<Rightarrow> bool" where
  "flag_check flag flags \<longleftrightarrow> flags AND flag = flag"

definition flag_not :: "u8 \<Rightarrow> item_flag \<Rightarrow> bool" where
  "flag_not flag flags \<longleftrightarrow> flags AND flag = 0"

definition flag_keep :: "item_flag \<Rightarrow> bool" where "flag_keep = flag_check item_keep"
definition flag_set_keep :: "item_flag \<Rightarrow> item_flag" where "flag_set_keep = flag_set item_keep"
definition flag_clear_keep :: "item_flag \<Rightarrow> item_flag" where "flag_clear_keep = flag_clear item_keep"
definition flag_countable :: "item_flag \<Rightarrow> bool" where "flag_countable = flag_check item_countable"
definition flag_set_countable :: "item_flag \<Rightarrow> item_flag" where "flag_set_countable = flag_set item_countable"
definition flag_clear_countable :: "item_flag \<Rightarrow> item_flag" where "flag_clear_countable = flag_clear item_countable"
definition flag_deleted :: "item_flag \<Rightarrow> bool" where "flag_deleted = flag_check item_deleted"
definition flag_set_deleted :: "item_flag \<Rightarrow> item_flag" where "flag_set_deleted = flag_set item_deleted"
definition flag_clear_deleted :: "item_flag \<Rightarrow> item_flag" where "flag_clear_deleted = flag_clear item_deleted"

section \<open>Pointers and the heap\<close>

text \<open>
  \<open>Somr\<close>: the one owner of a cell, a counted reference to it, or the dangling pointer of
  \<open>Somr::none\<close>.  The reference counts only decide when the memory of an empty cell is returned.
\<close>

datatype somr = SOwned nat | SRef nat | SNone

fun somr_ptr :: "somr \<Rightarrow> nat option" where
  "somr_ptr (SOwned a) = Some a"
| "somr_ptr (SRef a) = Some a"
| "somr_ptr SNone = None"

fun somr_clone :: "somr \<Rightarrow> somr" where
  "somr_clone (SOwned a) = SRef a"
| "somr_clone (SRef a) = SRef a"
| "somr_clone SNone = SNone"

fun somr_is_owned :: "somr \<Rightarrow> bool" where
  "somr_is_owned (SOwned _) = True"
| "somr_is_owned _ = False"

definition somr_ptr_eq :: "somr \<Rightarrow> somr \<Rightarrow> bool" where
  "somr_ptr_eq a b \<longleftrightarrow> somr_ptr a = somr_ptr b"

definition somr_lookup :: "(nat \<Rightarrow> 'a option) \<Rightarrow> somr \<Rightarrow> 'a option" where
  "somr_lookup cells r = (case somr_ptr r of None \<Rightarrow> None | Some a \<Rightarrow> cells a)"

text \<open>\<open>swap_take\<close>: the owner leaves a reference behind.\<close>

definition somr_swap_take :: "somr \<Rightarrow> ('e, somr \<times> somr) result" where
  "somr_swap_take r = rbind (debug_assert (somr_is_owned r)) (\<lambda>_. Ok (r, somr_clone r))"

datatype ytype_kind = KArray | KMap | KText | KXMLElement | KXMLFragment | KXMLHook | KXMLText | KUnknown

definition kind_of_u64 :: "u64 \<Rightarrow> ytype_kind" where
  "kind_of_u64 value =
     (if value = 0 then KArray else if value = 1 then KMap else if value = 2 then KText
      else if value = 3 then KXMLElement else if value = 4 then KXMLFragment
      else if value = 5 then KXMLHook else if value = 6 then KXMLText else KUnknown)"

fun u64_of_kind :: "ytype_kind \<Rightarrow> ('e, u64) result" where
  "u64_of_kind KArray = Ok 0"
| "u64_of_kind KMap = Ok 1"
| "u64_of_kind KText = Ok 2"
| "u64_of_kind KXMLElement = Ok 3"
| "u64_of_kind KXMLFragment = Ok 4"
| "u64_of_kind KXMLHook = Ok 5"
| "u64_of_kind KXMLText = Ok 6"
| "u64_of_kind KUnknown = Panic"

fun kind_name :: "ytype_kind \<Rightarrow> string" where
  "kind_name KArray = ''Array''"
| "kind_name KMap = ''Map''"
| "kind_name KText = ''Text''"
| "kind_name KXMLElement = ''XMLElement''"
| "kind_name KXMLFragment = ''XMLFragment''"
| "kind_name KXMLHook = ''XMLHook''"
| "kind_name KXMLText = ''XMLText''"
| "kind_name KUnknown = ''Unknown''"

text \<open>\<open>yr_store\<close>: the weak pointer to the store can be upgraded.\<close>

record ytype_ref =
  yr_store :: bool
  yr_inner :: somr

record search_marker =
  sm_ptr :: somr
  sm_index :: u64

record ytype =
  yt_start :: somr
  yt_item :: somr
  yt_map :: "(bytes, somr) hashmap"
  yt_len :: u64
  yt_name :: "bytes option"
  yt_root_name :: "bytes option"
  yt_kind :: ytype_kind
  yt_markers :: "search_marker list option"

definition new_ytype :: "ytype_kind \<Rightarrow> bytes option \<Rightarrow> ytype" where
  "new_ytype kind tag_name =
     \<lparr>yt_start = SNone, yt_item = SNone, yt_map = [], yt_len = 0, yt_name = tag_name,
      yt_root_name = None, yt_kind = kind, yt_markers = None\<rparr>"

definition set_kind :: "ytype_kind \<Rightarrow> ytype \<Rightarrow> (codec_error, ytype) result" where
  "set_kind kind ty =
     rbind (debug_assert (kind \<noteq> KUnknown)) (\<lambda>_.
     if yt_kind ty \<noteq> kind then
       (if yt_kind ty = KUnknown then Ok (ty\<lparr>yt_kind := kind\<rparr>)
        else Err (TypeCastError (kind_name kind)))
     else Ok ty)"

datatype content =
    ContentDeleted u64
  | ContentJson "bytes option list"
  | ContentBinary bytes
  | ContentString bytes
  | ContentEmbed any
  | ContentFormat bytes any
  | ContentType ytype_ref
  | ContentAny "any list"
  | ContentDoc bytes any

datatype parent = ParentType ytype_ref | ParentString bytes | ParentId id

record item =
  item_id :: id
  origin_left_id :: "id option"
  origin_right_id :: "id option"
  item_left :: somr
  item_right :: somr
  item_parent :: "parent option"
  parent_sub :: "bytes option"
  item_content :: content
  item_flags :: item_flag

record heap =
  h_items :: "nat \<Rightarrow> item option"
  h_types :: "nat \<Rightarrow> ytype option"
  h_next :: nat

definition empty_heap :: heap where
  "empty_heap = \<lparr>h_items = (\<lambda>_. None), h_types = (\<lambda>_. None), h_next = 0\<rparr>"

text \<open>\<open>Somr::new\<close>.\<close>

definition new_item_ref :: "item \<Rightarrow> heap \<Rightarrow> somr \<times> heap" where
  "new_item_ref i h =
     (SOwned (h_next h), h\<lparr>h_items := (h_items h)(h_next h := Some i), h_next := h_next h + 1\<rparr>)"

definition new_type_cell :: "ytype \<Rightarrow> heap \<Rightarrow> somr \<times> heap" where
  "new_type_cell ty h =
     (SOwned (h_next h), h\<lparr>h_types := (h_types h)(h_next h := Some ty), h_next := h_next h + 1\<rparr>)"

definition new_ytype_ref :: "ytype_kind \<Rightarrow> bytes option \<Rightarrow> heap \<Rightarrow> ytype_ref \<times> heap" where
  "new_ytype_ref kind tag_name h =
     (let (inner, h) = new_type_cell (new_ytype kind tag_name) h in (\<lparr>yr_store = False, yr_inner = inner\<rparr>, h))"

definition get_item :: "heap \<Rightarrow> somr \<Rightarrow> item option" where
  "get_item h r = somr_lookup (h_items h) r"

text \<open>\<open>ty\<close>: the read guard, if the cell is alive.\<close>

definition get_ty :: "heap \<Rightarrow> ytype_ref \<Rightarrow> ytype option" where
  "get_ty h r = somr_lookup (h_types h) (yr_inner r)"

definition put_item :: "somr \<Rightarrow> item \<Rightarrow> heap \<Rightarrow> heap" where
  "put_item r i h =
     (case somr_ptr r of None \<Rightarrow> h | Some a \<Rightarrow> h\<lparr>h_items := (h_items h)(a := Some i)\<rparr>)"

definition put_ty :: "ytype_ref \<Rightarrow> ytype \<Rightarrow> heap \<Rightarrow> heap" where
  "put_ty r ty h =
     (case somr_ptr (yr_inner r) of None \<Rightarrow> h | Some a \<Rightarrow> h\<lparr>h_types := (h_types h)(a := Some ty)\<rparr>)"

text \<open>\<open>get_unchecked\<close> and \<open>get_mut_unchecked\<close> panic on a dangling or emptied pointer.\<close>

definition get_item_unchecked :: "heap \<Rightarrow> somr \<Rightarrow> ('e, item) result" where
  "get_item_unchecked h r = unwrap (get_item h r)"

text \<open>Items are equal when their ids are; two pointers are equal when they are the same or when what
  they point to is equal, two emptied cells included.\<close>

definition item_eq :: "item \<Rightarrow> item \<Rightarrow> bool" where
  "item_eq a b \<longleftrightarrow> item_id a = item_id b"

definition item_option_eq :: "item option \<Rightarrow> item option \<Rightarrow> bool" where
  "item_option_eq a b \<longleftrightarrow>
     (case a of None \<Rightarrow> b = None | Some x \<Rightarrow> (case b of None \<Rightarrow> False | Some y \<Rightarrow> item_eq x y))"

definition item_ref_eq :: "heap \<Rightarrow> somr \<Rightarrow> somr \<Rightarrow> bool" where
  "item_ref_eq h a b \<longleftrightarrow>
     somr_ptr_eq a b \<or> a \<noteq> SNone \<and> b \<noteq> SNone \<and> item_option_eq (get_item h a) (get_item h b)"

section \<open>Content\<close>

definition content_from_any :: "any \<Rightarrow> content" where
  "content_from_any value =
     (case value of AnyArray v \<Rightarrow> ContentAny v | AnyBinary b \<Rightarrow> ContentBinary b | _ \<Rightarrow> ContentAny [value])"

fun content_info :: "content \<Rightarrow> u8" where
  "content_info (ContentDeleted _) = 1"
| "content_info (ContentJson _) = 2"
| "content_info (ContentBinary _) = 3"
| "content_info (ContentString _) = 4"
| "content_info (ContentEmbed _) = 5"
| "content_info (ContentFormat _ _) = 6"
| "content_info (ContentType _) = 7"
| "content_info (ContentAny _) = 8"
| "content_info (ContentDoc _ _) = 9"

text \<open>\<open>chars()\<close> of a Rust string, and \<open>len_utf16\<close> of a character.\<close>

definition str_chars :: "bytes \<Rightarrow> (nat \<times> nat) list" where
  "str_chars s = (case utf8_chars s of None \<Rightarrow> [] | Some cs \<Rightarrow> cs)"

definition len_utf16 :: "nat \<Rightarrow> nat" where
  "len_utf16 ch = (if ch < 0x10000 then 1 else 2)"

definition utf16_len :: "bytes \<Rightarrow> nat" where
  "utf16_len s = sum_list (map (\<lambda>(ch, _). len_utf16 ch) (str_chars s))"

fun clock_len :: "content \<Rightarrow> u64" where
  "clock_len (ContentDeleted len) = len"
| "clock_len (ContentJson strings) = of_nat (length strings)"
| "clock_len (ContentString s) = of_nat (utf16_len s)"
| "clock_len (ContentAny any) = of_nat (length any)"
| "clock_len _ = 1"

fun content_countable :: "content \<Rightarrow> bool" where
  "content_countable (ContentFormat _ _) = False"
| "content_countable (ContentDeleted _) = False"
| "content_countable _ = True"

fun splittable :: "content \<Rightarrow> bool" where
  "splittable (ContentString _) = True"
| "splittable (ContentAny _) = True"
| "splittable (ContentJson _) = True"
| "splittable _ = False"

text \<open>\<open>offset\<close> counts UTF-16 units; the loop stops after the character that reaches it.\<close>

fun utf16_split_loop :: "(nat \<times> nat) list \<Rightarrow> nat \<Rightarrow> nat \<Rightarrow> nat \<Rightarrow> nat" where
  "utf16_split_loop [] offset utf_16_offset utf_8_offset = utf_8_offset"
| "utf16_split_loop ((ch, len_utf8) # chars) offset utf_16_offset utf_8_offset =
     (let utf_16_offset = utf_16_offset + len_utf16 ch; utf_8_offset = utf_8_offset + len_utf8
      in if offset \<le> utf_16_offset then utf_8_offset
         else utf16_split_loop chars offset utf_16_offset utf_8_offset)"

definition split_as_utf16_str :: "bytes \<Rightarrow> nat \<Rightarrow> bytes \<times> bytes" where
  "split_as_utf16_str s offset =
     (let utf_8_offset = utf16_split_loop (str_chars s) offset 0 0
      in (take utf_8_offset s, drop utf_8_offset s))"

definition slice_split_at :: "'a list \<Rightarrow> nat \<Rightarrow> ('e, 'a list \<times> 'a list) result" where
  "slice_split_at xs mid = (if mid \<le> length xs then Ok (take mid xs, drop mid xs) else Panic)"

fun content_split :: "content \<Rightarrow> u64 \<Rightarrow> (codec_error, content \<times> content) result" where
  "content_split (ContentString s) diff =
     (case split_as_utf16_str s (unat diff) of (l, r) \<Rightarrow> Ok (ContentString l, ContentString r))"
| "content_split (ContentJson vec) diff =
     rbind (slice_split_at vec (unat diff)) (\<lambda>(l, r). Ok (ContentJson l, ContentJson r))"
| "content_split (ContentAny vec) diff =
     rbind (slice_split_at vec (unat diff)) (\<lambda>(l, r). Ok (ContentAny l, ContentAny r))"
| "content_split (ContentDeleted len) diff =
     rbind (sub_u64 len diff) (\<lambda>r. Ok (ContentDeleted diff, ContentDeleted r))"
| "content_split _ diff = Err (ContentSplitNotSupport diff)"

section \<open>Items\<close>

text \<open>Cloning an item or a part of it clones the pointers in it.\<close>

definition clone_ytype_ref :: "ytype_ref \<Rightarrow> ytype_ref" where
  "clone_ytype_ref r = r\<lparr>yr_inner := somr_clone (yr_inner r)\<rparr>"

fun clone_parent :: "parent \<Rightarrow> parent" where
  "clone_parent (ParentType r) = ParentType (clone_ytype_ref r)"
| "clone_parent p = p"

fun clone_content :: "content \<Rightarrow> content" where
  "clone_content (ContentType r) = ContentType (clone_ytype_ref r)"
| "clone_content c = c"

definition clone_item :: "item \<Rightarrow> item" where
  "clone_item i =
     i\<lparr>item_left := somr_clone (item_left i), item_right := somr_clone (item_right i),
       item_parent := map_option clone_parent (item_parent i), item_content := clone_content (item_content i)\<rparr>"

definition item_len :: "item \<Rightarrow> u64" where
  "item_len i = clock_len (item_content i)"

definition last_id :: "item \<Rightarrow> ('e, id) result" where
  "last_id i =
     rbind (add_u64 (id_clock (item_id i)) (item_len i)) (\<lambda>c.
     rbind (sub_u64 c 1) (\<lambda>c. Ok (new_id (id_client (item_id i)) c)))"

definition opt_result :: "('a \<Rightarrow> ('e, 'b) result) \<Rightarrow> 'a option \<Rightarrow> ('e, 'b option) result" where
  "opt_result f x = (case x of None \<Rightarrow> Ok None | Some y \<Rightarrow> rbind (f y) (\<lambda>z. Ok (Some z)))"

definition default_item :: item where
  "default_item =
     \<lparr>item_id = new_id 0 0, origin_left_id = None, origin_right_id = None, item_left = SNone,
      item_right = SNone, item_parent = None, parent_sub = None, item_content = ContentDeleted 0, item_flags = 0\<rparr>"

definition new_item ::
    "heap \<Rightarrow> id \<Rightarrow> content \<Rightarrow> somr \<Rightarrow> somr \<Rightarrow> parent option \<Rightarrow> bytes option \<Rightarrow> (codec_error, item) result" where
  "new_item h i content left right parent sub =
     rbind (opt_result last_id (get_item h left)) (\<lambda>left_id.
     Ok \<lparr>item_id = i, origin_left_id = left_id, origin_right_id = map_option item_id (get_item h right),
         item_left = left, item_right = right, item_parent = parent, parent_sub = sub, item_content = content,
         item_flags = (if content_countable content then item_countable else 0)\<rparr>)"

definition find_node_with_parent_info :: "heap \<Rightarrow> item \<Rightarrow> item option" where
  "find_node_with_parent_info h i =
     map_option clone_item
       (if item_parent i \<noteq> None then Some i
        else (case get_item h (item_left i) of
            Some l \<Rightarrow> if item_parent l = None then get_item h (item_right l) else Some l
          | None \<Rightarrow> get_item h (item_right i)))"

definition is_item_deleted :: "item \<Rightarrow> bool" where
  "is_item_deleted i = flag_deleted (item_flags i)"

definition delete_item :: "item \<Rightarrow> bool \<times> item" where
  "delete_item i = (if is_item_deleted i then (False, i) else (True, i\<lparr>item_flags := flag_set_deleted (item_flags i)\<rparr>))"

definition is_item_countable :: "item \<Rightarrow> bool" where
  "is_item_countable i = flag_countable (item_flags i)"

definition is_item_keep :: "item \<Rightarrow> bool" where
  "is_item_keep i = flag_keep (item_flags i)"

definition indexable :: "item \<Rightarrow> bool" where
  "indexable i \<longleftrightarrow> is_item_countable i \<and> \<not> is_item_deleted i"

definition item_split_at :: "heap \<Rightarrow> item \<Rightarrow> u64 \<Rightarrow> (codec_error, item \<times> item) result" where
  "item_split_at h i offset =
     rbind (debug_assert (0 < offset \<and> 1 < item_len i \<and> offset < item_len i)) (\<lambda>_.
     rbind (add_u64 (id_clock (item_id i)) offset) (\<lambda>right_clock.
     rbind (content_split (item_content i) offset) (\<lambda>(left_content, right_content).
     rbind (new_item h (item_id i) left_content SNone SNone (map_option clone_parent (item_parent i)) (parent_sub i)) (\<lambda>left_item.
     rbind (new_item h (new_id (id_client (item_id i)) right_clock) right_content SNone SNone
              (map_option clone_parent (item_parent i)) (parent_sub i)) (\<lambda>right_item.
     let left_item = (if is_item_deleted left_item
                      then left_item\<lparr>item_flags := flag_set_deleted (item_flags left_item)\<rparr> else left_item);
         left_item = (if is_item_keep left_item
                      then left_item\<lparr>item_flags := flag_set_keep (item_flags left_item)\<rparr> else left_item)
     in Ok (left_item, right_item))))))"

definition item_info :: "item \<Rightarrow> u8" where
  "item_info i =
     (let info = content_info (item_content i);
          info = (if origin_left_id i \<noteq> None then info OR item_has_left_id else info);
          info = (if origin_right_id i \<noteq> None then info OR item_has_right_id else info)
      in if parent_sub i \<noteq> None then info OR item_has_parent_sub else info)"

definition is_valid :: "item \<Rightarrow> bool" where
  "is_valid i \<longleftrightarrow>
     (let has_id = origin_left_id i \<noteq> None \<or> origin_right_id i \<noteq> None
      in \<not> has_id \<and> item_parent i \<noteq> None \<or> has_id \<and> item_parent i = None \<and> parent_sub i = None)"

subsection \<open>The builder\<close>

definition builder_new :: item where "builder_new = default_item"

definition builder_id :: "id \<Rightarrow> item \<Rightarrow> item" where "builder_id x i = i\<lparr>item_id := x\<rparr>"

definition builder_left :: "heap \<Rightarrow> somr \<Rightarrow> item \<Rightarrow> (codec_error, item) result" where
  "builder_left h left i =
     (case get_item h left of
        None \<Rightarrow> Ok i
      | Some l \<Rightarrow> rbind (last_id l) (\<lambda>x. Ok (i\<lparr>origin_left_id := Some x, item_left := left\<rparr>)))"

definition builder_right :: "heap \<Rightarrow> somr \<Rightarrow> item \<Rightarrow> item" where
  "builder_right h right i =
     (case get_item h right of
        None \<Rightarrow> i
      | Some r \<Rightarrow> i\<lparr>origin_right_id := Some (item_id r), item_right := right\<rparr>)"

definition builder_left_id :: "id option \<Rightarrow> item \<Rightarrow> item" where "builder_left_id x i = i\<lparr>origin_left_id := x\<rparr>"

definition builder_right_id :: "id option \<Rightarrow> item \<Rightarrow> item" where "builder_right_id x i = i\<lparr>origin_right_id := x\<rparr>"

definition builder_parent :: "parent option \<Rightarrow> item \<Rightarrow> item" where "builder_parent x i = i\<lparr>item_parent := x\<rparr>"

definition builder_parent_sub :: "bytes option \<Rightarrow> item \<Rightarrow> item" where "builder_parent_sub x i = i\<lparr>parent_sub := x\<rparr>"

definition builder_content :: "content \<Rightarrow> item \<Rightarrow> item" where "builder_content x i = i\<lparr>item_content := x\<rparr>"

definition builder_flags :: "item_flag \<Rightarrow> item \<Rightarrow> item" where "builder_flags x i = i\<lparr>item_flags := x\<rparr>"

definition builder_build :: "item \<Rightarrow> item" where
  "builder_build i =
     (if content_countable (item_content i) then i\<lparr>item_flags := flag_set item_countable (item_flags i)\<rparr> else i)"

section \<open>Nodes\<close>

record node_len =
  nl_id :: id
  nl_len :: u64

datatype node = GC node_len | Skip node_len | Item somr

definition new_skip :: "id \<Rightarrow> u64 \<Rightarrow> node" where
  "new_skip i len = Skip \<lparr>nl_id = i, nl_len = len\<rparr>"

definition new_gc :: "id \<Rightarrow> u64 \<Rightarrow> node" where
  "new_gc i len = GC \<lparr>nl_id = i, nl_len = len\<rparr>"

definition node_from_item :: "item \<Rightarrow> heap \<Rightarrow> node \<times> heap" where
  "node_from_item i h = (case new_item_ref i h of (r, h) \<Rightarrow> (Item r, h))"

fun node_eq :: "heap \<Rightarrow> node \<Rightarrow> node \<Rightarrow> bool" where
  "node_eq h (GC a) (GC b) = (nl_id a = nl_id b)"
| "node_eq h (Skip a) (Skip b) = (nl_id a = nl_id b)"
| "node_eq h (Item a) (Item b) = item_option_eq (get_item h a) (get_item h b)"
| "node_eq h _ _ = False"

fun node_id :: "heap \<Rightarrow> node \<Rightarrow> ('e, id) result" where
  "node_id h (GC n) = Ok (nl_id n)"
| "node_id h (Skip n) = Ok (nl_id n)"
| "node_id h (Item r) = rbind (get_item_unchecked h r) (\<lambda>i. Ok (item_id i))"

definition node_client :: "heap \<Rightarrow> node \<Rightarrow> ('e, client) result" where
  "node_client h n = rbind (node_id h n) (\<lambda>i. Ok (id_client i))"

definition node_clock :: "heap \<Rightarrow> node \<Rightarrow> ('e, clock) result" where
  "node_clock h n = rbind (node_id h n) (\<lambda>i. Ok (id_clock i))"

fun node_length :: "heap \<Rightarrow> node \<Rightarrow> ('e, u64) result" where
  "node_length h (GC n) = Ok (nl_len n)"
| "node_length h (Skip n) = Ok (nl_len n)"
| "node_length h (Item r) = rbind (get_item_unchecked h r) (\<lambda>i. Ok (item_len i))"

fun is_gc :: "node \<Rightarrow> bool" where "is_gc (GC _) = True" | "is_gc _ = False"
fun is_skip :: "node \<Rightarrow> bool" where "is_skip (Skip _) = True" | "is_skip _ = False"
fun is_item :: "node \<Rightarrow> bool" where "is_item (Item _) = True" | "is_item _ = False"

fun as_item :: "node \<Rightarrow> somr" where
  "as_item (Item r) = somr_clone r"
| "as_item _ = SNone"

definition as_item_option :: "node option \<Rightarrow> somr" where
  "as_item_option n = (case n of None \<Rightarrow> SNone | Some n \<Rightarrow> as_item n)"

fun node_left :: "heap \<Rightarrow> node \<Rightarrow> node option" where
  "node_left h (Item r) = map_option (\<lambda>i. Item (somr_clone (item_left i))) (get_item h r)"
| "node_left h _ = None"

fun node_right :: "heap \<Rightarrow> node \<Rightarrow> node option" where
  "node_right h (Item r) = map_option (\<lambda>i. Item (somr_clone (item_right i))) (get_item h r)"
| "node_right h _ = None"

text \<open>The loops of \<open>head\<close> and \<open>tail\<close>, with fuel: \<open>None\<close> when it runs out.\<close>

fun node_head :: "nat \<Rightarrow> heap \<Rightarrow> node \<Rightarrow> node option" where
  "node_head 0 h cur = None"
| "node_head (Suc fuel) h cur =
     (case node_left h cur of
        None \<Rightarrow> Some cur
      | Some left \<Rightarrow> if is_item left then node_head fuel h left else Some cur)"

fun node_tail :: "nat \<Rightarrow> heap \<Rightarrow> node \<Rightarrow> node option" where
  "node_tail 0 h cur = None"
| "node_tail (Suc fuel) h cur =
     (case node_right h cur of
        None \<Rightarrow> Some cur
      | Some right \<Rightarrow> if is_item right then node_tail fuel h right else Some cur)"

fun node_flags :: "heap \<Rightarrow> node \<Rightarrow> ('e, item_flag) result" where
  "node_flags h (Item r) = rbind (unwrap (get_item h r)) (\<lambda>i. Ok (item_flags i))"
| "node_flags h _ = Ok 4"

definition node_last_id :: "heap \<Rightarrow> node \<Rightarrow> ('e, id option) result" where
  "node_last_id h n = (case n of Item r \<Rightarrow> opt_result last_id (get_item h r) | _ \<Rightarrow> Ok None)"

definition node_countable :: "heap \<Rightarrow> node \<Rightarrow> ('e, bool) result" where
  "node_countable h n = rbind (node_flags h n) (\<lambda>f. Ok (flag_countable f))"

definition node_deleted :: "heap \<Rightarrow> node \<Rightarrow> ('e, bool) result" where
  "node_deleted h n = rbind (node_flags h n) (\<lambda>f. Ok (flag_deleted f))"

fun node_split_at :: "heap \<Rightarrow> node \<Rightarrow> u64 \<Rightarrow> (codec_error, (node \<times> node) \<times> heap) result" where
  "node_split_at h (Item r) offset =
     rbind (unwrap (get_item h r)) (\<lambda>i.
     rbind (debug_assert (0 < offset \<and> 1 < item_len i \<and> offset < item_len i)) (\<lambda>_.
     rbind (add_u64 (id_clock (item_id i)) offset) (\<lambda>right_clock.
     rbind (content_split (item_content i) offset) (\<lambda>(left_content, right_content).
     rbind (new_item h (item_id i) left_content SNone SNone (map_option clone_parent (item_parent i)) (parent_sub i)) (\<lambda>left_item.
     rbind (new_item h (new_id (id_client (item_id i)) right_clock) right_content SNone SNone
              (map_option clone_parent (item_parent i)) (parent_sub i)) (\<lambda>right_item.
     (case new_item_ref left_item h of (lref, h) \<Rightarrow>
       case new_item_ref right_item h of (rref, h) \<Rightarrow> Ok ((Item lref, Item rref), h))))))))"
| "node_split_at h _ offset = Err ItemSplitNotSupport"


section \<open>Merging\<close>

text \<open>\<open>i64\<close> addition and negation with the overflow check.\<close>

definition add_i64 :: "i64 \<Rightarrow> i64 \<Rightarrow> ('e, i64) result" where
  "add_i64 a b = (if - (2 ^ 63) \<le> sint a + sint b \<and> sint a + sint b < 2 ^ 63 then Ok (a + b) else Panic)"

definition neg_i64 :: "i64 \<Rightarrow> ('e, i64) result" where
  "neg_i64 a = (if a = push_bit 63 1 then Panic else Ok (- a))"

fun replace_marker :: "heap \<Rightarrow> somr \<Rightarrow> somr \<Rightarrow> i64 \<Rightarrow> search_marker list \<Rightarrow> ('e, search_marker list) result" where
  "replace_marker h raw new len_shift [] = Ok []"
| "replace_marker h raw new len_shift (marker # markers) =
     rbind (if item_ref_eq h (sm_ptr marker) raw
            then rbind (add_i64 (sm_index marker) len_shift) (\<lambda>index.
                 Ok \<lparr>sm_ptr = somr_clone new, sm_index = index\<rparr>)
            else Ok marker) (\<lambda>marker.
     rbind (replace_marker h raw new len_shift markers) (\<lambda>markers. Ok (marker # markers)))"

text \<open>
  Dropping an owned pointer empties its cell, and the cell of a type the item owns; what a type
  refers to in turn are references, whose drop changes no cell.
\<close>

definition drop_type :: "ytype_ref \<Rightarrow> heap \<Rightarrow> heap" where
  "drop_type r h = (case yr_inner r of SOwned a \<Rightarrow> h\<lparr>h_types := (h_types h)(a := None)\<rparr> | _ \<Rightarrow> h)"

definition drop_item :: "somr \<Rightarrow> heap \<Rightarrow> heap" where
  "drop_item r h =
     (case r of
        SOwned a \<Rightarrow>
          let h' = h\<lparr>h_items := (h_items h)(a := None)\<rparr>
          in (case map_option item_content (h_items h a) of Some (ContentType ty) \<Rightarrow> drop_type ty h' | _ \<Rightarrow> h')
      | _ \<Rightarrow> h)"

text \<open>The contents after \<open>merge\<close> has moved the right one into the left one, or \<open>None\<close>.\<close>

fun content_merge :: "content \<Rightarrow> content \<Rightarrow> ('e, (content \<times> content) option) result" where
  "content_merge (ContentDeleted l) (ContentDeleted r) =
     rbind (add_u64 l r) (\<lambda>l. Ok (Some (ContentDeleted l, ContentDeleted r)))"
| "content_merge (ContentJson l) (ContentJson r) = Ok (Some (ContentJson (l @ r), ContentJson []))"
| "content_merge (ContentString l) (ContentString r) = Ok (Some (ContentString (l @ r), ContentString r))"
| "content_merge (ContentAny l) (ContentAny r) = Ok (Some (ContentAny (l @ r), ContentAny []))"
| "content_merge _ _ = Ok None"

text \<open>The conditions of \<open>merge\<close>, in the order they are tested.\<close>

definition can_merge :: "heap \<Rightarrow> item \<Rightarrow> item \<Rightarrow> somr \<Rightarrow> ('e, bool) result" where
  "can_merge h litem ritem rref =
     (if id_client (item_id litem) \<noteq> id_client (item_id ritem)
         \<or> is_item_deleted litem \<noteq> is_item_deleted ritem then Ok False
      else rbind (add_u64 (id_clock (item_id litem)) (item_len litem)) (\<lambda>next.
        if next \<noteq> id_clock (item_id ritem) then Ok False
        else rbind (last_id litem) (\<lambda>lid.
          Ok (Some lid = origin_left_id ritem \<and> origin_right_id litem = origin_right_id ritem
              \<and> item_ref_eq h (item_right litem) rref))))"

definition merge_markers :: "somr \<Rightarrow> somr \<Rightarrow> u64 \<Rightarrow> item \<Rightarrow> heap \<Rightarrow> ('e, heap) result" where
  "merge_markers lref rref llen litem h =
     (case item_parent litem of
        Some (ParentType p) \<Rightarrow>
          (case get_ty h p of
             Some ty \<Rightarrow>
               (case yt_markers ty of
                  Some markers \<Rightarrow>
                    rbind (neg_i64 llen) (\<lambda>shift.
                    rbind (replace_marker h rref lref shift markers) (\<lambda>markers.
                    Ok (put_ty p (ty\<lparr>yt_markers := Some markers\<rparr>) h)))
                | None \<Rightarrow> Ok h)
           | None \<Rightarrow> Ok h)
      | _ \<Rightarrow> Ok h)"

text \<open>\<open>merge\<close> takes \<open>right\<close> by value and drops it; the result has the node, the answer and the heap.\<close>

definition merge_items :: "heap \<Rightarrow> somr \<Rightarrow> somr \<Rightarrow> ('e, bool \<times> heap) result" where
  "merge_items h lref rref =
     rbind (get_item_unchecked h lref) (\<lambda>litem.
     rbind (get_item_unchecked h rref) (\<lambda>ritem.
     rbind (can_merge h litem ritem rref) (\<lambda>ok.
     if \<not> ok then Ok (False, h)
     else rbind (content_merge (item_content litem) (item_content ritem)) (\<lambda>contents.
       case contents of
         None \<Rightarrow> Ok (False, h)
       | Some (lcontent, rcontent) \<Rightarrow>
           let h = put_item rref (ritem\<lparr>item_content := rcontent\<rparr>)
                     (put_item lref (litem\<lparr>item_content := lcontent\<rparr>) h)
           in rbind (merge_markers lref rref (item_len litem) litem h) (\<lambda>h.
              let litem = litem\<lparr>item_content := lcontent,
                     item_flags := (if is_item_keep ritem then flag_set_keep (item_flags litem) else item_flags litem),
                     item_right := somr_clone (item_right ritem)\<rparr>;
                  h = put_item lref litem h
              in (case get_item h (item_right litem) of
                    None \<Rightarrow> Ok (True, h)
                  | Some rr \<Rightarrow> Ok (True, put_item (item_right litem) (rr\<lparr>item_left := somr_clone lref\<rparr>) h)))))))"

fun node_merge :: "heap \<Rightarrow> node \<Rightarrow> node \<Rightarrow> ('e, node \<times> bool \<times> heap) result" where
  "node_merge h (GC l) (GC r) =
     rbind (add_u64 (nl_len l) (nl_len r)) (\<lambda>n. Ok (GC (l\<lparr>nl_len := n\<rparr>), True, h))"
| "node_merge h (Skip l) (Skip r) =
     rbind (add_u64 (nl_len l) (nl_len r)) (\<lambda>n. Ok (Skip (l\<lparr>nl_len := n\<rparr>), True, h))"
| "node_merge h (Item lref) (Item rref) =
     rbind (merge_items h lref rref) (\<lambda>(merged, h). Ok (Item lref, merged, drop_item rref h))"
| "node_merge h left (Item rref) = Ok (left, False, drop_item rref h)"
| "node_merge h left right = Ok (left, False, h)"

end
