(* ===== verification/Item_Laws.thy ===== *)
theory Item_Laws
  imports Item_Model
begin

text \<open>
  What splitting, merging and walking items do: the flag byte as a set of bits, \<open>Content::split\<close> with
  its UTF-16 offsets, \<open>Item::split_at\<close> (\<open>libs/jwst-codec/src/doc/codec/content.rs\<close>, \<open>item.rs\<close>) and
  \<open>Node::head\<close> (\<open>refs.rs\<close>).
\<close>

section \<open>Flags as bits\<close>

named_theorems flag_simps \<open>the flag operations as bits\<close>

lemma and_single_bit:
  assumes "n < 8"
  shows "(w :: u8) AND push_bit n 1 = push_bit n 1 \<longleftrightarrow> bit w n"
proof
  assume "w AND push_bit n 1 = push_bit n 1"
  then have "bit (w AND push_bit n 1) n = bit (push_bit n (1 :: u8)) n" by simp
  then show "bit w n" using \<open>n < 8\<close> by (simp add: bit_simps)
next
  assume "bit w n"
  then show "w AND push_bit n 1 = push_bit n 1"
    by (intro bit_word_eqI) (auto simp: bit_simps)
qed

lemma flag_values_push:
  "item_keep = push_bit 0 1" "item_countable = push_bit 1 1" "item_deleted = push_bit 2 1"
  by (simp_all add: item_flag_values)

lemma flag_checks [flag_simps]:
  "flag_keep w \<longleftrightarrow> bit w 0" "flag_countable w \<longleftrightarrow> bit w 1" "flag_deleted w \<longleftrightarrow> bit w 2"
  unfolding flag_keep_def flag_countable_def flag_deleted_def flag_check_def flag_values_push
  by (simp_all only: and_single_bit)

lemma flag_updates [flag_simps]:
  "bit (flag_set (push_bit n 1) w) m \<longleftrightarrow> bit w m \<or> n < 8 \<and> m = n"
  "bit (flag_clear (push_bit n 1) w) m \<longleftrightarrow> bit w m \<and> m \<noteq> n"
  by (auto simp: flag_set_def flag_clear_def bit_simps dest: bit_imp_le_length)


lemma flag_of_countable [flag_simps]: "bit item_countable n \<longleftrightarrow> n = 1"
  unfolding flag_values_push by (auto simp: bit_simps)

section \<open>Splitting a string\<close>

definition widths8 :: "(nat \<times> nat) list \<Rightarrow> nat" where "widths8 cs = sum_list (map snd cs)"
definition widths16 :: "(nat \<times> nat) list \<Rightarrow> nat" where "widths16 cs = sum_list (map (\<lambda>(ch, _). len_utf16 ch) cs)"

lemma widths_simps [simp]:
  "widths8 [] = 0" "widths8 (c # cs) = snd c + widths8 cs" "widths8 (cs @ ds) = widths8 cs + widths8 ds"
  "widths16 [] = 0" "widths16 (c # cs) = len_utf16 (fst c) + widths16 cs"
  "widths16 (cs @ ds) = widths16 cs + widths16 ds"
  by (auto simp: widths8_def widths16_def split: prod.splits)

lemma len_utf16_bounds: "1 \<le> len_utf16 ch" "len_utf16 ch \<le> 2"
  by (simp_all add: len_utf16_def)

lemma utf8_char_take:
  assumes "utf8_char bs = Some (c, w)" "w \<le> m"
  shows "utf8_char (take m bs) = Some (c, w)"
proof (cases bs)
  case Nil
  with assms show ?thesis by (simp add: utf8_char_def)
next
  case b0: (Cons b0 r0)
  show ?thesis
  proof (cases "b0 < 0x80")
    case True
    with assms b0 show ?thesis by (cases m) (auto simp: utf8_char_def)
  next
    case ge: False
    then obtain b1 r1 where b1: "r0 = b1 # r1" using assms b0 by (auto simp: utf8_char_def split: list.splits)
    show ?thesis
    proof (cases "0xC2 \<le> b0 \<and> b0 \<le> 0xDF")
      case True
      then have "w = 2" using assms b0 b1 ge by (simp add: utf8_char_def split: if_splits)
      then obtain k where "m = Suc (Suc k)" using assms(2) by (metis add_2_eq_Suc le_iff_add)
      then show ?thesis using assms True b0 b1 ge by (simp add: utf8_char_def)
    next
      case ge2: False
      then obtain b2 r2 where b2: "r1 = b2 # r2"
        using assms b0 b1 ge by (auto simp: utf8_char_def simp del: de_Morgan_conj split: list.splits)
      show ?thesis
      proof (cases "0xE0 \<le> b0 \<and> b0 \<le> 0xEF")
        case True
        then have "w = 3" using assms b0 b1 b2 ge ge2
          by (simp add: utf8_char_def del: de_Morgan_conj split: if_splits)
        then obtain k where "m = Suc (Suc (Suc k))" using assms(2) by (metis add_Suc eval_nat_numeral(3) add_2_eq_Suc le_iff_add)
        then show ?thesis using assms True b0 b1 b2 ge ge2
          by (simp add: utf8_char_def del: de_Morgan_conj)
      next
        case ge3: False
        then obtain b3 r3 where b3: "r2 = b3 # r3"
          using assms b0 b1 b2 ge ge2 by (auto simp: utf8_char_def simp del: de_Morgan_conj split: list.splits)
        have "w = 4" using assms b0 b1 b2 b3 ge ge2 ge3
          by (simp add: utf8_char_def del: de_Morgan_conj split: if_splits)
        then obtain k where "m = Suc (Suc (Suc (Suc k)))" using assms(2)
          by (metis add_Suc eval_nat_numeral(2,3) add_2_eq_Suc le_iff_add numeral_Bit0 add.assoc)
        then show ?thesis using assms b0 b1 b2 b3 ge ge2 ge3
          by (simp add: utf8_char_def del: de_Morgan_conj)
      qed
    qed
  qed
qed

lemma utf8_chars_Cons:
  assumes "utf8_chars bs = Some (x # cs)"
  shows "bs \<noteq> []" "utf8_char bs = Some x" "utf8_chars (drop (snd x) bs) = Some cs"
    "0 < snd x" "snd x \<le> length bs"
  using assms utf8_char_width [of bs "fst x" "snd x"] utf8_chars.simps [of bs]
  by (auto split: if_splits option.splits prod.splits)

lemma utf8_chars_Nil: "utf8_chars bs = Some [] \<Longrightarrow> bs = []"
  using utf8_chars.simps [of bs] by (auto split: if_splits option.splits prod.splits)

lemma utf8_chars_empty [simp]: "utf8_chars [] = Some []"
  by (simp add: utf8_chars.simps)

lemma utf8_chars_width: "utf8_chars bs = Some cs \<Longrightarrow> widths8 cs = length bs"
proof (induction cs arbitrary: bs)
  case Nil
  then show ?case by (auto dest: utf8_chars_Nil)
next
  case (Cons x cs)
  note u = utf8_chars_Cons [OF Cons.prems]
  from Cons.IH [OF u(3)] u(5) show ?case by simp
qed

lemma utf8_chars_take_drop:
  "utf8_chars bs = Some (as @ cs) \<Longrightarrow>
   utf8_chars (take (widths8 as) bs) = Some as \<and> utf8_chars (drop (widths8 as) bs) = Some cs"
proof (induction as arbitrary: bs)
  case (Cons x as)
  then have *: "utf8_chars bs = Some (x # (as @ cs))" by simp
  note u = utf8_chars_Cons [OF *]
  note IH = Cons.IH [OF u(3)]
  have t: "utf8_char (take (widths8 (x # as)) bs) = Some (fst x, snd x)"
    using u(2) by (intro utf8_char_take) simp_all
  have "take (widths8 (x # as)) bs \<noteq> []" using u(1,4) by simp
  with t IH show ?case
    by (cases x) (simp add: utf8_chars.simps [of "take (_ + widths8 as) bs"] drop_take add.commute)
qed simp

text \<open>
  The loop stops after the first character that reaches the offset.
\<close>

lemma utf16_split_loop_at:
  "a < off \<Longrightarrow> off \<le> a + widths16 cs \<Longrightarrow>
   \<exists>as x ds. cs = as @ x # ds \<and> utf16_split_loop cs off a b = b + widths8 as + snd x
     \<and> a + widths16 as < off \<and> off \<le> a + widths16 as + len_utf16 (fst x)"
proof (induction cs arbitrary: a b)
  case (Cons c cs)
  obtain ch w where c: "c = (ch, w)" by (cases c)
  show ?case
  proof (cases "off \<le> a + len_utf16 ch")
    case True
    with Cons.prems c have "c # cs = [] @ c # cs \<and> utf16_split_loop (c # cs) off a b = b + widths8 [] + snd c
      \<and> a + widths16 [] < off \<and> off \<le> a + widths16 [] + len_utf16 (fst c)"
      by (simp add: Let_def)
    then show ?thesis by blast
  next
    case False
    then have "a + len_utf16 ch < off" "off \<le> (a + len_utf16 ch) + widths16 cs"
      using Cons.prems c by simp_all
    from Cons.IH [OF this, of "b + w"] obtain as x ds where
      "cs = as @ x # ds" "utf16_split_loop cs off (a + len_utf16 ch) (b + w) = b + w + widths8 as + snd x"
      "a + len_utf16 ch + widths16 as < off" "off \<le> a + len_utf16 ch + widths16 as + len_utf16 (fst x)"
      by blast
    with False c have "c # cs = (c # as) @ x # ds \<and> utf16_split_loop (c # cs) off a b = b + widths8 (c # as) + snd x
      \<and> a + widths16 (c # as) < off \<and> off \<le> a + widths16 (c # as) + len_utf16 (fst x)"
      by (simp add: Let_def)
    then show ?thesis by blast
  qed
qed simp

text \<open>An offset is a boundary when some characters of the string have that many UTF-16 units.\<close>

definition utf16_boundary :: "bytes \<Rightarrow> nat \<Rightarrow> bool" where
  "utf16_boundary s offset \<longleftrightarrow> (\<exists>k \<le> length (str_chars s). widths16 (take k (str_chars s)) = offset)"

lemma utf16_len_widths: "utf16_len s = widths16 (str_chars s)"
  by (simp add: utf16_len_def widths16_def)

lemma widths16_take_mono: "j \<le> k \<Longrightarrow> widths16 (take j cs) \<le> widths16 (take k cs)"
  by (metis le_iff_add take_add widths_simps(6) le_add1)

lemma boundary_unique:
  assumes "cs = as @ x # ds" "widths16 as < off" "off \<le> widths16 as + len_utf16 (fst x)"
  shows "(\<exists>k \<le> length cs. widths16 (take k cs) = off) \<longleftrightarrow> off = widths16 as + len_utf16 (fst x)"
proof
  assume "\<exists>k \<le> length cs. widths16 (take k cs) = off"
  then obtain k where k: "widths16 (take k cs) = off" by blast
  have "\<not> k \<le> length as"
    using assms(1,2) k widths16_take_mono [of k "length as" cs] by auto
  then have "widths16 (take (Suc (length as)) cs) \<le> off"
    using k widths16_take_mono [of "Suc (length as)" k cs] by simp
  with assms show "off = widths16 as + len_utf16 (fst x)" by simp
next
  assume "off = widths16 as + len_utf16 (fst x)"
  with assms(1) have "Suc (length as) \<le> length cs \<and> widths16 (take (Suc (length as)) cs) = off" by simp
  then show "\<exists>k \<le> length cs. widths16 (take k cs) = off" by blast
qed

lemma split_as_utf16_str_exact:
  assumes "utf8_valid s" "0 < off" "off \<le> utf16_len s"
  obtains l r where "split_as_utf16_str s off = (l, r)" "s = l @ r" "utf8_valid l" "utf8_valid r"
    "utf16_len l = (if utf16_boundary s off then off else off + 1)" "utf16_len l + utf16_len r = utf16_len s"
proof -
  obtain cs where cs: "utf8_chars s = Some cs" using assms(1) by (auto simp: utf8_valid_def)
  then have ch: "str_chars s = cs" by (simp add: str_chars_def)
  obtain as x ds where l: "cs = as @ x # ds" "utf16_split_loop cs off 0 0 = widths8 as + snd x"
    "widths16 as < off" "off \<le> widths16 as + len_utf16 (fst x)"
    using utf16_split_loop_at [of 0 off cs 0] assms ch by (auto simp: utf16_len_widths)
  let ?n = "widths8 (as @ [x])"
  have sp: "utf8_chars (take ?n s) = Some (as @ [x])" "utf8_chars (drop ?n s) = Some ds"
    using utf8_chars_take_drop [of s "as @ [x]" ds] cs l(1) by simp_all
  have b: "utf16_boundary s off \<longleftrightarrow> off = widths16 as + len_utf16 (fst x)"
    using boundary_unique [OF l(1,3,4)] by (simp add: utf16_boundary_def ch)
  have w: "utf16_len (take ?n s) = widths16 as + len_utf16 (fst x)" "utf16_len (drop ?n s) = widths16 ds"
    using sp by (simp_all add: utf16_len_widths str_chars_def)
  show thesis
  proof (rule that [of "take ?n s" "drop ?n s"])
    show "split_as_utf16_str s off = (take ?n s, drop ?n s)"
      using l(2) by (simp add: split_as_utf16_str_def ch Let_def)
    show "utf16_len (take ?n s) = (if utf16_boundary s off then off else off + 1)"
      using w b l(3,4) len_utf16_bounds [of "fst x"] by auto
    show "utf16_len (take ?n s) + utf16_len (drop ?n s) = utf16_len s"
      using w l(1) by (simp add: utf16_len_widths ch)
  qed (use sp in \<open>simp_all add: utf8_valid_def\<close>)
qed


section \<open>Splitting and merging contents\<close>

text \<open>Contents that are in memory: counts fit in 64 bits and strings are UTF-8.\<close>

fun content_ok :: "content \<Rightarrow> bool" where
  "content_ok (ContentJson xs) = (length xs < 2 ^ 64)"
| "content_ok (ContentAny xs) = (length xs < 2 ^ 64)"
| "content_ok (ContentString s) = (utf8_valid s \<and> utf16_len s < 2 ^ 64)"
| "content_ok _ = True"

fun is_deleted_content :: "content \<Rightarrow> bool" where
  "is_deleted_content (ContentDeleted _) = True"
| "is_deleted_content _ = False"

fun split_boundary :: "content \<Rightarrow> u64 \<Rightarrow> bool" where
  "split_boundary (ContentString s) d = utf16_boundary s (unat d)"
| "split_boundary _ d = True"

lemma content_split_merge:
  assumes "content_ok c" "splittable c \<or> is_deleted_content c" "0 < d" "d \<le> clock_len c"
  obtains l r r' where
    "content_split c d = Ok (l, r)" "content_merge l r = (Ok (Some (c, r')) :: _ codec_result)"
    "unat (clock_len l) = (if split_boundary c d then unat d else unat d + 1)"
    "unat (clock_len l) + unat (clock_len r) = unat (clock_len c)"
    "content_countable l = content_countable c" "content_countable r = content_countable c"
proof (cases c)
  case (ContentDeleted n)
  with assms have "d \<le> n" by simp
  then have "content_merge (ContentDeleted d) (ContentDeleted (n - d)) = (Ok (Some (c, ContentDeleted (n - d))) :: _ codec_result)"
    using ContentDeleted unat_u64_less [of n] by (simp add: add_u64_def word_facts)
  with ContentDeleted \<open>d \<le> n\<close> show thesis
    by (intro that [of "ContentDeleted d" "ContentDeleted (n - d)" "ContentDeleted (n - d)"])
      (simp_all add: sub_u64_def word_facts)
next
  case (ContentJson xs)
  with assms have "unat d \<le> length xs" "length xs < 18446744073709551616"
    by (simp_all add: word_le_nat_alt unat_of_nat)
  with ContentJson unat_minus_u64 [OF assms(4)] show thesis
    by (intro that [of "ContentJson (take (unat d) xs)" "ContentJson (drop (unat d) xs)" "ContentJson []"])
      (simp_all add: slice_split_at_def unat_of_nat)
next
  case (ContentAny xs)
  with assms have "unat d \<le> length xs" "length xs < 18446744073709551616"
    by (simp_all add: word_le_nat_alt unat_of_nat)
  with ContentAny unat_minus_u64 [OF assms(4)] show thesis
    by (intro that [of "ContentAny (take (unat d) xs)" "ContentAny (drop (unat d) xs)" "ContentAny []"])
      (simp_all add: slice_split_at_def unat_of_nat)
next
  case (ContentString s)
  with assms have d: "0 < unat d" "unat d \<le> utf16_len s" and s: "utf8_valid s" "utf16_len s < 18446744073709551616"
    by (simp_all add: word_le_nat_alt unat_of_nat word_less_nat_alt)
  from split_as_utf16_str_exact [OF s(1) d] obtain l r where
    lr: "split_as_utf16_str s (unat d) = (l, r)" "s = l @ r"
      "utf16_len l = (if utf16_boundary s (unat d) then unat d else unat d + 1)"
      "utf16_len l + utf16_len r = utf16_len s" .
  from lr(4) s(2) have "utf16_len l < 18446744073709551616" "utf16_len r < 18446744073709551616" by simp_all
  with ContentString lr s(2) show thesis
    by (intro that [of "ContentString l" "ContentString r" "ContentString r"]) (simp_all add: unat_of_nat)
qed (use assms in simp_all)

section \<open>Splitting items\<close>

lemma new_item_unlinked:
  "new_item h i c SNone SNone p s =
     Ok \<lparr>item_id = i, origin_left_id = None, origin_right_id = None, item_left = SNone, item_right = SNone,
         item_parent = p, parent_sub = s, item_content = c,
         item_flags = (if content_countable c then item_countable else 0)\<rparr>"
  by (simp add: new_item_def get_item_def somr_lookup_def opt_result_def)

lemma fresh_flags:
  "flag_deleted (if b then item_countable else 0) \<longleftrightarrow> False" "flag_keep (if b then item_countable else 0) \<longleftrightarrow> False"
  by (simp_all add: flag_simps)

text \<open>Splitting an item at an offset inside it gives two items with consecutive ids, the parent
  and the key of the original, whose contents put together again are the original content and
  whose lengths add up to its length; the left one has the requested length unless the offset is
  inside a surrogate pair of a string, when it gets one more.  Both are unlinked and their flags
  say only whether the content is countable: a deleted or kept item loses these flags.\<close>

lemma item_split_at_exact:
  assumes "content_ok (item_content i)" "splittable (item_content i) \<or> is_deleted_content (item_content i)"
    and "0 < offset" "offset < item_len i" "unat (id_clock (item_id i)) + unat offset < 2 ^ 64"
  shows "\<exists>l r r'. item_split_at h i offset = Ok (l, r)
    \<and> item_id l = item_id i
    \<and> item_id r = new_id (id_client (item_id i)) (id_clock (item_id i) + offset)
    \<and> item_parent l = map_option clone_parent (item_parent i) \<and> item_parent r = item_parent l
    \<and> parent_sub l = parent_sub i \<and> parent_sub r = parent_sub i
    \<and> content_merge (item_content l) (item_content r) = (Ok (Some (item_content i, r')) :: _ codec_result)
    \<and> unat (item_len l) = (if split_boundary (item_content i) offset then unat offset else unat offset + 1)
    \<and> unat (item_len l) + unat (item_len r) = unat (item_len i)
    \<and> origin_left_id r = None \<and> item_left r = SNone \<and> item_right l = SNone
    \<and> item_flags l = (if content_countable (item_content i) then item_countable else 0)
    \<and> item_flags r = item_flags l"
proof -
  have one: "1 < item_len i" using assms(3,4) by (simp add: word_less_nat_alt)
  have "offset \<le> clock_len (item_content i)" using assms(4) by (simp add: item_len_def)
  from content_split_merge [OF assms(1,2,3) this] obtain l r r' where lr:
    "content_split (item_content i) offset = Ok (l, r)" "content_merge l r = (Ok (Some (item_content i, r')) :: _ codec_result)"
    "unat (clock_len l) = (if split_boundary (item_content i) offset then unat offset else unat offset + 1)"
    "unat (clock_len l) + unat (clock_len r) = unat (clock_len (item_content i))"
    "content_countable l = content_countable (item_content i)" "content_countable r = content_countable (item_content i)" .
  show ?thesis
    using assms(3-5) one lr
    by (simp add: item_split_at_def new_item_unlinked is_item_deleted_def is_item_keep_def fresh_flags
        add_u64_def item_len_def Let_def)
qed


definition text_item :: item where
  "text_item = default_item\<lparr>item_id := new_id 7 10, item_content := ContentString (str_bytes ''abc''), item_flags := 7\<rparr>"

lemma text_item_chars: "utf8_chars (str_bytes ''abc'') = Some [(97, 1), (98, 1), (99, 1)]"
  by (simp add: str_bytes_def utf8_chars.simps utf8_char_def)

lemma item_split_at_exact_witness:
  "\<exists>l r r'. item_split_at empty_heap text_item 2 = Ok (l, r)
    \<and> item_id r = new_id 7 12 \<and> is_item_deleted text_item \<and> item_flags l = item_countable \<and> item_flags r = item_flags l"
proof -
  have s: "utf8_valid (str_bytes ''abc'')" "utf16_len (str_bytes ''abc'') = 3"
    by (simp_all add: utf8_valid_def utf16_len_def str_chars_def text_item_chars len_utf16_def)
  show ?thesis
    using item_split_at_exact [of text_item 2 empty_heap] s
    by (auto simp: text_item_def item_len_def new_id_def is_item_deleted_def flag_deleted_def flag_check_def
        item_deleted_def)
qed

section \<open>The head of a chain\<close>

text \<open>\<open>left_chain h r n\<close>: following \<open>left\<close> from \<open>r\<close> meets \<open>n\<close> items and then a dead pointer.\<close>

inductive left_chain :: "heap \<Rightarrow> somr \<Rightarrow> nat \<Rightarrow> bool" for h where
  left_end: "get_item h r = None \<Longrightarrow> left_chain h r 0"
| left_step: "get_item h r = Some i \<Longrightarrow> left_chain h (somr_clone (item_left i)) n \<Longrightarrow> left_chain h r (Suc n)"

lemma node_head_dead:
  "left_chain h r n \<Longrightarrow> n < fuel \<Longrightarrow> \<exists>r'. node_head fuel h (Item r) = Some (Item r') \<and> get_item h r' = None"
proof (induction arbitrary: fuel rule: left_chain.induct)
  case (left_end r)
  then show ?case by (cases fuel) auto
next
  case (left_step r i n)
  then show ?case by (cases fuel) auto
qed

text \<open>On every finite chain \<open>Node::head\<close> ends, with at most one step more than the chain has items,
  and what it gives back points to no item: the loop steps to the pointer left of the leftmost item,
  since \<open>is_item\<close> holds for a node around an empty pointer too.\<close>

lemma node_head_never_item:
  assumes "left_chain h r n" "n < fuel"
  shows "\<exists>m. node_head fuel h (Item r) = Some m \<and> get_item h (as_item m) = None"
proof -
  from node_head_dead [OF assms] obtain r' where "node_head fuel h (Item r) = Some (Item r')" "get_item h r' = None"
    by blast
  moreover from this(2) have "get_item h (somr_clone r') = None"
    by (cases r') (simp_all add: get_item_def somr_lookup_def)
  ultimately show ?thesis by simp
qed

definition one_item_heap :: heap where "one_item_heap = snd (new_item_ref text_item empty_heap)"

lemma one_item_heap_get [simp]:
  "get_item one_item_heap (SRef 0) = Some text_item" "get_item one_item_heap SNone = None"
  by (simp_all add: one_item_heap_def new_item_ref_def empty_heap_def get_item_def somr_lookup_def)

lemma node_head_never_item_witness:
  "\<exists>m. node_head 2 one_item_heap (Item (SRef 0)) = Some m \<and> get_item one_item_heap (as_item m) = None
     \<and> get_item one_item_heap (SRef 0) = Some text_item"
proof -
  have "left_chain one_item_heap (SRef 0) (Suc 0)"
    by (rule left_step [where i = text_item]) (auto intro: left_end simp: text_item_def default_item_def)
  from node_head_never_item [OF this, of 2] show ?thesis by simp
qed

end
