(* ===== verification/Item_Codec.thy ===== *)
theory Item_Codec
  imports Item_Laws
begin

text \<open>
  The binary form of contents, items and nodes: the readers and writers of
  \<open>libs/jwst-codec/src/doc/codec/content.rs\<close>, \<open>item.rs\<close> and \<open>refs.rs\<close>.  A reader may allocate, so
  it takes the heap and returns it; a writer only looks into it.  What \<open>serde_json\<close> prints and
  parses is a parameter.  \<open>sent_item\<close> and its companions say what arrives on the other side.
\<close>

section \<open>Definitions\<close>

text \<open>\<open>serde_json::to_string\<close> and \<open>from_str\<close> on the data models of \<open>serde\<close>, and the size of an \<open>Any\<close>.\<close>

record serde_env =
  to_json :: "ser \<Rightarrow> bytes option"
  from_json :: "bytes \<Rightarrow> de option"
  size_of_any :: nat

definition read_opt :: "bool \<Rightarrow> 'a reader \<Rightarrow> 'a option reader" where
  "read_opt b rd decoder =
     (if b then rbind (rd decoder) (\<lambda>(x, decoder). Ok (Some x, decoder)) else Ok (None, decoder))"

definition undefined_str :: bytes where "undefined_str = str_bytes ''undefined''"

definition read_json_string :: "bytes option reader" where
  "read_json_string decoder =
     rbind (dec_read_var_string decoder) (\<lambda>(s, decoder). Ok (if s \<noteq> undefined_str then Some s else None, decoder))"

definition read_json_any :: "serde_env \<Rightarrow> any reader" where
  "read_json_any env decoder =
     rbind (dec_read_var_string decoder) (\<lambda>(s, decoder).
     case from_json env s of
       None \<Rightarrow> Err DamagedDocumentJson
     | Some json \<Rightarrow> Ok (any_deserialize json, decoder))"

definition read_tag_name :: "ytype_kind \<Rightarrow> u64 \<Rightarrow> bytes option reader" where
  "read_tag_name kind type_ref decoder =
     (if kind = KXMLElement \<or> kind = KXMLHook then rbind (dec_read_var_string decoder) (\<lambda>(s, decoder). Ok (Some s, decoder))
      else if kind = KUnknown then Err (IncompleteDocument (UnknownYType type_ref))
      else Ok (None, decoder))"

definition read_content :: "serde_env \<Rightarrow> u8 \<Rightarrow> heap \<Rightarrow> (content \<times> heap) reader" where
  "read_content env tag_type h decoder =
     (if tag_type = 1 then rbind (dec_read_var_u64 decoder) (\<lambda>(len, decoder). Ok ((ContentDeleted len, h), decoder))
      else if tag_type = 2 then
        rbind (dec_read_var_u64 decoder) (\<lambda>(len, decoder).
        rbind (read_times read_json_string (unat len) decoder) (\<lambda>(strings, decoder).
        Ok ((ContentJson strings, h), decoder)))
      else if tag_type = 3 then rbind (dec_read_var_buffer decoder) (\<lambda>(buf, decoder). Ok ((ContentBinary buf, h), decoder))
      else if tag_type = 4 then rbind (dec_read_var_string decoder) (\<lambda>(s, decoder). Ok ((ContentString s, h), decoder))
      else if tag_type = 5 then rbind (read_json_any env decoder) (\<lambda>(json, decoder). Ok ((ContentEmbed json, h), decoder))
      else if tag_type = 6 then
        rbind (dec_read_var_string decoder) (\<lambda>(key, decoder).
        rbind (read_json_any env decoder) (\<lambda>(value, decoder).
        Ok ((ContentFormat key value, h), decoder)))
      else if tag_type = 7 then
        rbind (dec_read_var_u64 decoder) (\<lambda>(type_ref, decoder).
        rbind (read_tag_name (kind_of_u64 type_ref) type_ref decoder) (\<lambda>(tag_name, decoder).
        Ok (case new_ytype_ref (kind_of_u64 type_ref) tag_name h of (r, h) \<Rightarrow> (ContentType r, h), decoder)))
      else if tag_type = 8 then
        rbind (any_read_multiple (size_of_any env) decoder) (\<lambda>(any, decoder). Ok ((ContentAny any, h), decoder))
      else if tag_type = 9 then
        rbind (dec_read_var_string decoder) (\<lambda>(guid, decoder).
        rbind (read_any decoder) (\<lambda>(opts, decoder).
        Ok ((ContentDoc guid opts, h), decoder)))
      else Err (IncompleteDocument (UnknownContentType tag_type)))"

definition write_json_string :: "bytes option writer" where
  "write_json_string encoder s =
     enc_write_var_string encoder (case s of Some s \<Rightarrow> s | None \<Rightarrow> undefined_str)"

definition write_json_any :: "serde_env \<Rightarrow> any writer" where
  "write_json_any env encoder a =
     (case to_json env (any_serialize a) of
        None \<Rightarrow> Err DamagedDocumentJson
      | Some s \<Rightarrow> enc_write_var_string encoder s)"

definition write_content :: "serde_env \<Rightarrow> heap \<Rightarrow> content writer" where
  "write_content env h encoder c =
     (case c of
        ContentDeleted len \<Rightarrow> enc_write_var_u64 encoder len
      | ContentJson strings \<Rightarrow>
          rbind (enc_write_var_u64 encoder (of_nat (length strings))) (\<lambda>encoder.
          write_each write_json_string encoder strings)
      | ContentBinary buffer \<Rightarrow> enc_write_var_buffer encoder buffer
      | ContentString s \<Rightarrow> enc_write_var_string encoder s
      | ContentEmbed val \<Rightarrow> write_json_any env encoder val
      | ContentFormat key value \<Rightarrow>
          rbind (enc_write_var_string encoder key) (\<lambda>encoder. write_json_any env encoder value)
      | ContentType r \<Rightarrow>
          (case get_ty h r of
             None \<Rightarrow> Ok encoder
           | Some ty \<Rightarrow>
               rbind (u64_of_kind (yt_kind ty)) (\<lambda>type_ref.
               rbind (enc_write_var_u64 encoder type_ref) (\<lambda>encoder.
               if yt_kind ty = KXMLElement \<or> yt_kind ty = KXMLHook
               then rbind (unwrap (yt_name ty)) (\<lambda>name. enc_write_var_string encoder name)
               else Ok encoder)))
      | ContentAny any \<Rightarrow> any_write_multiple encoder any
      | ContentDoc guid opts \<Rightarrow>
          rbind (enc_write_var_string encoder guid) (\<lambda>encoder. write_any encoder opts))"

definition read_parent :: "parent reader" where
  "read_parent decoder =
     rbind (dec_read_var_u64 decoder) (\<lambda>(has_parent, decoder).
     if has_parent = 1 then rbind (dec_read_var_string decoder) (\<lambda>(s, decoder). Ok (ParentString s, decoder))
     else rbind (dec_read_item_id decoder) (\<lambda>(i, decoder). Ok (ParentId i, decoder)))"

text \<open>The flags after reading, and the item; \<open>is_valid\<close> is asserted at the end.\<close>

definition read_flags :: "content \<Rightarrow> item_flag" where
  "read_flags c =
     (let flags = (if content_countable c then flag_set_countable 0 else 0)
      in case c of ContentDeleted _ \<Rightarrow> flag_set_deleted flags | _ \<Rightarrow> flags)"

definition read_item :: "serde_env \<Rightarrow> id \<Rightarrow> u8 \<Rightarrow> u8 \<Rightarrow> heap \<Rightarrow> (item \<times> heap) reader" where
  "read_item env i info first_5_bit h decoder =
     rbind (read_opt (flag_check item_has_left_id info) dec_read_item_id decoder) (\<lambda>(left_id, decoder).
     rbind (read_opt (flag_check item_has_right_id info) dec_read_item_id decoder) (\<lambda>(right_id, decoder).
     rbind (read_opt (flag_not item_has_sibling info) read_parent decoder) (\<lambda>(parent, decoder).
     rbind (read_opt (flag_not item_has_sibling info \<and> flag_check item_has_parent_sub info)
              dec_read_var_string decoder) (\<lambda>(sub, decoder).
     rbind (debug_assert (first_5_bit \<noteq> 0 \<and> first_5_bit \<noteq> 10)) (\<lambda>_.
     rbind (read_content env first_5_bit h decoder) (\<lambda>((content, h), decoder).
     let i = \<lparr>item_id = i, origin_left_id = left_id, origin_right_id = right_id, item_left = SNone,
              item_right = SNone, item_parent = parent, parent_sub = sub, item_content = content,
              item_flags = read_flags content\<rparr>
     in rbind (debug_assert (is_valid i)) (\<lambda>_. Ok ((i, h), decoder))))))))"

definition write_opt :: "'a writer \<Rightarrow> 'a option writer" where
  "write_opt wr encoder x = (case x of None \<Rightarrow> Ok encoder | Some y \<Rightarrow> wr encoder y)"

definition write_parent :: "heap \<Rightarrow> parent writer" where
  "write_parent h encoder p =
     (case p of
        ParentString s \<Rightarrow> rbind (enc_write_var_u64 encoder 1) (\<lambda>encoder. enc_write_var_string encoder s)
      | ParentId i \<Rightarrow> rbind (enc_write_var_u64 encoder 0) (\<lambda>encoder. enc_write_item_id encoder i)
      | ParentType r \<Rightarrow>
          (case get_ty h r of
             None \<Rightarrow> Ok encoder
           | Some ty \<Rightarrow>
               (case get_item h (yt_item ty) of
                  Some i \<Rightarrow> rbind (enc_write_var_u64 encoder 0) (\<lambda>encoder. enc_write_item_id encoder (item_id i))
                | None \<Rightarrow>
                    (case yt_root_name ty of
                       Some name \<Rightarrow> rbind (enc_write_var_u64 encoder 1) (\<lambda>encoder. enc_write_var_string encoder name)
                     | None \<Rightarrow> Ok encoder))))"

definition write_item :: "serde_env \<Rightarrow> heap \<Rightarrow> item writer" where
  "write_item env h encoder i =
     (let info = item_info i;
          has_not_sibling = (info AND item_has_sibling = 0)
      in rbind (enc_write_info encoder info) (\<lambda>encoder.
         rbind (write_opt enc_write_item_id encoder (origin_left_id i)) (\<lambda>encoder.
         rbind (write_opt enc_write_item_id encoder (origin_right_id i)) (\<lambda>encoder.
         rbind (if has_not_sibling then
                  rbind (case item_parent i of
                           Some p \<Rightarrow> write_parent h encoder p
                         | None \<Rightarrow> rbind (debug_assert (\<not> is_item_deleted i)) (\<lambda>_. Err ParentNotFound)) (\<lambda>encoder.
                  write_opt enc_write_var_string encoder (parent_sub i))
                else Ok encoder) (\<lambda>encoder.
         write_content env h encoder (item_content i))))))"

text \<open>Nodes.  A type that was read learns which item holds it.\<close>

definition link_type :: "item \<Rightarrow> somr \<Rightarrow> heap \<Rightarrow> heap" where
  "link_type i r h =
     (case item_content i of
        ContentType t \<Rightarrow>
          (case get_ty h t of Some ty \<Rightarrow> put_ty t (ty\<lparr>yt_item := somr_clone r\<rparr>) h | None \<Rightarrow> h)
      | _ \<Rightarrow> h)"

definition read_node :: "serde_env \<Rightarrow> id \<Rightarrow> heap \<Rightarrow> (node \<times> heap) reader" where
  "read_node env i h decoder =
     rbind (dec_read_info decoder) (\<lambda>(info, decoder).
     let first_5_bit = info AND 31
     in if first_5_bit = 0 then rbind (dec_read_var_u64 decoder) (\<lambda>(len, decoder). Ok ((new_gc i len, h), decoder))
        else if first_5_bit = 10 then
          rbind (dec_read_var_u64 decoder) (\<lambda>(len, decoder). Ok ((new_skip i len, h), decoder))
        else
          rbind (read_item env i info first_5_bit h decoder) (\<lambda>((item, h), decoder).
          Ok (case new_item_ref item h of (r, h) \<Rightarrow> (Item r, link_type item r h), decoder)))"

definition write_node :: "serde_env \<Rightarrow> heap \<Rightarrow> node writer" where
  "write_node env h encoder n =
     (case n of
        GC g \<Rightarrow> rbind (enc_write_info encoder 0) (\<lambda>encoder. enc_write_var_u64 encoder (nl_len g))
      | Skip g \<Rightarrow> rbind (enc_write_info encoder 10) (\<lambda>encoder. enc_write_var_u64 encoder (nl_len g))
      | Item r \<Rightarrow> rbind (unwrap (get_item h r)) (\<lambda>i. write_item env h encoder i))"

section \<open>What arrives\<close>

text \<open>
  The content, item and node that a reader with heap \<open>hr\<close> makes from what a writer with heap \<open>h\<close>
  sends: a type arrives empty, with its kind and the tag name of the kinds that have one; a parent
  that is a type arrives as the id of its item or as its root name; an item with an origin arrives
  without parent.
\<close>

definition sent_name :: "ytype \<Rightarrow> bytes option" where
  "sent_name ty = (if yt_kind ty = KXMLElement \<or> yt_kind ty = KXMLHook then yt_name ty else None)"

definition sent_content :: "heap \<Rightarrow> content \<Rightarrow> heap \<Rightarrow> content \<times> heap" where
  "sent_content h c hr =
     (case c of
        ContentType r \<Rightarrow>
          (case get_ty h r of
             None \<Rightarrow> (c, hr)
           | Some ty \<Rightarrow> (case new_ytype_ref (yt_kind ty) (sent_name ty) hr of (r, hr) \<Rightarrow> (ContentType r, hr)))
      | _ \<Rightarrow> (c, hr))"

definition has_origin :: "item \<Rightarrow> bool" where
  "has_origin i \<longleftrightarrow> origin_left_id i \<noteq> None \<or> origin_right_id i \<noteq> None"

fun sent_parent :: "heap \<Rightarrow> parent \<Rightarrow> parent option" where
  "sent_parent h (ParentType r) =
     (case get_ty h r of
        None \<Rightarrow> None
      | Some ty \<Rightarrow>
          (case get_item h (yt_item ty) of
             Some i \<Rightarrow> Some (ParentId (item_id i))
           | None \<Rightarrow> map_option ParentString (yt_root_name ty)))"
| "sent_parent h p = Some p"

definition sent_item :: "heap \<Rightarrow> item \<Rightarrow> heap \<Rightarrow> item \<times> heap" where
  "sent_item h i hr =
     (case sent_content h (item_content i) hr of
        (c, hr) \<Rightarrow>
          (\<lparr>item_id = item_id i, origin_left_id = origin_left_id i, origin_right_id = origin_right_id i,
            item_left = SNone, item_right = SNone,
            item_parent = (if has_origin i then None else Option.bind (item_parent i) (sent_parent h)),
            parent_sub = (if has_origin i then None else parent_sub i),
            item_content = c, item_flags = read_flags c\<rparr>, hr))"

fun sent_node :: "heap \<Rightarrow> node \<Rightarrow> heap \<Rightarrow> node \<times> heap" where
  "sent_node h (Item r) hr =
     (case get_item h r of
        None \<Rightarrow> (Item r, hr)
      | Some i \<Rightarrow>
          (case sent_item h i hr of
             (item, hr) \<Rightarrow> (case new_item_ref item hr of (r, hr) \<Rightarrow> (Item r, link_type item r hr))))"
| "sent_node h n hr = (n, hr)"

section \<open>The bytes\<close>

definition json_string_bytes :: "bytes option \<Rightarrow> bytes" where
  "json_string_bytes s = buffer_bytes (case s of Some s \<Rightarrow> s | None \<Rightarrow> undefined_str)"

definition json_any_bytes :: "serde_env \<Rightarrow> any \<Rightarrow> bytes" where
  "json_any_bytes env a = buffer_bytes (the (to_json env (any_serialize a)))"

definition kind_number :: "ytype_kind \<Rightarrow> u64" where
  "kind_number k = (case (u64_of_kind k :: u64 codec_result) of Ok n \<Rightarrow> n | _ \<Rightarrow> 0)"

definition type_bytes :: "ytype \<Rightarrow> bytes" where
  "type_bytes ty = var_u64_bytes (kind_number (yt_kind ty))
     @ (case sent_name ty of Some name \<Rightarrow> buffer_bytes name | None \<Rightarrow> [])"

definition content_bytes :: "serde_env \<Rightarrow> heap \<Rightarrow> content \<Rightarrow> bytes" where
  "content_bytes env h c =
     (case c of
        ContentDeleted len \<Rightarrow> var_u64_bytes len
      | ContentJson strings \<Rightarrow> var_u64_bytes (of_nat (length strings)) @ concat (map json_string_bytes strings)
      | ContentBinary buffer \<Rightarrow> buffer_bytes buffer
      | ContentString s \<Rightarrow> buffer_bytes s
      | ContentEmbed val \<Rightarrow> json_any_bytes env val
      | ContentFormat key value \<Rightarrow> buffer_bytes key @ json_any_bytes env value
      | ContentType r \<Rightarrow> (case get_ty h r of Some ty \<Rightarrow> type_bytes ty | None \<Rightarrow> [])
      | ContentAny any \<Rightarrow> any_multiple_bytes any
      | ContentDoc guid opts \<Rightarrow> buffer_bytes guid @ any_bytes opts)"

definition json_string_ok :: "bytes option \<Rightarrow> bool" where
  "json_string_ok s = (case s of None \<Rightarrow> True | Some s \<Rightarrow> string_ok s \<and> s \<noteq> undefined_str)"

definition json_any_ok :: "serde_env \<Rightarrow> any \<Rightarrow> bool" where
  "json_any_ok env a \<longleftrightarrow>
     (case to_json env (any_serialize a) of
        None \<Rightarrow> False
      | Some s \<Rightarrow> string_ok s \<and> map_option any_deserialize (from_json env s) = Some a)"

definition type_ok :: "ytype \<Rightarrow> bool" where
  "type_ok ty \<longleftrightarrow> yt_kind ty \<noteq> KUnknown \<and>
     (yt_kind ty = KXMLElement \<or> yt_kind ty = KXMLHook \<longrightarrow> (case yt_name ty of Some n \<Rightarrow> string_ok n | None \<Rightarrow> False))"

definition content_sendable :: "serde_env \<Rightarrow> heap \<Rightarrow> content \<Rightarrow> bool" where
  "content_sendable env h c =
     (case c of
        ContentDeleted len \<Rightarrow> True
      | ContentJson strings \<Rightarrow> length strings < 2 ^ 64 \<and> list_all json_string_ok strings
      | ContentBinary buffer \<Rightarrow> fits buffer
      | ContentString s \<Rightarrow> string_ok s
      | ContentEmbed val \<Rightarrow> json_any_ok env val
      | ContentFormat key value \<Rightarrow> string_ok key \<and> json_any_ok env value
      | ContentType r \<Rightarrow> (case get_ty h r of Some ty \<Rightarrow> type_ok ty | None \<Rightarrow> False)
      | ContentAny any \<Rightarrow> any_multiple_ok (size_of_any env) any
      | ContentDoc guid opts \<Rightarrow> string_ok guid \<and> any_ok opts)"

lemma undefined_str_ok: "string_ok undefined_str"
proof -
  have "utf8_chars undefined_str \<noteq> None"
    by (simp add: undefined_str_def str_bytes_def utf8_chars.simps utf8_char_def)
  then show ?thesis by (simp add: string_ok_def utf8_valid_def fits_def undefined_str_def str_bytes_def)
qed

lemma json_string_decodes: "json_string_ok s \<Longrightarrow> decodes read_json_string (json_string_bytes s) s"
proof -
  assume ok: "json_string_ok s"
  let ?t = "case s of Some s \<Rightarrow> s | None \<Rightarrow> undefined_str"
  have "string_ok ?t" using ok undefined_str_ok by (auto simp: json_string_ok_def split: option.splits)
  from decodes_map [OF var_string.rd_enc [OF this], of "\<lambda>s. if s \<noteq> undefined_str then Some s else None"]
  have "decodes read_json_string (buffer_bytes ?t) (if ?t \<noteq> undefined_str then Some ?t else None)"
    by (simp add: read_json_string_def [abs_def])
  moreover have "(if ?t \<noteq> undefined_str then Some ?t else None) = s"
    using ok by (auto simp: json_string_ok_def split: option.splits)
  ultimately show ?thesis by (simp add: json_string_bytes_def)
qed

lemma json_string_appends: "json_string_ok s \<Longrightarrow> appends write_json_string s (json_string_bytes s)"
  using var_string.wr_enc undefined_str_ok
  by (auto simp: appends_def write_json_string_def json_string_bytes_def json_string_ok_def split: option.splits)

lemma json_any_decodes:
  assumes "json_any_ok env a"
  shows "decodes (read_json_any env) (json_any_bytes env a) a"
proof -
  from assms obtain s json where s: "to_json env (any_serialize a) = Some s" "string_ok s"
    "from_json env s = Some json" "any_deserialize json = a"
    by (auto simp: json_any_ok_def split: option.splits)
  have "decodes (\<lambda>d. case from_json env s of None \<Rightarrow> Err DamagedDocumentJson | Some json \<Rightarrow> Ok (any_deserialize json, d)) [] a"
    using s by (simp add: decodes_return)
  from decodes_bind [where f = "\<lambda>s d. case from_json env s of None \<Rightarrow> Err DamagedDocumentJson
    | Some json \<Rightarrow> Ok (any_deserialize json, d)", OF var_string.rd_enc [OF s(2)] this]
  show ?thesis by (simp add: read_json_any_def [abs_def] json_any_bytes_def s)
qed

lemma json_any_appends: "json_any_ok env a \<Longrightarrow> appends (write_json_any env) a (json_any_bytes env a)"
  using var_string.wr_enc
  by (auto simp: appends_def write_json_any_def json_any_bytes_def json_any_ok_def split: option.splits)

lemma kind_number_back: "k \<noteq> KUnknown \<Longrightarrow> kind_of_u64 (kind_number k) = k \<and> u64_of_kind k = (Ok (kind_number k) :: _ codec_result)"
  by (cases k) (simp_all add: kind_number_def kind_of_u64_def)


lemma read_content_tags:
  "read_content env 1 h = (\<lambda>d. rbind (dec_read_var_u64 d) (\<lambda>(len, d). Ok ((ContentDeleted len, h), d)))"
  "read_content env 2 h = (\<lambda>d. rbind (dec_read_var_u64 d) (\<lambda>(len, d).
     rbind (read_times read_json_string (unat len) d) (\<lambda>(strings, d). Ok ((ContentJson strings, h), d))))"
  "read_content env 3 h = (\<lambda>d. rbind (dec_read_var_buffer d) (\<lambda>(buf, d). Ok ((ContentBinary buf, h), d)))"
  "read_content env 4 h = (\<lambda>d. rbind (dec_read_var_string d) (\<lambda>(s, d). Ok ((ContentString s, h), d)))"
  "read_content env 5 h = (\<lambda>d. rbind (read_json_any env d) (\<lambda>(json, d). Ok ((ContentEmbed json, h), d)))"
  "read_content env 6 h = (\<lambda>d. rbind (dec_read_var_string d) (\<lambda>(key, d).
     rbind (read_json_any env d) (\<lambda>(value, d). Ok ((ContentFormat key value, h), d))))"
  "read_content env 7 h = (\<lambda>d. rbind (dec_read_var_u64 d) (\<lambda>(type_ref, d).
     rbind (read_tag_name (kind_of_u64 type_ref) type_ref d) (\<lambda>(tag_name, d).
     Ok (case new_ytype_ref (kind_of_u64 type_ref) tag_name h of (r, h) \<Rightarrow> (ContentType r, h), d))))"
  "read_content env 8 h = (\<lambda>d. rbind (any_read_multiple (size_of_any env) d) (\<lambda>(any, d). Ok ((ContentAny any, h), d)))"
  "read_content env 9 h = (\<lambda>d. rbind (dec_read_var_string d) (\<lambda>(guid, d).
     rbind (read_any d) (\<lambda>(opts, d). Ok ((ContentDoc guid opts, h), d))))"
  by (simp_all add: read_content_def fun_eq_iff)

lemma tag_name_decodes:
  assumes "type_ok ty"
  shows "decodes (read_tag_name (yt_kind ty) n) (case sent_name ty of Some name \<Rightarrow> buffer_bytes name | None \<Rightarrow> []) (sent_name ty)"
proof (cases "yt_kind ty = KXMLElement \<or> yt_kind ty = KXMLHook")
  case True
  with assms obtain s where s: "yt_name ty = Some s" "string_ok s" by (auto simp: type_ok_def split: option.splits)
  from True have "read_tag_name (yt_kind ty) n = (\<lambda>d. rbind (dec_read_var_string d) (\<lambda>(s, d). Ok (Some s, d)))"
    by (simp add: read_tag_name_def fun_eq_iff)
  with True s decodes_map [OF var_string.rd_enc [OF s(2)], of Some] show ?thesis by (simp add: sent_name_def)
next
  case False
  with assms have "read_tag_name (yt_kind ty) n = (\<lambda>d. Ok (None, d))"
    by (simp add: read_tag_name_def fun_eq_iff type_ok_def)
  with False decodes_return [of None] show ?thesis by (simp add: sent_name_def)
qed

lemma content_decodes:
  assumes "content_sendable env h c"
  shows "decodes (read_content env (content_info c) hr) (content_bytes env h c) (sent_content h c hr)"
proof (cases c)
  case (ContentDeleted len)
  then show ?thesis
    using decodes_map [OF var_u64.rd_enc [OF TrueI], of "\<lambda>len. (ContentDeleted len, hr)" len]
    by (simp add: read_content_tags content_bytes_def sent_content_def)
next
  case (ContentJson strings)
  with assms have ok: "length strings < 2 ^ 64" "list_all json_string_ok strings" by (simp_all add: content_sendable_def)
  have "decodes (read_times read_json_string (length strings)) (concat (map json_string_bytes strings)) strings"
    by (intro decodes_times json_string_decodes) (use ok in \<open>simp add: list_all_iff\<close>)
  from decodes_map [OF this, of "\<lambda>s. (ContentJson s, hr)"] have
    "decodes (\<lambda>d. rbind (read_times read_json_string (unat (of_nat (length strings) :: u64)) d)
       (\<lambda>(strings, d). Ok ((ContentJson strings, hr), d))) (concat (map json_string_bytes strings)) (ContentJson strings, hr)"
    by (simp only: unat_length [OF ok(1)])
  then show ?thesis
    unfolding ContentJson content_bytes_def content_info.simps read_content_tags sent_content_def content.simps
    by (intro decodes_bind [OF var_u64.rd_enc]) simp_all
next
  case (ContentBinary buf)
  with assms have ok: "fits buf" by (simp add: content_sendable_def)
  with ContentBinary show ?thesis
    using decodes_map [OF var_buffer.rd_enc [OF ok], of "\<lambda>b. (ContentBinary b, hr)"]
    by (simp add: read_content_tags content_bytes_def sent_content_def)
next
  case (ContentString s)
  with assms have ok: "string_ok s" by (simp add: content_sendable_def)
  with ContentString show ?thesis
    using decodes_map [OF var_string.rd_enc [OF ok], of "\<lambda>b. (ContentString b, hr)"]
    by (simp add: read_content_tags content_bytes_def sent_content_def)
next
  case (ContentEmbed a)
  with assms have ok: "json_any_ok env a" by (simp add: content_sendable_def)
  with ContentEmbed show ?thesis
    using decodes_map [OF json_any_decodes [OF ok], of "\<lambda>b. (ContentEmbed b, hr)"]
    by (simp add: read_content_tags content_bytes_def sent_content_def)
next
  case (ContentFormat key a)
  with assms have ok: "string_ok key" "json_any_ok env a" by (simp_all add: content_sendable_def)
  then show ?thesis
    unfolding ContentFormat content_bytes_def content_info.simps read_content_tags sent_content_def content.simps
    using decodes_map [OF json_any_decodes [OF ok(2)], of "\<lambda>b. (ContentFormat key b, hr)"]
    by (intro decodes_bind [OF var_string.rd_enc [OF ok(1)]]) simp_all
next
  case (ContentType r)
  with assms obtain ty where ty: "get_ty h r = Some ty" "type_ok ty"
    by (auto simp: content_sendable_def split: option.splits)
  then have k: "kind_of_u64 (kind_number (yt_kind ty)) = yt_kind ty" by (simp add: type_ok_def kind_number_back)
  have bytes: "content_bytes env h (ContentType r) = var_u64_bytes (kind_number (yt_kind ty))
      @ (case sent_name ty of Some name \<Rightarrow> buffer_bytes name | None \<Rightarrow> [])"
    using ty by (simp add: content_bytes_def type_bytes_def)
  have sent: "sent_content h (ContentType r) hr
      = (case new_ytype_ref (yt_kind ty) (sent_name ty) hr of (r, hr) \<Rightarrow> (ContentType r, hr))"
    using ty by (simp add: sent_content_def)
  show ?thesis
    unfolding ContentType content_info.simps read_content_tags bytes sent
    by (rule decodes_bind [OF var_u64.rd_enc [OF TrueI]], unfold k)
      (rule decodes_map [OF tag_name_decodes [OF ty(2)],
        where g = "\<lambda>n. case new_ytype_ref (yt_kind ty) n hr of (r, h) \<Rightarrow> (ContentType r, h)"])
next
  case (ContentAny any)
  with assms have ok: "any_multiple_ok (size_of_any env) any" by (simp add: content_sendable_def)
  with ContentAny show ?thesis
    using decodes_map [OF any_multiple_decodes [OF ok], of "\<lambda>b. (ContentAny b, hr)"]
    by (simp add: read_content_tags content_bytes_def sent_content_def)
next
  case (ContentDoc guid opts)
  with assms have ok: "string_ok guid" "any_ok opts" by (simp_all add: content_sendable_def)
  then show ?thesis
    unfolding ContentDoc content_bytes_def content_info.simps read_content_tags sent_content_def content.simps
    using decodes_map [OF any.rd_enc [OF ok(2)], of "\<lambda>b. (ContentDoc guid b, hr)"]
    by (intro decodes_bind [OF var_string.rd_enc [OF ok(1)]]) simp_all
qed

lemma content_appends:
  assumes "content_sendable env h c"
  shows "appends (write_content env h) c (content_bytes env h c)"
proof (cases c)
  case (ContentJson strings)
  with assms have "appends (write_each write_json_string) strings (concat (map json_string_bytes strings))"
    by (intro write_each_appends json_string_appends) (simp add: content_sendable_def list_all_iff)
  with ContentJson show ?thesis
    by (simp add: appends_def write_content_def content_bytes_def appendsD [OF var_u64.wr_enc])
next
  case (ContentType r)
  with assms obtain ty where ty: "get_ty h r = Some ty" "type_ok ty"
    by (auto simp: content_sendable_def split: option.splits)
  then have k: "u64_of_kind (yt_kind ty) = (Ok (kind_number (yt_kind ty)) :: _ codec_result)"
    by (simp add: type_ok_def kind_number_back)
  with ContentType ty show ?thesis
    by (auto simp: appends_def write_content_def content_bytes_def type_bytes_def sent_name_def type_ok_def
        appendsD [OF var_u64.wr_enc] appendsD [OF var_string.wr_enc] split: option.splits)
qed (use assms in \<open>simp_all add: appends_def write_content_def content_bytes_def content_sendable_def
    appendsD [OF var_u64.wr_enc] appendsD [OF var_string.wr_enc] appendsD [OF var_buffer.wr_enc]
    appendsD [OF any_multiple_appends] appendsD [OF any.wr_enc] appendsD [OF json_any_appends]\<close>)


section \<open>Items\<close>

lemma decodes_opt:
  assumes "\<And>y. x = Some y \<Longrightarrow> decodes rd (enc y) y"
  shows "decodes (read_opt (x \<noteq> None) rd) (case x of None \<Rightarrow> [] | Some y \<Rightarrow> enc y) x"
proof (cases x)
  case None
  then show ?thesis using decodes_return [of None] by (simp add: read_opt_def [abs_def])
next
  case (Some y)
  with decodes_map [OF assms [OF Some], of Some] show ?thesis by (simp add: read_opt_def [abs_def])
qed

lemma appends_opt:
  assumes "\<And>y. x = Some y \<Longrightarrow> appends wr y (enc y)"
  shows "appends (write_opt wr) x (case x of None \<Rightarrow> [] | Some y \<Rightarrow> enc y)"
  using assms by (cases x) (simp_all add: appends_def write_opt_def)

lemma info_bits:
  "flag_check item_has_left_id (item_info i) \<longleftrightarrow> origin_left_id i \<noteq> None"
  "flag_check item_has_right_id (item_info i) \<longleftrightarrow> origin_right_id i \<noteq> None"
  "flag_check item_has_parent_sub (item_info i) \<longleftrightarrow> parent_sub i \<noteq> None"
  "item_info i AND item_has_sibling = 0 \<longleftrightarrow> \<not> has_origin i"
  "item_info i AND 31 = content_info (item_content i)"
  by (cases "item_content i";
      cases "origin_left_id i = None"; cases "origin_right_id i = None"; cases "parent_sub i = None";
      simp add: item_info_def flag_check_def item_flag_values has_origin_def)+

lemma content_info_range: "content_info c \<noteq> 0" "content_info c \<noteq> 10"
  by (cases c; simp)+

fun parent_bytes :: "parent \<Rightarrow> bytes" where
  "parent_bytes (ParentString s) = var_u64_bytes 1 @ buffer_bytes s"
| "parent_bytes (ParentId i) = var_u64_bytes 0 @ item_id_bytes i"
| "parent_bytes (ParentType r) = []"

fun parent_ok :: "parent \<Rightarrow> bool" where
  "parent_ok (ParentString s) = string_ok s"
| "parent_ok (ParentId i) = True"
| "parent_ok (ParentType r) = False"

definition written_parent :: "heap \<Rightarrow> item \<Rightarrow> parent option" where
  "written_parent h i = (if has_origin i then None else Option.bind (item_parent i) (sent_parent h))"

definition written_sub :: "item \<Rightarrow> bytes option" where
  "written_sub i = (if has_origin i then None else parent_sub i)"

text \<open>Items that can be sent: with an origin or with a parent that can be named.\<close>

definition item_sendable :: "serde_env \<Rightarrow> heap \<Rightarrow> item \<Rightarrow> bool" where
  "item_sendable env h i \<longleftrightarrow>
     content_sendable env h (item_content i) \<and>
     (\<not> has_origin i \<longrightarrow> (case written_parent h i of Some p \<Rightarrow> parent_ok p | None \<Rightarrow> False)
        \<and> (case parent_sub i of Some s \<Rightarrow> string_ok s | None \<Rightarrow> True))"

definition item_body_bytes :: "serde_env \<Rightarrow> heap \<Rightarrow> item \<Rightarrow> bytes" where
  "item_body_bytes env h i =
     (case origin_left_id i of None \<Rightarrow> [] | Some x \<Rightarrow> item_id_bytes x)
     @ (case origin_right_id i of None \<Rightarrow> [] | Some x \<Rightarrow> item_id_bytes x)
     @ (case written_parent h i of None \<Rightarrow> [] | Some p \<Rightarrow> parent_bytes p)
     @ (case written_sub i of None \<Rightarrow> [] | Some s \<Rightarrow> buffer_bytes s)
     @ content_bytes env h (item_content i)"

lemma parent_decodes: "parent_ok p \<Longrightarrow> decodes read_parent (parent_bytes p) p"
proof (induction p rule: parent_bytes.induct)
  case (1 s)
  then have "decodes (\<lambda>d. rbind (dec_read_var_string d) (\<lambda>(s, d). Ok (ParentString s, d))) (buffer_bytes s) (ParentString s)"
    by (intro decodes_map var_string.rd_enc) simp
  then show ?case
    unfolding read_parent_def parent_bytes.simps by (intro decodes_bind [OF var_u64.rd_enc]) simp_all
next
  case (2 i)
  have "decodes (\<lambda>d. rbind (dec_read_item_id d) (\<lambda>(i, d). Ok (ParentId i, d))) (item_id_bytes i) (ParentId i)"
    by (intro decodes_map item_id.rd_enc TrueI)
  then show ?case
    unfolding read_parent_def parent_bytes.simps by (intro decodes_bind [OF var_u64.rd_enc]) simp_all
qed simp

lemma parent_appends:
  assumes "sent_parent h p = Some q" "parent_ok q"
  shows "appends (write_parent h) p (parent_bytes q)"
proof (cases p)
  case (ParentType r)
  with assms show ?thesis
    by (auto simp: appends_def write_parent_def appendsD [OF var_u64.wr_enc] appendsD [OF var_string.wr_enc]
        appendsD [OF item_id.wr_enc] split: option.splits)
qed (use assms in \<open>auto simp: appends_def write_parent_def appendsD [OF var_u64.wr_enc]
    appendsD [OF var_string.wr_enc] appendsD [OF item_id.wr_enc]\<close>)


lemma is_valid_arrived:
  "item_sendable env h i \<Longrightarrow>
   is_valid \<lparr>item_id = x, origin_left_id = origin_left_id i, origin_right_id = origin_right_id i, item_left = SNone,
     item_right = SNone, item_parent = written_parent h i, parent_sub = written_sub i, item_content = c, item_flags = f\<rparr>"
  by (auto simp: is_valid_def item_sendable_def written_parent_def written_sub_def has_origin_def split: option.splits)

lemma written_sub_flag:
  "item_sendable env h i \<Longrightarrow> (written_parent h i \<noteq> None \<and> parent_sub i \<noteq> None) = (written_sub i \<noteq> None)"
  by (auto simp: written_sub_def written_parent_def item_sendable_def split: option.splits)

lemma flag_not_sibling: "flag_not item_has_sibling w \<longleftrightarrow> w AND item_has_sibling = 0"
  by (simp add: flag_not_def)

lemma written_parent_flag: "item_sendable env h i \<Longrightarrow> (\<not> has_origin i) = (written_parent h i \<noteq> None)"
  by (auto simp: item_sendable_def written_parent_def split: option.splits)

lemma item_decodes:
  assumes ok: "item_sendable env h i"
  shows "decodes (read_item env (item_id i) (item_info i) (content_info (item_content i)) hr)
    (item_body_bytes env h i) (sent_item h i hr)"
proof -
  obtain c hc where c: "sent_content h (item_content i) hr = (c, hc)" by (cases "sent_content h (item_content i) hr")
  have content: "decodes (read_content env (content_info (item_content i)) hr) (content_bytes env h (item_content i)) (c, hc)"
    using content_decodes [of env h "item_content i" hr] ok c by (simp add: item_sendable_def)
  define it where "it = \<lparr>item_id = item_id i, origin_left_id = origin_left_id i, origin_right_id = origin_right_id i,
    item_left = SNone, item_right = SNone, item_parent = written_parent h i, parent_sub = written_sub i,
    item_content = c, item_flags = read_flags c\<rparr>"
  have valid: "is_valid it" unfolding it_def using ok by (rule is_valid_arrived)
  have sent: "sent_item h i hr = (it, hc)"
    by (simp add: sent_item_def c it_def written_parent_def written_sub_def)
  have parent: "parent_ok p" if "written_parent h i = Some p" for p
    using ok that by (auto simp: item_sendable_def written_parent_def split: if_splits)
  have sub: "string_ok s" if "written_sub i = Some s" for s
    using ok that by (auto simp: item_sendable_def written_sub_def split: if_splits)
  have guard: "debug_assert (content_info (item_content i) \<noteq> 0 \<and> content_info (item_content i) \<noteq> 10)
      = (Ok () :: _ codec_result)"
    by (simp add: content_info_range)
  have last: "decodes (\<lambda>d. rbind (debug_assert (content_info (item_content i) \<noteq> 0 \<and> content_info (item_content i) \<noteq> 10)) (\<lambda>_.
      rbind (read_content env (content_info (item_content i)) hr d) (\<lambda>((content, h'), d).
      let i = \<lparr>item_id = item_id i, origin_left_id = origin_left_id i, origin_right_id = origin_right_id i, item_left = SNone,
              item_right = SNone, item_parent = written_parent h i, parent_sub = written_sub i, item_content = content,
              item_flags = read_flags content\<rparr>
      in rbind (debug_assert (is_valid i)) (\<lambda>_. Ok ((i, h'), d)))))
      (content_bytes env h (item_content i) @ []) (it, hc)"
    unfolding guard rbind.simps
    by (rule decodes_bind [OF content]) (use valid decodes_return [of "(it, hc)"] in \<open>simp add: it_def Let_def\<close>)
  show ?thesis
    unfolding sent item_body_bytes_def read_item_def [abs_def] info_bits flag_not_sibling
      written_parent_flag [OF ok] written_sub_flag [OF ok]
    by (rule decodes_bind [OF decodes_opt [OF item_id.rd_enc [OF TrueI]]],
        rule decodes_bind [OF decodes_opt [OF item_id.rd_enc [OF TrueI]]],
        rule decodes_bind [OF decodes_opt [OF parent_decodes [OF parent]]], assumption,
        rule decodes_bind [OF decodes_opt [OF var_string.rd_enc [OF sub]]], assumption)
      (use last in simp)
qed

lemma item_appends:
  assumes ok: "item_sendable env h i"
  shows "appends (write_item env h) i (item_info i # item_body_bytes env h i)"
proof -
  note content = content_appends [of env h "item_content i"]
  have c: "content_sendable env h (item_content i)" using ok by (simp add: item_sendable_def)
  note ids = appendsD [OF appends_opt [OF item_id.wr_enc [OF TrueI]]]
  have info: "enc_write_info e (item_info i) = Ok (e\<lparr>enc_buffer := enc_buffer e @ [item_info i]\<rparr>)" for e
    by (simp add: enc_write_info_def enc_write_u8_def)
  show ?thesis
  proof (cases "has_origin i")
    case True
    then show ?thesis
      by (simp add: appends_def write_item_def info ids info_bits item_body_bytes_def written_parent_def written_sub_def
          appendsD [OF content [OF c]] Let_def)
  next
    case False
    with ok obtain p q where p: "item_parent i = Some p" "sent_parent h p = Some q" "parent_ok q"
      by (auto simp: item_sendable_def written_parent_def bind_eq_Some_conv split: option.splits)
    have sub: "string_ok s" if "parent_sub i = Some s" for s using ok False that by (simp add: item_sendable_def)
    have o: "origin_left_id i = None" "origin_right_id i = None" using False by (simp_all add: has_origin_def)
    show ?thesis
      using False p o
      by (simp add: appends_def write_item_def info info_bits item_body_bytes_def written_parent_def written_sub_def
          appendsD [OF content [OF c]] appendsD [OF parent_appends [OF p(2,3)]] Let_def write_opt_def
          appendsD [OF var_string.wr_enc [OF sub]] split: option.splits)
  qed
qed


section \<open>Nodes\<close>

definition node_sendable :: "serde_env \<Rightarrow> heap \<Rightarrow> node \<Rightarrow> bool" where
  "node_sendable env h n =
     (case n of Item r \<Rightarrow> (case get_item h r of Some i \<Rightarrow> item_sendable env h i | None \<Rightarrow> False) | _ \<Rightarrow> True)"

definition node_bytes :: "serde_env \<Rightarrow> heap \<Rightarrow> node \<Rightarrow> bytes" where
  "node_bytes env h n =
     (case n of
        GC g \<Rightarrow> 0 # var_u64_bytes (nl_len g)
      | Skip g \<Rightarrow> 10 # var_u64_bytes (nl_len g)
      | Item r \<Rightarrow> (case get_item h r of Some i \<Rightarrow> item_info i # item_body_bytes env h i | None \<Rightarrow> []))"

lemma read_info_codec: "decodes dec_read_info [b] b"
  unfolding dec_read_info_def by (rule u8.rd_enc) simp

lemma node_decodes:
  assumes ok: "node_sendable env h n" and i: "node_id h n = (Ok i :: _ codec_result)"
  shows "decodes (read_node env i hr) (node_bytes env h n) (sent_node h n hr)"
proof (cases n)
  case (GC g)
  then have "new_gc i (nl_len g) = n" using i by (simp add: new_gc_def)
  with GC decodes_map [OF var_u64.rd_enc [OF TrueI], of "\<lambda>len. (new_gc i len, hr)" "nl_len g"]
  have "decodes (\<lambda>d. rbind (dec_read_var_u64 d) (\<lambda>(len, d). Ok ((new_gc i len, hr), d))) (var_u64_bytes (nl_len g))
      (sent_node h n hr)" by simp
  then have "decodes (read_node env i hr) ([0] @ var_u64_bytes (nl_len g)) (sent_node h n hr)"
    unfolding read_node_def by (intro decodes_bind [OF read_info_codec]) simp
  with GC show ?thesis by (simp add: node_bytes_def)
next
  case (Skip g)
  then have "new_skip i (nl_len g) = n" using i by (simp add: new_skip_def)
  with Skip decodes_map [OF var_u64.rd_enc [OF TrueI], of "\<lambda>len. (new_skip i len, hr)" "nl_len g"]
  have "decodes (\<lambda>d. rbind (dec_read_var_u64 d) (\<lambda>(len, d). Ok ((new_skip i len, hr), d))) (var_u64_bytes (nl_len g))
      (sent_node h n hr)" by simp
  then have "decodes (read_node env i hr) ([10] @ var_u64_bytes (nl_len g)) (sent_node h n hr)"
    unfolding read_node_def by (intro decodes_bind [OF read_info_codec]) simp
  with Skip show ?thesis by (simp add: node_bytes_def)
next
  case (Item r)
  then obtain it where it: "get_item h r = Some it" "item_id it = i"
    using i by (auto simp: get_item_unchecked_def outcome_simps)
  with ok Item have s: "item_sendable env h it" by (simp add: node_sendable_def)
  let ?mk = "\<lambda>(item, h). case new_item_ref item h of (r, h) \<Rightarrow> (Item r, link_type item r h)"
  have sent: "sent_node h n hr = ?mk (sent_item h it hr)" using Item it by (simp add: case_prod_beta)
  have "decodes (\<lambda>d. rbind (read_item env i (item_info it) (content_info (item_content it)) hr d) (\<lambda>(x, d). Ok (?mk x, d)))
      (item_body_bytes env h it) (sent_node h n hr)"
    unfolding sent by (rule decodes_map) (use item_decodes [OF s, of hr] it in simp)
  then have "decodes (read_node env i hr) ([item_info it] @ item_body_bytes env h it) (sent_node h n hr)"
    unfolding read_node_def
    by (intro decodes_bind [OF read_info_codec]) (simp add: info_bits content_info_range split_def Let_def)
  with Item it show ?thesis by (simp add: node_bytes_def)
qed

lemma node_appends:
  assumes "node_sendable env h n"
  shows "appends (write_node env h) n (node_bytes env h n)"
proof (cases n)
  case (Item r)
  with assms obtain it where "get_item h r = Some it" "item_sendable env h it"
    by (auto simp: node_sendable_def split: option.splits)
  with Item show ?thesis
    by (simp add: appends_def write_node_def node_bytes_def appendsD [OF item_appends])
qed (simp_all add: appends_def write_node_def node_bytes_def enc_write_info_def appendsD [OF u8.wr_enc]
    appendsD [OF var_u64.wr_enc])


definition no_json :: serde_env where
  "no_json = \<lparr>to_json = (\<lambda>_. None), from_json = (\<lambda>_. None), size_of_any = 32\<rparr>"

definition rooted_item :: item where
  "rooted_item = default_item\<lparr>item_id := new_id 7 10, item_parent := Some (ParentString (str_bytes ''doc'')),
     item_content := ContentAny [AnyTrue, AnyNull], item_flags := 2\<rparr>"

definition rooted_heap :: heap where "rooted_heap = snd (new_item_ref rooted_item empty_heap)"

lemma rooted_heap_get: "get_item rooted_heap (SRef 0) = Some rooted_item"
  by (simp add: rooted_heap_def new_item_ref_def empty_heap_def get_item_def somr_lookup_def)

lemma doc_string_ok: "string_ok (str_bytes ''doc'')"
proof -
  have "utf8_chars (str_bytes ''doc'') \<noteq> None"
    by (simp add: str_bytes_def utf8_chars.simps utf8_char_def)
  then show ?thesis by (simp add: string_ok_def utf8_valid_def fits_def str_bytes_def)
qed

lemma rooted_item_sendable: "item_sendable no_json rooted_heap rooted_item"
  by (simp add: item_sendable_def content_sendable_def written_parent_def has_origin_def any_multiple_ok_def
      doc_string_ok no_json_def rooted_item_def default_item_def)


end
