(* ===== verification/Order_Range.thy ===== *)
theory Order_Range
  imports Prelude
begin

text \<open>
  Sets of clocks as ordered ranges, \<open>libs/jwst-codec/src/doc/common/range.rs\<close>: one half-open
  range, or a list of them.  \<open>clocks\<close> is the abstract set an \<open>order_range\<close> stands for; the
  operations are compared with it.  \<open>separated\<close> is the shape the code means to keep: sorted, with
  a gap between neighbours.
\<close>

section \<open>Definitions\<close>

text \<open>\<open>Range<u64>\<close> and its \<open>contains\<close> and \<open>is_empty\<close>.\<close>

record range =
  r_start :: u64
  r_end :: u64

definition mk_range :: "u64 \<Rightarrow> u64 \<Rightarrow> range" where
  "mk_range s e = \<lparr>r_start = s, r_end = e\<rparr>"

definition range_contains :: "range \<Rightarrow> u64 \<Rightarrow> bool" where
  "range_contains r c \<longleftrightarrow> r_start r \<le> c \<and> c < r_end r"

definition range_is_empty :: "range \<Rightarrow> bool" where
  "range_is_empty r \<longleftrightarrow> \<not> r_start r < r_end r"

datatype order_range = Range range | Fragment "range list"

definition default_order_range :: order_range where
  "default_order_range = Range (mk_range 0 0)"

definition is_continuous_range :: "range \<Rightarrow> range \<Rightarrow> bool" where
  "is_continuous_range lhs rhs \<longleftrightarrow> r_start rhs \<le> r_end lhs \<and> r_start lhs \<le> r_end rhs"

fun ranges_len :: "order_range \<Rightarrow> nat" where
  "ranges_len (Range _) = 1"
| "ranges_len (Fragment ranges) = length ranges"

fun is_empty :: "order_range \<Rightarrow> bool" where
  "is_empty (Range r) = range_is_empty r"
| "is_empty (Fragment vec) = (vec = [])"

fun contains :: "order_range \<Rightarrow> u64 \<Rightarrow> bool" where
  "contains (Range r) clock = range_contains r clock"
| "contains (Fragment ranges) clock = list_ex (\<lambda>r. range_contains r clock) ranges"

text \<open>\<open>into_iter\<close>: the ranges in order.\<close>

fun order_range_iter :: "order_range \<Rightarrow> range list" where
  "order_range_iter (Range r) = [r]"
| "order_range_iter (Fragment ranges) = ranges"

text \<open>
  \<open>check_range_covered\<close>: the lists are what the two iterators still hold, with the current
  element in front.  The inner \<open>continue\<close> of the source goes on with the same loop and is no step.
\<close>

fun check_range_covered :: "range list \<Rightarrow> range list \<Rightarrow> bool" where
  "check_range_covered old_vec [] = True"
| "check_range_covered [] (new_range # new_iter) = check_range_covered [] new_iter"
| "check_range_covered (old_range # old_iter) (new_range # new_iter) =
     (if r_start old_range < r_start new_range \<or> r_end new_range < r_end old_range
      then (if new_iter \<noteq> [] then check_range_covered (old_range # old_iter) new_iter else False)
      else check_range_covered old_iter (new_range # new_iter))"

fun diff_overlaps :: "u64 \<Rightarrow> range list \<Rightarrow> range list \<times> u64" where
  "diff_overlaps last_end [] = ([], last_end)"
| "diff_overlaps last_end (overlap # overlaps) =
     (let (diffs, e) = diff_overlaps (r_end overlap) overlaps
      in ((if last_end < r_start overlap then [mk_range last_end (r_start overlap)] else []) @ diffs, e))"

definition diff_new_range :: "range \<Rightarrow> range list \<Rightarrow> range list" where
  "diff_new_range new_range overlap_ranges =
     (case overlap_ranges of
        [] \<Rightarrow> [new_range]
      | first # _ \<Rightarrow>
          (let last_end = r_start first;
               before = (if r_start new_range < last_end then [mk_range (r_start new_range) last_end] else []);
               (diffs, last_end) = diff_overlaps last_end overlap_ranges
           in before @ diffs
              @ (if last_end < r_end new_range then [mk_range last_end (r_end new_range)] else [])))"

fun diff_loop :: "range list \<Rightarrow> range list \<Rightarrow> range list" where
  "diff_loop [] old_vec = []"
| "diff_loop (new_range # new_vec) old_vec =
     diff_new_range new_range (takeWhile (\<lambda>r. r_start r \<le> r_end new_range) old_vec)
     @ diff_loop new_vec (dropWhile (\<lambda>r. r_start r \<le> r_end new_range) old_vec)"

definition diff_range :: "order_range \<Rightarrow> order_range \<Rightarrow> range list" where
  "diff_range self new_range =
     (let old_vec = order_range_iter self; new_vec = order_range_iter new_range
      in if \<not> check_range_covered old_vec new_vec then [] else diff_loop new_vec old_vec)"

text \<open>
  \<open>binary_search_by\<close> of the standard library on a deque in one piece.  Its documentation leaves
  open which of several matches it finds; the lemmas below use only what it promises.
\<close>

datatype ordering = Less | Equal | Greater

datatype found = Found nat | Missing nat

function binary_search_loop :: "('a \<Rightarrow> ordering) \<Rightarrow> 'a list \<Rightarrow> nat \<Rightarrow> nat \<Rightarrow> found" where
  "binary_search_loop f xs left right =
     (if left < right then
        (let mid = left + (right - left) div 2 in
         case f (xs ! mid) of
           Equal \<Rightarrow> Found mid
         | Less \<Rightarrow> binary_search_loop f xs (mid + 1) right
         | Greater \<Rightarrow> binary_search_loop f xs left mid)
      else Missing left)"
  by pat_completeness auto
termination
  by (relation "measure (\<lambda>(f, xs, left, right). right - left)") auto

declare binary_search_loop.simps [simp del]

definition binary_search_by :: "'a list \<Rightarrow> ('a \<Rightarrow> ordering) \<Rightarrow> found" where
  "binary_search_by xs f = binary_search_loop f xs 0 (length xs)"

definition deque_remove :: "nat \<Rightarrow> 'a list \<Rightarrow> 'a list" where
  "deque_remove i xs = take i xs @ drop (Suc i) xs"

definition deque_insert :: "nat \<Rightarrow> 'a \<Rightarrow> 'a list \<Rightarrow> 'a list" where
  "deque_insert i x xs = take i xs @ x # drop i xs"

definition hull :: "range \<Rightarrow> range \<Rightarrow> range" where
  "hull a b = mk_range (min (r_start a) (r_start b)) (max (r_end a) (r_end b))"

definition squash_around :: "range list \<Rightarrow> nat \<Rightarrow> range list" where
  "squash_around list0 idx =
     (let list1 = (if 0 < idx \<and> is_continuous_range (list0 ! (idx - 1)) (list0 ! idx)
                   then deque_remove idx (list0[idx - 1 := hull (list0 ! (idx - 1)) (list0 ! idx)])
                   else list0)
      in if idx < length list1 - 1 \<and> is_continuous_range (list1 ! idx) (list1 ! (idx + 1))
         then deque_remove (idx + 1) (list1[idx := hull (list1 ! idx) (list1 ! (idx + 1))])
         else list1)"

definition cmp_range :: "range \<Rightarrow> range \<Rightarrow> ordering" where
  "cmp_range rng r =
     (if is_continuous_range r rng then Equal
      else if r_end r < r_start rng then Less else Greater)"

definition push_inner :: "range list \<Rightarrow> range \<Rightarrow> range list" where
  "push_inner list0 rng =
     (if list0 = [] then [rng]
      else (case binary_search_by list0 (cmp_range rng) of
              Found idx \<Rightarrow> squash_around (list0[idx := hull (list0 ! idx) rng]) idx
            | Missing idx \<Rightarrow> squash_around (deque_insert idx rng list0) idx))"

fun make_single :: "order_range \<Rightarrow> order_range" where
  "make_single (Fragment [r]) = Range r"
| "make_single r = r"

fun make_fragment :: "order_range \<Rightarrow> range list" where
  "make_fragment (Range r) = (if range_is_empty r then [] else [r])"
| "make_fragment (Fragment ranges) = ranges"

fun push :: "order_range \<Rightarrow> range \<Rightarrow> order_range" where
  "push (Range r) rng =
     (if r_start r = r_end r then Range rng
      else if is_continuous_range r rng
      then Range (mk_range (min (r_start r) (r_start rng)) (max (r_end r) (r_end rng)))
      else Fragment (if r_start r < r_start rng then [r, rng] else [rng, r]))"
| "push (Fragment ranges) rng =
     (if ranges = [] then Range rng else make_single (Fragment (push_inner ranges rng)))"

fun pop :: "order_range \<Rightarrow> range option \<times> order_range" where
  "pop (Range r) = (if range_is_empty r then (None, Range r) else (Some r, Range (mk_range 0 0)))"
| "pop (Fragment []) = (None, Fragment [])"
| "pop (Fragment (r # rs)) = (Some r, Fragment rs)"

definition extend :: "order_range \<Rightarrow> range list \<Rightarrow> order_range" where
  "extend self other = make_single (Fragment (foldl push_inner (make_fragment self) other))"

definition merge :: "order_range \<Rightarrow> order_range \<Rightarrow> order_range" where
  "merge self other = extend self (order_range_iter other)"

fun squash_loop :: "range \<Rightarrow> range list \<Rightarrow> range list" where
  "squash_loop cur [] = [cur]"
| "squash_loop cur (next # ranges) =
     (if is_continuous_range cur next then squash_loop (hull cur next) ranges
      else cur # squash_loop next ranges)"

text \<open>The list is only replaced when something was merged, which is when it got shorter.\<close>

fun squash :: "order_range \<Rightarrow> order_range" where
  "squash (Range r) = Range r"
| "squash (Fragment []) = Range (mk_range 0 0)"
| "squash (Fragment (r # rs)) =
     (let merged = squash_loop r rs; changed = length merged \<noteq> length (r # rs)
      in if length merged = 1 then Range (hd merged)
         else Fragment (if changed then merged else r # rs))"

section \<open>The abstract set\<close>

definition range_clocks :: "range \<Rightarrow> u64 set" where
  "range_clocks r = {c. r_start r \<le> c \<and> c < r_end r}"

definition clocks_of :: "range list \<Rightarrow> u64 set" where
  "clocks_of rs = (\<Union>r \<in> set rs. range_clocks r)"

definition clocks :: "order_range \<Rightarrow> u64 set" where
  "clocks r = clocks_of (order_range_iter r)"

definition proper :: "range \<Rightarrow> bool" where
  "proper r \<longleftrightarrow> r_start r \<le> r_end r"

definition order_range_proper :: "order_range \<Rightarrow> bool" where
  "order_range_proper r \<longleftrightarrow> list_all proper (order_range_iter r)"

text \<open>Sorted, with a gap between any two ranges.\<close>

definition separated :: "range list \<Rightarrow> bool" where
  "separated rs \<longleftrightarrow> list_all proper rs \<and> sorted_wrt (\<lambda>a b. r_end a < r_start b) rs"

lemma range_clocks_iff: "c \<in> range_clocks r \<longleftrightarrow> range_contains r c"
  by (simp add: range_clocks_def range_contains_def)

lemma clocks_of_simps [simp]:
  "clocks_of [] = {}"
  "clocks_of (r # rs) = range_clocks r \<union> clocks_of rs"
  "clocks_of (as @ bs) = clocks_of as \<union> clocks_of bs"
  by (auto simp: clocks_of_def)

lemma clocks_simps [simp]:
  "clocks (Range r) = range_clocks r" "clocks (Fragment rs) = clocks_of rs"
  by (simp_all add: clocks_def)

lemma order_range_proper_simps [simp]:
  "order_range_proper (Range r) = proper r" "order_range_proper (Fragment rs) = list_all proper rs"
  by (simp_all add: order_range_proper_def)

lemma contains_iff: "contains r c \<longleftrightarrow> c \<in> clocks r"
  by (cases r) (auto simp: clocks_def clocks_of_def range_clocks_iff list_ex_iff)

lemma range_fields [simp]: "r_start (mk_range s e) = s" "r_end (mk_range s e) = e"
  by (simp_all add: mk_range_def)

lemma hull_fields [simp]:
  "r_start (hull a b) = min (r_start a) (r_start b)" "r_end (hull a b) = max (r_end a) (r_end b)"
  by (simp_all add: hull_def)

lemma proper_hull [simp]: "proper a \<Longrightarrow> proper b \<Longrightarrow> proper (hull a b)"
  by (auto simp: proper_def min_def max_def)

lemma hull_clocks:
  "proper a \<Longrightarrow> proper b \<Longrightarrow> is_continuous_range a b \<Longrightarrow>
   range_clocks (hull a b) = range_clocks a \<union> range_clocks b"
  by (auto simp: proper_def is_continuous_range_def range_clocks_def min_def max_def split: if_splits)

lemma is_continuous_sym: "is_continuous_range a b \<longleftrightarrow> is_continuous_range b a"
  by (auto simp: is_continuous_range_def)

section \<open>The search\<close>

text \<open>What the documentation of \<open>binary_search_by\<close> promises, on any list and on a partitioned one.\<close>

fun rank :: "ordering \<Rightarrow> nat" where
  "rank Less = 0" | "rank Equal = 1" | "rank Greater = 2"

definition partitioned :: "('a \<Rightarrow> ordering) \<Rightarrow> 'a list \<Rightarrow> bool" where
  "partitioned f xs \<longleftrightarrow> sorted_wrt (\<lambda>a b. rank (f a) \<le> rank (f b)) xs"

locale slice_search =
  fixes search :: "'a list \<Rightarrow> ('a \<Rightarrow> ordering) \<Rightarrow> found"
  assumes found: "search xs f = Found i \<Longrightarrow> i < length xs \<and> f (xs ! i) = Equal"
    and missing: "search xs f = Missing i \<Longrightarrow> i \<le> length xs"
    and missing_sorted: "search xs f = Missing i \<Longrightarrow> partitioned f xs \<Longrightarrow>
      (\<forall>j < i. f (xs ! j) = Less) \<and> (\<forall>j. i \<le> j \<and> j < length xs \<longrightarrow> f (xs ! j) = Greater)"
begin

lemma finds_if_present:
  assumes "partitioned f xs" "i < length xs" "f (xs ! i) = Equal"
  shows "\<exists>j. search xs f = Found j"
proof (cases "search xs f")
  case (Missing k)
  from missing_sorted [OF this assms(1)] assms(2,3) show ?thesis
    by (cases "i < k") auto
qed simp

end

lemma partitioned_nth:
  assumes "partitioned f xs" "i \<le> j" "j < length xs"
  shows "rank (f (xs ! i)) \<le> rank (f (xs ! j))"
  using assms by (cases "i = j") (auto simp: partitioned_def sorted_wrt_iff_nth_less)

lemma rank_eqs: "rank x = 0 \<longleftrightarrow> x = Less" "2 \<le> rank x \<longleftrightarrow> x = Greater"
  by (cases x; simp)+

definition less_below :: "('a \<Rightarrow> ordering) \<Rightarrow> 'a list \<Rightarrow> nat \<Rightarrow> bool" where
  "less_below f xs n \<longleftrightarrow> (\<forall>j < n. f (xs ! j) = Less)"

definition greater_from :: "('a \<Rightarrow> ordering) \<Rightarrow> 'a list \<Rightarrow> nat \<Rightarrow> bool" where
  "greater_from f xs n \<longleftrightarrow> (\<forall>j. n \<le> j \<and> j < length xs \<longrightarrow> f (xs ! j) = Greater)"

lemma partitioned_below:
  assumes "partitioned f xs" "i < length xs" "f (xs ! i) = Less"
  shows "less_below f xs (i + 1)"
  using partitioned_nth [OF assms(1), of _ i] assms(2,3) by (auto simp: less_below_def rank_eqs)

lemma partitioned_above:
  assumes "partitioned f xs" "f (xs ! i) = Greater"
  shows "greater_from f xs i"
  using partitioned_nth [OF assms(1), of i] assms(2) by (auto simp: greater_from_def rank_eqs)

text \<open>One round of the loop.\<close>

lemma binary_search_step:
  assumes "left < right" "mid = left + (right - left) div 2"
  shows "left \<le> mid" "mid < right"
    "binary_search_loop f xs left right =
      (case f (xs ! mid) of Equal \<Rightarrow> Found mid | Less \<Rightarrow> binary_search_loop f xs (mid + 1) right
       | Greater \<Rightarrow> binary_search_loop f xs left mid)"
proof -
  show "left \<le> mid" "mid < right" using assms by auto
  show "binary_search_loop f xs left right =
      (case f (xs ! mid) of Equal \<Rightarrow> Found mid | Less \<Rightarrow> binary_search_loop f xs (mid + 1) right
       | Greater \<Rightarrow> binary_search_loop f xs left mid)"
    unfolding assms(2) by (subst binary_search_loop.simps) (simp add: assms(1) Let_def)
qed

lemma binary_search_end: "\<not> left < right \<Longrightarrow> binary_search_loop f xs left right = Missing left"
  by (subst binary_search_loop.simps) simp

lemma binary_search_loop_found:
  "binary_search_loop f xs left right = Found i \<Longrightarrow> right \<le> length xs \<Longrightarrow>
   i < length xs \<and> f (xs ! i) = Equal"
proof (induction f xs left right rule: binary_search_loop.induct)
  case (1 f xs left right)
  show ?case
  proof (cases "left < right")
    case True
    let ?mid = "left + (right - left) div 2"
    note step = binary_search_step [OF True refl]
    show ?thesis
    proof (cases "f (xs ! ?mid)")
      case Less
      with "1.prems"(1) step(3) [of f xs] have "binary_search_loop f xs (?mid + 1) right = Found i" by simp
      then show ?thesis using "1.IH"(1) [OF True refl Less] "1.prems"(2) by simp
    next
      case Equal
      with 1 step(2) step(3) [of f xs] show ?thesis by auto
    next
      case Greater
      with "1.prems"(1) step(3) [of f xs] have "binary_search_loop f xs left ?mid = Found i" by simp
      then show ?thesis using "1.IH"(2) [OF True refl Greater] "1.prems"(2) step(2) by simp
    qed
  qed (use "1.prems" in \<open>simp add: binary_search_end\<close>)
qed

lemma binary_search_loop_missing:
  "binary_search_loop f xs left right = Missing i \<Longrightarrow> left \<le> right \<Longrightarrow> right \<le> length xs \<Longrightarrow>
   i \<le> length xs \<and>
   (partitioned f xs \<longrightarrow> less_below f xs left \<longrightarrow> greater_from f xs right \<longrightarrow>
    less_below f xs i \<and> greater_from f xs i)"
proof (induction f xs left right rule: binary_search_loop.induct)
  case (1 f xs left right)
  show ?case
  proof (cases "left < right")
    case True
    let ?mid = "left + (right - left) div 2"
    note step = binary_search_step [OF True refl]
    show ?thesis
    proof (cases "f (xs ! ?mid)")
      case Less
      with "1.prems"(1) step(3) [of f xs] have "binary_search_loop f xs (?mid + 1) right = Missing i" by simp
      moreover have "?mid < length xs" using step(2) "1.prems"(3) by simp
      ultimately show ?thesis
        using "1.IH"(1) [OF True refl Less] "1.prems"(3) step(2) partitioned_below [of f xs ?mid] Less by simp
    next
      case Equal
      with 1 step(3) [of f xs] show ?thesis by auto
    next
      case Greater
      with "1.prems"(1) step(3) [of f xs] have "binary_search_loop f xs left ?mid = Missing i" by simp
      then show ?thesis
        using "1.IH"(2) [OF True refl Greater] "1.prems"(3) step(1,2) partitioned_above [of f xs ?mid] Greater
        by simp
    qed
  qed (use "1.prems" in \<open>simp add: binary_search_end\<close>)
qed

interpretation deque: slice_search binary_search_by
proof
  fix xs :: "'a list" and f i
  show "i < length xs \<and> f (xs ! i) = Equal" if "binary_search_by xs f = Found i"
    using that binary_search_loop_found [of f xs 0 "length xs" i] by (simp add: binary_search_by_def)
  show "i \<le> length xs" if "binary_search_by xs f = Missing i"
    using that binary_search_loop_missing [of f xs 0 "length xs" i] by (simp add: binary_search_by_def)
  assume m: "binary_search_by xs f = Missing i" and p: "partitioned f xs"
  have "less_below f xs 0" "greater_from f xs (length xs)"
    by (auto simp: less_below_def greater_from_def)
  with m p binary_search_loop_missing [of f xs 0 "length xs" i]
  have "less_below f xs i" "greater_from f xs i" by (simp_all add: binary_search_by_def)
  then show "(\<forall>j < i. f (xs ! j) = Less) \<and> (\<forall>j. i \<le> j \<and> j < length xs \<longrightarrow> f (xs ! j) = Greater)"
    unfolding less_below_def greater_from_def by blast
qed

section \<open>Pushing a range\<close>

lemma clocks_of_nth:
  "i < length xs \<Longrightarrow> clocks_of xs = clocks_of (take i xs) \<union> range_clocks (xs ! i) \<union> clocks_of (drop (Suc i) xs)"
  by (subst id_take_nth_drop [of i xs], assumption) auto

lemma clocks_of_update:
  "i < length xs \<Longrightarrow>
   clocks_of (xs[i := r]) = clocks_of (take i xs) \<union> range_clocks r \<union> clocks_of (drop (Suc i) xs)"
  by (simp add: upd_conv_take_nth_drop Un_assoc)

lemma clocks_of_insert: "clocks_of (deque_insert i r xs) = range_clocks r \<union> clocks_of xs"
proof -
  have "clocks_of xs = clocks_of (take i xs) \<union> clocks_of (drop i xs)"
    by (metis append_take_drop_id clocks_of_simps(3))
  then show ?thesis by (auto simp: deque_insert_def)
qed

text \<open>Replacing two neighbours by one range.\<close>

lemma remove_update:
  "Suc i < length xs \<Longrightarrow> deque_remove (Suc i) (xs[i := r]) = take i xs @ r # drop (Suc (Suc i)) xs"
  by (simp add: deque_remove_def upd_conv_take_nth_drop)

lemma split_two: "Suc i < length xs \<Longrightarrow> xs = take i xs @ xs ! i # xs ! Suc i # drop (Suc (Suc i)) xs"
  by (metis Cons_nth_drop_Suc Suc_lessD append_take_drop_id)

lemma list_all_nth_proper: "list_all proper xs \<Longrightarrow> i < length xs \<Longrightarrow> proper (xs ! i)"
  by (simp add: list_all_length)

lemma merge_neighbours:
  assumes "Suc i < length xs" "list_all proper xs" "is_continuous_range (xs ! i) (xs ! Suc i)"
  defines "ys \<equiv> deque_remove (Suc i) (xs[i := hull (xs ! i) (xs ! Suc i)])"
  shows "clocks_of ys = clocks_of xs" "list_all proper ys" "length ys = length xs - 1"
proof -
  have p: "proper (xs ! i)" "proper (xs ! Suc i)"
    using assms(1,2) by (auto intro: list_all_nth_proper)
  have ys: "ys = take i xs @ hull (xs ! i) (xs ! Suc i) # drop (Suc (Suc i)) xs"
    unfolding ys_def using assms(1) by (rule remove_update)
  have "clocks_of xs = clocks_of (take i xs @ xs ! i # xs ! Suc i # drop (Suc (Suc i)) xs)"
    using split_two [OF assms(1)] by metis
  then show "clocks_of ys = clocks_of xs"
    using hull_clocks [OF p assms(3)] by (auto simp: ys)
  have "list_all proper (take i xs @ xs ! i # xs ! Suc i # drop (Suc (Suc i)) xs)"
    using split_two [OF assms(1)] assms(2) by metis
  then show "list_all proper ys" using p by (simp add: ys)
  show "length ys = length xs - 1" using assms(1) by (simp add: ys)
qed

lemma squash_around_clocks:
  assumes "idx < length xs" "list_all proper xs"
  shows "clocks_of (squash_around xs idx) = clocks_of xs \<and> list_all proper (squash_around xs idx)"
proof -
  define ys where "ys = (if 0 < idx \<and> is_continuous_range (xs ! (idx - 1)) (xs ! idx)
      then deque_remove idx (xs[idx - 1 := hull (xs ! (idx - 1)) (xs ! idx)]) else xs)"
  have ys: "clocks_of ys = clocks_of xs \<and> list_all proper ys"
  proof (cases "0 < idx \<and> is_continuous_range (xs ! (idx - 1)) (xs ! idx)")
    case True
    then have "ys = deque_remove idx (xs[idx - 1 := hull (xs ! (idx - 1)) (xs ! idx)])"
      unfolding ys_def by (rule if_P)
    with True merge_neighbours [of "idx - 1" xs] assms show ?thesis by simp
  next
    case False
    then have "ys = xs" unfolding ys_def by (rule if_not_P)
    with assms show ?thesis by simp
  qed
  have eq: "squash_around xs idx = (if idx < length ys - 1 \<and> is_continuous_range (ys ! idx) (ys ! (idx + 1))
      then deque_remove (idx + 1) (ys[idx := hull (ys ! idx) (ys ! (idx + 1))]) else ys)"
    unfolding squash_around_def Let_def ys_def ..
  show ?thesis
  proof (cases "idx < length ys - 1 \<and> is_continuous_range (ys ! idx) (ys ! (idx + 1))")
    case True
    with eq have "squash_around xs idx = deque_remove (idx + 1) (ys[idx := hull (ys ! idx) (ys ! (idx + 1))])"
      by (rule trans [OF _ if_P])
    moreover from True have "Suc idx < length ys" by linarith
    ultimately show ?thesis using True merge_neighbours [of idx ys] ys by simp
  next
    case False
    with eq have "squash_around xs idx = ys" by (rule trans [OF _ if_not_P])
    with ys show ?thesis by simp
  qed
qed

lemma cmp_Equal: "cmp_range rng r = Equal \<longleftrightarrow> is_continuous_range r rng"
  by (simp add: cmp_range_def)

lemma push_inner_clocks:
  assumes "list_all proper xs" "proper rng"
  shows "clocks_of (push_inner xs rng) = clocks_of xs \<union> range_clocks rng
    \<and> list_all proper (push_inner xs rng)"
proof (cases "xs = []")
  case True
  with assms show ?thesis by (simp add: push_inner_def)
next
  case False
  show ?thesis
  proof (cases "binary_search_by xs (cmp_range rng)")
    case (Found idx)
    from deque.found [OF this] have i: "idx < length xs" "is_continuous_range (xs ! idx) rng"
      by (simp_all add: cmp_Equal)
    have p: "proper (xs ! idx)" using assms(1) i(1) by (rule list_all_nth_proper)
    let ?ys = "xs[idx := hull (xs ! idx) rng]"
    have "list_all proper ?ys"
      using assms i p by (auto simp: list_all_length nth_list_update)
    moreover have "clocks_of ?ys = clocks_of xs \<union> range_clocks rng"
      using i hull_clocks [OF p assms(2) i(2)] by (auto simp: clocks_of_update clocks_of_nth [OF i(1)])
    ultimately show ?thesis
      using squash_around_clocks [of idx ?ys] i False Found by (simp add: push_inner_def)
  next
    case (Missing idx)
    from deque.missing [OF this] have i: "idx \<le> length xs" .
    let ?ys = "deque_insert idx rng xs"
    have "list_all proper ?ys"
      using assms by (auto simp: deque_insert_def list_all_iff dest: in_set_takeD in_set_dropD)
    moreover have "idx < length ?ys" using i by (simp add: deque_insert_def)
    ultimately show ?thesis
      using squash_around_clocks [of idx ?ys] False Missing
      by (simp add: push_inner_def clocks_of_insert Un_commute)
  qed
qed

lemma make_single_clocks [simp]: "clocks (make_single r) = clocks r"
  "order_range_proper (make_single r) = order_range_proper r"
  by (cases r rule: make_single.cases; simp add: clocks_def order_range_proper_def)+

lemma range_is_empty_clocks: "range_is_empty r \<Longrightarrow> range_clocks r = {}"
  by (auto simp: range_is_empty_def range_clocks_def)

lemma make_fragment_clocks:
  "clocks_of (make_fragment r) = clocks r"
  "order_range_proper r \<Longrightarrow> list_all proper (make_fragment r)"
  by (cases r; auto simp: clocks_def range_is_empty_clocks order_range_proper_def)+

lemma push_clocks:
  assumes "order_range_proper r" "proper rng"
  shows "clocks (push r rng) = clocks r \<union> range_clocks rng \<and> order_range_proper (push r rng)"
proof (cases r)
  case (Range x)
  then have p: "proper x" using assms by (simp add: order_range_proper_def)
  consider "r_start x = r_end x" | "r_start x \<noteq> r_end x" "is_continuous_range x rng"
    | "r_start x \<noteq> r_end x" "\<not> is_continuous_range x rng" by blast
  then show ?thesis
  proof cases
    case 1
    then have "range_clocks x = {}" by (auto simp: range_clocks_def)
    with 1 Range assms show ?thesis by (simp add: clocks_def order_range_proper_def)
  next
    case 2
    then show ?thesis
      using Range hull_clocks [OF p assms(2)] proper_hull [OF p assms(2)]
      by (simp add: clocks_def order_range_proper_def hull_def)
  next
    case 3
    then show ?thesis using Range p assms(2) by (auto simp: clocks_def order_range_proper_def)
  qed
next
  case (Fragment xs)
  then show ?thesis
    using push_inner_clocks [of xs rng] assms
    by (auto simp: Un_commute)
qed

lemma foldl_push_inner_clocks:
  "list_all proper acc \<Longrightarrow> list_all proper xs \<Longrightarrow>
   clocks_of (foldl push_inner acc xs) = clocks_of acc \<union> clocks_of xs
   \<and> list_all proper (foldl push_inner acc xs)"
proof (induction xs arbitrary: acc)
  case (Cons x xs)
  then show ?case using push_inner_clocks [of acc x] by auto
qed simp

lemma extend_clocks:
  assumes "order_range_proper r" "list_all proper xs"
  shows "clocks (extend r xs) = clocks r \<union> clocks_of xs \<and> order_range_proper (extend r xs)"
  using foldl_push_inner_clocks [of "make_fragment r" xs] make_fragment_clocks assms
  by (simp add: extend_def)

lemma merge_clocks:
  assumes "order_range_proper r" "order_range_proper s"
  shows "clocks (merge r s) = clocks r \<union> clocks s \<and> order_range_proper (merge r s)"
  using extend_clocks [of r "order_range_iter s"] assms
  by (simp add: merge_def clocks_def order_range_proper_def)

lemma squash_loop_clocks:
  "proper cur \<Longrightarrow> list_all proper rs \<Longrightarrow>
   clocks_of (squash_loop cur rs) = range_clocks cur \<union> clocks_of rs \<and> list_all proper (squash_loop cur rs)"
  by (induction cur rs rule: squash_loop.induct) (auto simp: hull_clocks)

lemma squash_clocks:
  assumes "order_range_proper r"
  shows "clocks (squash r) = clocks r \<and> order_range_proper (squash r)"
proof (cases r rule: squash.cases)
  case (3 x xs)
  let ?m = "squash_loop x xs"
  have m: "clocks_of ?m = clocks_of (x # xs)" "list_all proper ?m"
    using squash_loop_clocks [of x xs] assms 3 by (auto simp: order_range_proper_def)
  moreover have "length ?m = 1 \<Longrightarrow> ?m = [hd ?m]" by (cases ?m) auto
  ultimately show ?thesis
    using 3 assms by (auto simp: Let_def clocks_def order_range_proper_def)
qed (use assms in \<open>auto simp: clocks_def order_range_proper_def range_clocks_def proper_def\<close>)


lemma pop_clocks:
  assumes "pop r = (x, r')"
  shows "case x of None \<Rightarrow> clocks r = {} \<and> r' = r | Some y \<Rightarrow> clocks r = range_clocks y \<union> clocks r'"
  using assms range_is_empty_clocks
  by (cases r rule: pop.cases) (auto split: if_splits simp: range_clocks_def)

section \<open>The shape of a pushed list\<close>

lemma separated_simps [simp]:
  "separated []" "separated (r # rs) \<longleftrightarrow> proper r \<and> (\<forall>x \<in> set rs. r_end r < r_start x) \<and> separated rs"
  by (auto simp: separated_def list_all_iff)

lemma separated_append:
  "separated (as @ bs) \<longleftrightarrow>
   separated as \<and> separated bs \<and> (\<forall>a \<in> set as. \<forall>b \<in> set bs. r_end a < r_start b)"
  by (induction as) auto

lemma separated_proper: "separated rs \<Longrightarrow> r \<in> set rs \<Longrightarrow> proper r"
  by (induction rs) auto

text \<open>A list that ends before \<open>r\<close>, or starts after it, without touching it.\<close>

definition all_before :: "range list \<Rightarrow> range \<Rightarrow> bool" where
  "all_before ls r \<longleftrightarrow> (\<forall>l \<in> set ls. proper l \<and> r_end l < r_start r)"

definition all_after :: "range list \<Rightarrow> range \<Rightarrow> bool" where
  "all_after gs r \<longleftrightarrow> (\<forall>g \<in> set gs. proper g \<and> r_end r < r_start g)"

lemma before_no_touch: "all_before ls r \<Longrightarrow> ls \<noteq> [] \<Longrightarrow> \<not> is_continuous_range (last ls) r"
  using last_in_set [of ls] unfolding all_before_def is_continuous_range_def by fastforce

lemma after_no_touch: "all_after gs r \<Longrightarrow> gs = g # gs' \<Longrightarrow> \<not> is_continuous_range r g"
  unfolding all_after_def is_continuous_range_def by fastforce

lemma squash_around_alone:
  assumes "all_before ls m" "all_after gs m"
  shows "squash_around (ls @ m # gs) (length ls) = ls @ m # gs"
proof -
  have "\<not> (0 < length ls \<and> is_continuous_range ((ls @ m # gs) ! (length ls - 1)) ((ls @ m # gs) ! length ls))"
    using before_no_touch [OF assms(1)] by (cases ls rule: rev_cases) (auto simp: nth_append)
  moreover have "\<not> (length ls < length (ls @ m # gs) - 1
      \<and> is_continuous_range ((ls @ m # gs) ! length ls) ((ls @ m # gs) ! (length ls + 1)))"
    using after_no_touch [OF assms(2)] by (cases gs) (auto simp: nth_append)
  ultimately show ?thesis unfolding squash_around_def Let_def by (simp only: if_False)
qed

lemma squash_around_next:
  assumes "all_before ls a" "is_continuous_range a b"
  shows "squash_around (ls @ a # b # gs) (length ls) = ls @ hull a b # gs"
proof -
  have "\<not> (0 < length ls \<and> is_continuous_range ((ls @ a # b # gs) ! (length ls - 1)) ((ls @ a # b # gs) ! length ls))"
    using before_no_touch [OF assms(1)] by (cases ls rule: rev_cases) (auto simp: nth_append)
  moreover have "length ls < length (ls @ a # b # gs) - 1
      \<and> is_continuous_range ((ls @ a # b # gs) ! length ls) ((ls @ a # b # gs) ! (length ls + 1))"
    using assms(2) by (simp add: nth_append)
  moreover have "deque_remove (length ls + 1)
      ((ls @ a # b # gs)[length ls := hull ((ls @ a # b # gs) ! length ls) ((ls @ a # b # gs) ! (length ls + 1))])
      = ls @ hull a b # gs"
    by (simp add: nth_append deque_remove_def list_update_append)
  ultimately show ?thesis unfolding squash_around_def Let_def by (simp only: if_False if_True simp_thms)
qed

lemma squash_around_prev:
  assumes "is_continuous_range a b" "separated gs"
  shows "squash_around (ls @ a # b # gs) (Suc (length ls)) = ls @ hull a b # gs"
proof -
  have 1: "0 < Suc (length ls) \<and> is_continuous_range ((ls @ a # b # gs) ! (Suc (length ls) - 1))
      ((ls @ a # b # gs) ! Suc (length ls))"
    using assms(1) by (simp add: nth_append)
  have 2: "deque_remove (Suc (length ls)) ((ls @ a # b # gs)[Suc (length ls) - 1 :=
      hull ((ls @ a # b # gs) ! (Suc (length ls) - 1)) ((ls @ a # b # gs) ! Suc (length ls))])
      = ls @ hull a b # gs"
    by (simp add: nth_append deque_remove_def list_update_append)
  have 3: "\<not> (Suc (length ls) < length (ls @ hull a b # gs) - 1 \<and>
      is_continuous_range ((ls @ hull a b # gs) ! Suc (length ls)) ((ls @ hull a b # gs) ! (Suc (length ls) + 1)))"
    using assms(2)
    by (cases gs; cases "tl gs") (auto simp: nth_append is_continuous_range_def)
  show ?thesis unfolding squash_around_def Let_def
    using 1 2 3 by (simp only: if_True if_False simp_thms)
qed


text \<open>Where a range falls into a separated list: before it, touching it, after it.\<close>

lemma touching_split:
  assumes "separated xs" "proper rng"
  shows "\<exists>ls ms gs. xs = ls @ ms @ gs \<and> all_before ls rng \<and> all_after gs rng
    \<and> (\<forall>m \<in> set ms. is_continuous_range m rng)"
  using assms(1)
proof (induction xs)
  case (Cons x xs)
  then obtain ls ms gs where IH: "xs = ls @ ms @ gs" "all_before ls rng" "all_after gs rng"
    "\<forall>m \<in> set ms. is_continuous_range m rng" by auto
  have px: "proper x" "\<forall>y \<in> set xs. r_end x < r_start y \<and> proper y"
    using Cons.prems by (auto simp: separated_proper)
  consider "r_end x < r_start rng" | "is_continuous_range x rng" | "r_end rng < r_start x"
    unfolding is_continuous_range_def using linorder_not_le by blast
  then show ?case
  proof cases
    case 1
    then have "x # xs = (x # ls) @ ms @ gs" "all_before (x # ls) rng"
      using IH px by (auto simp: all_before_def)
    with IH show ?thesis by blast
  next
    case 2
    have "ls = []"
    proof (rule ccontr)
      assume "ls \<noteq> []"
      then obtain l where "l \<in> set ls" by (cases ls) auto
      then have "r_end l < r_start rng" "r_end x < r_start l" "proper l"
        using IH px by (auto simp: all_before_def)
      with 2 show False by (auto simp: is_continuous_range_def proper_def)
    qed
    then have "x # xs = [] @ (x # ms) @ gs" "all_before [] rng" "\<forall>m \<in> set (x # ms). is_continuous_range m rng"
      using IH 2 by (auto simp: all_before_def)
    with IH(3) show ?thesis by blast
  next
    case 3
    have "all_after (x # xs) rng"
      using px 3 unfolding all_after_def proper_def by fastforce
    then have "x # xs = [] @ [] @ (x # xs)" "all_before [] rng" by (auto simp: all_before_def)
    with \<open>all_after (x # xs) rng\<close> show ?thesis by (metis empty_iff list.set(1))
  qed
qed (auto simp: all_before_def all_after_def)

lemma cmp_range_before:
  assumes "all_before ls rng" "l \<in> set ls"
  shows "cmp_range rng l = Less"
proof -
  from assms have "r_end l < r_start rng" by (simp add: all_before_def)
  then have "\<not> is_continuous_range l rng" unfolding is_continuous_range_def by (simp add: not_le)
  with \<open>r_end l < r_start rng\<close> show ?thesis by (simp add: cmp_range_def)
qed

lemma cmp_range_after:
  assumes "all_after gs rng" "proper rng" "g \<in> set gs"
  shows "cmp_range rng g = Greater"
proof -
  from assms have g: "r_end rng < r_start g" "proper g" by (simp_all add: all_after_def)
  then have "\<not> is_continuous_range g rng" unfolding is_continuous_range_def by (simp add: not_le)
  moreover have "\<not> r_end g < r_start rng" using g assms(2) unfolding proper_def by fastforce
  ultimately show ?thesis by (simp add: cmp_range_def)
qed

lemma sorted_wrt_const: "\<forall>x \<in> set xs. f x = c \<Longrightarrow> sorted_wrt (\<lambda>a b. rank (f a) \<le> rank (f b)) xs"
  by (induction xs) auto

lemma touching_partitioned:
  assumes "all_before ls rng" "all_after gs rng" "proper rng" "\<forall>m \<in> set ms. is_continuous_range m rng"
  shows "partitioned (cmp_range rng) (ls @ ms @ gs)"
proof -
  have e: "\<forall>m \<in> set ms. cmp_range rng m = Equal"
    using assms(4) by (simp add: cmp_Equal)
  have l: "\<forall>l \<in> set ls. cmp_range rng l = Less" and g: "\<forall>g \<in> set gs. cmp_range rng g = Greater"
    using cmp_range_before [OF assms(1)] cmp_range_after [OF assms(2,3)] by auto
  show ?thesis
    using sorted_wrt_const [OF e] sorted_wrt_const [OF l] sorted_wrt_const [OF g] e l g
    by (auto simp: partitioned_def sorted_wrt_append)
qed

text \<open>The search finds one of the touched ranges, or the place where the range belongs.\<close>

lemma search_touching:
  assumes "all_before ls rng" "all_after gs rng" "proper rng" "\<forall>m \<in> set ms. is_continuous_range m rng"
  shows "if ms = [] then binary_search_by (ls @ ms @ gs) (cmp_range rng) = Missing (length ls)
    else \<exists>i. binary_search_by (ls @ ms @ gs) (cmp_range rng) = Found (length ls + i) \<and> i < length ms"
proof (cases "binary_search_by (ls @ ms @ gs) (cmp_range rng)")
  case (Found k)
  let ?xs = "ls @ ms @ gs"
  from deque.found [OF Found] have k: "k < length ?xs" "cmp_range rng (?xs ! k) = Equal" by auto
  have "\<not> k < length ls"
    using k cmp_range_before [OF assms(1), of "?xs ! k"] by (auto simp: nth_append)
  moreover have "\<not> length ls + length ms \<le> k"
  proof
    assume a: "length ls + length ms \<le> k"
    then have "?xs ! k = gs ! (k - length ls - length ms)" "k - length ls - length ms < length gs"
      using k(1) by (auto simp: nth_append)
    with k(2) cmp_range_after [OF assms(2,3), of "?xs ! k"] show False by simp
  qed
  ultimately show ?thesis
    using Found by (auto intro!: exI [of _ "k - length ls"])
next
  case (Missing k)
  let ?xs = "ls @ ms @ gs"
  have part: "partitioned (cmp_range rng) ?xs" using assms by (rule touching_partitioned)
  from deque.missing_sorted [OF Missing part]
  have less: "\<And>j. j < k \<Longrightarrow> cmp_range rng (?xs ! j) = Less"
    and greater: "\<And>j. k \<le> j \<Longrightarrow> j < length ?xs \<Longrightarrow> cmp_range rng (?xs ! j) = Greater" by auto
  have "ms = []"
  proof (rule ccontr)
    assume "ms \<noteq> []"
    then have "cmp_range rng (?xs ! length ls) = Equal" "length ls < length ?xs"
      using assms(4) by (cases ms; simp add: nth_append cmp_Equal)+
    with less [of "length ls"] greater [of "length ls"] show False
      by (cases "length ls < k") auto
  qed
  moreover have "k = length ls"
  proof (rule ccontr)
    assume "k \<noteq> length ls"
    then consider "k < length ls" | "length ls < k" by linarith
    then show False
    proof cases
      case 1
      then show False
        using greater [of k] cmp_range_before [OF assms(1), of "ls ! k"] by (simp add: nth_append)
    next
      case 2
      with deque.missing [OF Missing] \<open>ms = []\<close> have "gs \<noteq> []" by auto
      then show False
        using less [OF 2] cmp_range_after [OF assms(2,3), of "gs ! 0"] \<open>ms = []\<close> by (simp add: nth_append)
    qed
  qed
  ultimately show ?thesis using Missing by simp
qed


lemma hull_before:
  "all_before ls rng \<Longrightarrow> all_before ls m \<Longrightarrow> all_before ls (hull m rng)"
  by (simp add: all_before_def)

lemma hull_after:
  "all_after gs rng \<Longrightarrow> all_after gs m \<Longrightarrow> all_after gs (hull m rng)"
  by (simp add: all_after_def)

lemma separated_middle:
  "separated (ls @ m # gs) \<longleftrightarrow>
   separated ls \<and> separated gs \<and> all_before ls m \<and> all_after gs m \<and> proper m
   \<and> (\<forall>a \<in> set ls. \<forall>b \<in> set gs. r_end a < r_start b)"
  by (auto simp: separated_append all_before_def all_after_def separated_proper)

lemma push_inner_none:
  assumes "separated (ls @ gs)" "all_before ls rng" "all_after gs rng" "proper rng"
  shows "push_inner (ls @ gs) rng = ls @ rng # gs"
  using search_touching [OF assms(2,3,4), of "[]"] squash_around_alone [OF assms(2,3)]
  by (simp add: push_inner_def deque_insert_def)

lemma push_inner_one:
  assumes "separated (ls @ m # gs)" "all_before ls rng" "all_after gs rng" "proper rng"
    "is_continuous_range m rng"
  shows "push_inner (ls @ m # gs) rng = ls @ hull m rng # gs"
proof -
  have "binary_search_by (ls @ m # gs) (cmp_range rng) = Found (length ls)"
    using search_touching [OF assms(2,3,4), of "[m]"] assms(5) by simp
  moreover have "all_before ls (hull m rng)" "all_after gs (hull m rng)"
    using assms by (auto simp: separated_middle hull_before hull_after)
  ultimately show ?thesis
    using squash_around_alone [of ls "hull m rng" gs] by (simp add: push_inner_def)
qed

lemma hull_touch_hull:
  assumes "is_continuous_range a rng" "is_continuous_range b rng" "proper rng"
  shows "is_continuous_range (hull a rng) b" "is_continuous_range a (hull b rng)"
  using assms unfolding is_continuous_range_def proper_def by (auto simp: min_def max_def)

lemma hull_hull: "r_start a \<le> r_start b \<Longrightarrow> r_end a \<le> r_end b \<Longrightarrow>
   hull (hull a rng) b = mk_range (min (r_start a) (r_start rng)) (max (r_end b) (r_end rng)) \<and>
   hull a (hull b rng) = mk_range (min (r_start a) (r_start rng)) (max (r_end b) (r_end rng))"
  by (auto simp: hull_def min_def max_def)

lemma push_inner_two:
  assumes "separated (ls @ a # b # gs)" "all_before ls rng" "all_after gs rng" "proper rng"
    "is_continuous_range a rng" "is_continuous_range b rng"
  shows "push_inner (ls @ a # b # gs) rng
    = ls @ mk_range (min (r_start a) (r_start rng)) (max (r_end b) (r_end rng)) # gs"
proof -
  have order: "r_start a \<le> r_start b" "r_end a \<le> r_end b"
    using assms(1) unfolding separated_append by (auto simp: proper_def)
  have gs: "separated gs" and ls: "all_before ls (hull a rng)"
    using assms by (auto simp: separated_middle hull_before)
  from search_touching [OF assms(2,3,4), of "[a, b]"] assms(5,6)
  obtain i where i: "binary_search_by (ls @ a # b # gs) (cmp_range rng) = Found (length ls + i)" "i < 2"
    by auto
  then consider "i = 0" | "i = 1" by linarith
  then show ?thesis
  proof cases
    case 1
    then show ?thesis
      using i squash_around_next [OF ls hull_touch_hull(1) [OF assms(5,6,4)], of gs] hull_hull [OF order, of rng]
      by (simp add: push_inner_def)
  next
    case 2
    then show ?thesis
      using i squash_around_prev [OF hull_touch_hull(2) [OF assms(5,6,4)] gs, of ls] hull_hull [OF order, of rng]
      by (simp add: push_inner_def list_update_append nth_append)
  qed
qed

text \<open>A range that touches at most two of a separated list leaves it separated.\<close>

lemma push_inner_separated:
  assumes "separated xs" "proper rng" "length (filter (\<lambda>m. is_continuous_range m rng) xs) \<le> 2"
  shows "separated (push_inner xs rng)"
proof -
  from touching_split [OF assms(1,2)] obtain ls ms gs where
    xs: "xs = ls @ ms @ gs" and before: "all_before ls rng" and after: "all_after gs rng"
    and touch: "\<forall>m \<in> set ms. is_continuous_range m rng" by blast
  have parts: "separated ls" "separated gs" "\<forall>a \<in> set ls. \<forall>b \<in> set gs. r_end a < r_start b"
    using assms(1) unfolding xs by (auto simp: separated_append)
  have "length ms \<le> 2"
    using assms(3) touch unfolding xs by (simp add: filter_id_conv [THEN iffD2])
  then consider "ms = []" | m where "ms = [m]" | a b where "ms = [a, b]"
    by (cases ms; cases "tl ms"; cases "tl (tl ms)") auto
  then show ?thesis
  proof cases
    case 1
    then show ?thesis
      using push_inner_none [of ls gs rng] assms(1,2) before after parts unfolding xs
      by (simp add: separated_middle)
  next
    case 2
    then show ?thesis
      using push_inner_one [of ls m gs rng] assms(1,2) before after parts touch unfolding xs
      by (simp add: separated_middle hull_before hull_after)
  next
    case 3
    have "all_before ls a" "all_after gs b" "proper a" "proper b" "r_end a < r_start b"
      using assms(1) unfolding xs 3
      by (auto simp: separated_append all_before_def all_after_def separated_proper)
    then have "separated (ls @ mk_range (min (r_start a) (r_start rng)) (max (r_end b) (r_end rng)) # gs)"
      using before after parts assms(2)
      by (auto simp: separated_middle all_before_def all_after_def proper_def min_def max_def)
    then show ?thesis
      using push_inner_two [of ls a b gs rng] assms(1,2) before after touch unfolding xs 3 by simp
  qed
qed

section \<open>Squashing\<close>

lemma squash_loop_length:
  "length (squash_loop cur rs) \<le> Suc (length rs)
   \<and> (length (squash_loop cur rs) = Suc (length rs) \<longrightarrow> squash_loop cur rs = cur # rs)"
  by (induction cur rs rule: squash_loop.induct) auto

text \<open>On ranges sorted by their start the loop keeps the current start and closes every overlap.\<close>

lemma squash_loop_separated:
  "proper cur \<Longrightarrow> list_all proper rs \<Longrightarrow> sorted (map r_start (cur # rs)) \<Longrightarrow>
   separated (squash_loop cur rs) \<and> (\<forall>r \<in> set (squash_loop cur rs). r_start cur \<le> r_start r)"
proof (induction cur rs rule: squash_loop.induct)
  case (2 cur nxt rs)
  show ?case
  proof (cases "is_continuous_range cur nxt")
    case True
    have "sorted (map r_start (hull cur nxt # rs))" "r_start (hull cur nxt) = r_start cur"
      using "2.prems"(3) by (auto simp: min_def)
    moreover have "proper (hull cur nxt)" "list_all proper rs" using "2.prems"(1,2) by simp_all
    ultimately show ?thesis using "2.IH"(1) [OF True] True by simp
  next
    case False
    have le: "r_start cur \<le> r_start nxt" "proper nxt" "list_all proper rs" "sorted (map r_start (nxt # rs))"
      using "2.prems"(2,3) by simp_all
    have "r_start cur \<le> r_end nxt" using le(1,2) unfolding proper_def by (rule order_trans)
    then have gap: "r_end cur < r_start nxt" using False by (simp add: is_continuous_range_def not_le)
    from "2.IH"(2) [OF False le(2-4)]
    have IH: "separated (squash_loop nxt rs)" "\<forall>r \<in> set (squash_loop nxt rs). r_start nxt \<le> r_start r" by auto
    have "\<forall>r \<in> set (squash_loop nxt rs). r_end cur < r_start r \<and> r_start cur \<le> r_start r"
      using IH(2) gap le(1) by (blast intro: less_le_trans order_trans)
    then show ?thesis using IH(1) "2.prems"(1) False by simp
  qed
qed simp

lemma squash_separated:
  assumes "list_all proper rs" "sorted (map r_start rs)"
  shows "separated (order_range_iter (squash (Fragment rs)))"
proof (cases rs)
  case (Cons x xs)
  let ?m = "squash_loop x xs"
  have sep: "separated ?m" using squash_loop_separated [of x xs] assms Cons by simp
  have same: "length ?m = length rs \<Longrightarrow> ?m = rs"
    using squash_loop_length [of x xs] Cons by simp
  have "length ?m = 1 \<Longrightarrow> separated [hd ?m]" using sep by (cases ?m) auto
  then show ?thesis using sep same Cons by (auto simp: Let_def)
qed (simp add: proper_def)

section \<open>Differences\<close>

definition covered_by :: "range \<Rightarrow> range \<Rightarrow> bool" where
  "covered_by r n \<longleftrightarrow> r_start n \<le> r_start r \<and> r_end r \<le> r_end n"

lemma check_range_covered_sound:
  "check_range_covered olds news \<Longrightarrow> news \<noteq> [] \<Longrightarrow> r \<in> set olds \<Longrightarrow> \<exists>n \<in> set news. covered_by r n"
  by (induction olds news rule: check_range_covered.induct)
    (auto simp: covered_by_def not_less split: if_splits)

lemma diff_overlaps_clocks:
  "diff_overlaps e rs = (diffs, e') \<Longrightarrow> separated rs \<Longrightarrow> \<forall>r \<in> set rs. e \<le> r_start r \<Longrightarrow>
   clocks_of diffs = {c. e \<le> c \<and> c < e'} - clocks_of rs \<and> e \<le> e'
   \<and> (rs \<noteq> [] \<longrightarrow> e' = r_end (last rs)) \<and> (\<forall>r \<in> set rs. r_end r \<le> e') \<and> list_all proper diffs"
proof (induction rs arbitrary: e diffs)
  case (Cons r rs)
  obtain ds where ds: "diff_overlaps (r_end r) rs = (ds, e')"
    and diffs: "diffs = (if e < r_start r then [mk_range e (r_start r)] else []) @ ds"
    using Cons.prems(1) by (auto simp: Let_def split: prod.splits)
  have p: "proper r" "e \<le> r_start r" "separated rs" "\<forall>x \<in> set rs. r_end r < r_start x"
    using Cons.prems by auto
  from p(4) have later: "\<And>c. c \<in> clocks_of rs \<Longrightarrow> r_end r < c"
    by (auto simp: clocks_of_def range_clocks_def intro: less_le_trans)
  have "\<forall>x \<in> set rs. r_end r \<le> r_start x" using p(4) by (simp add: less_imp_le)
  from Cons.IH [OF ds p(3) this]
  have IH: "clocks_of ds = {c. r_end r \<le> c \<and> c < e'} - clocks_of rs" "r_end r \<le> e'"
    "rs \<noteq> [] \<longrightarrow> e' = r_end (last rs)" "\<forall>r \<in> set rs. r_end r \<le> e'" "list_all proper ds" by auto
  have "clocks_of diffs = {c. e \<le> c \<and> c < e'} - clocks_of (r # rs)"
  proof (intro set_eqI)
    fix c
    have "c \<in> clocks_of diffs \<longleftrightarrow> e \<le> c \<and> c < r_start r \<or> c \<in> clocks_of ds"
      by (auto simp: diffs range_clocks_def)
    also have "\<dots> \<longleftrightarrow> c \<in> {c. e \<le> c \<and> c < e'} - clocks_of (r # rs)"
      using p(1,2) IH(1,2) later [of c] unfolding proper_def
      by (auto simp: range_clocks_def not_less not_le intro: less_le_trans order_trans dest: leD)
    finally show "c \<in> clocks_of diffs \<longleftrightarrow> c \<in> {c. e \<le> c \<and> c < e'} - clocks_of (r # rs)" .
  qed
  moreover have "e \<le> e'" using p IH(2) unfolding proper_def by auto
  moreover have "rs = [] \<Longrightarrow> e' = r_end r" using ds by simp
  moreover have "list_all proper diffs" using IH(5) by (auto simp: diffs proper_def)
  ultimately show ?case using IH(2-4) by auto
qed auto

lemma diff_new_range_clocks:
  assumes "proper n" "separated rs" "\<forall>r \<in> set rs. covered_by r n"
  shows "clocks_of (diff_new_range n rs) = range_clocks n - clocks_of rs
    \<and> list_all proper (diff_new_range n rs)"
proof (cases rs)
  case (Cons r rs')
  obtain ds e where d: "diff_overlaps (r_start r) rs = (ds, e)" by (cases "diff_overlaps (r_start r) rs") auto
  have starts: "\<forall>x \<in> set rs. r_start r \<le> r_start x"
    using assms(2) unfolding Cons by (auto simp: proper_def intro: less_imp_le order_trans)
  from diff_overlaps_clocks [OF d assms(2) starts] Cons
  have D: "clocks_of ds = {c. r_start r \<le> c \<and> c < e} - clocks_of rs" "r_start r \<le> e"
    "\<forall>x \<in> set rs. r_end x \<le> e" "e = r_end (last rs)" "list_all proper ds" by auto
  have cov: "r_start n \<le> r_start r" "e \<le> r_end n"
    using assms(3) D(4) Cons by (auto simp: covered_by_def)
  have inside: "\<And>c. c \<in> clocks_of rs \<Longrightarrow> r_start r \<le> c \<and> c < e"
    using starts D(3) by (auto simp: clocks_of_def range_clocks_def intro: order_trans less_le_trans)
  have eq: "diff_new_range n rs = (if r_start n < r_start r then [mk_range (r_start n) (r_start r)] else [])
      @ ds @ (if e < r_end n then [mk_range e (r_end n)] else [])"
    using d by (simp add: diff_new_range_def Cons Let_def)
  have "clocks_of (diff_new_range n rs) = range_clocks n - clocks_of rs"
  proof (intro set_eqI)
    fix c
    have "c \<in> clocks_of (diff_new_range n rs) \<longleftrightarrow>
        r_start n \<le> c \<and> c < r_start r \<or> c \<in> clocks_of ds \<or> e \<le> c \<and> c < r_end n"
      by (auto simp: eq range_clocks_def)
    also have "\<dots> \<longleftrightarrow> c \<in> range_clocks n - clocks_of rs"
      using D(1,2) cov inside [of c]
      by (auto simp: range_clocks_def not_less not_le intro: less_le_trans order_trans dest: leD)
    finally show "c \<in> clocks_of (diff_new_range n rs) \<longleftrightarrow> c \<in> range_clocks n - clocks_of rs" .
  qed
  moreover have "list_all proper (diff_new_range n rs)"
    using D(5) by (auto simp: eq proper_def)
  ultimately show ?thesis by blast
qed (use assms in \<open>simp add: diff_new_range_def\<close>)

text \<open>The ranges that start inside the first new range, and those that start after it.\<close>

lemma separated_take_drop:
  assumes "separated rs"
  shows "\<forall>r \<in> set (takeWhile (\<lambda>r. r_start r \<le> e) rs). r_start r \<le> e"
    "\<forall>r \<in> set (dropWhile (\<lambda>r. r_start r \<le> e) rs). e < r_start r"
    "separated (takeWhile (\<lambda>r. r_start r \<le> e) rs)" "separated (dropWhile (\<lambda>r. r_start r \<le> e) rs)"
proof -
  show "\<forall>r \<in> set (takeWhile (\<lambda>r. r_start r \<le> e) rs). r_start r \<le> e"
    by (auto dest: set_takeWhileD)
  show "\<forall>r \<in> set (dropWhile (\<lambda>r. r_start r \<le> e) rs). e < r_start r"
    using assms
  proof (induction rs)
    case (Cons r rs)
    then have r: "r_start r \<le> r_end r" "\<forall>x \<in> set rs. r_end r < r_start x" by (auto simp: proper_def)
    show ?case
    proof (cases "r_start r \<le> e")
      case False
      then have "e < r_start r" by simp
      from this r(1) have "e < r_end r" by (rule less_le_trans)
      then have "\<forall>x \<in> set rs. e < r_start x" using r(2) by (blast intro: less_trans)
      with \<open>e < r_start r\<close> show ?thesis by simp
    qed (use Cons in simp)
  qed simp
  have "separated (takeWhile (\<lambda>r. r_start r \<le> e) rs @ dropWhile (\<lambda>r. r_start r \<le> e) rs)"
    using assms by simp
  then show "separated (takeWhile (\<lambda>r. r_start r \<le> e) rs)" "separated (dropWhile (\<lambda>r. r_start r \<le> e) rs)"
    unfolding separated_append by blast+
qed

lemma diff_loop_clocks:
  "separated news \<Longrightarrow> separated olds \<Longrightarrow> \<forall>r \<in> set olds. \<exists>n \<in> set news. covered_by r n \<Longrightarrow>
   clocks_of (diff_loop news olds) = clocks_of news - clocks_of olds \<and> list_all proper (diff_loop news olds)"
proof (induction news arbitrary: olds)
  case (Cons n news)
  let ?T = "takeWhile (\<lambda>r. r_start r \<le> r_end n) olds"
  let ?D = "dropWhile (\<lambda>r. r_start r \<le> r_end n) olds"
  note split = separated_take_drop [OF Cons.prems(2), of "r_end n"]
  have n: "proper n" "separated news" "\<forall>m \<in> set news. r_end n < r_start m \<and> proper m"
    using Cons.prems(1) by (auto simp: separated_proper)
  have sub: "set ?T \<subseteq> set olds" "set ?D \<subseteq> set olds" by (auto dest: set_takeWhileD set_dropWhileD)
  have T: "\<forall>r \<in> set ?T. covered_by r n"
  proof
    fix r assume r: "r \<in> set ?T"
    with sub(1) Cons.prems(3) obtain m where m: "m \<in> set (n # news)" "covered_by r m" by blast
    have "r_start r \<le> r_end n" using split(1) r by blast
    with n(3) m(2) have "m \<notin> set news" unfolding covered_by_def by fastforce
    with m show "covered_by r n" by simp
  qed
  have D: "\<forall>r \<in> set ?D. \<exists>m \<in> set news. covered_by r m"
  proof
    fix r assume r: "r \<in> set ?D"
    with sub(2) Cons.prems(3) obtain m where m: "m \<in> set (n # news)" "covered_by r m" by blast
    have "proper r" using r split(4) by (rule separated_proper [rotated])
    with r split(2) m(2) have "m \<noteq> n" unfolding covered_by_def proper_def by fastforce
    with m show "\<exists>m \<in> set news. covered_by r m" by auto
  qed
  from diff_new_range_clocks [OF n(1) split(3) T]
  have head: "clocks_of (diff_new_range n ?T) = range_clocks n - clocks_of ?T"
    "list_all proper (diff_new_range n ?T)" by auto
  from Cons.IH [OF n(2) split(4) D]
  have tail: "clocks_of (diff_loop news ?D) = clocks_of news - clocks_of ?D"
    "list_all proper (diff_loop news ?D)" by auto
  have olds: "clocks_of olds = clocks_of ?T \<union> clocks_of ?D"
    using clocks_of_simps(3) [of ?T ?D] by simp
  have "clocks_of ?T \<subseteq> range_clocks n"
    using T by (auto simp: clocks_of_def range_clocks_def covered_by_def intro: order_trans less_le_trans)
  moreover have "\<And>c. c \<in> clocks_of ?D \<Longrightarrow> r_end n < c"
    using split(2) by (auto simp: clocks_of_def range_clocks_def intro: less_le_trans)
  moreover have "\<And>c. c \<in> clocks_of news \<Longrightarrow> r_end n < c"
    using n(3) by (auto simp: clocks_of_def range_clocks_def intro: less_le_trans)
  moreover have "\<And>c. c \<in> range_clocks n \<Longrightarrow> c < r_end n" by (simp add: range_clocks_def)
  ultimately have "(range_clocks n - clocks_of ?T) \<union> (clocks_of news - clocks_of ?D)
      = (range_clocks n \<union> clocks_of news) - clocks_of olds"
    unfolding olds by (blast dest: less_asym)
  then show ?case using head tail by simp
qed auto

lemma diff_range_clocks:
  assumes "separated (order_range_iter old)" "separated (order_range_iter new)"
    "check_range_covered (order_range_iter old) (order_range_iter new)" "order_range_iter new \<noteq> []"
  shows "clocks_of (diff_range old new) = clocks new - clocks old"
  using diff_loop_clocks [OF assms(2,1)] check_range_covered_sound [OF assms(3,4)] assms(3)
  by (simp add: diff_range_def clocks_def)

section \<open>Properties\<close>

text \<open>C27: Pushing and merging lose and invent no clock.  \<open>OrderRange::push\<close> adds exactly the clocks
  of the range to the set the value stands for, and \<open>merge\<close> builds exactly the union, whatever the
  order or the overlaps of the ranges.\<close>

theorem order_range_push_merge_union:
  assumes "order_range_proper r" "order_range_proper s" "proper rng"
  shows "clocks (push r rng) = clocks r \<union> range_clocks rng
    \<and> clocks (merge r s) = clocks r \<union> clocks s
    \<and> (contains (merge r s) c \<longleftrightarrow> contains r c \<or> contains s c)"
  using push_clocks [OF assms(1,3)] merge_clocks [OF assms(1,2)] by (simp add: contains_iff)

lemma order_range_push_merge_union_witness:
  "clocks (push (Range (mk_range 1 4)) (mk_range 6 9)) = range_clocks (mk_range 1 4) \<union> range_clocks (mk_range 6 9)"
  using order_range_push_merge_union [of "Range (mk_range 1 4)" "Range (mk_range 2 5)" "mk_range 6 9"]
  by (simp add: proper_def)

text \<open>The sorted, gap-separated shape of a list survives \<open>push_inner\<close> (the binary search and
  \<open>squash_around\<close>) whenever the pushed range touches at most two of the ranges.\<close>

lemma order_range_push_inner_shape:
  assumes "separated xs" "proper rng" "length (filter (\<lambda>m. is_continuous_range m rng) xs) \<le> 2"
  shows "separated (push_inner xs rng) \<and> clocks_of (push_inner xs rng) = clocks_of xs \<union> range_clocks rng"
  using push_inner_separated [OF assms] push_inner_clocks [of xs rng] assms(1,2)
  by (simp add: separated_def)

lemma order_range_push_inner_shape_witness:
  "separated (push_inner [mk_range 0 1, mk_range 3 4, mk_range 8 9] (mk_range 1 3))"
  using order_range_push_inner_shape [of "[mk_range 0 1, mk_range 3 4, mk_range 8 9]" "mk_range 1 3"]
  by (simp add: proper_def is_continuous_range_def)

text \<open>The bound of the last theorem is sharp.  A range over three existing ones is merged with two
  of them only: pushing 0..5 leaves the list 0..5, 4..5, which overlaps.\<close>

lemma order_range_push_three_overlaps:
  "push (Fragment [mk_range 0 1, mk_range 2 3, mk_range 4 5]) (mk_range 0 5)
     = Fragment [mk_range 0 5, mk_range 4 5]
   \<and> \<not> separated [mk_range 0 5, mk_range 4 5]"
  by (simp add: push_inner_def binary_search_by_def binary_search_loop.simps cmp_range_def
      is_continuous_range_def squash_around_def deque_remove_def hull_def)

text \<open>\<open>squash\<close> keeps the clocks and, on ranges sorted by their start (as \<open>DeleteSet\<close> sorts them
  before), leaves no two ranges that touch.\<close>

lemma order_range_squash_correct:
  assumes "list_all proper rs" "sorted (map r_start rs)"
  shows "clocks (squash (Fragment rs)) = clocks_of rs \<and> separated (order_range_iter (squash (Fragment rs)))"
  using squash_clocks [of "Fragment rs"] squash_separated [OF assms] assms(1) by simp

lemma order_range_squash_correct_witness:
  "separated (order_range_iter (squash (Fragment [mk_range 0 2, mk_range 1 4, mk_range 4 5, mk_range 7 8])))"
  using order_range_squash_correct [of "[mk_range 0 2, mk_range 1 4, mk_range 4 5, mk_range 7 8]"]
  by (simp add: proper_def)

text \<open>\<open>diff_range\<close> of two separated values is the exact set difference when the check that the new
  ranges cover the old ones passes, and that check implies the covering.\<close>

lemma order_range_diff_exact:
  assumes "separated (order_range_iter old)" "separated (order_range_iter new)"
    "check_range_covered (order_range_iter old) (order_range_iter new)" "order_range_iter new \<noteq> []"
  shows "clocks_of (diff_range old new) = clocks new - clocks old
    \<and> (\<forall>r \<in> set (order_range_iter old). \<exists>n \<in> set (order_range_iter new). covered_by r n)"
  using diff_range_clocks [OF assms] check_range_covered_sound [OF assms(3,4)] by blast

lemma order_range_diff_exact_witness:
  "clocks_of (diff_range (Fragment [mk_range 1 2, mk_range 4 5]) (Range (mk_range 0 9)))
   = range_clocks (mk_range 0 9) - (range_clocks (mk_range 1 2) \<union> range_clocks (mk_range 4 5))"
  using order_range_diff_exact [of "Fragment [mk_range 1 2, mk_range 4 5]" "Range (mk_range 0 9)"]
  by (simp add: proper_def)

end
