(* ===== verification/Delete_Set.thy ===== *)
theory Delete_Set
  imports Codec_Interface Order_Range
begin

text \<open>
  Delete sets, \<open>libs/jwst-codec/src/doc/codec/delete_set.rs\<close>: for each client the ranges of clocks
  that are deleted, their operations and their binary form.  \<open>ds_clocks\<close> is the set of deleted
  clocks of a client; the operations are compared with it.
\<close>

section \<open>Definitions\<close>

definition read_range :: "range reader" where
  "read_range decoder =
     rbind (dec_read_var_u64 decoder) (\<lambda>(clock, decoder).
     rbind (dec_read_var_u64 decoder) (\<lambda>(len, decoder).
     rbind (add_u64 clock len) (\<lambda>e.
     Ok (mk_range clock e, decoder))))"

definition write_range :: "range writer" where
  "write_range encoder r =
     rbind (enc_write_var_u64 encoder (r_start r)) (\<lambda>encoder.
     rbind (sub_u64 (r_end r) (r_start r)) (\<lambda>len.
     enc_write_var_u64 encoder len))"

text \<open>
  \<open>VecDeque::with_capacity\<close> panics when the ranges, 16 bytes each, would take more than
  \<open>isize::MAX\<close> bytes.  Whether a smaller request succeeds is up to the allocator.
\<close>

definition ranges_capacity :: "nat \<Rightarrow> ('e, unit) result" where
  "ranges_capacity n = (if n * 16 < 2 ^ 63 then Ok () else Panic)"

definition read_order_range :: "order_range reader" where
  "read_order_range decoder =
     rbind (dec_read_var_u64 decoder) (\<lambda>(num_of_deletes, decoder).
     if num_of_deletes = 1 then
       rbind (read_range decoder) (\<lambda>(r, decoder). Ok (Range r, decoder))
     else
       rbind (ranges_capacity (unat num_of_deletes)) (\<lambda>_.
       rbind (read_times read_range (unat num_of_deletes) decoder) (\<lambda>(deletes, decoder).
       Ok (Fragment deletes, decoder))))"

fun write_order_range :: "order_range writer" where
  "write_order_range encoder (Range r) =
     rbind (enc_write_var_u64 encoder 1) (\<lambda>encoder. write_range encoder r)"
| "write_order_range encoder (Fragment ranges) =
     rbind (enc_write_var_u64 encoder (of_nat (length ranges))) (\<lambda>encoder.
     write_each write_range encoder ranges)"

type_synonym delete_set = "(client, order_range) hashmap"

definition delete_set_from :: "(client \<times> range list) list \<Rightarrow> delete_set" where
  "delete_set_from value = hm_collect (map (\<lambda>(client, ranges). (client, Fragment ranges)) value)"

definition add_range :: "client \<Rightarrow> range \<Rightarrow> delete_set \<Rightarrow> delete_set" where
  "add_range client rng ds =
     (case map_of ds client of
        Some r \<Rightarrow> hm_insert client (if is_empty r then Range rng else push r rng) ds
      | None \<Rightarrow> hm_insert client (Range rng) ds)"

definition add :: "client \<Rightarrow> clock \<Rightarrow> clock \<Rightarrow> delete_set \<Rightarrow> (codec_error, delete_set) result" where
  "add client from_clock len ds =
     rbind (add_u64 from_clock len) (\<lambda>e. Ok (add_range client (mk_range from_clock e) ds))"

definition batch_add_ranges :: "client \<Rightarrow> range list \<Rightarrow> delete_set \<Rightarrow> delete_set" where
  "batch_add_ranges client ranges ds =
     (case map_of ds client of
        Some r \<Rightarrow> hm_insert client (extend r ranges) ds
      | None \<Rightarrow> hm_insert client (Fragment ranges) ds)"

fun merge_delete_set :: "delete_set \<Rightarrow> (client \<times> order_range) list \<Rightarrow> delete_set" where
  "merge_delete_set ds [] = ds"
| "merge_delete_set ds ((client, r) # other) =
     merge_delete_set
       (case map_of ds client of
          Some e \<Rightarrow> hm_insert client (merge e r) ds
        | None \<Rightarrow> hm_insert client r ds) other"

definition read_delete_entry :: "(client \<times> order_range) reader" where
  "read_delete_entry decoder =
     rbind (dec_read_var_u64 decoder) (\<lambda>(client, decoder).
     rbind (read_order_range decoder) (\<lambda>(deletes, decoder).
     Ok ((client, deletes), decoder)))"

definition read_delete_set :: "delete_set reader" where
  "read_delete_set decoder =
     rbind (dec_read_var_u64 decoder) (\<lambda>(num_of_clients, decoder).
     rbind (read_times read_delete_entry (unat num_of_clients) decoder) (\<lambda>(entries, decoder).
     Ok (hm_collect entries, decoder)))"

definition write_delete_client :: "delete_set \<Rightarrow> client writer" where
  "write_delete_client ds encoder client =
     rbind (enc_write_var_u64 encoder client) (\<lambda>encoder.
     rbind (unwrap (map_of ds client)) (\<lambda>r. write_order_range encoder r))"

definition write_delete_set :: "delete_set writer" where
  "write_delete_set encoder ds =
     rbind (enc_write_var_u64 encoder (of_nat (length ds))) (\<lambda>encoder.
     write_each (write_delete_client ds) encoder (rev (sort (map fst ds))))"

section \<open>The deleted clocks\<close>

definition ds_clocks :: "delete_set \<Rightarrow> client \<Rightarrow> clock set" where
  "ds_clocks ds c = (case map_of ds c of None \<Rightarrow> {} | Some r \<Rightarrow> clocks r)"

definition ds_proper :: "delete_set \<Rightarrow> bool" where
  "ds_proper ds \<longleftrightarrow> (\<forall>c r. map_of ds c = Some r \<longrightarrow> order_range_proper r)"

lemma ds_properD: "ds_proper ds \<Longrightarrow> map_of ds c = Some r \<Longrightarrow> order_range_proper r"
  by (auto simp: ds_proper_def)

lemma ds_clocks_insert [simp]:
  "ds_clocks (hm_insert c r ds) = (ds_clocks ds)(c := clocks r)"
  by (simp add: ds_clocks_def fun_eq_iff)

lemma ds_proper_insert [simp]:
  "ds_proper ds \<Longrightarrow> order_range_proper r \<Longrightarrow> ds_proper (hm_insert c r ds)"
  by (auto simp: ds_proper_def)

lemma is_empty_clocks: "is_empty r \<Longrightarrow> clocks r = {}"
  by (cases r) (auto simp: range_is_empty_clocks)

lemma add_range_clocks:
  assumes "ds_proper ds" "proper rng"
  shows "ds_clocks (add_range c rng ds) = (ds_clocks ds)(c := ds_clocks ds c \<union> range_clocks rng)
    \<and> ds_proper (add_range c rng ds)"
proof (cases "map_of ds c")
  case (Some r)
  with assms(1) have "order_range_proper r" by (rule ds_properD)
  from push_clocks [OF this assms(2)] is_empty_clocks [of r] Some assms
  show ?thesis by (auto simp: add_range_def ds_clocks_def [of ds c])
qed (use assms in \<open>simp add: add_range_def ds_clocks_def [of ds c]\<close>)

lemma batch_add_ranges_clocks:
  assumes "ds_proper ds" "list_all proper ranges"
  shows "ds_clocks (batch_add_ranges c ranges ds) = (ds_clocks ds)(c := ds_clocks ds c \<union> clocks_of ranges)
    \<and> ds_proper (batch_add_ranges c ranges ds)"
proof (cases "map_of ds c")
  case (Some r)
  with assms(1) have "order_range_proper r" by (rule ds_properD)
  from extend_clocks [OF this assms(2)] Some assms
  show ?thesis by (auto simp: batch_add_ranges_def ds_clocks_def [of ds c])
qed (use assms in \<open>simp add: batch_add_ranges_def ds_clocks_def [of ds c]\<close>)

lemma merge_delete_set_clocks:
  "ds_proper ds \<Longrightarrow> hm_wf other \<Longrightarrow> ds_proper other \<Longrightarrow>
   ds_clocks (merge_delete_set ds other) c = ds_clocks ds c \<union> ds_clocks other c
   \<and> ds_proper (merge_delete_set ds other)"
proof (induction ds other rule: merge_delete_set.induct)
  case (2 ds client r other)
  let ?ds = "case map_of ds client of Some e \<Rightarrow> hm_insert client (merge e r) ds
    | None \<Rightarrow> hm_insert client r ds"
  have r: "order_range_proper r" using "2.prems"(3) by (rule ds_properD [of _ client]) simp
  have fresh: "hm_wf other" "map_of other client = None"
    using "2.prems"(2) by (auto simp: hm_wf_def map_of_eq_None_iff)
  have "map_of ((client, r) # other) c' = Some r'" if "map_of other c' = Some r'" for c' r'
    using fresh(2) that by auto
  then have rest: "hm_wf other" "ds_proper other" "map_of other client = None"
    using "2.prems"(3) fresh unfolding ds_proper_def by blast+
  have step: "ds_proper ?ds \<and> ds_clocks ?ds = (ds_clocks ds)(client := ds_clocks ds client \<union> clocks r)"
  proof (cases "map_of ds client")
    case (Some e)
    with "2.prems"(1) have "order_range_proper e" by (rule ds_properD)
    from merge_clocks [OF this r] Some "2.prems"(1)
    show ?thesis by (simp add: ds_clocks_def [of ds client])
  qed (use r "2.prems"(1) in \<open>simp add: ds_clocks_def [of ds client]\<close>)
  have tail: "ds_clocks ((client, r) # other) c = (if c = client then clocks r else ds_clocks other c)"
    by (simp add: ds_clocks_def)
  have "ds_clocks other client = {}" using rest(3) by (simp add: ds_clocks_def)
  with "2.IH" [OF conjunct1 [OF step] rest(1,2)] conjunct2 [OF step] tail show ?case by auto
qed (simp add: ds_clocks_def [of "[]"])

section \<open>The codec of a range\<close>

definition range_bytes :: "range \<Rightarrow> bytes" where
  "range_bytes r = var_u64_bytes (r_start r) @ var_u64_bytes (r_end r - r_start r)"

lemma range_end: "proper r \<Longrightarrow> add_u64 (r_start r) (r_end r - r_start r) = Ok (r_end r)"
  using unat_u64_less [of "r_end r"]
  by (auto simp: add_u64_def proper_def unat_minus_u64 le_unat)

lemma mk_range_eta [simp]: "mk_range (r_start r) (r_end r) = r"
  by (simp add: mk_range_def)

lemma advances_lift: "advances 0 (\<lambda>d. rbind m (\<lambda>x. Ok (g x, d)))"
  by (cases m) (simp_all add: advances_def)

interpretation range_codec: codec read_range 1 write_range range_bytes proper
proof
  show "advances 1 read_range"
    unfolding read_range_def
    by (intro advances_bind advances_lift var_u64.progress advances_mono [OF var_u64.progress]) simp
  show "decodes read_range (range_bytes x) x" if "proper x" for x
  proof -
    have "decodes (\<lambda>d. rbind (dec_read_var_u64 d) (\<lambda>(len, d). rbind (add_u64 (r_start x) len) (\<lambda>e.
        Ok (mk_range (r_start x) e, d)))) (var_u64_bytes (r_end x - r_start x) @ []) x"
      using decodes_return [of x]
      by (intro decodes_bind [OF var_u64.rd_enc]) (simp_all add: range_end that)
    then show ?thesis
      unfolding read_range_def range_bytes_def
      by (intro decodes_bind [OF var_u64.rd_enc]) simp_all
  qed
  show "appends write_range x (range_bytes x)" if "proper x" for x
    using that
    by (simp add: appends_def write_range_def range_bytes_def appendsD [OF var_u64.wr_enc]
        sub_u64_def proper_def)
qed

text \<open>A fragment of one range is read back as that range, so the codec is for the other values.\<close>

definition order_range_ok :: "order_range \<Rightarrow> bool" where
  "order_range_ok r \<longleftrightarrow> order_range_proper r \<and> make_single r = r \<and> ranges_len r * 16 < 2 ^ 63"

fun order_range_bytes :: "order_range \<Rightarrow> bytes" where
  "order_range_bytes (Range r) = var_u64_bytes 1 @ range_bytes r"
| "order_range_bytes (Fragment rs) = var_u64_bytes (of_nat (length rs)) @ concat (map range_bytes rs)"

lemma advances_guard: "advances k f \<Longrightarrow> advances k (\<lambda>d. rbind m (\<lambda>_. f d))"
  by (cases m) (simp_all add: advances_fail)

lemma make_single_fixed: "make_single (Fragment rs) = Fragment rs \<longleftrightarrow> length rs \<noteq> 1"
  by (cases rs; cases "tl rs") auto

interpretation order_range: codec read_order_range 1 write_order_range order_range_bytes order_range_ok
proof
  show "advances 1 read_order_range"
    unfolding read_order_range_def
    by (intro advances_bind advances_if advances_guard advances_return var_u64.progress
        range_codec.times_progress advances_mono [OF range_codec.progress]) simp
  show "decodes read_order_range (order_range_bytes x) x" if "order_range_ok x" for x
  proof (cases x)
    case (Range r)
    then have "decodes (\<lambda>d. rbind (read_range d) (\<lambda>(r, d). Ok (Range r, d))) (range_bytes r) (Range r)"
      using that by (intro decodes_map range_codec.rd_enc) (simp add: order_range_ok_def)
    then show ?thesis unfolding Range read_order_range_def
      by (simp only: order_range_bytes.simps) (rule decodes_bind [OF var_u64.rd_enc], simp_all)
  next
    case (Fragment rs)
    have ok: "length rs * 16 < 2 ^ 63" "length rs \<noteq> 1" "list_all proper rs"
      using that by (auto simp: order_range_ok_def Fragment make_single_fixed)
    then have n: "unat (of_nat (length rs) :: u64) = length rs" by (intro unat_length) simp
    then have "(of_nat (length rs) :: u64) \<noteq> 1" using ok(2) by (metis unat_1)
    moreover have "decodes (\<lambda>d. rbind (read_times read_range (length rs) d) (\<lambda>(rs, d). Ok (Fragment rs, d)))
        (concat (map range_bytes rs)) (Fragment rs)"
      using ok(3) by (intro decodes_map range_codec.many_rd) (simp add: list_all_iff)
    moreover have "(ranges_capacity (length rs) :: unit codec_result) = Ok ()" using ok(1) unfolding ranges_capacity_def by (rule if_P)
    ultimately show ?thesis unfolding Fragment read_order_range_def
      by (simp only: order_range_bytes.simps)
        (rule decodes_bind [OF var_u64.rd_enc], simp_all add: n)
  qed
  show "appends write_order_range x (order_range_bytes x)" if "order_range_ok x" for x
    using that
    by (cases x) (auto simp: appends_def order_range_ok_def appendsD [OF var_u64.wr_enc]
        appendsD [OF range_codec.wr_enc] appendsD [OF range_codec.many_wr] list_all_iff)
qed

section \<open>The codec of a delete set\<close>

definition delete_entry_bytes :: "client \<times> order_range \<Rightarrow> bytes" where
  "delete_entry_bytes entry = var_u64_bytes (fst entry) @ order_range_bytes (snd entry)"

interpretation delete_entry: reader read_delete_entry 1
proof
  show "advances 1 read_delete_entry"
    unfolding read_delete_entry_def
    by (intro advances_bind advances_return var_u64.progress advances_mono [OF order_range.progress]) simp
qed

lemma delete_entry_decodes:
  assumes "order_range_ok (snd x)"
  shows "decodes read_delete_entry (delete_entry_bytes x) x"
proof -
  have "decodes (\<lambda>d. rbind (read_order_range d) (\<lambda>(r, d). Ok ((fst x, r), d)))
      (order_range_bytes (snd x)) (fst x, snd x)"
    using assms by (intro decodes_map order_range.rd_enc)
  then show ?thesis
    unfolding read_delete_entry_def delete_entry_bytes_def
    by (intro decodes_bind [OF var_u64.rd_enc]) simp_all
qed

text \<open>The entries in the order they are written: the largest client first.\<close>

definition by_client :: "delete_set \<Rightarrow> delete_set" where
  "by_client ds = map (\<lambda>c. (c, the (map_of ds c))) (rev (sort (map fst ds)))"

definition delete_set_bytes :: "delete_set \<Rightarrow> bytes" where
  "delete_set_bytes ds = var_u64_bytes (of_nat (length ds)) @ concat (map delete_entry_bytes (by_client ds))"

definition delete_set_ok :: "delete_set \<Rightarrow> bool" where
  "delete_set_ok ds \<longleftrightarrow> hm_wf ds \<and> length ds < 2 ^ 64 \<and> list_all (\<lambda>(_, r). order_range_ok r) ds"

lemma by_client_keys: "map fst (by_client ds) = rev (sort (map fst ds))"
  by (simp add: by_client_def comp_def)

lemma by_client_length [simp]: "length (by_client ds) = length ds"
  by (simp add: by_client_def)

lemma by_client_wf: "hm_wf ds \<Longrightarrow> hm_wf (by_client ds)"
  by (simp add: hm_wf_def by_client_keys)

lemma map_of_the:
  "set cs \<subseteq> dom m \<Longrightarrow> map_of (map (\<lambda>c. (c, the (m c))) cs) c = (if c \<in> set cs then m c else None)"
  by (induction cs) auto

lemma map_of_by_client [simp]: "map_of (by_client ds) = map_of ds"
proof
  fix c
  have "set (rev (sort (map fst ds))) = dom (map_of ds)" by (simp add: dom_map_of_conv_image_fst)
  then show "map_of (by_client ds) c = map_of ds c"
    unfolding by_client_def by (subst map_of_the) (auto simp: domIff)
qed

lemma by_client_sorted: "sorted (rev (map fst (by_client ds)))"
  by (simp add: by_client_keys)

lemma by_client_ok:
  assumes "delete_set_ok ds" "x \<in> set (by_client ds)"
  shows "order_range_ok (snd x)"
proof -
  have "map_of ds (fst x) = Some (snd x)"
    using assms hm_wf_map_of_mem [OF by_client_wf, of ds "fst x" "snd x"] by (simp add: delete_set_ok_def)
  then have "x \<in> set ds" by (cases x) (auto dest: map_of_SomeD)
  with assms(1) show ?thesis by (auto simp: delete_set_ok_def list_all_iff)
qed

interpretation delete_set: reader read_delete_set 1
proof
  show "advances 1 read_delete_set"
    unfolding read_delete_set_def
    by (intro advances_bind advances_return var_u64.progress delete_entry.times_progress)
qed

lemma delete_set_decodes:
  assumes "delete_set_ok ds"
  shows "decodes read_delete_set (delete_set_bytes ds) (by_client ds)"
proof -
  have "decodes (\<lambda>d. rbind (read_times read_delete_entry (length (by_client ds)) d) (\<lambda>(es, d). Ok (hm_collect es, d)))
      (concat (map delete_entry_bytes (by_client ds))) (hm_collect (by_client ds))"
    using by_client_ok [OF assms] by (intro decodes_map decodes_times delete_entry_decodes)
  moreover have "hm_collect (by_client ds) = by_client ds" "unat (of_nat (length ds) :: u64) = length ds"
    using assms by (simp_all add: delete_set_ok_def unat_length by_client_wf)
  ultimately show ?thesis
    unfolding read_delete_set_def delete_set_bytes_def
    by (intro decodes_bind [OF var_u64.rd_enc]) simp_all
qed

lemma write_delete_client_appends:
  assumes "delete_set_ok ds" "x \<in> set (by_client ds)"
  shows "write_delete_client ds e (fst x) = Ok (e\<lparr>enc_buffer := enc_buffer e @ delete_entry_bytes x\<rparr>)"
proof -
  have "map_of ds (fst x) = Some (snd x)"
    using assms hm_wf_map_of_mem [OF by_client_wf, of ds "fst x" "snd x"] by (simp add: delete_set_ok_def)
  with appendsD [OF order_range.wr_enc [OF by_client_ok [OF assms]]] show ?thesis
    by (simp add: write_delete_client_def delete_entry_bytes_def appendsD [OF var_u64.wr_enc])
qed

lemma write_each_map:
  "(\<And>x e. x \<in> set xs \<Longrightarrow> wr e (f x) = Ok (e\<lparr>enc_buffer := enc_buffer e @ enc x\<rparr>)) \<Longrightarrow>
   write_each wr e (map f xs) = Ok (e\<lparr>enc_buffer := enc_buffer e @ concat (map enc xs)\<rparr>)"
proof (induction xs arbitrary: e)
  case (Cons x xs)
  have "wr e (f x) = Ok (e\<lparr>enc_buffer := enc_buffer e @ enc x\<rparr>)" using Cons.prems by simp
  then show ?case using Cons by simp
qed simp

lemma delete_set_appends:
  assumes "delete_set_ok ds"
  shows "appends write_delete_set ds (delete_set_bytes ds)"
  using write_each_map [of "by_client ds" "write_delete_client ds" fst delete_entry_bytes,
      OF write_delete_client_appends [OF assms]]
  by (simp add: appends_def write_delete_set_def delete_set_bytes_def appendsD [OF var_u64.wr_enc]
      by_client_keys)

section \<open>Properties\<close>

text \<open>A delete set survives the wire.  The clients are written in descending order, whatever the
  iteration order of the map, and reading the bytes gives a map with the same entries.\<close>

lemma delete_set_roundtrip:
  assumes "hm_wf ds" "length ds < 2 ^ 64" "list_all (\<lambda>(_, r). order_range_ok r) ds"
  shows "\<exists>bs ds'. write_delete_set new_encoder ds = Ok \<lparr>enc_buffer = bs\<rparr>
    \<and> read_delete_set (new_decoder (bs @ rest)) = Ok (ds', \<lparr>dec_buffer = bs @ rest, dec_pos = length bs\<rparr>)
    \<and> map_of ds' = map_of ds \<and> sorted (rev (map fst ds'))"
proof -
  have ok: "delete_set_ok ds" using assms by (simp add: delete_set_ok_def)
  show ?thesis
    using appendsD [OF delete_set_appends [OF ok], of new_encoder]
      decodes_fresh [OF delete_set_decodes [OF ok], of rest] map_of_by_client by_client_sorted
    by (auto simp: new_encoder_def)
qed

lemma delete_set_roundtrip_witness:
  "\<exists>bs ds'. write_delete_set new_encoder [(3, Range (mk_range 1 4)), (8, Fragment [mk_range 0 2, mk_range 5 6])]
        = Ok \<lparr>enc_buffer = bs\<rparr>
    \<and> read_delete_set (new_decoder (bs @ [])) = Ok (ds', \<lparr>dec_buffer = bs @ [], dec_pos = length bs\<rparr>)
    \<and> map_of ds' = map_of [(3, Range (mk_range 1 4)), (8, Fragment [mk_range 0 2, mk_range 5 6])]
    \<and> sorted (rev (map fst ds'))"
  by (rule delete_set_roundtrip) (simp_all add: hm_wf_def order_range_ok_def proper_def)

text \<open>C28: Adding to a delete set and merging two of them is exact.  \<open>add_range\<close> and
  \<open>batch_add_ranges\<close> add the given clocks to their client and change no other; \<open>merge\<close> gives every
  client the union of its clocks in both.\<close>

theorem delete_set_operations_exact:
  assumes "ds_proper ds" "ds_proper other" "hm_wf other" "proper rng" "list_all proper ranges"
  shows "ds_clocks (add_range c rng ds) = (ds_clocks ds)(c := ds_clocks ds c \<union> range_clocks rng)
    \<and> ds_clocks (batch_add_ranges c ranges ds) = (ds_clocks ds)(c := ds_clocks ds c \<union> clocks_of ranges)
    \<and> ds_clocks (merge_delete_set ds other) c' = ds_clocks ds c' \<union> ds_clocks other c'"
  using add_range_clocks [OF assms(1,4)] batch_add_ranges_clocks [OF assms(1,5)]
    merge_delete_set_clocks [OF assms(1,3,2)] by blast

lemma delete_set_operations_exact_witness:
  "ds_clocks (merge_delete_set [(1, Range (mk_range 0 5))] [(1, Range (mk_range 3 9)), (2, Fragment [])]) 1
     = range_clocks (mk_range 0 5) \<union> range_clocks (mk_range 3 9)"
  using delete_set_operations_exact [where ds = "[(1, Range (mk_range 0 5))]" and c' = 1
      and other = "[(1, Range (mk_range 3 9)), (2, Fragment [])]" and rng = "mk_range 0 0" and ranges = "[]"]
  by (simp add: ds_proper_def hm_wf_def proper_def ds_clocks_def)

text \<open>A short message can crash the reader.  The count of the ranges of a client is taken from
  the message and is the requested capacity of the deque, so a count of \<open>2 ^ 59\<close> or more panics before
  any range is read, and a single range whose end exceeds \<open>u64::MAX\<close> panics on the addition.\<close>

lemma order_range_read_panics:
  assumes "2 ^ 59 \<le> unat n"
  shows "read_order_range (new_decoder (var_u64_bytes n @ rest)) = Panic
    \<and> read_order_range (new_decoder (var_u64_bytes 1 @ var_u64_bytes n @ var_u64_bytes (- n) @ rest)) = Panic"
proof -
  have n1: "n \<noteq> 1" using assms by auto
  have big: "(ranges_capacity (unat n) :: unit codec_result) = Panic"
    using assms by (simp add: ranges_capacity_def)
  have "n \<noteq> 0" using assms by auto
  then have neg: "2 ^ 64 \<le> unat n + unat (- n)"
    using unat_plus_u64 [of n "- n"] unat_eq_0 [of n] by (cases "2 ^ 64 \<le> unat n + unat (- n)") auto
  have read1: "dec_read_var_u64 (new_decoder (var_u64_bytes n @ rest))
      = Ok (n, \<lparr>dec_buffer = var_u64_bytes n @ rest, dec_pos = length (var_u64_bytes n)\<rparr>)"
    by (rule decodes_fresh [OF var_u64.rd_enc]) simp
  note read = decodesD [OF var_u64.rd_enc [OF TrueI]]
  let ?buf = "var_u64_bytes 1 @ var_u64_bytes n @ var_u64_bytes (- n) @ rest"
  have read2: "dec_read_var_u64 (new_decoder ?buf) = Ok (1, \<lparr>dec_buffer = ?buf, dec_pos = length (var_u64_bytes 1)\<rparr>)"
    by (rule decodes_fresh [OF var_u64.rd_enc]) simp
  have read3: "dec_read_var_u64 \<lparr>dec_buffer = ?buf, dec_pos = length (var_u64_bytes 1)\<rparr>
      = Ok (n, \<lparr>dec_buffer = ?buf, dec_pos = length (var_u64_bytes 1 @ var_u64_bytes n)\<rparr>)"
    using read [of "var_u64_bytes 1" n "var_u64_bytes (- n) @ rest"] by simp
  have read4: "dec_read_var_u64 \<lparr>dec_buffer = ?buf, dec_pos = length (var_u64_bytes 1 @ var_u64_bytes n)\<rparr>
      = Ok (- n, \<lparr>dec_buffer = ?buf, dec_pos = length (var_u64_bytes 1 @ var_u64_bytes n @ var_u64_bytes (- n))\<rparr>)"
    using read [of "var_u64_bytes 1 @ var_u64_bytes n" "- n" rest] by (simp add: add.assoc)
  have "(add_u64 n (- n) :: u64 codec_result) = Panic" using neg by (simp add: add_u64_Panic)
  then show ?thesis
    using read1 read2 read3 read4 n1 big by (simp add: read_order_range_def read_range_def)
qed

lemma order_range_read_panics_witness:
  "read_order_range (new_decoder (var_u64_bytes (2 ^ 63) @ [])) = Panic"
  using order_range_read_panics [of "2 ^ 63" "[]"] by simp

end
