(* ===== verification/State_Vector.thy ===== *)
theory State_Vector
  imports Codec_Interface
begin

text \<open>
  State vectors, \<open>libs/jwst-codec/src/doc/common/state.rs\<close>: for each client the clock of its next
  item.  A client that is not in the map has clock 0.  The lookups are compared with the
  order of the clocks; \<open>set_max\<close> is a join, \<open>merge_with\<close> keeps the smaller clock of every entry.
\<close>

section \<open>Definitions\<close>

type_synonym state_vector = "(client, clock) hashmap"

definition sv_default :: state_vector where
  "sv_default = []"

definition sv_get :: "state_vector \<Rightarrow> client \<Rightarrow> clock" where
  "sv_get sv client = (case map_of sv client of None \<Rightarrow> 0 | Some clock \<Rightarrow> clock)"

definition sv_contains :: "state_vector \<Rightarrow> id \<Rightarrow> bool" where
  "sv_contains sv i \<longleftrightarrow> id_clock i \<le> sv_get sv (id_client i)"

definition set_max :: "client \<Rightarrow> clock \<Rightarrow> state_vector \<Rightarrow> state_vector" where
  "set_max client clock sv =
     (case map_of sv client of
        None \<Rightarrow> hm_insert client clock sv
      | Some m_clock \<Rightarrow> if m_clock < clock then hm_insert client clock sv else sv)"

definition set_min :: "client \<Rightarrow> clock \<Rightarrow> state_vector \<Rightarrow> state_vector" where
  "set_min client clock sv =
     (case map_of sv client of
        None \<Rightarrow> hm_insert client clock sv
      | Some m_clock \<Rightarrow> if clock < m_clock then hm_insert client clock sv else sv)"

fun merge_with :: "state_vector \<Rightarrow> (client \<times> clock) list \<Rightarrow> state_vector" where
  "merge_with sv [] = sv"
| "merge_with sv ((client, clock) # other) = merge_with (set_min client clock sv) other"

definition sv_from :: "(client \<times> clock) list \<Rightarrow> state_vector" where
  "sv_from value = hm_collect value"

definition read_state_entry :: "(client \<times> clock) reader" where
  "read_state_entry decoder =
     rbind (dec_read_var_u64 decoder) (\<lambda>(client, decoder).
     rbind (dec_read_var_u64 decoder) (\<lambda>(clock, decoder).
     Ok ((client, clock), decoder)))"

definition read_state_vector :: "state_vector reader" where
  "read_state_vector decoder =
     rbind (dec_read_var_u64 decoder) (\<lambda>(len, decoder).
     rbind (read_times read_state_entry (unat len) decoder) (\<lambda>(entries, decoder).
     Ok (hm_collect entries, decoder)))"

definition write_state_entry :: "(client \<times> clock) writer" where
  "write_state_entry encoder entry =
     rbind (enc_write_var_u64 encoder (fst entry)) (\<lambda>encoder. enc_write_var_u64 encoder (snd entry))"

definition write_state_vector :: "state_vector writer" where
  "write_state_vector encoder sv =
     rbind (enc_write_var_u64 encoder (of_nat (length sv))) (\<lambda>encoder.
     write_each write_state_entry encoder sv)"

section \<open>Lookups\<close>

lemma sv_get_insert [simp]: "sv_get (hm_insert c k sv) c' = (if c' = c then k else sv_get sv c')"
  by (simp add: sv_get_def)

lemma sv_get_set_max:
  "sv_get (set_max c k sv) c' = (if c' = c then max (sv_get sv c) k else sv_get sv c')"
  by (auto simp: set_max_def sv_get_def max_def split: option.splits)

lemma sv_get_set_min:
  "sv_get (set_min c k sv) c' =
   (if c' = c then (case map_of sv c of None \<Rightarrow> k | Some m \<Rightarrow> min m k) else sv_get sv c')"
  by (auto simp: set_min_def sv_get_def min_def split: option.splits)

lemma map_of_set_min:
  "map_of (set_min c k sv) = (map_of sv)(c \<mapsto> (case map_of sv c of None \<Rightarrow> k | Some m \<Rightarrow> min m k))"
  by (rule ext) (auto simp: set_min_def min_def split: option.splits)

lemma set_max_wf [simp]: "hm_wf sv \<Longrightarrow> hm_wf (set_max c k sv)"
  by (auto simp: set_max_def split: option.splits)

lemma set_min_wf [simp]: "hm_wf sv \<Longrightarrow> hm_wf (set_min c k sv)"
  by (auto simp: set_min_def split: option.splits)

lemma merge_with_wf: "hm_wf sv \<Longrightarrow> hm_wf (merge_with sv other)"
  by (induction sv other rule: merge_with.induct) auto

text \<open>The smaller of two optional clocks.\<close>

fun opt_min :: "clock option \<Rightarrow> clock option \<Rightarrow> clock option" where
  "opt_min None y = y"
| "opt_min x None = x"
| "opt_min (Some x) (Some y) = Some (min x y)"

lemma opt_min_None [simp]: "opt_min x None = x"
  by (cases x) auto

lemma map_of_merge_with:
  "hm_wf other \<Longrightarrow> map_of (merge_with sv other) c = opt_min (map_of sv c) (map_of other c)"
proof (induction sv other rule: merge_with.induct)
  case (2 sv c' k other)
  then have "map_of other c' = None" by (auto simp: hm_wf_def map_of_eq_None_iff)
  then show ?case
    using 2 by (cases "map_of sv c'") (auto simp: hm_wf_def map_of_set_min)
qed simp

section \<open>The codec\<close>

definition state_entry_bytes :: "client \<times> clock \<Rightarrow> bytes" where
  "state_entry_bytes entry = var_u64_bytes (fst entry) @ var_u64_bytes (snd entry)"

interpretation state_entry: codec read_state_entry 1 write_state_entry state_entry_bytes "\<lambda>_. True"
proof
  show "advances 1 read_state_entry"
    unfolding read_state_entry_def
    by (intro advance_intros var_u64.progress advances_mono [OF var_u64.progress]) simp
  show "decodes read_state_entry (state_entry_bytes x) x" for x
  proof -
    have "decodes (\<lambda>d. rbind (dec_read_var_u64 d) (\<lambda>(k, d). Ok ((fst x, k), d)))
        (var_u64_bytes (snd x)) (fst x, snd x)"
      by (intro decodes_map var_u64.rd_enc TrueI)
    then show ?thesis
      unfolding read_state_entry_def state_entry_bytes_def
      by (intro decodes_bind [OF var_u64.rd_enc]) simp_all
  qed
  show "appends write_state_entry x (state_entry_bytes x)" for x
    by (simp add: appends_def write_state_entry_def state_entry_bytes_def appendsD [OF var_u64.wr_enc])
qed

definition state_vector_bytes :: "state_vector \<Rightarrow> bytes" where
  "state_vector_bytes sv = var_u64_bytes (of_nat (length sv)) @ concat (map state_entry_bytes sv)"

definition state_vector_ok :: "state_vector \<Rightarrow> bool" where
  "state_vector_ok sv \<longleftrightarrow> hm_wf sv \<and> length sv < 2 ^ 64"

interpretation state_vector: codec read_state_vector 1 write_state_vector state_vector_bytes state_vector_ok
proof
  show "advances 1 read_state_vector"
    unfolding read_state_vector_def
    by (intro advances_bind advances_return var_u64.progress state_entry.times_progress)
  show "decodes read_state_vector (state_vector_bytes x) x" if "state_vector_ok x" for x
  proof -
    have "decodes (\<lambda>d. rbind (read_times read_state_entry (length x) d) (\<lambda>(es, d). Ok (hm_collect es, d)))
        (concat (map state_entry_bytes x)) (hm_collect x)"
      by (intro decodes_map state_entry.many_rd) simp
    moreover have "hm_collect x = x" "unat (of_nat (length x) :: u64) = length x"
      using that by (simp_all add: state_vector_ok_def unat_length)
    ultimately show ?thesis
      unfolding read_state_vector_def state_vector_bytes_def
      by (intro decodes_bind [OF var_u64.rd_enc]) simp_all
  qed
  show "appends write_state_vector x (state_vector_bytes x)" for x
    by (simp add: appends_def write_state_vector_def state_vector_bytes_def
        appendsD [OF var_u64.wr_enc] appendsD [OF state_entry.many_wr])
qed

section \<open>Properties\<close>

text \<open>A state vector survives the wire.  Whatever the iteration order of the map, writing it and
  reading the bytes back, with anything behind them, gives the same vector and leaves the cursor
  just behind it.\<close>

lemma state_vector_roundtrip:
  assumes "hm_wf sv" "length sv < 2 ^ 64"
  shows "\<exists>bs. write_state_vector new_encoder sv = Ok \<lparr>enc_buffer = bs\<rparr>
    \<and> read_state_vector (new_decoder (bs @ rest)) = Ok (sv, \<lparr>dec_buffer = bs @ rest, dec_pos = length bs\<rparr>)"
  using appendsD [OF state_vector.wr_enc, of sv new_encoder]
    decodes_fresh [OF state_vector.rd_enc, of sv rest] assms
  by (simp add: state_vector_ok_def new_encoder_def)

lemma state_vector_roundtrip_witness:
  "\<exists>bs. write_state_vector new_encoder [(7, 300), (1, 2)] = Ok \<lparr>enc_buffer = bs\<rparr>
    \<and> read_state_vector (new_decoder (bs @ [9])) = Ok ([(7, 300), (1, 2)], \<lparr>dec_buffer = bs @ [9], dec_pos = length bs\<rparr>)"
  by (rule state_vector_roundtrip) (simp_all add: hm_wf_def)

text \<open>\<open>set_max\<close> is the pointwise maximum at one client and \<open>merge_with\<close> the pointwise minimum of
  the entries both vectors have, an entry of one of them alone being kept.\<close>

lemma state_vector_max_min:
  assumes "hm_wf other"
  shows "sv_get (set_max c k sv) = (sv_get sv)(c := max (sv_get sv c) k)
    \<and> map_of (merge_with sv other) c' = opt_min (map_of sv c') (map_of other c')"
  using map_of_merge_with [OF assms] by (auto simp: fun_eq_iff sv_get_set_max)

lemma state_vector_max_min_witness:
  "map_of (merge_with [(1, 5), (2, 7)] [(2, 3), (4, 9)]) 2 = opt_min (Some 7) (Some 3)"
  using state_vector_max_min [where other = "[(2, 3), (4, 9)]" and sv = "[(1, 5), (2, 7)]" and c' = 2]
  by (simp add: hm_wf_def)

end
