(* ===== verification/Protocol.thy ===== *)
theory Protocol
  imports Codec_Interface
begin

text \<open>
  The sync protocol, \<open>libs/jwst-codec/src/protocol/\<close>: document messages, awareness states, sync
  messages and the scanner that takes a buffer apart into messages.  The readers are \<open>nom\<close>
  parsers on a slice; writing to a \<open>Vec<u8>\<close> cannot fail, so a writer is a function on buffers.
  The locale \<open>wire\<close> is the contract of such a reader and writer; each message type is shown to
  satisfy it, and the scanner rests on it.
\<close>

section \<open>Definitions\<close>

subsection \<open>Document messages\<close>

datatype doc_message = Step1 bytes | Step2 bytes | Update bytes

definition doc_message_step1 :: u64 where "doc_message_step1 = 0"
definition doc_message_step2 :: u64 where "doc_message_step2 = 1"
definition doc_message_update :: u64 where "doc_message_update = 2"

definition read_doc_message :: "bytes \<Rightarrow> doc_message iresult" where
  "read_doc_message input =
     rbind (read_var_u64 input) (\<lambda>(tail, step).
       if step = doc_message_step1 then
         rbind (read_var_buffer tail) (\<lambda>(tail, sv). Ok (tail, Step1 sv))
       else if step = doc_message_step2 then
         rbind (read_var_buffer tail) (\<lambda>(tail, update). Ok (tail, Step2 update))
       else if step = doc_message_update then
         rbind (read_var_buffer tail) (\<lambda>(tail, update). Ok (tail, Update update))
       else Err (NomError input Tag))"

fun write_doc_message :: "bytes \<Rightarrow> doc_message \<Rightarrow> bytes" where
  "write_doc_message buffer (Step1 sv) =
     write_var_buffer (write_var_u64 buffer doc_message_step1) sv"
| "write_doc_message buffer (Step2 update) =
     write_var_buffer (write_var_u64 buffer doc_message_step2) update"
| "write_doc_message buffer (Update update) =
     write_var_buffer (write_var_u64 buffer doc_message_update) update"

subsection \<open>Awareness states\<close>

definition null_str :: bytes where
  "null_str = str_bytes ''null''"

record awareness_state =
  as_clock :: u64
  as_content :: bytes

definition new_awareness_state :: "u64 \<Rightarrow> bytes \<Rightarrow> awareness_state" where
  "new_awareness_state clock content = \<lparr>as_clock = clock, as_content = content\<rparr>"

definition default_awareness_state :: awareness_state where
  "default_awareness_state = \<lparr>as_clock = 0, as_content = null_str\<rparr>"

definition is_deleted :: "awareness_state \<Rightarrow> bool" where
  "is_deleted s \<longleftrightarrow> as_content s = null_str"

definition add_clock :: "awareness_state \<Rightarrow> ('e, awareness_state) result" where
  "add_clock s = rbind (add_u64 (as_clock s) 1) (\<lambda>c. Ok (s\<lparr>as_clock := c\<rparr>))"

definition set_clock :: "u64 \<Rightarrow> awareness_state \<Rightarrow> awareness_state" where
  "set_clock clock s = s\<lparr>as_clock := clock\<rparr>"

definition set_content :: "bytes \<Rightarrow> awareness_state \<Rightarrow> ('e, awareness_state) result" where
  "set_content content s = rbind (add_clock s) (\<lambda>s. Ok (s\<lparr>as_content := content\<rparr>))"

definition delete_state :: "awareness_state \<Rightarrow> ('e, awareness_state) result" where
  "delete_state s = set_content null_str s"

type_synonym awareness_states = "(u64, awareness_state) hashmap"

definition read_awareness_state :: "bytes \<Rightarrow> (u64 \<times> awareness_state) iresult" where
  "read_awareness_state input =
     rbind (read_var_u64 input) (\<lambda>(tail, client_id).
     rbind (read_var_u64 tail) (\<lambda>(tail, clock).
     rbind (read_var_string tail) (\<lambda>(tail, content).
     Ok (tail, (client_id, new_awareness_state clock content)))))"

definition write_awareness_state :: "bytes \<Rightarrow> u64 \<times> awareness_state \<Rightarrow> bytes" where
  "write_awareness_state buffer entry =
     write_var_string
       (write_var_u64 (write_var_u64 buffer (fst entry)) (as_clock (snd entry)))
       (as_content (snd entry))"

text \<open>\<open>nom::multi::count\<close>: the parser \<open>n\<close> times; an error of the parser is passed on.\<close>

fun nom_count :: "(bytes \<Rightarrow> 'a iresult) \<Rightarrow> nat \<Rightarrow> bytes \<Rightarrow> 'a list iresult" where
  "nom_count f 0 input = Ok (input, [])"
| "nom_count f (Suc n) input =
     rbind (f input) (\<lambda>(tail, x). rbind (nom_count f n tail) (\<lambda>(tail, xs). Ok (tail, x # xs)))"

definition read_awareness :: "bytes \<Rightarrow> awareness_states iresult" where
  "read_awareness input =
     rbind (read_var_u64 input) (\<lambda>(tail, len).
     rbind (nom_count read_awareness_state (unat len) tail) (\<lambda>(tail, messages).
     Ok (tail, hm_collect messages)))"

definition write_awareness :: "bytes \<Rightarrow> awareness_states \<Rightarrow> bytes" where
  "write_awareness buffer clients =
     foldl write_awareness_state (write_var_u64 buffer (of_nat (length clients))) clients"

subsection \<open>Sync messages\<close>

datatype message_type = TagAuth | TagAwareness | TagAwarenessQuery | TagDoc

definition read_sync_tag :: "bytes \<Rightarrow> message_type iresult" where
  "read_sync_tag input =
     rbind (read_var_u64 input) (\<lambda>(tail, tag).
       if tag = 0 then Ok (tail, TagDoc)
       else if tag = 1 then Ok (tail, TagAwareness)
       else if tag = 2 then Ok (tail, TagAuth)
       else if tag = 3 then Ok (tail, TagAwarenessQuery)
       else Err (NomError input Tag))"

definition write_sync_tag :: "bytes \<Rightarrow> message_type \<Rightarrow> bytes" where
  "write_sync_tag buffer tag =
     write_var_u64 buffer
       (case tag of TagDoc \<Rightarrow> 0 | TagAwareness \<Rightarrow> 1 | TagAuth \<Rightarrow> 2 | TagAwarenessQuery \<Rightarrow> 3)"

datatype sync_message =
    Auth "bytes option"
  | Awareness awareness_states
  | AwarenessQuery
  | Doc doc_message

definition read_sync_message :: "bytes \<Rightarrow> sync_message iresult" where
  "read_sync_message input =
     rbind (read_sync_tag input) (\<lambda>(tail, tag).
       case tag of
         TagDoc \<Rightarrow> rbind (read_doc_message tail) (\<lambda>(tail, doc). Ok (tail, Doc doc))
       | TagAwareness \<Rightarrow>
           rbind (read_var_buffer tail) (\<lambda>(tail, update).
           rbind (read_awareness update) (\<lambda>(awareness_tail, awareness).
           rbind (if 0 < length awareness_tail
                  then debug_assert (0 < length awareness_tail) else Ok ()) (\<lambda>_.
           Ok (tail, Awareness awareness))))
       | TagAuth \<Rightarrow>
           rbind (read_var_u64 tail) (\<lambda>(tail, success).
             if success = 1 then Ok (tail, Auth None)
             else rbind (read_var_string tail) (\<lambda>(tail, reason). Ok (tail, Auth (Some reason))))
       | TagAwarenessQuery \<Rightarrow> Ok (tail, AwarenessQuery))"

fun write_sync_message :: "bytes \<Rightarrow> sync_message \<Rightarrow> bytes" where
  "write_sync_message buffer (Auth (Some reason)) =
     write_var_string (write_sync_tag buffer TagAuth @ [0]) reason"
| "write_sync_message buffer (Auth None) = write_sync_tag buffer TagAuth @ [1]"
| "write_sync_message buffer AwarenessQuery = write_sync_tag buffer TagAwarenessQuery"
| "write_sync_message buffer (Awareness awareness) =
     write_var_buffer (write_sync_tag buffer TagAwareness) (write_awareness [] awareness)"
| "write_sync_message buffer (Doc doc) = write_doc_message (write_sync_tag buffer TagDoc) doc"

subsection \<open>The scanner\<close>

text \<open>
  \<open>next\<close>: the item, if any, and what the scanner still holds.  An error that is not the end of
  the input leaves the buffer as it is.
\<close>

definition scanner_next ::
    "bytes \<Rightarrow> (bytes nom_err, sync_message) result option \<times> bytes" where
  "scanner_next buffer =
     (if buffer = [] then (None, buffer)
      else (case read_sync_message buffer of
              Ok (tail, message) \<Rightarrow> (Some (Ok message), tail)
            | Err (Incomplete _) \<Rightarrow> (None, buffer)
            | Err (NomError i Eof) \<Rightarrow> (None, buffer)
            | Err (NomFailure i Eof) \<Rightarrow> (None, buffer)
            | Err e \<Rightarrow> (Some (Err e), buffer)
            | Panic \<Rightarrow> (Some Panic, buffer)))"

section \<open>The contract of a message type\<close>

named_theorems wire_intros \<open>composition rules for parsers\<close>

text \<open>
  A parser gives back the end of its input; a parser that consumes takes at least one byte; a calm
  one does not panic on an input so short that the \<open>u32\<close> shift of the varint loop cannot overflow.
\<close>

definition suffixes :: "(bytes \<Rightarrow> 'a iresult) \<Rightarrow> bool" where
  "suffixes rd \<longleftrightarrow> (\<forall>input tail x. rd input = Ok (tail, x) \<longrightarrow> (\<exists>pre. input = pre @ tail))"

definition wire_consumes :: "(bytes \<Rightarrow> 'a iresult) \<Rightarrow> bool" where
  "wire_consumes rd \<longleftrightarrow> (\<forall>input tail x. rd input = Ok (tail, x) \<longrightarrow> (\<exists>pre. pre \<noteq> [] \<and> input = pre @ tail))"

definition short :: "bytes \<Rightarrow> bool" where
  "short input \<longleftrightarrow> 7 * length input + 7 < 2 ^ 32"

definition calm :: "(bytes \<Rightarrow> 'a iresult) \<Rightarrow> bool" where
  "calm rd \<longleftrightarrow> (\<forall>input. short input \<longrightarrow> rd input \<noteq> Panic)"

lemma suffixesD: "suffixes rd \<Longrightarrow> rd input = Ok (tail, x) \<Longrightarrow> \<exists>pre. input = pre @ tail"
  by (simp add: suffixes_def)

lemma wire_consumesD:
  "wire_consumes rd \<Longrightarrow> rd input = Ok (tail, x) \<Longrightarrow> \<exists>pre. pre \<noteq> [] \<and> input = pre @ tail"
  by (simp add: wire_consumes_def)

lemma calmD: "calm rd \<Longrightarrow> short input \<Longrightarrow> rd input \<noteq> Panic"
  by (simp add: calm_def)

lemma consumes_suffixes: "wire_consumes rd \<Longrightarrow> suffixes rd"
  unfolding wire_consumes_def suffixes_def by blast

lemma wire_shrinks: "wire_consumes rd \<Longrightarrow> rd input = Ok (tail, x) \<Longrightarrow> length tail < length input"
  by (auto dest: wire_consumesD)

lemma short_append: "short (pre @ tail) \<Longrightarrow> short tail" "short (pre @ tail) \<Longrightarrow> short pre"
  by (auto simp: short_def)

lemma suffixes_return [wire_intros]: "suffixes (\<lambda>input. Ok (input, x))" "suffixes (\<lambda>input. Err (e input))"
  by (simp_all add: suffixes_def)

lemma calm_return [wire_intros]: "calm (\<lambda>input. Ok (input, x))" "calm (\<lambda>input. Err (e input))"
  by (simp_all add: calm_def)

lemma wire_if [wire_intros]:
  "suffixes f \<Longrightarrow> suffixes g \<Longrightarrow> suffixes (\<lambda>input. if b then f input else g input)"
  "calm f \<Longrightarrow> calm g \<Longrightarrow> calm (\<lambda>input. if b then f input else g input)"
  by (cases b; simp)+

lemma suffixes_bind [wire_intros]:
  assumes "suffixes rd" "\<And>i x. suffixes (f i x)"
  shows "suffixes (\<lambda>input. rbind (rd input) (\<lambda>(tail, x). f input x tail))"
  unfolding suffixes_def
proof (intro allI impI)
  fix input tail y
  assume "rbind (rd input) (\<lambda>(tail, x). f input x tail) = Ok (tail, y)"
  then obtain t x where t: "rd input = Ok (t, x)" "f input x t = Ok (tail, y)" by (auto simp: outcome_simps)
  from suffixesD [OF assms(1) t(1)] suffixesD [OF assms(2) [of input] t(2)]
  obtain p q where "input = p @ t" "t = q @ tail" by blast
  then show "\<exists>pre. input = pre @ tail" by (intro exI [of _ "p @ q"]) simp
qed

lemma consumes_bind:
  assumes "wire_consumes rd" "\<And>i x. suffixes (f i x)"
  shows "wire_consumes (\<lambda>input. rbind (rd input) (\<lambda>(tail, x). f input x tail))"
  unfolding wire_consumes_def
proof (intro allI impI)
  fix input tail y
  assume "rbind (rd input) (\<lambda>(tail, x). f input x tail) = Ok (tail, y)"
  then obtain t x where t: "rd input = Ok (t, x)" "f input x t = Ok (tail, y)" by (auto simp: outcome_simps)
  from wire_consumesD [OF assms(1) t(1)] suffixesD [OF assms(2) [of input] t(2)]
  obtain p q where "p \<noteq> []" "input = p @ t" "t = q @ tail" by blast
  then show "\<exists>pre. pre \<noteq> [] \<and> input = pre @ tail" by (intro exI [of _ "p @ q"]) simp
qed

lemma calm_bind [wire_intros]:
  assumes "calm rd" "suffixes rd" "\<And>i x. calm (f i x)"
  shows "calm (\<lambda>input. rbind (rd input) (\<lambda>(tail, x). f input x tail))"
  unfolding calm_def
proof (intro allI impI)
  fix input
  assume s: "short input"
  show "rbind (rd input) (\<lambda>(tail, x). f input x tail) \<noteq> Panic"
  proof (cases "rd input")
    case (Ok r)
    obtain tail x where r: "r = (tail, x)" by (cases r)
    obtain pre where "input = pre @ tail" using suffixesD [OF assms(2)] Ok r by blast
    with s have "short tail" using short_append(1) by simp
    then have "f input x tail \<noteq> Panic" by (rule calmD [OF assms(3)])
    with Ok r show ?thesis by simp
  qed (use calmD [OF assms(1) s] in simp_all)
qed

locale wire =
  fixes rd :: "bytes \<Rightarrow> 'a iresult" and wr :: "bytes \<Rightarrow> 'a \<Rightarrow> bytes"
    and enc :: "'a \<Rightarrow> bytes" and wf :: "'a \<Rightarrow> bool"
  assumes rd_enc: "wf x \<Longrightarrow> rd (enc x @ tail) = Ok (tail, x)"
    and wr_enc: "wr buffer x = buffer @ enc x"
    and consumes: "wire_consumes rd"
    and no_panic: "calm rd"
begin

lemmas suffix = consumes_suffixes [OF consumes]

lemma roundtrip: "wf x \<Longrightarrow> rd (wr [] x @ tail) = Ok (tail, x)"
  by (simp add: wr_enc rd_enc)

lemma enc_not_Nil: "wf x \<Longrightarrow> enc x \<noteq> []"
  using wire_consumesD [OF consumes rd_enc, of x "[]"] by auto

lemma write_many: "foldl wr buffer xs = buffer @ concat (map enc xs)"
  by (induction xs arbitrary: buffer) (simp_all add: wr_enc)

lemma count_many: "\<forall>x \<in> set xs. wf x \<Longrightarrow> nom_count rd (length xs) (concat (map enc xs) @ tail) = Ok (tail, xs)"
  by (induction xs) (simp_all add: rd_enc)

lemma count_suffix: "suffixes (nom_count rd n)"
proof (induction n)
  case (Suc n)
  then have "suffixes (\<lambda>input. rbind (rd input) (\<lambda>(tail, x).
      rbind (nom_count rd n tail) (\<lambda>(tail, xs). Ok (tail, x # xs))))"
    by (intro wire_intros suffix)
  then show ?case by (simp add: suffixes_def)
qed (simp add: suffixes_def)

lemma count_calm: "calm (nom_count rd n)"
proof (induction n)
  case (Suc n)
  then have "calm (\<lambda>input. rbind (rd input) (\<lambda>(tail, x).
      rbind (nom_count rd n tail) (\<lambda>(tail, xs). Ok (tail, x # xs))))"
    by (intro wire_intros suffix no_panic count_suffix)
  then show ?case by (simp add: calm_def)
qed (simp add: calm_def)

end

section \<open>The message types satisfy the contract\<close>

lemma write_u64: "write_var_u64 buffer n = buffer @ var_u64_bytes n"
  by (rule write_var_u64_eq)

interpretation wire_u64: wire read_var_u64 write_var_u64 var_u64_bytes "\<lambda>_. True"
proof
  show "calm read_var_u64"
    unfolding calm_def short_def
  proof (intro allI impI)
    fix input :: bytes
    assume "7 * length input + 7 < 2 ^ 32"
    then show "read_var_u64 input \<noteq> Panic"
      by (cases input) (simp_all add: read_var_u64_def read_var_loop_fails(2))
  qed
qed (auto simp: wire_consumes_def read_var_u64_bytes write_var_u64_eq dest: read_var_u64_consumes)

interpretation wire_buffer: wire read_var_buffer write_var_buffer buffer_bytes fits
proof
  have take: "suffixes (nom_take n)" "calm (nom_take n)" for n
    by (auto simp: suffixes_def calm_def nom_take_def split: if_splits) (metis append_take_drop_id)
  show "wire_consumes read_var_buffer"
    unfolding read_var_buffer_def by (intro consumes_bind wire_u64.consumes take)
  show "calm read_var_buffer"
    unfolding read_var_buffer_def by (intro wire_intros wire_u64.no_panic wire_u64.suffix take)
  show "read_var_buffer (buffer_bytes x @ tail) = Ok (tail, x)" if "fits x" for x tail
    using that by (rule read_var_buffer_bytes)
  show "write_var_buffer buffer x = buffer @ buffer_bytes x" for buffer x
    by (simp add: write_var_buffer_def buffer_bytes_def write_u64)
qed

lemma read_var_string_calm: "calm read_var_string"
  using wire_buffer.no_panic by (auto simp: calm_def read_var_string_def outcome_simps)

interpretation wire_string: wire read_var_string write_var_string buffer_bytes string_ok
proof
  show "wire_consumes read_var_string"
    using wire_buffer.consumes unfolding wire_consumes_def by (blast dest: read_var_string_buffer)
qed (simp_all add: read_var_string_bytes write_var_string_def wire_buffer.wr_enc read_var_string_calm)

subsection \<open>Document messages\<close>

fun doc_message_bytes :: "doc_message \<Rightarrow> bytes" where
  "doc_message_bytes (Step1 sv) = var_u64_bytes 0 @ buffer_bytes sv"
| "doc_message_bytes (Step2 update) = var_u64_bytes 1 @ buffer_bytes update"
| "doc_message_bytes (Update update) = var_u64_bytes 2 @ buffer_bytes update"

fun doc_message_ok :: "doc_message \<Rightarrow> bool" where
  "doc_message_ok (Step1 sv) = fits sv"
| "doc_message_ok (Step2 update) = fits update"
| "doc_message_ok (Update update) = fits update"

lemmas doc_steps = doc_message_step1_def doc_message_step2_def doc_message_update_def

interpretation wire_doc: wire read_doc_message write_doc_message doc_message_bytes doc_message_ok
proof
  show "wire_consumes read_doc_message"
    unfolding read_doc_message_def
    by (intro consumes_bind wire_intros wire_u64.consumes wire_buffer.suffix)
  show "calm read_doc_message"
    unfolding read_doc_message_def
    by (intro wire_intros wire_u64.no_panic wire_u64.suffix wire_buffer.suffix wire_buffer.no_panic)
  show "read_doc_message (doc_message_bytes x @ tail) = Ok (tail, x)" if "doc_message_ok x" for x tail
    using that by (cases x) (simp_all add: read_doc_message_def doc_steps read_var_u64_bytes wire_buffer.rd_enc)
  show "write_doc_message buffer x = buffer @ doc_message_bytes x" for buffer x
    by (cases x) (simp_all add: doc_steps write_u64 wire_buffer.wr_enc)
qed

subsection \<open>Awareness messages\<close>

definition awareness_entry_bytes :: "u64 \<times> awareness_state \<Rightarrow> bytes" where
  "awareness_entry_bytes entry =
     var_u64_bytes (fst entry) @ var_u64_bytes (as_clock (snd entry)) @ buffer_bytes (as_content (snd entry))"

interpretation wire_awareness_state: wire read_awareness_state write_awareness_state awareness_entry_bytes
  "\<lambda>entry. string_ok (as_content (snd entry))"
proof
  show "wire_consumes read_awareness_state"
    unfolding read_awareness_state_def
    by (intro consumes_bind wire_intros wire_u64.consumes wire_u64.suffix wire_string.suffix)
  show "calm read_awareness_state"
    unfolding read_awareness_state_def
    by (intro wire_intros wire_u64.no_panic wire_u64.suffix wire_string.suffix wire_string.no_panic)
  show "read_awareness_state (awareness_entry_bytes x @ tail) = Ok (tail, x)"
    if "string_ok (as_content (snd x))" for x tail
    using that
    by (cases x) (simp add: read_awareness_state_def awareness_entry_bytes_def read_var_u64_bytes
        wire_string.rd_enc new_awareness_state_def)
qed (simp add: write_awareness_state_def awareness_entry_bytes_def write_u64 wire_string.wr_enc)

definition awareness_bytes :: "awareness_states \<Rightarrow> bytes" where
  "awareness_bytes clients =
     var_u64_bytes (of_nat (length clients)) @ concat (map awareness_entry_bytes clients)"

definition awareness_ok :: "awareness_states \<Rightarrow> bool" where
  "awareness_ok clients \<longleftrightarrow> hm_wf clients \<and> length clients < 2 ^ 64
     \<and> (\<forall>entry \<in> set clients. string_ok (as_content (snd entry)))"

interpretation wire_awareness: wire read_awareness write_awareness awareness_bytes awareness_ok
proof
  show "wire_consumes read_awareness"
    unfolding read_awareness_def
    by (intro consumes_bind wire_intros wire_u64.consumes wire_awareness_state.count_suffix)
  show "calm read_awareness"
    unfolding read_awareness_def
    by (intro wire_intros wire_u64.no_panic wire_u64.suffix wire_awareness_state.count_suffix
        wire_awareness_state.count_calm)
  show "read_awareness (awareness_bytes x @ tail) = Ok (tail, x)" if "awareness_ok x" for x tail
    using that wire_awareness_state.count_many [of x tail]
    by (simp add: read_awareness_def awareness_bytes_def read_var_u64_bytes awareness_ok_def unat_length)
qed (simp add: write_awareness_def awareness_bytes_def write_u64 wire_awareness_state.write_many)

subsection \<open>Sync messages\<close>

definition sync_tag :: "message_type \<Rightarrow> u64" where
  "sync_tag tag = (case tag of TagDoc \<Rightarrow> 0 | TagAwareness \<Rightarrow> 1 | TagAuth \<Rightarrow> 2 | TagAwarenessQuery \<Rightarrow> 3)"

interpretation wire_tag: wire read_sync_tag write_sync_tag "\<lambda>tag. var_u64_bytes (sync_tag tag)" "\<lambda>_. True"
proof
  show "wire_consumes read_sync_tag"
    unfolding read_sync_tag_def by (intro consumes_bind wire_intros wire_u64.consumes)
  show "calm read_sync_tag"
    unfolding read_sync_tag_def by (intro wire_intros wire_u64.no_panic wire_u64.suffix)
  show "read_sync_tag (var_u64_bytes (sync_tag x) @ tail) = Ok (tail, x)" for x tail
    by (cases x) (simp_all add: read_sync_tag_def sync_tag_def read_var_u64_bytes)
qed (simp add: write_sync_tag_def sync_tag_def write_u64)

fun sync_message_bytes :: "sync_message \<Rightarrow> bytes" where
  "sync_message_bytes (Auth (Some reason)) = var_u64_bytes (sync_tag TagAuth) @ [0] @ buffer_bytes reason"
| "sync_message_bytes (Auth None) = var_u64_bytes (sync_tag TagAuth) @ [1]"
| "sync_message_bytes AwarenessQuery = var_u64_bytes (sync_tag TagAwarenessQuery)"
| "sync_message_bytes (Awareness a) = var_u64_bytes (sync_tag TagAwareness) @ buffer_bytes (awareness_bytes a)"
| "sync_message_bytes (Doc doc) = var_u64_bytes (sync_tag TagDoc) @ doc_message_bytes doc"

fun sync_message_ok :: "sync_message \<Rightarrow> bool" where
  "sync_message_ok (Auth (Some reason)) = string_ok reason"
| "sync_message_ok (Auth None) = True"
| "sync_message_ok AwarenessQuery = True"
| "sync_message_ok (Awareness a) = (awareness_ok a \<and> fits (awareness_bytes a))"
| "sync_message_ok (Doc doc) = doc_message_ok doc"

text \<open>The body of an awareness message is parsed from a slice of its own.\<close>

definition read_awareness_body :: "bytes \<Rightarrow> sync_message iresult" where
  "read_awareness_body tail =
     rbind (read_var_buffer tail) (\<lambda>(tail, update).
     rbind (read_awareness update) (\<lambda>(awareness_tail, awareness).
     rbind (if 0 < length awareness_tail
            then debug_assert (0 < length awareness_tail) else Ok ()) (\<lambda>_.
     Ok (tail, Awareness awareness))))"

lemma no_assert: "(if b then debug_assert b else Ok ()) = Ok ()"
  by simp

lemma read_awareness_body_eq:
  "read_awareness_body tail =
     rbind (read_var_buffer tail) (\<lambda>(tail, update).
     rbind (read_awareness update) (\<lambda>(_, awareness). Ok (tail, Awareness awareness)))"
  unfolding read_awareness_body_def no_assert by simp

lemma awareness_body_suffix: "suffixes read_awareness_body"
  using wire_buffer.suffix unfolding suffixes_def read_awareness_body_eq
  by (auto simp: outcome_simps)

lemma awareness_body_calm: "calm read_awareness_body"
  unfolding calm_def
proof (intro allI impI notI)
  fix input
  assume s: "short input" and p: "read_awareness_body input = Panic"
  have "read_var_buffer input \<noteq> Panic" using calmD [OF wire_buffer.no_panic s] .
  with p obtain tail update where u: "read_var_buffer input = Ok (tail, update)" "read_awareness update = Panic"
    by (auto simp: read_awareness_body_eq outcome_simps)
  from read_var_buffer_consumes [OF u(1)] obtain pre where "1 + length update \<le> length pre" "input = pre @ tail"
    by blast
  with s have "short update" by (simp add: short_def)
  with u(2) calmD [OF wire_awareness.no_panic] show False by blast
qed

lemma read_sync_message_eq:
  "read_sync_message = (\<lambda>input. rbind (read_sync_tag input) (\<lambda>(tail, tag).
     if tag = TagDoc then rbind (read_doc_message tail) (\<lambda>(tail, doc). Ok (tail, Doc doc))
     else if tag = TagAwareness then read_awareness_body tail
     else if tag = TagAuth then
       rbind (read_var_u64 tail) (\<lambda>(tail, success).
         if success = 1 then Ok (tail, Auth None)
         else rbind (read_var_string tail) (\<lambda>(tail, reason). Ok (tail, Auth (Some reason))))
     else Ok (tail, AwarenessQuery)))"
  unfolding read_sync_message_def read_awareness_body_def
  by (intro ext arg_cong [where f = "rbind _"]) (auto split: message_type.splits)

lemma read_flag: "read_var_u64 (0 # tail) = Ok (tail, 0)" "read_var_u64 (1 # tail) = Ok (tail, 1)"
  using read_var_u64_bytes [of 0 tail] read_var_u64_bytes [of 1 tail]
  by (simp_all add: var_u64_bytes_base128 base128.simps)

interpretation wire_sync: wire read_sync_message write_sync_message sync_message_bytes sync_message_ok
proof
  show "wire_consumes read_sync_message"
    unfolding read_sync_message_eq
    by (intro consumes_bind wire_intros wire_tag.consumes wire_doc.suffix awareness_body_suffix
        wire_u64.suffix wire_string.suffix)
  show "calm read_sync_message"
    unfolding read_sync_message_eq
    by (intro wire_intros wire_tag.no_panic wire_tag.suffix wire_doc.no_panic wire_doc.suffix
        awareness_body_calm wire_u64.no_panic wire_u64.suffix wire_string.no_panic wire_string.suffix)
  show "write_sync_message buffer x = buffer @ sync_message_bytes x" for buffer x
    by (cases x rule: sync_message_bytes.cases)
      (simp_all add: wire_tag.wr_enc wire_string.wr_enc wire_buffer.wr_enc wire_awareness.wr_enc wire_doc.wr_enc)
  show "read_sync_message (sync_message_bytes x @ tail) = Ok (tail, x)" if "sync_message_ok x" for x tail
    using that wire_awareness.rd_enc [where tail = "[]"]
    by (cases x rule: sync_message_bytes.cases)
      (simp_all add: read_sync_message_eq wire_tag.rd_enc read_flag wire_string.rd_enc wire_buffer.rd_enc
        read_awareness_body_eq wire_doc.rd_enc)
qed

section \<open>The scanner\<close>

lemma scanner_next_Ok:
  "scanner_next buffer = (Some (Ok m), tail) \<longleftrightarrow> buffer \<noteq> [] \<and> read_sync_message buffer = Ok (tail, m)"
  by (auto simp: scanner_next_def split: result.splits nom_err.splits nom_kind.splits)

lemma scanner_next_shrinks: "scanner_next buffer = (Some (Ok m), tail) \<Longrightarrow> length tail < length buffer"
  using wire_shrinks [OF wire_sync.consumes] by (auto simp: scanner_next_Ok)

lemma scanner_next_Err: "scanner_next buffer = (Some (Err e), tail) \<Longrightarrow> tail = buffer"
  by (auto simp: scanner_next_def split: result.splits nom_err.splits nom_kind.splits if_splits)

text \<open>\<open>collect\<close> into a \<open>Result\<close>: the items up to the end, or the first error.\<close>

function scanner_collect :: "bytes \<Rightarrow> (bytes nom_err, sync_message list) result" where
  "scanner_collect buffer =
     (case scanner_next buffer of
        (None, _) \<Rightarrow> Ok []
      | (Some (Ok message), tail) \<Rightarrow> rbind (scanner_collect tail) (\<lambda>ms. Ok (message # ms))
      | (Some (Err e), _) \<Rightarrow> Err e
      | (Some Panic, _) \<Rightarrow> Panic)"
  by pat_completeness auto
termination
  by (relation "measure length") (auto dest: scanner_next_shrinks sym)

declare scanner_collect.simps [simp del]

lemma scanner_next_message:
  assumes "sync_message_ok m"
  shows "scanner_next (sync_message_bytes m @ tail) = (Some (Ok m), tail)"
  using wire_sync.rd_enc [OF assms] wire_sync.enc_not_Nil [OF assms] by (simp add: scanner_next_Ok)

lemma scanner_collect_messages:
  "\<forall>m \<in> set ms. sync_message_ok m \<Longrightarrow> scanner_collect (concat (map sync_message_bytes ms)) = Ok ms"
proof (induction ms)
  case Nil
  show ?case by (simp add: scanner_collect.simps scanner_next_def)
next
  case (Cons m ms)
  then show ?case by (subst scanner_collect.simps) (simp add: scanner_next_message)
qed

lemma scanner_collect_calm: "short buffer \<Longrightarrow> scanner_collect buffer \<noteq> Panic"
proof (induction buffer rule: scanner_collect.induct)
  case (1 buffer)
  obtain r tail where n: "scanner_next buffer = (r, tail)" by (cases "scanner_next buffer")
  have "r \<noteq> Some Panic"
    using n calmD [OF wire_sync.no_panic "1.prems"]
    by (auto simp: scanner_next_def split: result.splits nom_err.splits nom_kind.splits if_splits)
  moreover have "scanner_collect tail \<noteq> Panic" if m: "r = Some (Ok m)" for m
  proof -
    from n m have "read_sync_message buffer = Ok (tail, m)" by (simp add: scanner_next_Ok)
    from wire_consumesD [OF wire_sync.consumes this] have "short tail"
      using "1.prems" short_append(1) by blast
    with "1.IH" [OF n [symmetric] m refl] show ?thesis by blast
  qed
  ultimately show ?case
    by (subst scanner_collect.simps) (auto simp: n outcome_simps split: option.splits result.splits)
qed

section \<open>Properties\<close>

text \<open>Every sync message survives the wire: reading what \<open>write_sync_message\<close> wrote gives the
  message back and leaves exactly the bytes that follow it.\<close>

lemma sync_message_roundtrip:
  assumes "sync_message_ok m"
  shows "read_sync_message (write_sync_message [] m @ tail) = Ok (tail, m)"
  using assms by (rule wire_sync.roundtrip)

lemma sync_message_roundtrip_witness:
  "read_sync_message (write_sync_message [] (Awareness [(1, \<lparr>as_clock = 5, as_content = [0x61]\<rparr>)]) @ [7])
     = Ok ([7], Awareness [(1, \<lparr>as_clock = 5, as_content = [0x61]\<rparr>)])"
  by (rule sync_message_roundtrip)
    (simp add: awareness_ok_def hm_wf_def string_ok_def fits_def utf8_valid_def utf8_chars.simps
      utf8_char_def awareness_bytes_def awareness_entry_bytes_def buffer_bytes_def var_u64_bytes_base128 base128.simps)

text \<open>C26: The scanner is the inverse of writing messages one after the other: collecting it over the
  concatenation gives the messages in order, with no error and nothing left out.\<close>

theorem scanner_recovers_messages:
  assumes "\<forall>m \<in> set ms. sync_message_ok m"
  shows "scanner_collect (foldl write_sync_message [] ms) = Ok ms"
  using scanner_collect_messages [OF assms] by (simp add: wire_sync.write_many)

lemma scanner_recovers_messages_witness:
  "scanner_collect (foldl write_sync_message [] [Doc (Update [1, 2, 3]), AwarenessQuery, Auth None])
     = Ok [Doc (Update [1, 2, 3]), AwarenessQuery, Auth None]"
  by (rule scanner_recovers_messages) (simp add: fits_def)

text \<open>C31: No peer can crash the reader of sync messages.  On every input of at most 613566755 bytes
  neither reading one message nor scanning the whole buffer panics, whatever the bytes are.\<close>

theorem sync_reading_never_panics:
  assumes "length input \<le> 613566755"
  shows "read_sync_message input \<noteq> Panic \<and> scanner_collect input \<noteq> Panic"
  using assms calmD [OF wire_sync.no_panic, of input] scanner_collect_calm [of input]
  by (simp add: short_def)

lemma sync_reading_never_panics_witness: "read_sync_message [1, 200] \<noteq> Panic"
  using sync_reading_never_panics [of "[1, 200]"] by simp

text \<open>An error that is not the end of the input does not move the scanner: the next call sees the
  same buffer and gives the same error, so a caller that skips errors never gets past it.\<close>

lemma scanner_error_is_repeated:
  assumes "scanner_next buffer = (Some (Err e), tail)"
  shows "scanner_next tail = (Some (Err e), tail)"
  using scanner_next_Err [OF assms] assms by simp

lemma scanner_error_is_repeated_witness:
  "scanner_next [9, 0, 0] = (Some (Err (NomError [9, 0, 0] Tag)), [9, 0, 0])"
proof -
  have "var_u64_bytes 9 = [9]" by (simp add: var_u64_bytes_base128 base128.simps)
  then have "read_var_u64 [9, 0, 0] = Ok ([0, 0], 9)" using read_var_u64_bytes [of 9 "[0, 0]"] by simp
  then have "scanner_next [9, 0, 0] = (Some (Err (NomError [9, 0, 0] Tag)), [9, 0, 0])"
    by (simp add: scanner_next_def read_sync_message_eq read_sync_tag_def)
  then show ?thesis by (rule scanner_error_is_repeated)
qed

end
