(* ===== verification/Update_Codec.thy ===== *)
theory Update_Codec
  imports Item_Codec Delete_Set State_Vector Protocol
begin

text \<open>
  Updates, \<open>libs/jwst-codec/src/doc/codec/update.rs\<close>: the nodes of every client and a delete set,
  their binary form, and the functions of \<open>doc/utils.rs\<close> that wrap updates into messages.
\<close>

section \<open>Definitions\<close>

type_synonym structs = "(client, node list) hashmap"

record update =
  u_structs :: structs
  u_delete_set :: delete_set
  u_pending_structs :: structs
  u_missing_state :: state_vector
  u_pending_delete_set :: delete_set

definition default_update :: update where
  "default_update =
     \<lparr>u_structs = [], u_delete_set = [], u_pending_structs = [], u_missing_state = [], u_pending_delete_set = []\<rparr>"

text \<open>The nodes of one client: each starts where the one before it ends.\<close>

fun read_nodes :: "serde_env \<Rightarrow> client \<Rightarrow> nat \<Rightarrow> clock \<Rightarrow> heap \<Rightarrow> (node list \<times> heap) reader" where
  "read_nodes env client 0 clock h decoder = Ok (([], h), decoder)"
| "read_nodes env client (Suc n) clock h decoder =
     rbind (read_node env (new_id client clock) h decoder) (\<lambda>((struct_info, h), decoder).
     rbind (node_length h struct_info) (\<lambda>len.
     rbind (add_u64 clock len) (\<lambda>clock.
     rbind (read_nodes env client n clock h decoder) (\<lambda>((structs, h), decoder).
     Ok ((struct_info # structs, h), decoder)))))"

definition read_client :: "serde_env \<Rightarrow> heap \<Rightarrow> ((client \<times> node list) \<times> heap) reader" where
  "read_client env h decoder =
     rbind (dec_read_var_u64 decoder) (\<lambda>(num_of_structs, decoder).
     rbind (dec_read_var_u64 decoder) (\<lambda>(client, decoder).
     rbind (dec_read_var_u64 decoder) (\<lambda>(clock, decoder).
     rbind (read_nodes env client (unat num_of_structs) clock h decoder) (\<lambda>((structs, h), decoder).
     Ok (((client, structs), h), decoder)))))"

fun read_clients :: "serde_env \<Rightarrow> nat \<Rightarrow> heap \<Rightarrow> ((client \<times> node list) list \<times> heap) reader" where
  "read_clients env 0 h decoder = Ok (([], h), decoder)"
| "read_clients env (Suc n) h decoder =
     rbind (read_client env h decoder) (\<lambda>((entry, h), decoder).
     rbind (read_clients env n h decoder) (\<lambda>((entries, h), decoder).
     Ok ((entry # entries, h), decoder)))"

definition read_update :: "serde_env \<Rightarrow> heap \<Rightarrow> (update \<times> heap) reader" where
  "read_update env h decoder =
     rbind (dec_read_var_u64 decoder) (\<lambda>(num_of_clients, decoder).
     rbind (read_clients env (unat num_of_clients) h decoder) (\<lambda>((entries, h), decoder).
     rbind (read_delete_set decoder) (\<lambda>(delete_set, decoder).
     if \<not> decoder_is_empty decoder
     then rbind (decoder_len decoder) (\<lambda>n. Err (UpdateNotFullyConsumed n))
     else Ok ((default_update\<lparr>u_structs := hm_collect entries, u_delete_set := delete_set\<rparr>, h), decoder))))"

definition first_clock :: "heap \<Rightarrow> node list \<Rightarrow> ('e, clock) result" where
  "first_clock h structs = (case structs of [] \<Rightarrow> Ok 0 | s # _ \<Rightarrow> node_clock h s)"

definition write_client :: "serde_env \<Rightarrow> heap \<Rightarrow> structs \<Rightarrow> client writer" where
  "write_client env h structs encoder client =
     rbind (unwrap (map_of structs client)) (\<lambda>nodes.
     rbind (enc_write_var_u64 encoder (of_nat (length nodes))) (\<lambda>encoder.
     rbind (enc_write_var_u64 encoder client) (\<lambda>encoder.
     rbind (first_clock h nodes) (\<lambda>clock.
     rbind (enc_write_var_u64 encoder clock) (\<lambda>encoder.
     write_each (write_node env h) encoder nodes)))))"

definition write_update :: "serde_env \<Rightarrow> heap \<Rightarrow> update writer" where
  "write_update env h encoder u =
     rbind (enc_write_var_u64 encoder (of_nat (length (u_structs u)))) (\<lambda>encoder.
     rbind (write_each (write_client env h (u_structs u)) encoder (rev (sort (map fst (u_structs u))))) (\<lambda>encoder.
     write_delete_set encoder (u_delete_set u)))"

definition decode_v1 :: "serde_env \<Rightarrow> heap \<Rightarrow> bytes \<Rightarrow> (codec_error, update \<times> heap) result" where
  "decode_v1 env h buffer = rbind (read_update env h (new_decoder buffer)) (\<lambda>((u, h), _). Ok (u, h))"

definition encode_v1 :: "serde_env \<Rightarrow> heap \<Rightarrow> update \<Rightarrow> (codec_error, bytes) result" where
  "encode_v1 env h u = rbind (write_update env h new_encoder u) (\<lambda>encoder. Ok (enc_buffer encoder))"

definition is_content_empty :: "update \<Rightarrow> bool" where
  "is_content_empty u \<longleftrightarrow> u_structs u = []"

definition update_is_empty :: "update \<Rightarrow> bool" where
  "update_is_empty u \<longleftrightarrow> u_structs u = [] \<and> u_delete_set u = []"

definition is_pending_empty :: "update \<Rightarrow> bool" where
  "is_pending_empty u \<longleftrightarrow> u_pending_structs u = [] \<and> u_pending_delete_set u = []"

definition drain_pending_state :: "update \<Rightarrow> (codec_error, update) result" where
  "drain_pending_state u =
     rbind (debug_assert (update_is_empty u)) (\<lambda>_.
     Ok (u\<lparr>u_structs := u_pending_structs u, u_pending_structs := u_structs u,
           u_delete_set := u_pending_delete_set u, u_pending_delete_set := u_delete_set u\<rparr>))"

text \<open>\<open>doc/utils.rs\<close>; writing into a vector cannot fail.\<close>

definition encode_awareness_as_message :: "awareness_states \<Rightarrow> bytes codec_result" where
  "encode_awareness_as_message awareness = Ok (write_sync_message [] (Awareness awareness))"

definition encode_update_as_message :: "bytes \<Rightarrow> bytes codec_result" where
  "encode_update_as_message u = Ok (write_sync_message [] (Doc (Update u)))"

section \<open>The bytes\<close>

text \<open>The nodes of one client as they can be sent: consecutive from \<open>clock\<close>, without overflow.\<close>

fun nodes_ok :: "serde_env \<Rightarrow> heap \<Rightarrow> client \<Rightarrow> clock \<Rightarrow> node list \<Rightarrow> bool" where
  "nodes_ok env h client clock [] = True"
| "nodes_ok env h client clock (n # ns) =
     (node_sendable env h n \<and> node_id h n = (Ok (new_id client clock) :: _ codec_result)
      \<and> (case (node_length h n :: u64 codec_result) of
           Ok len \<Rightarrow> unat clock + unat len < 2 ^ 64 \<and> nodes_ok env h client (clock + len) ns
         | _ \<Rightarrow> False))"

fun sent_nodes :: "heap \<Rightarrow> node list \<Rightarrow> heap \<Rightarrow> node list \<times> heap" where
  "sent_nodes h [] hr = ([], hr)"
| "sent_nodes h (n # ns) hr =
     (case sent_node h n hr of (n, hr) \<Rightarrow> case sent_nodes h ns hr of (ns, hr) \<Rightarrow> (n # ns, hr))"

fun sent_entries :: "heap \<Rightarrow> (client \<times> node list) list \<Rightarrow> heap \<Rightarrow> (client \<times> node list) list \<times> heap" where
  "sent_entries h [] hr = ([], hr)"
| "sent_entries h ((client, ns) # es) hr =
     (case sent_nodes h ns hr of (ns, hr) \<Rightarrow> case sent_entries h es hr of (es, hr) \<Rightarrow> ((client, ns) # es, hr))"

definition entry_clock :: "heap \<Rightarrow> node list \<Rightarrow> clock" where
  "entry_clock h ns = (case (first_clock h ns :: clock codec_result) of Ok c \<Rightarrow> c | _ \<Rightarrow> 0)"

definition entry_ok :: "serde_env \<Rightarrow> heap \<Rightarrow> client \<times> node list \<Rightarrow> bool" where
  "entry_ok env h e \<longleftrightarrow> length (snd e) < 2 ^ 64 \<and> nodes_ok env h (fst e) (entry_clock h (snd e)) (snd e)"

definition entry_bytes :: "serde_env \<Rightarrow> heap \<Rightarrow> client \<times> node list \<Rightarrow> bytes" where
  "entry_bytes env h e =
     var_u64_bytes (of_nat (length (snd e))) @ var_u64_bytes (fst e) @ var_u64_bytes (entry_clock h (snd e))
     @ concat (map (node_bytes env h) (snd e))"

text \<open>The clients in the order they are written.\<close>

definition clients_down :: "structs \<Rightarrow> structs" where
  "clients_down structs = map (\<lambda>c. (c, the (map_of structs c))) (rev (sort (map fst structs)))"

definition update_ok :: "serde_env \<Rightarrow> heap \<Rightarrow> update \<Rightarrow> bool" where
  "update_ok env h u \<longleftrightarrow> hm_wf (u_structs u) \<and> length (u_structs u) < 2 ^ 64
     \<and> list_all (entry_ok env h) (u_structs u) \<and> delete_set_ok (u_delete_set u)"

definition update_bytes :: "serde_env \<Rightarrow> heap \<Rightarrow> update \<Rightarrow> bytes" where
  "update_bytes env h u =
     var_u64_bytes (of_nat (length (u_structs u))) @ concat (map (entry_bytes env h) (clients_down (u_structs u)))
     @ delete_set_bytes (u_delete_set u)"

definition sent_update :: "heap \<Rightarrow> update \<Rightarrow> heap \<Rightarrow> update \<times> heap" where
  "sent_update h u hr =
     (case sent_entries h (clients_down (u_structs u)) hr of
        (es, hr) \<Rightarrow> (default_update\<lparr>u_structs := es, u_delete_set := by_client (u_delete_set u)\<rparr>, hr))"

lemma sent_content_len: "content_sendable env h c \<Longrightarrow> clock_len (fst (sent_content h c hr)) = clock_len c"
  by (cases c) (auto simp: sent_content_def content_sendable_def new_ytype_ref_def split: option.splits prod.splits)

lemma get_item_put_ty [simp]: "get_item (put_ty t ty h) r = get_item h r"
  by (simp add: put_ty_def get_item_def split: option.splits)

lemma get_item_link_type [simp]: "get_item (link_type i r h) r' = get_item h r'"
  by (simp add: link_type_def split: content.splits option.splits)

lemma get_new_item: "new_item_ref i h = (r, h') \<Longrightarrow> get_item h' r = Some i"
  by (auto simp: new_item_ref_def get_item_def somr_lookup_def)

lemma sent_node_length:
  assumes "node_sendable env h n" "sent_node h n hr = (n', hr')"
  shows "node_length hr' n' = (node_length h n :: u64 codec_result)"
proof (cases n)
  case (Item r)
  with assms obtain i where i: "get_item h r = Some i" "item_sendable env h i"
    by (auto simp: node_sendable_def split: option.splits)
  obtain c hc where c: "sent_content h (item_content i) hr = (c, hc)" by (cases "sent_content h (item_content i) hr")
  have len: "clock_len c = clock_len (item_content i)"
    using sent_content_len [of env h "item_content i" hr] i(2) c by (simp add: item_sendable_def)
  from assms(2) Item i(1) c obtain r' it h2 where
    "new_item_ref it hc = (r', h2)" "item_content it = c" "n' = Item r'" "hr' = link_type it r' h2"
    by (auto simp: sent_item_def split: prod.splits)
  with Item i(1) len show ?thesis by (simp add: get_item_unchecked_def get_new_item item_len_def)
qed (use assms in auto)


section \<open>Reading back\<close>

lemma nodes_decode:
  "nodes_ok env h client clock ns \<Longrightarrow>
   decodes (read_nodes env client (length ns) clock hr) (concat (map (node_bytes env h) ns)) (sent_nodes h ns hr)"
proof (induction ns arbitrary: clock hr)
  case Nil
  have "read_nodes env client 0 clock hr = (\<lambda>d. Ok (([], hr), d))" by (rule ext) simp
  then show ?case using decodes_return [of "([], hr)"] by simp
next
  case (Cons n ns)
  obtain len where len: "node_length h n = (Ok len :: _ codec_result)" "unat clock + unat len < 2 ^ 64"
    "nodes_ok env h client (clock + len) ns"
    using Cons.prems by (auto split: result.splits)
  have n: "node_sendable env h n" "node_id h n = (Ok (new_id client clock) :: _ codec_result)"
    using Cons.prems by simp_all
  obtain n' h1 where n': "sent_node h n hr = (n', h1)" by (cases "sent_node h n hr")
  obtain ns' h2 where ns': "sent_nodes h ns h1 = (ns', h2)" by (cases "sent_nodes h ns h1")
  have l: "node_length h1 n' = (Ok len :: _ codec_result)" using sent_node_length [OF n(1) n'] len(1) by simp
  have add: "add_u64 clock len = (Ok (clock + len) :: _ codec_result)" using len(2) by (simp add: add_u64_def)
  have "decodes (\<lambda>d. rbind (read_nodes env client (length ns) (clock + len) h1 d) (\<lambda>(x, d).
      Ok (case x of (structs, h) \<Rightarrow> (n' # structs, h), d)))
      (concat (map (node_bytes env h) ns)) (case (ns', h2) of (structs, h) \<Rightarrow> (n' # structs, h))"
    using Cons.IH [OF len(3), of h1] ns' by (intro decodes_map) simp
  then have rest: "decodes (\<lambda>d. rbind (node_length h1 n') (\<lambda>len. rbind (add_u64 clock len) (\<lambda>clock.
      rbind (read_nodes env client (length ns) clock h1 d) (\<lambda>((structs, h), d). Ok ((n' # structs, h), d)))))
      (concat (map (node_bytes env h) ns)) (n' # ns', h2)"
    by (simp add: l add split_def)
  have eq: "read_nodes env client (length (n # ns)) clock hr = (\<lambda>d. rbind (read_node env (new_id client clock) hr d)
      (\<lambda>(x, d). case x of (m, h) \<Rightarrow> rbind (node_length h m) (\<lambda>len. rbind (add_u64 clock len) (\<lambda>clock.
      rbind (read_nodes env client (length ns) clock h d) (\<lambda>((structs, h), d). Ok ((m # structs, h), d))))))"
    by (rule ext) (simp add: split_def)
  have "decodes (read_nodes env client (length (n # ns)) clock hr)
      (node_bytes env h n @ concat (map (node_bytes env h) ns)) (n' # ns', h2)"
    unfolding eq by (rule decodes_bind [OF node_decodes [OF n, of hr, unfolded n']]) (use rest in simp)
  then show ?case by (simp add: n' ns' del: read_nodes.simps)
qed

lemma entry_decode:
  assumes "entry_ok env h e" "sent_nodes h (snd e) hr = (ns, h')"
  shows "decodes (read_client env hr) (entry_bytes env h e) ((fst e, ns), h')"
proof -
  have n: "unat (of_nat (length (snd e)) :: u64) = length (snd e)"
    using assms(1) by (simp add: entry_ok_def unat_length)
  have "decodes (\<lambda>d. rbind (read_nodes env (fst e) (length (snd e)) (entry_clock h (snd e)) hr d) (\<lambda>(x, d).
      Ok (case x of (structs, h) \<Rightarrow> ((fst e, structs), h), d)))
      (concat (map (node_bytes env h) (snd e))) (case (ns, h') of (structs, h) \<Rightarrow> ((fst e, structs), h))"
    using nodes_decode [of env h "fst e" "entry_clock h (snd e)" "snd e" hr] assms
    by (intro decodes_map) (simp add: entry_ok_def)
  then have last: "decodes (\<lambda>d. rbind (read_nodes env (fst e) (length (snd e)) (entry_clock h (snd e)) hr d)
      (\<lambda>((structs, h), d). Ok (((fst e, structs), h), d)))
      (concat (map (node_bytes env h) (snd e))) ((fst e, ns), h')"
    by (simp add: split_def)
  show ?thesis
    unfolding read_client_def entry_bytes_def
    by (rule decodes_bind [OF var_u64.rd_enc [OF TrueI]], unfold n, rule decodes_bind [OF var_u64.rd_enc [OF TrueI]],
        rule decodes_bind [OF var_u64.rd_enc [OF TrueI]]) (rule last)
qed

lemma entries_decode:
  "list_all (entry_ok env h) es \<Longrightarrow>
   decodes (read_clients env (length es) hr) (concat (map (entry_bytes env h) es)) (sent_entries h es hr)"
proof (induction es arbitrary: hr)
  case Nil
  have "read_clients env 0 hr = (\<lambda>d. Ok (([], hr), d))" by (rule ext) simp
  then show ?case using decodes_return [of "([], hr)"] by simp
next
  case (Cons e es)
  obtain ns h1 where ns: "sent_nodes h (snd e) hr = (ns, h1)" by (cases "sent_nodes h (snd e) hr")
  obtain es' h2 where es': "sent_entries h es h1 = (es', h2)" by (cases "sent_entries h es h1")
  have "decodes (\<lambda>d. rbind (read_clients env (length es) h1 d) (\<lambda>(x, d).
      Ok (case x of (entries, h) \<Rightarrow> ((fst e, ns) # entries, h), d)))
      (concat (map (entry_bytes env h) es)) (case (es', h2) of (entries, h) \<Rightarrow> ((fst e, ns) # entries, h))"
    using Cons.IH [of h1] Cons.prems es' by (intro decodes_map) simp
  then have rest: "decodes (\<lambda>d. rbind (read_clients env (length es) h1 d) (\<lambda>((entries, h), d).
      Ok (((fst e, ns) # entries, h), d))) (concat (map (entry_bytes env h) es)) ((fst e, ns) # es', h2)"
    by (simp add: split_def)
  have eq: "read_clients env (length (e # es)) hr = (\<lambda>d. rbind (read_client env hr d) (\<lambda>(x, d).
      case x of (entry, h) \<Rightarrow> rbind (read_clients env (length es) h d) (\<lambda>((entries, h), d). Ok ((entry # entries, h), d))))"
    by (rule ext) (simp add: split_def)
  have "decodes (read_clients env (length (e # es)) hr) (entry_bytes env h e @ concat (map (entry_bytes env h) es))
      ((fst e, ns) # es', h2)"
    unfolding eq by (rule decodes_bind [OF entry_decode [OF _ ns]]) (use rest Cons.prems in simp_all)
  then show ?case by (cases e) (use ns es' in \<open>simp del: read_clients.simps\<close>)
qed

lemma clients_down_keys: "map fst (clients_down m) = rev (sort (map fst m))"
  by (simp add: clients_down_def comp_def)

lemma clients_down_length [simp]: "length (clients_down m) = length m"
  by (simp add: clients_down_def)

lemma clients_down_wf: "hm_wf m \<Longrightarrow> hm_wf (clients_down m)"
  by (simp add: hm_wf_def clients_down_keys)

lemma map_of_clients_down [simp]: "map_of (clients_down m) = map_of m"
proof
  fix c
  have "set (rev (sort (map fst m))) = dom (map_of m)" by (simp add: dom_map_of_conv_image_fst)
  then show "map_of (clients_down m) c = map_of m c"
    unfolding clients_down_def by (subst map_of_the) (auto simp: domIff)
qed

lemma clients_down_mem: "hm_wf m \<Longrightarrow> x \<in> set (clients_down m) \<Longrightarrow> x \<in> set m"
  using hm_wf_map_of_mem [OF clients_down_wf, of m "fst x" "snd x"] by (cases x) (auto dest: map_of_SomeD)

lemma sent_entries_keys: "sent_entries h es hr = (es', hr') \<Longrightarrow> map fst es' = map fst es"
  by (induction es arbitrary: hr es') (auto split: prod.splits)

lemma write_client_appends:
  assumes "update_ok env h u" "x \<in> set (clients_down (u_structs u))"
  shows "write_client env h (u_structs u) e (fst x) = Ok (e\<lparr>enc_buffer := enc_buffer e @ entry_bytes env h x\<rparr>)"
proof -
  have wf: "hm_wf (u_structs u)" using assms(1) by (simp add: update_ok_def)
  have m: "map_of (u_structs u) (fst x) = Some (snd x)"
    using hm_wf_map_of_mem [OF clients_down_wf [OF wf], of "fst x" "snd x"] assms(2) by simp
  have ok: "entry_ok env h x"
    using assms clients_down_mem [OF wf] by (auto simp: update_ok_def list_all_iff)
  have sendable: "nodes_ok env h c k ns \<Longrightarrow> n \<in> set ns \<Longrightarrow> node_sendable env h n" for c k ns n
    by (induction ns arbitrary: k) (auto split: result.splits)
  have nodes: "appends (write_each (write_node env h)) (snd x) (concat (map (node_bytes env h) (snd x)))"
    using ok by (intro write_each_appends node_appends) (auto simp: entry_ok_def intro: sendable)
  have clock: "first_clock h (snd x) = (Ok (entry_clock h (snd x)) :: _ codec_result)"
  proof (cases "snd x")
    case (Cons a list)
    with ok obtain i where "node_id h a = (Ok i :: _ codec_result)" by (auto simp: entry_ok_def)
    with Cons show ?thesis by (simp add: entry_clock_def first_clock_def node_clock_def)
  qed (simp add: entry_clock_def first_clock_def)
  show ?thesis
    by (simp add: write_client_def m clock appendsD [OF nodes] appendsD [OF var_u64.wr_enc] entry_bytes_def)
qed

lemma update_appends:
  assumes "update_ok env h u"
  shows "appends (write_update env h) u (update_bytes env h u)"
  using write_each_map [of "clients_down (u_structs u)" "write_client env h (u_structs u)" fst "entry_bytes env h",
      OF write_client_appends [OF assms]] assms
  by (simp add: appends_def write_update_def update_bytes_def appendsD [OF var_u64.wr_enc] clients_down_keys
      appendsD [OF delete_set_appends] update_ok_def)

lemma read_update_bytes:
  assumes ok: "update_ok env h u"
  shows "read_update env hr (new_decoder (update_bytes env h u @ rest))
    = (if rest = [] then Ok (sent_update h u hr, \<lparr>dec_buffer = update_bytes env h u, dec_pos = length (update_bytes env h u)\<rparr>)
       else Err (UpdateNotFullyConsumed (length rest)))"
proof -
  have wf: "hm_wf (u_structs u)" and n: "unat (of_nat (length (u_structs u)) :: u64) = length (u_structs u)"
    using ok by (simp_all add: update_ok_def unat_length)
  obtain es hr' where es: "sent_entries h (clients_down (u_structs u)) hr = (es, hr')"
    by (cases "sent_entries h (clients_down (u_structs u)) hr")
  have "hm_wf es" using sent_entries_keys [OF es] clients_down_wf [OF wf] by (simp add: hm_wf_def)
  then have collect: "hm_collect es = es" by simp
  have "list_all (entry_ok env h) (clients_down (u_structs u))"
    using ok clients_down_mem [OF wf] by (auto simp: update_ok_def list_all_iff)
  from entries_decode [OF this, of hr] have entries: "decodes (read_clients env (length (u_structs u)) hr)
      (concat (map (entry_bytes env h) (clients_down (u_structs u)))) (es, hr')" by (simp add: es)
  have ds: "decodes read_delete_set (delete_set_bytes (u_delete_set u)) (by_client (u_delete_set u))"
    using ok by (intro delete_set_decodes) (simp add: update_ok_def)
  have all: "decodes (\<lambda>d. rbind (dec_read_var_u64 d) (\<lambda>(k, d). rbind (read_clients env (unat k) hr d) (\<lambda>(x, d).
      rbind (read_delete_set d) (\<lambda>(ds, d). Ok ((x, ds), d)))))
      (var_u64_bytes (of_nat (length (u_structs u))) @ concat (map (entry_bytes env h) (clients_down (u_structs u)))
        @ delete_set_bytes (u_delete_set u)) ((es, hr'), by_client (u_delete_set u))"
    by (rule decodes_bind [OF var_u64.rd_enc [OF TrueI]], unfold n, rule decodes_bind [OF entries])
      (rule decodes_map [OF ds])
  have eq: "read_update env hr d = rbind (rbind (dec_read_var_u64 d) (\<lambda>(k, d). rbind (read_clients env (unat k) hr d)
      (\<lambda>(x, d). rbind (read_delete_set d) (\<lambda>(ds, d). Ok ((x, ds), d)))))
      (\<lambda>(((entries, h), delete_set), d). if \<not> decoder_is_empty d
        then rbind (decoder_len d) (\<lambda>n. Err (UpdateNotFullyConsumed n))
        else Ok ((default_update\<lparr>u_structs := hm_collect entries, u_delete_set := delete_set\<rparr>, h), d))" for d
    by (simp add: read_update_def rbind_assoc split_def cong: if_cong)
  from decodes_fresh [OF all, of rest] show ?thesis
    by (simp add: eq update_bytes_def decoder_is_empty_def decoder_len_def sent_update_def es collect)
qed

text \<open>C29: An update survives the wire.  The bytes \<open>encode_v1\<close> gives for an update whose nodes are
  consecutive are decoded to the same clients, with the nodes as they arrive, and the same delete
  set; with anything after them the decoder refuses the input and says how much was left.\<close>

theorem update_roundtrip:
  assumes "update_ok env h u"
  shows "\<exists>bs. encode_v1 env h u = Ok bs
    \<and> decode_v1 env hr bs = Ok (sent_update h u hr)
    \<and> (rest \<noteq> [] \<longrightarrow> decode_v1 env hr (bs @ rest) = Err (UpdateNotFullyConsumed (length rest)))"
  using appendsD [OF update_appends [OF assms], of new_encoder] read_update_bytes [OF assms, of hr rest]
    read_update_bytes [OF assms, of hr "[]"]
  by (simp add: encode_v1_def decode_v1_def new_encoder_def split_def)


definition rooted_update :: update where
  "rooted_update = default_update\<lparr>u_structs := [(7, [Item (SRef 0), GC \<lparr>nl_id = new_id 7 12, nl_len = 3\<rparr>])],
     u_delete_set := [(7, Range (mk_range 12 15))]\<rparr>"

lemma rooted_update_ok: "update_ok no_json rooted_heap rooted_update"
proof -
  have i: "node_id rooted_heap (Item (SRef 0)) = (Ok (new_id 7 10) :: _ codec_result)"
    "node_length rooted_heap (Item (SRef 0)) = (Ok 2 :: _ codec_result)"
    by (simp_all add: rooted_heap_get get_item_unchecked_def) (simp_all add: rooted_item_def item_len_def)
  have s: "node_sendable no_json rooted_heap (Item (SRef 0))"
    by (simp add: node_sendable_def rooted_heap_get rooted_item_sendable)
  have g: "node_sendable no_json rooted_heap (GC g)" for g by (simp add: node_sendable_def)
  have "entry_clock rooted_heap (Item (SRef 0) # ns) = 10" for ns
    by (simp add: entry_clock_def first_clock_def node_clock_def i del: node_id.simps) (simp add: new_id_def)
  then have "entry_ok no_json rooted_heap (7, [Item (SRef 0), GC \<lparr>nl_id = new_id 7 12, nl_len = 3\<rparr>])"
    using s g i by (simp add: entry_ok_def del: node_id.simps(3) node_length.simps(3))
  moreover have "delete_set_ok [(7, Range (mk_range 12 15))]"
    by (simp add: delete_set_ok_def hm_wf_def order_range_ok_def proper_def mk_range_def)
  ultimately show ?thesis by (simp add: update_ok_def rooted_update_def hm_wf_def)
qed

lemma update_roundtrip_witness:
  "\<exists>bs. encode_v1 no_json rooted_heap rooted_update = Ok bs
    \<and> decode_v1 no_json empty_heap (bs @ [0]) = Err (UpdateNotFullyConsumed 1)
    \<and> decode_v1 no_json empty_heap bs = Ok (sent_update rooted_heap rooted_update empty_heap)"
  using update_roundtrip [OF rooted_update_ok, of empty_heap "[0]"] by auto

end
