(* ===== verification/Update_Merge.thy ===== *)
theory Update_Merge
  imports Update_Codec "HOL-Library.Multiset"
begin

text \<open>
  Merging updates, \<open>Update::merge\<close> and \<open>merge_into\<close> of
  \<open>libs/jwst-codec/src/doc/codec/update.rs\<close>, and \<open>merge_updates_v1\<close> of \<open>doc/utils.rs\<close>: the nodes of
  every client are put together, sorted by clock, gaps between them are filled with \<open>Skip\<close> nodes and
  nodes that occur twice are dropped.
\<close>

section \<open>Definitions\<close>

definition not_skips :: "node list \<Rightarrow> node list" where
  "not_skips ns = filter (\<lambda>p. \<not> is_skip p) ns"

fun merge_structs :: "structs \<Rightarrow> (client \<times> node list) list \<Rightarrow> structs" where
  "merge_structs target [] = target"
| "merge_structs target ((client, structs) # rest) =
     merge_structs
       (case map_of target client of
          Some merged_structs \<Rightarrow> hm_insert client (merged_structs @ not_skips structs) target
        | None \<Rightarrow> hm_insert client (not_skips structs) target) rest"

fun collect_updates :: "update \<Rightarrow> update list \<Rightarrow> update" where
  "collect_updates target [] = target"
| "collect_updates target (u # updates) =
     collect_updates
       (target\<lparr>u_delete_set := merge_delete_set (u_delete_set target) (u_delete_set u),
               u_structs := merge_structs (u_structs target) (u_structs u)\<rparr>) updates"

text \<open>A stable sort by a key that may panic; the key of every node is asked for only when there are two.\<close>

fun with_keys :: "('a \<Rightarrow> ('e, 'k) result) \<Rightarrow> 'a list \<Rightarrow> ('e, ('k \<times> 'a) list) result" where
  "with_keys key [] = Ok []"
| "with_keys key (x # xs) =
     rbind (key x) (\<lambda>k. rbind (with_keys key xs) (\<lambda>kxs. Ok ((k, x) # kxs)))"

definition sort_by_key :: "('a \<Rightarrow> ('e, 'k :: linorder) result) \<Rightarrow> 'a list \<Rightarrow> ('e, 'a list) result" where
  "sort_by_key key xs =
     (if length xs < 2 then Ok xs else rbind (with_keys key xs) (\<lambda>kxs. Ok (map snd (sort_key fst kxs))))"

definition node_option_eq :: "heap \<Rightarrow> node option \<Rightarrow> node option \<Rightarrow> bool" where
  "node_option_eq h a b =
     (case a of None \<Rightarrow> b = None | Some x \<Rightarrow> (case b of None \<Rightarrow> False | Some y \<Rightarrow> node_eq h x y))"

text \<open>The test whether two nodes at the same clock are the same.\<close>

definition same_node :: "heap \<Rightarrow> node \<Rightarrow> node \<Rightarrow> ('e, bool) result" where
  "same_node h cur next =
     rbind (node_deleted h cur) (\<lambda>cur_deleted.
     rbind (node_deleted h next) (\<lambda>next_deleted.
     if cur_deleted \<noteq> next_deleted then Ok False
     else rbind (node_last_id h cur) (\<lambda>cur_last.
       rbind (node_last_id h next) (\<lambda>next_last.
       Ok (cur_last = next_last \<and> node_option_eq h (node_left h cur) (node_left h next)
           \<and> node_option_eq h (node_right h cur) (node_right h next))))))"

text \<open>One turn of the loop at \<open>index\<close>: the list, the next index and the marks.\<close>

definition fill_step :: "heap \<Rightarrow> node list \<Rightarrow> nat \<Rightarrow> nat list \<Rightarrow> ('e, node list \<times> nat \<times> nat list) result" where
  "fill_step h structs index merged_index =
     (let cur = structs ! index; next = structs ! (index + 1)
      in rbind (node_id h cur) (\<lambda>cur_id.
         rbind (node_length h cur) (\<lambda>cur_len.
         rbind (add_u64 (id_clock cur_id) cur_len) (\<lambda>clock_end.
         rbind (node_clock h next) (\<lambda>next_clock.
         if clock_end < next_clock then
           Ok (take (index + 1) structs @ new_skip (new_id (id_client cur_id) clock_end) (next_clock - clock_end)
                 # drop (index + 1) structs, index + 2, merged_index)
         else if id_clock cur_id = next_clock then
           rbind (same_node h cur next) (\<lambda>same.
           Ok (structs, index + 1, if same then merged_index @ [index + 1] else merged_index))
         else Ok (structs, index + 1, merged_index))))))"

lemma fill_step_progress:
  "fill_step h structs index merged = Ok (structs', index', merged') \<Longrightarrow> index < length structs - 1 \<Longrightarrow>
   length structs' - index' < length structs - index"
  by (auto simp: fill_step_def Let_def outcome_simps split: if_splits)

text \<open>\<open>structs.len() - 1\<close> underflows on an empty list.\<close>

function fill_loop :: "heap \<Rightarrow> node list \<Rightarrow> nat \<Rightarrow> nat list \<Rightarrow> ('e, node list \<times> nat list) result" where
  "fill_loop h structs index merged_index =
     (if structs = [] then Panic
      else if index < length structs - 1 then
        rbind (fill_step h structs index merged_index) (\<lambda>r.
        fill_loop h (fst r) (fst (snd r)) (snd (snd r)))
      else Ok (structs, merged_index))"
  by pat_completeness auto
termination
  by (relation "measure (\<lambda>(h, structs, index, merged). length structs - index)")
    (auto dest: fill_step_progress)

declare fill_loop.simps [simp del]

text \<open>Dropping the marked positions.\<close>

fun prune :: "nat \<Rightarrow> nat list \<Rightarrow> node list \<Rightarrow> node list" where
  "prune idx marks [] = []"
| "prune idx (mark # marks) (val # vals) =
     (if idx = mark then prune (idx + 1) marks vals else val # prune (idx + 1) (mark # marks) vals)"
| "prune idx [] (val # vals) = val # prune (idx + 1) [] vals"

definition merge_client :: "heap \<Rightarrow> node list \<Rightarrow> (codec_error, node list) result" where
  "merge_client h structs =
     rbind (sort_by_key (node_clock h) structs) (\<lambda>structs.
     rbind (fill_loop h structs 0 []) (\<lambda>(structs, merged_index).
     Ok (prune 0 merged_index structs)))"

fun merge_clients :: "heap \<Rightarrow> structs \<Rightarrow> (codec_error, structs) result" where
  "merge_clients h [] = Ok []"
| "merge_clients h ((client, structs) # rest) =
     rbind (merge_client h structs) (\<lambda>structs.
     rbind (merge_clients h rest) (\<lambda>rest. Ok ((client, structs) # rest)))"

definition merge_into :: "heap \<Rightarrow> update \<Rightarrow> update list \<Rightarrow> (codec_error, update) result" where
  "merge_into h target updates =
     (let target = collect_updates target updates
      in rbind (merge_clients h (u_structs target)) (\<lambda>structs. Ok (target\<lparr>u_structs := structs\<rparr>)))"

definition merge_updates :: "heap \<Rightarrow> update list \<Rightarrow> (codec_error, update) result" where
  "merge_updates h updates = merge_into h default_update updates"

fun decode_each :: "serde_env \<Rightarrow> heap \<Rightarrow> bytes list \<Rightarrow> (codec_error, update list \<times> heap) result" where
  "decode_each env h [] = Ok ([], h)"
| "decode_each env h (buffer # buffers) =
     rbind (decode_v1 env h buffer) (\<lambda>(u, h).
     rbind (decode_each env h buffers) (\<lambda>(us, h). Ok (u # us, h)))"

definition merge_updates_v1 :: "serde_env \<Rightarrow> heap \<Rightarrow> bytes list \<Rightarrow> (codec_error, update \<times> heap) result" where
  "merge_updates_v1 env h buffers =
     rbind (decode_each env h buffers) (\<lambda>(updates, h).
     rbind (merge_updates h updates) (\<lambda>u. Ok (u, h)))"


section \<open>Gaps\<close>

text \<open>The first clock of a node and the one after its last, for nodes whose item is alive.\<close>

definition clock_of :: "heap \<Rightarrow> node \<Rightarrow> nat" where
  "clock_of h n = (case (node_clock h n :: clock codec_result) of Ok c \<Rightarrow> unat c | _ \<Rightarrow> 0)"

definition end_of :: "heap \<Rightarrow> node \<Rightarrow> nat" where
  "end_of h n = clock_of h n + (case (node_length h n :: u64 codec_result) of Ok l \<Rightarrow> unat l | _ \<Rightarrow> 0)"

definition node_fits :: "heap \<Rightarrow> client \<Rightarrow> node \<Rightarrow> bool" where
  "node_fits h client n \<longleftrightarrow>
     (case (node_id h n :: id codec_result, node_length h n :: u64 codec_result) of
        (Ok i, Ok l) \<Rightarrow> id_client i = client \<and> 0 < l \<and> unat (id_clock i) + unat l < 2 ^ 64
      | _ \<Rightarrow> False)"

lemma node_fitsD:
  assumes "node_fits h client n"
  obtains c l where "node_id h n = (Ok (new_id client c) :: _ codec_result)" "node_clock h n = (Ok c :: _ codec_result)"
    "node_length h n = (Ok l :: _ codec_result)" "0 < unat l" "unat c + unat l < 2 ^ 64"
    "clock_of h n = unat c" "end_of h n = unat c + unat l"
proof -
  from assms obtain i l where il: "node_id h n = (Ok i :: _ codec_result)" "node_length h n = (Ok l :: _ codec_result)"
    "id_client i = client" "0 < l" "unat (id_clock i) + unat l < 2 ^ 64"
    by (auto simp: node_fits_def split: result.splits)
  then have "node_clock h n = (Ok (id_clock i) :: _ codec_result)" by (simp add: node_clock_def)
  moreover have "i = new_id client (id_clock i)" using il(3) by (simp add: new_id_def)
  moreover have "0 < unat l" using il(4) by (simp add: word_less_nat_alt)
  ultimately show thesis using il that [of "id_clock i" l] by (simp add: clock_of_def end_of_def)
qed

lemma node_last_id_ok:
  assumes "node_fits h client n"
  shows "\<exists>x. node_last_id h n = (Ok x :: _ codec_result)"
proof (cases n)
  case (Item r)
  with assms obtain i where i: "get_item h r = Some i" "0 < item_len i" "unat (id_clock (item_id i)) + unat (item_len i) < 2 ^ 64"
    by (auto simp: node_fits_def get_item_unchecked_def unwrap_def split: option.splits)
  have "1 \<le> id_clock (item_id i) + item_len i"
    using i(2,3) by (simp add: word_le_nat_alt word_less_nat_alt unat_plus_u64)
  with i have "last_id i = (Ok (new_id (id_client (item_id i)) (id_clock (item_id i) + item_len i - 1)) :: _ codec_result)"
    by (simp add: last_id_def add_u64_def sub_u64_def)
  with Item i(1) show ?thesis by (simp add: node_last_id_def opt_result_def)
qed (simp_all add: node_last_id_def)

lemma node_deleted_ok:
  assumes "node_fits h client n"
  shows "\<exists>b. node_deleted h n = (Ok b :: _ codec_result)"
proof (cases n)
  case (Item r)
  with assms obtain i where "get_item h r = Some i"
    by (auto simp: node_fits_def get_item_unchecked_def unwrap_def split: option.splits)
  with Item show ?thesis by (simp add: node_deleted_def)
qed (simp_all add: node_deleted_def)

lemma same_node_ok:
  assumes "node_fits h client a" "node_fits h client b"
  shows "\<exists>x. same_node h a b = (Ok x :: _ codec_result)"
  using node_last_id_ok [OF assms(1)] node_last_id_ok [OF assms(2)]
    node_deleted_ok [OF assms(1)] node_deleted_ok [OF assms(2)]
  by (auto simp: same_node_def)

text \<open>What the loop does to a list: a \<open>Skip\<close> goes into every gap.\<close>

definition gap :: "heap \<Rightarrow> client \<Rightarrow> node \<Rightarrow> node \<Rightarrow> node list" where
  "gap h client a b =
     (if end_of h a < clock_of h b
      then [new_skip (new_id client (of_nat (end_of h a))) (of_nat (clock_of h b - end_of h a))] else [])"

fun filled :: "heap \<Rightarrow> client \<Rightarrow> node \<Rightarrow> node list \<Rightarrow> node list" where
  "filled h client a [] = [a]"
| "filled h client a (b # bs) = a # gap h client a b @ filled h client b bs"

lemma fill_step_gap:
  assumes "node_fits h client a" "node_fits h client b"
  shows "\<exists>m'. fill_step h (pre @ a # b # bs) (length pre) m
    = (Ok (pre @ a # gap h client a b @ b # bs, length (pre @ a # gap h client a b), m') :: _ codec_result)
      \<and> (clock_of h a \<noteq> clock_of h b \<longrightarrow> m' = m)"
proof -
  obtain c l where a: "node_id h a = (Ok (new_id client c) :: _ codec_result)" "node_length h a = (Ok l :: _ codec_result)"
    "unat c + unat l < 2 ^ 64" "clock_of h a = unat c" "end_of h a = unat c + unat l"
    using assms(1) by (rule node_fitsD)
  obtain k l' where b: "node_clock h b = (Ok k :: _ codec_result)" "clock_of h b = unat k" "node_length h b = (Ok l' :: _ codec_result)"
    using assms(2) by (rule node_fitsD)
  obtain x where x: "same_node h a b = (Ok x :: _ codec_result)" using same_node_ok [OF assms] by blast
  have e: "unat (c + l) = unat c + unat l" using a(3) by (simp add: unat_plus_u64)
  have of_e: "of_nat (unat c + unat l) = c + l" by simp
  have of_d: "of_nat (unat k - (unat c + unat l)) = k - (c + l)" if "c + l < k"
    using that e by (simp add: word_less_nat_alt of_nat_diff)
  have "new_id client c = \<lparr>id_client = client, id_clock = c\<rparr>" by (simp add: new_id_def)
  then show ?thesis
    using a b x e of_d
    by (auto simp: fill_step_def nth_append add_u64_def gap_def word_less_nat_alt Let_def)
qed

lemma fill_loop_filled:
  "list_all (node_fits h client) (a # bs) \<Longrightarrow>
   \<exists>m'. fill_loop h (pre @ a # bs) (length pre) m = (Ok (pre @ filled h client a bs, m') :: _ codec_result)
     \<and> (distinct (map (clock_of h) (a # bs)) \<longrightarrow> m' = m)"
proof (induction bs arbitrary: a pre m)
  case Nil
  show ?case by (simp add: fill_loop.simps [of h "pre @ [a]"])
next
  case (Cons b bs)
  obtain m1 where step: "fill_step h (pre @ a # b # bs) (length pre) m
      = (Ok (pre @ a # gap h client a b @ b # bs, length (pre @ a # gap h client a b), m1) :: _ codec_result)"
    "clock_of h a \<noteq> clock_of h b \<longrightarrow> m1 = m"
    using fill_step_gap [of h client a b pre bs m] Cons.prems by auto
  obtain m2 where "fill_loop h ((pre @ a # gap h client a b) @ b # bs) (length (pre @ a # gap h client a b)) m1
      = (Ok ((pre @ a # gap h client a b) @ filled h client b bs, m2) :: _ codec_result)"
    "distinct (map (clock_of h) (b # bs)) \<longrightarrow> m2 = m1"
    using Cons.IH [of b "pre @ a # gap h client a b" m1] Cons.prems by auto
  with step show ?case by (simp add: fill_loop.simps [of h "pre @ a # b # bs"])
qed

fun gapless :: "heap \<Rightarrow> node list \<Rightarrow> bool" where
  "gapless h (a # b # ns) \<longleftrightarrow> clock_of h b \<le> end_of h a \<and> gapless h (b # ns)"
| "gapless h _ \<longleftrightarrow> True"

lemma gapless_filled:
  "list_all (node_fits h client) (a # bs) \<Longrightarrow> gapless h (filled h client a bs)"
proof (induction bs arbitrary: a)
  case (Cons b bs)
  have "node_fits h client b" using Cons.prems by simp
  then obtain k l :: u64 where b: "clock_of h b = unat k" "end_of h b = unat k + unat l" by (rule node_fitsD)
  have rest: "gapless h (filled h client b bs)" using Cons by simp
  obtain t where t: "filled h client b bs = b # t" by (cases bs) auto
  show ?case
  proof (cases "end_of h a < clock_of h b")
    case True
    then have "end_of h a < 2 ^ 64" "clock_of h b < 2 ^ 64" using b(1) unat_u64_less [of k] by simp_all
    then have d: "unat (of_nat (clock_of h b - end_of h a) :: u64) = clock_of h b - end_of h a"
      and e: "unat (of_nat (end_of h a) :: u64) = end_of h a"
      by (simp_all add: unat_of_nat del: of_nat_diff)
    have "end_of h (new_skip (new_id client (of_nat (end_of h a))) (of_nat (clock_of h b - end_of h a)))
        = end_of h a + (clock_of h b - end_of h a)"
      "clock_of h (new_skip (new_id client (of_nat (end_of h a))) (of_nat (clock_of h b - end_of h a))) = end_of h a"
      using d e by (simp_all only: new_skip_def clock_of_def [of h "Skip _"] end_of_def [of h "Skip _"] node_clock_def
          new_id_def node_id.simps node_length.simps rbind.simps result.case node_len.simps id.simps)
    with True rest t show ?thesis
      by (simp add: gap_def del: of_nat_diff)
  qed (use rest t in \<open>simp add: gap_def\<close>)
qed simp

lemma filled_keeps: "filter (\<lambda>n. \<not> is_skip n) (filled h client a bs) = filter (\<lambda>n. \<not> is_skip n) (a # bs)"
  by (induction bs arbitrary: a) (auto simp: gap_def new_skip_def)

lemma with_keys_ok:
  "list_all (node_fits h client) ns \<Longrightarrow>
   \<exists>ks. with_keys (node_clock h) ns = (Ok ks :: _ codec_result) \<and> map snd ks = ns
     \<and> (\<forall>(k, n) \<in> set ks. unat k = clock_of h n)"
proof (induction ns)
  case (Cons n ns)
  obtain c where c: "node_clock h n = (Ok c :: _ codec_result)" "clock_of h n = unat c"
    using Cons.prems by (auto elim: node_fitsD)
  from Cons obtain ks where "with_keys (node_clock h) ns = (Ok ks :: _ codec_result)" "map snd ks = ns"
    "\<forall>(k, n) \<in> set ks. unat k = clock_of h n" by auto
  with c show ?case by (intro exI [of _ "(c, n) # ks"]) simp
qed simp

lemma sort_by_clock:
  assumes "list_all (node_fits h client) ns"
  shows "\<exists>out. sort_by_key (node_clock h) ns = (Ok out :: _ codec_result) \<and> mset out = mset ns
    \<and> sorted (map (clock_of h) out)"
proof (cases "length ns < 2")
  case True
  then have "sorted (map (clock_of h) ns)" by (cases ns) auto
  with True show ?thesis by (simp add: sort_by_key_def)
next
  case False
  from with_keys_ok [OF assms] obtain ks where ks: "with_keys (node_clock h) ns = (Ok ks :: _ codec_result)"
    "map snd ks = ns" "\<forall>(k, n) \<in> set ks. unat k = clock_of h n" by blast
  let ?s = "sort_key fst ks"
  have "sorted (map (\<lambda>x. unat (fst x)) ?s)"
    using sorted_sort_key [of fst ks] unfolding sorted_map
    by (rule sorted_wrt_mono_rel [rotated]) (simp add: word_le_nat_alt)
  moreover have "map (clock_of h) (map snd ?s) = map (\<lambda>x. unat (fst x)) ?s" using ks(3) by auto
  ultimately have "sorted (map (clock_of h) (map snd ?s))" by (simp only:)
  moreover have "mset (map snd ?s) = mset (map snd ks)" by (simp add: mset_map)
  then have "mset (map snd ?s) = mset ns" using ks(2) by simp
  ultimately show ?thesis using False ks(1) by (simp add: sort_by_key_def)
qed


section \<open>Properties\<close>

lemma prune_none [simp]: "prune i [] ns = ns"
  by (induction ns arbitrary: i) simp_all

text \<open>C35: Merging puts the nodes of a client in order and leaves no gap.  For nodes that are alive and
  do not overflow, in any order, the loop ends on the nodes sorted by clock, none lost and none
  changed, with \<open>Skip\<close> nodes between them such that each node starts no later than the one before
  it ends; when no two nodes start at the same clock this is the merged list.\<close>

theorem merge_fills_gaps:
  assumes "structs \<noteq> []" "list_all (node_fits h client) structs" "list_all (\<lambda>n. \<not> is_skip n) structs"
  shows "\<exists>s out marks. sort_by_key (node_clock h) structs = (Ok s :: _ codec_result)
    \<and> mset s = mset structs \<and> sorted (map (clock_of h) s)
    \<and> fill_loop h s 0 [] = (Ok (out, marks) :: _ codec_result)
    \<and> filter (\<lambda>n. \<not> is_skip n) out = s \<and> gapless h out
    \<and> merge_client h structs = Ok (prune 0 marks out)
    \<and> (distinct (map (clock_of h) structs) \<longrightarrow> merge_client h structs = Ok out)"
proof -
  from sort_by_clock [OF assms(2)] obtain s where s: "sort_by_key (node_clock h) structs = (Ok s :: _ codec_result)"
    "mset s = mset structs" "sorted (map (clock_of h) s)" by blast
  have set: "set s = set structs" using s(2) by (rule mset_eq_setD)
  then obtain a bs where ab: "s = a # bs" using assms(1) by (cases s) auto
  have fits: "list_all (node_fits h client) (a # bs)" "list_all (\<lambda>n. \<not> is_skip n) (a # bs)"
    using assms(2,3) set by (simp_all add: list_all_iff flip: ab)
  from fill_loop_filled [OF fits(1), of "[]" "[]"] obtain marks where
    loop: "fill_loop h s 0 [] = (Ok (filled h client a bs, marks) :: _ codec_result)"
      "distinct (map (clock_of h) s) \<longrightarrow> marks = []"
    by (auto simp: ab)
  have "filter (\<lambda>n. \<not> is_skip n) (filled h client a bs) = s"
    unfolding filled_keeps using fits(2) by (simp add: ab list_all_iff filter_id_conv)
  moreover have "distinct (map (clock_of h) structs) \<longleftrightarrow> distinct (map (clock_of h) s)"
    using s(2) by (metis mset_map mset_eq_imp_distinct_iff)
  ultimately show ?thesis
    using s loop gapless_filled [OF fits(1)] by (auto simp: merge_client_def)
qed

lemma merge_fills_gaps_witness:
  "\<exists>s out marks. sort_by_key (node_clock empty_heap) [new_gc (new_id 7 9) 2, new_gc (new_id 7 0) 4] = (Ok s :: _ codec_result)
    \<and> fill_loop empty_heap s 0 [] = (Ok (out, marks) :: _ codec_result) \<and> gapless empty_heap out"
  using merge_fills_gaps [of "[new_gc (new_id 7 9) 2, new_gc (new_id 7 0) 4]" empty_heap 7]
  by (auto simp: node_fits_def new_gc_def new_id_def)

text \<open>Five bytes crash the merge.  An update with a client that has no nodes is decoded without
  complaint, and \<open>merge_updates_v1\<close> panics on it, because \<open>structs.len() - 1\<close> underflows.\<close>

lemma merge_empty_client_panics:
  "(\<exists>u. decode_v1 env h [1, 0, 7, 0, 0] = Ok (u, h)) \<and> merge_updates_v1 env h [[1, 0, 7, 0, 0]] = Panic"
proof -
  define u where "u = default_update\<lparr>u_structs := [(7, [])]\<rparr>"
  have ok: "update_ok env h u"
    by (simp add: u_def update_ok_def hm_wf_def entry_ok_def delete_set_ok_def default_update_def)
  have down: "clients_down [(7, [])] = [(7, [])]" by (simp add: clients_down_def)
  have bytes: "update_bytes env h u = [1, 0, 7, 0, 0]"
    by (simp add: u_def update_bytes_def down entry_bytes_def entry_clock_def first_clock_def default_update_def
        delete_set_bytes_def by_client_def var_u64_bytes_base128 base128.simps)
  have sent: "sent_update h u h = (u, h)"
    by (simp add: sent_update_def u_def down by_client_def default_update_def)
  have decode: "decode_v1 env h [1, 0, 7, 0, 0] = Ok (u, h)"
    using read_update_bytes [OF ok, of h "[]"] by (simp add: bytes decode_v1_def sent)
  have "merge_client h [] = Panic"
    by (simp add: merge_client_def sort_by_key_def fill_loop.simps [of h "[]"])
  then have "merge_updates h [u] = Panic"
    by (simp add: merge_updates_def merge_into_def u_def default_update_def not_skips_def)
  then show ?thesis by (simp add: decode merge_updates_v1_def)
qed

text \<open>Merging can lose what only one update knows.  When two updates start with \<open>GC\<close> nodes of
  different length at the same clock, the second is dropped as a copy of the first, even when it
  is the longer one: the end of a \<open>GC\<close> is not compared, because \<open>last_id\<close> has none for it.\<close>

lemma merge_drops_longer_gc:
  assumes "unat c + unat l' < 2 ^ 64" "unat l < unat l'"
  shows "merge_updates h [default_update\<lparr>u_structs := [(client, [new_gc (new_id client c) l])]\<rparr>,
      default_update\<lparr>u_structs := [(client, [new_gc (new_id client c) l'])]\<rparr>]
    = Ok (default_update\<lparr>u_structs := [(client, [new_gc (new_id client c) l])]\<rparr>)"
proof -
  let ?a = "new_gc (new_id client c) l" and ?b = "new_gc (new_id client c) l'"
  have sort: "sort_by_key (node_clock h) [?a, ?b] = (Ok [?a, ?b] :: _ codec_result)"
    by (simp add: sort_by_key_def node_clock_def new_gc_def new_id_def)
  have add: "add_u64 c l = (Ok (c + l) :: _ codec_result)" using assms by (simp add: add_u64_def)
  have "c \<le> c + l" using assms by (simp add: word_le_nat_alt unat_plus_u64)
  then have step: "fill_step h [?a, ?b] 0 [] = (Ok ([?a, ?b], 1, [1]) :: _ codec_result)"
    by (simp add: fill_step_def new_gc_def new_id_def node_clock_def add same_node_def node_deleted_def
        node_last_id_def node_option_eq_def not_less Let_def)
  have "fill_loop h [?a, ?b] 0 [] = (Ok ([?a, ?b], [1]) :: _ codec_result)"
    by (simp add: fill_loop.simps [of h "[?a, ?b]" 0] fill_loop.simps [of h "[?a, ?b]" 1]
        fill_loop.simps [of h "[?a, ?b]" "Suc 0"] step)
  then have "merge_client h [?a, ?b] = Ok [?a]"
    by (simp add: merge_client_def sort)
  then show ?thesis
    by (simp add: merge_updates_def merge_into_def default_update_def not_skips_def)
      (simp add: new_gc_def)
qed

lemma merge_drops_longer_gc_witness:
  "merge_updates empty_heap [default_update\<lparr>u_structs := [(1, [new_gc (new_id 1 0) 5])]\<rparr>,
      default_update\<lparr>u_structs := [(1, [new_gc (new_id 1 0) 10])]\<rparr>]
    = Ok (default_update\<lparr>u_structs := [(1, [new_gc (new_id 1 0) 5])]\<rparr>)"
  by (rule merge_drops_longer_gc) simp_all

end
