(* ===== verification/Update_Iterator.thy ===== *)
theory Update_Iterator
  imports Update_Merge
begin

text \<open>
  The iterators that take an update apart, \<open>UpdateIterator\<close> and \<open>DeleteSetIterator\<close> of
  \<open>libs/jwst-codec/src/doc/codec/update.rs\<close>: nodes come out in an order in which they can be
  integrated, everything else goes to the pending part of the update.
\<close>

section \<open>Definitions\<close>

record iter =
  it_update :: update
  it_state :: state_vector
  it_clients :: "client list"
  it_cur :: "client option"
  it_stack :: "node list"

definition pop_last :: "'a list \<Rightarrow> 'a option \<times> 'a list" where
  "pop_last xs = (if xs = [] then (None, []) else (Some (last xs), butlast xs))"

definition update_iter :: "update \<Rightarrow> state_vector \<Rightarrow> iter" where
  "update_iter u state =
     (let (cur, client_ids) = pop_last (sort (map fst (u_structs u)))
      in \<lparr>it_update = u, it_state = state, it_clients = client_ids, it_cur = cur, it_stack = []\<rparr>)"

abbreviation it_structs :: "iter \<Rightarrow> structs" where
  "it_structs it \<equiv> u_structs (it_update it)"

definition set_structs :: "structs \<Rightarrow> iter \<Rightarrow> iter" where
  "set_structs structs it = it\<lparr>it_update := (it_update it)\<lparr>u_structs := structs\<rparr>\<rparr>"

lemma set_structs_sel [simp]:
  "it_structs (set_structs m it) = m" "it_state (set_structs m it) = it_state it"
  "it_clients (set_structs m it) = it_clients it" "it_cur (set_structs m it) = it_cur it"
  "it_stack (set_structs m it) = it_stack it"
  by (simp_all add: set_structs_def)

definition next_turn :: "client \<Rightarrow> iter \<Rightarrow> iter" where
  "next_turn client it =
     (let (cur, client_ids) = pop_last (it_clients it)
      in (set_structs (hm_remove client (it_structs it)) it)\<lparr>it_cur := cur, it_clients := client_ids\<rparr>)"

function next_client :: "iter \<Rightarrow> client option \<times> iter" where
  "next_client it =
     (case it_cur it of
        None \<Rightarrow> (None, it)
      | Some client_id \<Rightarrow>
          (case map_of (it_structs it) client_id of
             Some (_ # _) \<Rightarrow> (Some client_id, it)
           | _ \<Rightarrow> next_client (next_turn client_id it)))"
  by pat_completeness auto
termination
  by (relation "measure (\<lambda>it. length (it_clients it) + (if it_cur it = None then 0 else 1))")
    (auto simp: next_turn_def pop_last_def)

declare next_client.simps [simp del]

definition update_missing_state :: "client \<Rightarrow> clock \<Rightarrow> iter \<Rightarrow> iter" where
  "update_missing_state client clock it =
     it\<lparr>it_update := (it_update it)\<lparr>u_missing_state := set_min client clock (u_missing_state (it_update it))\<rparr>\<rparr>"

definition set_aside :: "client \<Rightarrow> node \<Rightarrow> update \<Rightarrow> update" where
  "set_aside client s u =
     (case map_of (u_structs u) client of
        Some items \<Rightarrow>
          u\<lparr>u_structs := hm_remove client (u_structs u),
            u_pending_structs := hm_insert client (s # items) (u_pending_structs u)\<rparr>
      | None \<Rightarrow> u\<lparr>u_pending_structs := hm_insert client [s] (u_pending_structs u)\<rparr>)"

fun rest_loop :: "heap \<Rightarrow> node list \<Rightarrow> iter \<Rightarrow> (codec_error, iter) result" where
  "rest_loop h [] it = Ok it"
| "rest_loop h (s # stack) it =
     rbind (node_client h s) (\<lambda>client.
     rest_loop h stack
       (it\<lparr>it_update := set_aside client s (it_update it),
           it_clients := filter (\<lambda>c. c \<noteq> client) (it_clients it)\<rparr>))"

definition add_stack_to_rest :: "heap \<Rightarrow> iter \<Rightarrow> (codec_error, iter) result" where
  "add_stack_to_rest h it = rest_loop h (it_stack it) (it\<lparr>it_stack := []\<rparr>)"

definition missing_origin :: "state_vector \<Rightarrow> client \<Rightarrow> id option \<Rightarrow> client option" where
  "missing_origin state client x =
     (case x of
        Some i \<Rightarrow> if id_client i \<noteq> client \<and> sv_get state (id_client i) \<le> id_clock i then Some (id_client i) else None
      | None \<Rightarrow> None)"

definition get_missing_dep :: "heap \<Rightarrow> state_vector \<Rightarrow> node \<Rightarrow> client option" where
  "get_missing_dep h state struct_info =
     (case get_item h (as_item struct_info) of
        None \<Rightarrow> None
      | Some i \<Rightarrow>
          (case missing_origin state (id_client (item_id i)) (origin_left_id i) of
             Some c \<Rightarrow> Some c
           | None \<Rightarrow>
               (case missing_origin state (id_client (item_id i)) (origin_right_id i) of
                  Some c \<Rightarrow> Some c
                | None \<Rightarrow>
                    (case item_parent i of
                       Some (ParentId parent_id) \<Rightarrow> missing_origin state (id_client (item_id i)) (Some parent_id)
                     | _ \<Rightarrow> None))))"

definition next_candidate :: "iter \<Rightarrow> (codec_error, node option \<times> iter) result" where
  "next_candidate it =
     (if it_stack it \<noteq> [] then Ok (Some (last (it_stack it)), it\<lparr>it_stack := butlast (it_stack it)\<rparr>)
      else (case next_client it of
          (None, it) \<Rightarrow> Ok (None, it)
        | (Some client, it) \<Rightarrow>
            rbind (unwrap (map_of (it_structs it) client)) (\<lambda>nodes.
            case nodes of
              [] \<Rightarrow> Panic
            | n # rest \<Rightarrow> Ok (Some n, set_structs (hm_insert client rest (it_structs it)) it))))"

definition push_stack :: "node \<Rightarrow> iter \<Rightarrow> iter" where
  "push_stack n it = it\<lparr>it_stack := it_stack it @ [n]\<rparr>"

text \<open>A turn of the loop of \<open>next\<close>: it returns a node and its offset, or goes on with a candidate.\<close>

datatype turn = Yield node u64 | Continue "node option"

definition continue_with :: "(codec_error, iter) result \<Rightarrow> (codec_error, turn \<times> iter) result" where
  "continue_with r = rbind r (\<lambda>it. rbind (next_candidate it) (\<lambda>(cur, it). Ok (Continue cur, it)))"

definition apply_turn :: "heap \<Rightarrow> node \<Rightarrow> id \<Rightarrow> iter \<Rightarrow> (codec_error, turn \<times> iter) result" where
  "apply_turn h cur i it =
     rbind (sub_u64 (sv_get (it_state it) (id_client i)) (id_clock i)) (\<lambda>offset.
     rbind (if offset = 0 then Ok True else rbind (node_length h cur) (\<lambda>len. Ok (offset < len))) (\<lambda>fresh.
     if fresh then
       rbind (node_length h cur) (\<lambda>len.
       rbind (add_u64 (id_clock i) len) (\<lambda>e.
       Ok (Yield cur offset, it\<lparr>it_state := set_max (id_client i) e (it_state it)\<rparr>)))
     else continue_with (Ok it)))"

definition iter_turn :: "heap \<Rightarrow> node \<Rightarrow> iter \<Rightarrow> (codec_error, turn \<times> iter) result" where
  "iter_turn h cur it =
     rbind (node_id h cur) (\<lambda>i.
     if is_skip cur then continue_with (Ok it)
     else if \<not> sv_contains (it_state it) i then
       rbind (sub_u64 (id_clock i) 1) (\<lambda>missing.
       continue_with (add_stack_to_rest h (update_missing_state (id_client i) missing (push_stack cur it))))
     else (case get_missing_dep h (it_state it) cur of
         Some dep \<Rightarrow>
           (case map_of (it_structs it) dep of
              Some (n # rest) \<Rightarrow>
                Ok (Continue (Some n), push_stack cur (set_structs (hm_insert dep rest (it_structs it)) it))
            | _ \<Rightarrow>
                continue_with (add_stack_to_rest h
                  (update_missing_state dep (sv_get (it_state it) dep) (push_stack cur it))))
       | None \<Rightarrow> apply_turn h cur i it))"

section \<open>Termination\<close>

text \<open>Two for every node that waits in the structs, one for every node of the stack.\<close>

definition nodes_in :: "structs \<Rightarrow> nat" where
  "nodes_in m = sum_list (map (length \<circ> snd) m)"

definition work :: "iter \<Rightarrow> nat" where
  "work it = 2 * nodes_in (it_structs it) + length (it_stack it)"

lemma nodes_in_remove: "nodes_in (hm_remove c m) \<le> nodes_in m"
  unfolding nodes_in_def hm_remove_def by (induction m) auto

lemma nodes_in_pop: "map_of m c = Some (n # ns) \<Longrightarrow> nodes_in (hm_insert c ns m) + 1 = nodes_in m"
  unfolding nodes_in_def by (induction m) (auto split: if_splits)

lemma next_client_work:
  "next_client it = (r, it') \<Longrightarrow>
   work it' \<le> work it \<and> it_stack it' = it_stack it \<and> it_state it' = it_state it
   \<and> (\<forall>c. r = Some c \<longrightarrow> (\<exists>n ns. map_of (it_structs it') c = Some (n # ns)))"
proof (induction it rule: next_client.induct)
  case (1 it)
  show ?case
  proof (cases "\<exists>c. it_cur it = Some c \<and> (\<forall>n ns. map_of (it_structs it) c \<noteq> Some (n # ns))")
    case True
    then obtain c where c: "it_cur it = Some c" "\<And>n ns. map_of (it_structs it) c \<noteq> Some (n # ns)" by blast
    then have go: "next_client it = next_client (next_turn c it)"
      by (subst next_client.simps) (auto split: option.splits list.splits)
    have IH: "work it' \<le> work (next_turn c it) \<and> it_stack it' = it_stack (next_turn c it)
      \<and> it_state it' = it_state (next_turn c it)
      \<and> (\<forall>c. r = Some c \<longrightarrow> (\<exists>n ns. map_of (it_structs it') c = Some (n # ns)))"
    proof (cases "map_of (it_structs it) c")
      case None
      then show ?thesis using "1.IH"(1) [OF c(1)] "1.prems" go by simp
    next
      case (Some ns)
      then have "ns = []" using c(2) by (cases ns) auto
      then show ?thesis using "1.IH"(2) [OF c(1) Some] "1.prems" go by simp
    qed
    moreover have "work (next_turn c it) \<le> work it" "it_stack (next_turn c it) = it_stack it"
      "it_state (next_turn c it) = it_state it"
      using nodes_in_remove [of c "it_structs it"] by (auto simp: next_turn_def work_def split: prod.splits)
    ultimately show ?thesis by simp
  next
    case False
    then show ?thesis using "1.prems"
      by (subst (asm) next_client.simps) (auto split: option.splits list.splits)
  qed
qed

lemma next_candidate_work:
  assumes "next_candidate it = Ok (r, it')"
  shows "work it' + (if r = None then 0 else 1) \<le> work it" "it_state it' = it_state it"
proof -
  have "work it' + (if r = None then 0 else 1) \<le> work it \<and> it_state it' = it_state it"
  proof (cases "it_stack it = []")
    case True
    obtain c it1 where n: "next_client it = (c, it1)" by (cases "next_client it")
    note w = next_client_work [OF n]
    show ?thesis
    proof (cases c)
      case None
      then show ?thesis using assms True n w by (auto simp: next_candidate_def)
    next
      case (Some client)
      then obtain m ns where "map_of (it_structs it1) client = Some (m # ns)" using w by blast
      with nodes_in_pop [OF this] Some True n w assms show ?thesis
        by (auto simp: next_candidate_def work_def)
    qed
  qed (use assms in \<open>auto simp: next_candidate_def work_def Suc_le_eq\<close>)
  then show "work it' + (if r = None then 0 else 1) \<le> work it" "it_state it' = it_state it" by simp_all
qed

lemma set_aside_nodes: "nodes_in (u_structs (set_aside c s u)) \<le> nodes_in (u_structs u)"
  using nodes_in_remove [of c "u_structs u"] by (simp add: set_aside_def split: option.splits)

lemma rest_loop_work:
  "rest_loop h stack it = Ok it' \<Longrightarrow>
   nodes_in (it_structs it') \<le> nodes_in (it_structs it) \<and> it_stack it' = it_stack it \<and> it_state it' = it_state it"
proof (induction stack arbitrary: it)
  case (Cons s stack)
  then obtain c where "rest_loop h stack (it\<lparr>it_update := set_aside c s (it_update it),
      it_clients := filter (\<lambda>c'. c' \<noteq> c) (it_clients it)\<rparr>) = Ok it'"
    by (auto simp: outcome_simps)
  from Cons.IH [OF this] set_aside_nodes [of c s "it_update it"] show ?case by simp
qed simp

lemma rest_work:
  assumes "add_stack_to_rest h (update_missing_state c m (push_stack n it)) = Ok it'"
  shows "work it' \<le> work it" "it_state it' = it_state it"
  using rest_loop_work [OF assms [unfolded add_stack_to_rest_def]]
  by (simp_all add: update_missing_state_def push_stack_def work_def)

lemma continue_with_work:
  assumes "continue_with r = Ok (t, it')"
  obtains it cur where "r = Ok it" "next_candidate it = Ok (cur, it')" "t = Continue cur"
  using assms by (auto simp: continue_with_def outcome_simps)

lemma apply_turn_work:
  assumes "apply_turn h cur i it = Ok (t, it')"
  shows "work it' + (case t of Continue (Some _) \<Rightarrow> 1 | _ \<Rightarrow> 0) \<le> work it"
  using assms
  by (auto simp: apply_turn_def outcome_simps work_def split: if_splits
      elim!: continue_with_work dest!: next_candidate_work(1))

lemma iter_turn_work:
  assumes "iter_turn h cur it = Ok (t, it')"
  shows "work it' + (case t of Continue (Some _) \<Rightarrow> 1 | _ \<Rightarrow> 0) \<le> work it"
proof -
  have cont: "work it' + (case t of Continue (Some _) \<Rightarrow> 1 | _ \<Rightarrow> 0) \<le> work it"
    if "continue_with r = Ok (t, it')" "\<And>it1. r = Ok it1 \<Longrightarrow> work it1 \<le> work it" for r
    using that(1)
  proof (rule continue_with_work)
    fix it1 c assume "r = Ok it1" "next_candidate it1 = Ok (c, it')" "t = Continue c"
    with that(2) [of it1] next_candidate_work(1) [of it1 c it'] show ?thesis by (cases c) auto
  qed
  have dep: "work (push_stack cur (set_structs (hm_insert dep rest (it_structs it)) it)) + 1 \<le> work it"
    if "map_of (it_structs it) dep = Some (n # rest)" for dep n rest
    using nodes_in_pop [OF that] by (simp add: work_def push_stack_def set_structs_def)
  show ?thesis
    using assms
    by (auto simp: iter_turn_def outcome_simps split: if_splits option.splits list.splits
        intro: cont rest_work(1) apply_turn_work dest: dep)
qed

function iter_loop :: "heap \<Rightarrow> node option \<Rightarrow> iter \<Rightarrow> (codec_error, (node \<times> u64) option \<times> iter) result" where
  "iter_loop h None it = Ok (None, it)"
| "iter_loop h (Some cur) it =
     rbind (iter_turn h cur it) (\<lambda>r.
     case fst r of
       Yield n offset \<Rightarrow> Ok (Some (n, offset), snd r)
     | Continue cur \<Rightarrow> iter_loop h cur (snd r))"
  by pat_completeness auto
termination
proof (relation "measure (\<lambda>(h, cur, it). 2 * work it + (if cur = None then 0 else 1))")
  fix h cur it r c
  assume "iter_turn h cur it = Ok r" "fst r = Continue c"
  then have "work (snd r) + (if c = None then 0 else 1) \<le> work it"
    using iter_turn_work [of h cur it "Continue c" "snd r"] by (cases r; cases c) auto
  then show "((h, c, snd r), (h, Some cur, it)) \<in> measure (\<lambda>(h, cur, it). 2 * work it + (if cur = None then 0 else 1))"
    by (auto split: if_splits)
qed simp

definition iter_next :: "heap \<Rightarrow> iter \<Rightarrow> (codec_error, (node \<times> u64) option \<times> iter) result" where
  "iter_next h it = rbind (next_candidate it) (\<lambda>(cur, it). iter_loop h cur it)"


lemma iter_loop_work: "iter_loop h cur it = Ok (r, it') \<Longrightarrow> work it' \<le> work it"
proof (induction h cur it rule: iter_loop.induct)
  case (2 h cur it)
  then obtain t it1 where t: "iter_turn h cur it = Ok (t, it1)" by (auto simp: outcome_simps)
  note w = iter_turn_work [OF t]
  show ?case
  proof (cases t)
    case (Yield n k)
    with 2 t w show ?thesis by simp
  next
    case (Continue c)
    have "work it' \<le> work it1" using "2.IH" [OF t, of c] "2.prems" t Continue by simp
    with w show ?thesis by simp
  qed
qed simp

lemma iter_next_work:
  assumes "iter_next h it = Ok (Some y, it')"
  shows "work it' < work it"
proof -
  from assms obtain cur it1 where c: "next_candidate it = Ok (cur, it1)" "iter_loop h cur it1 = Ok (Some y, it')"
    by (auto simp: iter_next_def outcome_simps)
  from c(2) have "cur \<noteq> None" by (cases cur) auto
  with next_candidate_work(1) [OF c(1)] iter_loop_work [OF c(2)] show ?thesis by simp
qed

text \<open>The whole run, as in \<open>for (node, offset) in update.iter(state)\<close>.\<close>

function iter_all :: "heap \<Rightarrow> iter \<Rightarrow> (codec_error, (node \<times> u64) list \<times> iter) result" where
  "iter_all h it =
     rbind (iter_next h it) (\<lambda>r.
     case fst r of
       None \<Rightarrow> Ok ([], snd r)
     | Some y \<Rightarrow> rbind (iter_all h (snd r)) (\<lambda>(ys, it). Ok (y # ys, it)))"
  by pat_completeness auto
termination
proof (relation "measure (\<lambda>(h, it). work it)")
  fix h it r y
  assume "iter_next h it = Ok r" "fst r = Some y"
  then show "((h, snd r), (h, it)) \<in> measure (\<lambda>(h, it). work it)"
    using iter_next_work [of h it y "snd r"] by (cases r) auto
qed simp

declare iter_all.simps [simp del]

section \<open>Causal order\<close>

text \<open>Every origin and parent of another client is before the state of that client.\<close>

definition dep_met :: "state_vector \<Rightarrow> client \<Rightarrow> id option \<Rightarrow> bool" where
  "dep_met state client x =
     (case x of Some i \<Rightarrow> id_client i = client \<or> id_clock i < sv_get state (id_client i) | None \<Rightarrow> True)"

definition deps_met :: "heap \<Rightarrow> state_vector \<Rightarrow> node \<Rightarrow> bool" where
  "deps_met h state n =
     (case get_item h (as_item n) of
        None \<Rightarrow> True
      | Some i \<Rightarrow>
          dep_met state (id_client (item_id i)) (origin_left_id i)
          \<and> dep_met state (id_client (item_id i)) (origin_right_id i)
          \<and> (case item_parent i of Some (ParentId p) \<Rightarrow> dep_met state (id_client (item_id i)) (Some p) | _ \<Rightarrow> True))"

text \<open>
  A node that can be integrated into a store with this state: its first clock is there already or is
  the next one, the offset is what is there, and what it depends on is there.
\<close>

definition applicable :: "heap \<Rightarrow> state_vector \<Rightarrow> node \<Rightarrow> u64 \<Rightarrow> bool" where
  "applicable h state n offset =
     (case (node_id h n :: id codec_result, node_length h n :: u64 codec_result) of
        (Ok i, Ok len) \<Rightarrow>
          \<not> is_skip n \<and> id_clock i \<le> sv_get state (id_client i)
          \<and> offset = sv_get state (id_client i) - id_clock i \<and> (offset = 0 \<or> offset < len) \<and> deps_met h state n
      | _ \<Rightarrow> False)"

text \<open>The state once the node is in.\<close>

definition after_node :: "heap \<Rightarrow> node \<Rightarrow> state_vector \<Rightarrow> state_vector" where
  "after_node h n state =
     (case (node_id h n :: id codec_result, node_length h n :: u64 codec_result) of
        (Ok i, Ok len) \<Rightarrow> set_max (id_client i) (id_clock i + len) state
      | _ \<Rightarrow> state)"

fun causal :: "heap \<Rightarrow> state_vector \<Rightarrow> (node \<times> u64) list \<Rightarrow> bool" where
  "causal h state [] = True"
| "causal h state ((n, offset) # ys) = (applicable h state n offset \<and> causal h (after_node h n state) ys)"

lemma missing_origin_None: "missing_origin state c x = None \<longleftrightarrow> dep_met state c x"
  by (auto simp: missing_origin_def dep_met_def not_le split: option.splits)

lemma no_missing_dep: "get_missing_dep h state n = None \<longleftrightarrow> deps_met h state n"
  by (auto simp: get_missing_dep_def deps_met_def missing_origin_None split: option.splits parent.splits
      dest: missing_origin_None [THEN iffD2])

lemma iter_turn_yield:
  assumes "iter_turn h cur it = Ok (Yield n offset, it')"
  shows "applicable h (it_state it) n offset \<and> it_state it' = after_node h n (it_state it)"
proof -
  have no: False if "continue_with r = Ok (Yield n offset, it')" for r
    using that by (rule continue_with_work) simp
  from assms obtain i where i: "node_id h cur = (Ok i :: _ codec_result)" "\<not> is_skip cur" "sv_contains (it_state it) i"
    "get_missing_dep h (it_state it) cur = None" "apply_turn h cur i it = Ok (Yield n offset, it')"
    by (auto simp: iter_turn_def outcome_simps split: if_splits option.splits list.splits dest: no)
  then show ?thesis
    by (auto simp: apply_turn_def outcome_simps applicable_def after_node_def no_missing_dep sv_contains_def
        split: if_splits dest: no)
qed

lemma iter_turn_continue:
  assumes "iter_turn h cur it = Ok (Continue c, it')"
  shows "it_state it' = it_state it"
proof -
  have cont: "it_state it' = it_state it"
    if "continue_with r = Ok (Continue c, it')" "\<And>it1. r = Ok it1 \<Longrightarrow> it_state it1 = it_state it" for r
    using that(1) by (rule continue_with_work) (use that(2) next_candidate_work(2) in auto)
  show ?thesis
    using assms
    by (auto simp: iter_turn_def apply_turn_def outcome_simps split: if_splits option.splits list.splits
        intro: cont rest_work(2)) (simp_all add: push_stack_def)
qed

definition next_spec :: "heap \<Rightarrow> state_vector \<Rightarrow> (node \<times> u64) option \<Rightarrow> state_vector \<Rightarrow> bool" where
  "next_spec h state r state' =
     (case r of
        Some (n, offset) \<Rightarrow> applicable h state n offset \<and> state' = after_node h n state
      | None \<Rightarrow> state' = state)"

lemma iter_loop_applicable:
  "iter_loop h cur it = Ok (r, it') \<Longrightarrow> next_spec h (it_state it) r (it_state it')"
proof (induction h cur it rule: iter_loop.induct)
  case (2 h cur it)
  then obtain t it1 where t: "iter_turn h cur it = Ok (t, it1)" by (auto simp: outcome_simps)
  show ?case
  proof (cases t)
    case (Yield n k)
    with "2.prems" t iter_turn_yield [of h cur it n k it1] show ?thesis by (auto simp: next_spec_def)
  next
    case (Continue c)
    have "next_spec h (it_state it1) r (it_state it')"
      using "2.IH" [OF t, of c] "2.prems" t Continue by simp
    moreover have "it_state it1 = it_state it" using iter_turn_continue t Continue by blast
    ultimately show ?thesis by simp
  qed
qed (simp add: next_spec_def)

lemma iter_next_applicable:
  assumes "iter_next h it = Ok (r, it')"
  shows "next_spec h (it_state it) r (it_state it')"
proof -
  from assms obtain cur it1 where c: "next_candidate it = Ok (cur, it1)" "iter_loop h cur it1 = Ok (r, it')"
    by (auto simp: iter_next_def outcome_simps)
  from iter_loop_applicable [OF c(2)] next_candidate_work(2) [OF c(1)] show ?thesis by simp
qed

lemma iter_all_causal: "iter_all h it = Ok (ys, it') \<Longrightarrow> causal h (it_state it) ys"
proof (induction h it arbitrary: ys rule: iter_all.induct)
  case (1 h it)
  then obtain r it1 where r: "iter_next h it = Ok (r, it1)"
    by (subst (asm) iter_all.simps) (auto simp: outcome_simps)
  note a = iter_next_applicable [OF r]
  show ?case
  proof (cases r)
    case None
    with "1.prems" r show ?thesis by (subst (asm) iter_all.simps) auto
  next
    case (Some y)
    with "1.prems" r obtain zs where zs: "iter_all h it1 = Ok (zs, it')" "ys = y # zs"
      by (subst (asm) iter_all.simps) (auto simp: outcome_simps)
    have "causal h (it_state it1) zs" using "1.IH" [OF r, of y zs] Some zs(1) by simp
    with a Some zs(2) show ?thesis by (cases y) (simp add: next_spec_def)
  qed
qed


section \<open>The iterator does not panic\<close>

definition alive :: "heap \<Rightarrow> node \<Rightarrow> bool" where
  "alive h n \<longleftrightarrow>
     (case (node_id h n :: id codec_result, node_length h n :: u64 codec_result) of
        (Ok i, Ok len) \<Rightarrow> unat (id_clock i) + unat len < 2 ^ 64
      | _ \<Rightarrow> False)"

definition structs_alive :: "heap \<Rightarrow> structs \<Rightarrow> bool" where
  "structs_alive h m \<longleftrightarrow> list_all (\<lambda>(c, ns). list_all (alive h) ns) m"

definition iter_alive :: "heap \<Rightarrow> iter \<Rightarrow> bool" where
  "iter_alive h it \<longleftrightarrow> structs_alive h (it_structs it) \<and> list_all (alive h) (it_stack it)"

lemma aliveD:
  assumes "alive h n"
  obtains i len where "node_id h n = (Ok i :: _ codec_result)" "node_length h n = (Ok len :: _ codec_result)"
    "unat (id_clock i) + unat len < 2 ^ 64" "node_client h n = (Ok (id_client i) :: _ codec_result)"
  using assms by (auto simp: alive_def node_client_def split: result.splits)

lemma structs_alive_remove: "structs_alive h m \<Longrightarrow> structs_alive h (hm_remove c m)"
  by (auto simp: structs_alive_def hm_remove_def list_all_iff)

lemma structs_alive_insert: "structs_alive h m \<Longrightarrow> list_all (alive h) ns \<Longrightarrow> structs_alive h (hm_insert c ns m)"
  unfolding structs_alive_def by (induction m) auto

lemma structs_alive_lookup: "structs_alive h m \<Longrightarrow> map_of m c = Some ns \<Longrightarrow> list_all (alive h) ns"
  by (auto simp: structs_alive_def list_all_iff dest: map_of_SomeD)

lemma next_client_alive: "next_client it = (r, it') \<Longrightarrow> iter_alive h it \<Longrightarrow> iter_alive h it'"
proof (induction it rule: next_client.induct)
  case (1 it)
  have turn: "iter_alive h (next_turn c it)" for c
    using "1.prems"(2) structs_alive_remove [of h "it_structs it" c]
    by (auto simp: next_turn_def iter_alive_def split: prod.splits)
  show ?case
    using "1.prems" turn
    by (subst (asm) next_client.simps) (auto split: option.splits list.splits dest: "1.IH")
qed

lemma next_candidate_alive:
  assumes "iter_alive h it"
  obtains r it' where "next_candidate it = Ok (r, it')" "iter_alive h it'" "\<forall>n. r = Some n \<longrightarrow> alive h n"
proof (cases "it_stack it = []")
  case True
  obtain c it1 where n: "next_client it = (c, it1)" by (cases "next_client it")
  have a: "iter_alive h it1" using next_client_alive [OF n assms] .
  show thesis
  proof (cases c)
    case None
    then show thesis using that [of None it1] a True n by (simp add: next_candidate_def)
  next
    case (Some client)
    then obtain m ns where m: "map_of (it_structs it1) client = Some (m # ns)" using next_client_work [OF n] by blast
    have "structs_alive h (it_structs it1)" using a by (simp add: iter_alive_def)
    from structs_alive_lookup [OF this m] structs_alive_insert [OF this, of ns client]
    show thesis using that [of "Some m" "set_structs (hm_insert client ns (it_structs it1)) it1"] a True n m Some
      by (simp add: next_candidate_def iter_alive_def)
  qed
next
  case False
  then obtain s n where s: "it_stack it = s @ [n]" by (cases "it_stack it" rule: rev_cases) auto
  with assms show thesis
    using that [of "Some n" "it\<lparr>it_stack := s\<rparr>"] by (simp add: next_candidate_def iter_alive_def)
qed

lemma set_aside_alive: "structs_alive h (u_structs u) \<Longrightarrow> structs_alive h (u_structs (set_aside c s u))"
  by (auto simp: set_aside_def structs_alive_remove split: option.splits)

lemma rest_loop_alive:
  "list_all (alive h) stack \<Longrightarrow> structs_alive h (it_structs it) \<Longrightarrow>
   \<exists>it'. rest_loop h stack it = Ok it' \<and> structs_alive h (it_structs it') \<and> it_stack it' = it_stack it"
proof (induction stack arbitrary: it)
  case (Cons s stack)
  then have "alive h s" by simp
  then obtain i :: id where "node_client h s = (Ok (id_client i) :: _ codec_result)" by (rule aliveD)
  with Cons.IH [of "it\<lparr>it_update := set_aside (id_client i) s (it_update it),
      it_clients := filter (\<lambda>c'. c' \<noteq> id_client i) (it_clients it)\<rparr>"] Cons.prems
  show ?case by (simp add: set_aside_alive)
qed simp

lemma rest_alive:
  assumes "iter_alive h it" "alive h n"
  shows "\<exists>it'. add_stack_to_rest h (update_missing_state c m (push_stack n it)) = Ok it' \<and> iter_alive h it'"
  using rest_loop_alive [of h "it_stack it @ [n]" "(update_missing_state c m (push_stack n it))\<lparr>it_stack := []\<rparr>"] assms
  by (auto simp: add_stack_to_rest_def iter_alive_def update_missing_state_def push_stack_def)

definition turn_alive :: "heap \<Rightarrow> (turn \<times> iter) codec_result \<Rightarrow> bool" where
  "turn_alive h r \<longleftrightarrow>
     (case r of Ok (t, it') \<Rightarrow> iter_alive h it' \<and> (case t of Continue (Some n) \<Rightarrow> alive h n | _ \<Rightarrow> True) | _ \<Rightarrow> False)"

lemma continue_alive:
  assumes "r = Ok it" "iter_alive h it"
  shows "turn_alive h (continue_with r)"
proof -
  obtain c it' where "next_candidate it = Ok (c, it')" "iter_alive h it'" "\<forall>n. c = Some n \<longrightarrow> alive h n"
    using assms(2) by (rule next_candidate_alive)
  with assms(1) show ?thesis by (simp add: turn_alive_def continue_with_def split: option.splits)
qed

lemma apply_turn_alive:
  assumes "iter_alive h it" "alive h cur" "node_id h cur = (Ok i :: _ codec_result)" "sv_contains (it_state it) i"
  shows "turn_alive h (apply_turn h cur i it)"
proof -
  obtain j len where j: "node_id h cur = (Ok j :: _ codec_result)" "node_length h cur = (Ok len :: _ codec_result)"
    "unat (id_clock j) + unat len < 2 ^ 64" using assms(2) by (rule aliveD)
  have sub: "sub_u64 (sv_get (it_state it) (id_client i)) (id_clock i)
      = (Ok (sv_get (it_state it) (id_client i) - id_clock i) :: _ codec_result)"
    using assms(4) by (simp add: sv_contains_def sub_u64_def)
  have add: "add_u64 (id_clock i) len = (Ok (id_clock i + len) :: _ codec_result)"
    using assms(3) j by (simp add: add_u64_def)
  show ?thesis
    using continue_alive [OF refl assms(1)] assms(1)
    by (simp add: apply_turn_def sub add j(2)) (simp add: turn_alive_def iter_alive_def)
qed

lemma iter_turn_alive:
  assumes "iter_alive h it" "alive h cur"
  shows "turn_alive h (iter_turn h cur it)"
proof -
  obtain i where i: "node_id h cur = (Ok i :: _ codec_result)" using assms(2) by (rule aliveD)
  have rest: "turn_alive h (continue_with (add_stack_to_rest h (update_missing_state c m (push_stack cur it))))" for c m
    using rest_alive [OF assms, of c m] by (auto intro: continue_alive)
  have dep: "turn_alive h (Ok (Continue (Some n), push_stack cur (set_structs (hm_insert dep ns (it_structs it)) it)))"
    if "map_of (it_structs it) dep = Some (n # ns)" for dep n ns
    using structs_alive_lookup [OF _ that, of h] structs_alive_insert [of h "it_structs it" ns dep] assms
    by (simp add: turn_alive_def iter_alive_def push_stack_def set_structs_def)
  have sub: "sub_u64 (id_clock i) 1 = (Ok (id_clock i - 1) :: _ codec_result)" if "\<not> sv_contains (it_state it) i"
  proof -
    have "sv_get (it_state it) (id_client i) < id_clock i" using that by (simp add: sv_contains_def)
    then have "1 \<le> id_clock i" by (simp add: word_le_nat_alt word_less_nat_alt)
    then show ?thesis by (simp add: sub_u64_def)
  qed
  show ?thesis
    using apply_turn_alive [OF assms i] continue_alive [OF refl assms(1)] rest dep sub
    by (simp add: iter_turn_def i split: option.splits list.splits)
qed

lemma iter_loop_alive:
  "iter_alive h it \<Longrightarrow> (\<forall>n. cur = Some n \<longrightarrow> alive h n) \<Longrightarrow>
   \<exists>r it'. iter_loop h cur it = Ok (r, it') \<and> iter_alive h it'"
proof (induction h cur it rule: iter_loop.induct)
  case (2 h cur it)
  have "turn_alive h (iter_turn h cur it)" using 2 by (intro iter_turn_alive) simp_all
  then obtain t it1 where t: "iter_turn h cur it = Ok (t, it1)" "iter_alive h it1"
    "case t of Continue (Some n) \<Rightarrow> alive h n | _ \<Rightarrow> True"
    by (auto simp: turn_alive_def split: result.splits)
  show ?case
  proof (cases t)
    case (Continue c)
    then have "\<exists>r it'. iter_loop h c it1 = Ok (r, it') \<and> iter_alive h it'"
      using "2.IH" [OF t(1), of c] t(2,3) by (simp split: option.splits)
    with t(1) Continue show ?thesis by simp
  qed (use t in simp)
qed simp

lemma iter_all_alive: "iter_alive h it \<Longrightarrow> \<exists>ys it'. iter_all h it = Ok (ys, it')"
proof (induction h it rule: iter_all.induct)
  case (1 h it)
  obtain c it1 where c: "next_candidate it = Ok (c, it1)" "iter_alive h it1" "\<forall>n. c = Some n \<longrightarrow> alive h n"
    using "1.prems" by (rule next_candidate_alive)
  from iter_loop_alive [OF c(2,3)] c(1) obtain r it2 where r: "iter_next h it = Ok (r, it2)" "iter_alive h it2"
    by (auto simp: iter_next_def)
  show ?case
  proof (cases r)
    case (Some y)
    then have "\<exists>ys it'. iter_all h it2 = Ok (ys, it')" using "1.IH" [OF r(1), of y] r(2) by simp
    then obtain ys it' where "iter_all h it2 = Ok (ys, it')" by blast
    with r(1) Some have "iter_all h it = Ok (y # ys, it')" by (simp add: iter_all.simps [of h it])
    then show ?thesis by blast
  qed (use r(1) in \<open>simp add: iter_all.simps [of h it]\<close>)
qed


section \<open>The delete set\<close>

text \<open>\<open>DeleteSetIterator\<close>: the ranges below the local state come out, the rest goes to the pending set.\<close>

definition pop_range :: "update \<Rightarrow> client \<Rightarrow> (range option \<times> update) option" where
  "pop_range u client =
     (case map_of (u_delete_set u) client of
        None \<Rightarrow> None
      | Some deletes \<Rightarrow>
          (case pop deletes of
             (rng, deletes) \<Rightarrow> Some (rng, u\<lparr>u_delete_set := hm_insert client deletes (u_delete_set u)\<rparr>)))"

definition add_pending :: "client \<Rightarrow> clock \<Rightarrow> clock \<Rightarrow> update \<Rightarrow> update codec_result" where
  "add_pending client s e u =
     rbind (sub_u64 e s) (\<lambda>len.
     rbind (add client s len (u_pending_delete_set u)) (\<lambda>ds. Ok (u\<lparr>u_pending_delete_set := ds\<rparr>)))"

definition delete_turn ::
    "state_vector \<Rightarrow> client \<Rightarrow> update \<Rightarrow> ((client \<times> range) option \<times> update) codec_result" where
  "delete_turn state client u =
     rbind (unwrap (pop_range u client)) (\<lambda>(rng, u').
     case rng of
       None \<Rightarrow> Ok (None, u'\<lparr>u_delete_set := hm_remove client (u_delete_set u')\<rparr>)
     | Some r \<Rightarrow>
         let local_state = sv_get state client
         in if r_start r < local_state then
              (if local_state < r_end r then
                 rbind (add_pending client local_state (r_end r) u') (\<lambda>u.
                 Ok (Some (client, mk_range (r_start r) local_state), u))
               else Ok (Some (client, r), u'))
            else rbind (add_pending client (r_start r) (r_end r) u') (\<lambda>u. Ok (None, u)))"

definition ranges_in :: "order_range \<Rightarrow> nat" where
  "ranges_in r = (case r of Range x \<Rightarrow> if range_is_empty x then 0 else 1 | Fragment rs \<Rightarrow> length rs)"

definition delete_work :: "delete_set \<Rightarrow> nat" where
  "delete_work ds = sum_list (map (\<lambda>(c, r). Suc (ranges_in r)) ds)"

lemma pop_ranges:
  "pop r = (x, r') \<Longrightarrow> (case x of Some _ \<Rightarrow> ranges_in r = Suc (ranges_in r') | None \<Rightarrow> ranges_in r' = ranges_in r)"
  by (cases r rule: pop.cases) (auto simp: ranges_in_def range_is_empty_def mk_range_def split: if_splits)

lemma delete_work_insert:
  "map_of ds c = Some r \<Longrightarrow> delete_work (hm_insert c r' ds) + ranges_in r = delete_work ds + ranges_in r'"
  unfolding delete_work_def by (induction ds) (auto split: if_splits)

lemma delete_work_remove: "map_of ds c = Some r \<Longrightarrow> delete_work (hm_remove c ds) < delete_work ds"
proof (induction ds)
  case (Cons x ds)
  have le: "delete_work (hm_remove c ds) \<le> delete_work ds" for ds
    unfolding delete_work_def hm_remove_def by (induction ds) auto
  show ?case using Cons le [of ds] by (cases x) (auto simp: delete_work_def hm_remove_def split: if_splits)
qed simp

lemma add_pending_delete_set: "add_pending c s e u = Ok u' \<Longrightarrow> u_delete_set u' = u_delete_set u"
  by (auto simp: add_pending_def outcome_simps)

lemma delete_turn_work:
  assumes "delete_turn state c u = Ok (y, u')"
  shows "delete_work (u_delete_set u') < delete_work (u_delete_set u)"
proof -
  from assms obtain r where r: "map_of (u_delete_set u) c = Some r"
    by (auto simp: delete_turn_def outcome_simps pop_range_def split: option.splits)
  obtain x r' where x: "pop r = (x, r')" by (cases "pop r")
  let ?u = "u\<lparr>u_delete_set := hm_insert c r' (u_delete_set u)\<rparr>"
  have w: "delete_work (u_delete_set ?u) + ranges_in r = delete_work (u_delete_set u) + ranges_in r'"
    using delete_work_insert [OF r, of r'] by simp
  show ?thesis
  proof (cases x)
    case None
    then have "delete_work (u_delete_set ?u) = delete_work (u_delete_set u)" using w pop_ranges [OF x] by simp
    moreover have "delete_work (hm_remove c (u_delete_set ?u)) < delete_work (u_delete_set ?u)"
      by (rule delete_work_remove [of _ _ r']) simp
    moreover have "u_delete_set u' = hm_remove c (u_delete_set ?u)"
      using assms r x None by (auto simp: delete_turn_def outcome_simps pop_range_def)
    ultimately show ?thesis by simp
  next
    case (Some rng)
    then have "delete_work (u_delete_set ?u) < delete_work (u_delete_set u)" using w pop_ranges [OF x] by simp
    moreover have "u_delete_set u' = u_delete_set ?u"
      using assms r x Some
      by (auto simp: delete_turn_def outcome_simps pop_range_def Let_def split: if_splits dest!: add_pending_delete_set)
    ultimately show ?thesis by simp
  qed
qed

text \<open>All that the iterator gives, in order.  The next client is the first key of the map.\<close>

function delete_all :: "state_vector \<Rightarrow> update \<Rightarrow> ((client \<times> range) list \<times> update) codec_result" where
  "delete_all state u =
     (case u_delete_set u of
        [] \<Rightarrow> Ok ([], u)
      | (client, _) # _ \<Rightarrow>
          rbind (delete_turn state client u) (\<lambda>r.
          rbind (delete_all state (snd r)) (\<lambda>(ys, u).
          Ok (case fst r of None \<Rightarrow> ys | Some y \<Rightarrow> y # ys, u))))"
  by pat_completeness auto
termination
  by (relation "measure (\<lambda>(state, u). delete_work (u_delete_set u))")
    (auto dest!: delete_turn_work)

declare delete_all.simps [simp del]


definition yielded :: "(client \<times> range) list \<Rightarrow> client \<Rightarrow> clock set" where
  "yielded ys c = (\<Union>(c', r) \<in> set ys. if c' = c then range_clocks r else {})"

lemma yielded_simps [simp]:
  "yielded [] c = {}" "yielded ((c', r) # ys) c = (if c' = c then range_clocks r else {}) \<union> yielded ys c"
  by (auto simp: yielded_def)

lemma add_pending_clocks:
  assumes "ds_proper (u_pending_delete_set u)" "s \<le> e"
  obtains u' where "add_pending c s e u = Ok u'" "u_delete_set u' = u_delete_set u"
    "ds_proper (u_pending_delete_set u')"
    "ds_clocks (u_pending_delete_set u')
      = (ds_clocks (u_pending_delete_set u))(c := ds_clocks (u_pending_delete_set u) c \<union> range_clocks (mk_range s e))"
proof -
  have sub: "sub_u64 e s = (Ok (e - s) :: _ codec_result)" using assms(2) by (simp add: sub_u64_def)
  have "add_u64 s (e - s) = (Ok e :: _ codec_result)"
    using range_end [of "mk_range s e"] assms(2) by (simp add: proper_def)
  then have "add c s (e - s) (u_pending_delete_set u) = Ok (add_range c (mk_range s e) (u_pending_delete_set u))"
    by (simp add: add_def)
  with sub add_range_clocks [OF assms(1), of "mk_range s e" c] assms(2) show thesis
    by (intro that [of "u\<lparr>u_pending_delete_set := add_range c (mk_range s e) (u_pending_delete_set u)\<rparr>"])
      (simp_all add: add_pending_def proper_def)
qed

definition turn_given :: "(client \<times> range) option \<Rightarrow> (client \<times> range) list" where
  "turn_given y = (case y of None \<Rightarrow> [] | Some x \<Rightarrow> [x])"

definition delete_state_ok :: "update \<Rightarrow> bool" where
  "delete_state_ok u \<longleftrightarrow> hm_wf (u_delete_set u) \<and> ds_proper (u_delete_set u) \<and> ds_proper (u_pending_delete_set u)"

text \<open>A turn moves clocks from the delete set to the output or to the pending set.\<close>

definition moves :: "state_vector \<Rightarrow> update \<Rightarrow> (client \<times> range) list \<Rightarrow> update \<Rightarrow> bool" where
  "moves state u ys u' \<longleftrightarrow>
     delete_state_ok u'
     \<and> (\<forall>(c, r) \<in> set ys. proper r \<and> r_end r \<le> sv_get state c)
     \<and> (\<forall>c. \<exists>later. later \<subseteq> {k. sv_get state c \<le> k}
          \<and> ds_clocks (u_pending_delete_set u') c = ds_clocks (u_pending_delete_set u) c \<union> later
          \<and> ds_clocks (u_delete_set u) c = yielded ys c \<union> later \<union> ds_clocks (u_delete_set u') c)"

lemma moves_trans:
  assumes "moves state u ys u1" "moves state u1 zs u2"
  shows "moves state u (ys @ zs) u2"
  unfolding moves_def
proof (intro conjI allI)
  show "delete_state_ok u2" using assms(2) by (simp add: moves_def)
  show "\<forall>(c, r) \<in> set (ys @ zs). proper r \<and> r_end r \<le> sv_get state c"
    using assms by (auto simp: moves_def)
  fix c
  obtain l1 l2 where l: "l1 \<subseteq> {k. sv_get state c \<le> k}" "l2 \<subseteq> {k. sv_get state c \<le> k}"
    "ds_clocks (u_pending_delete_set u1) c = ds_clocks (u_pending_delete_set u) c \<union> l1"
    "ds_clocks (u_pending_delete_set u2) c = ds_clocks (u_pending_delete_set u1) c \<union> l2"
    "ds_clocks (u_delete_set u) c = yielded ys c \<union> l1 \<union> ds_clocks (u_delete_set u1) c"
    "ds_clocks (u_delete_set u1) c = yielded zs c \<union> l2 \<union> ds_clocks (u_delete_set u2) c"
    using assms unfolding moves_def by blast
  have "yielded (ys @ zs) c = yielded ys c \<union> yielded zs c" by (auto simp: yielded_def)
  with l show "\<exists>later \<subseteq> {k. sv_get state c \<le> k}.
      ds_clocks (u_pending_delete_set u2) c = ds_clocks (u_pending_delete_set u) c \<union> later
      \<and> ds_clocks (u_delete_set u) c = yielded (ys @ zs) c \<union> later \<union> ds_clocks (u_delete_set u2) c"
    by (intro exI [of _ "l1 \<union> l2"]) auto
qed

lemma pop_proper: "order_range_proper r \<Longrightarrow> pop r = (x, r') \<Longrightarrow>
   order_range_proper r' \<and> (\<forall>y. x = Some y \<longrightarrow> proper y)"
  by (cases r rule: pop.cases) (auto split: if_splits simp: proper_def)

lemma ds_proper_remove: "ds_proper ds \<Longrightarrow> ds_proper (hm_remove c ds)"
  by (auto simp: ds_proper_def)

lemma ds_clocks_remove: "ds_clocks (hm_remove c ds) = (ds_clocks ds)(c := {})"
  by (auto simp: ds_clocks_def fun_eq_iff)

lemma delete_turn_moves:
  assumes ok: "delete_state_ok u" and r: "map_of (u_delete_set u) c = Some r"
  shows "\<exists>y u'. delete_turn state c u = Ok (y, u') \<and> moves state u (turn_given y) u'"
proof -
  obtain x r' where x: "pop r = (x, r')" by (cases "pop r")
  let ?u = "u\<lparr>u_delete_set := hm_insert c r' (u_delete_set u)\<rparr>"
  have rp: "order_range_proper r" using ok r by (auto simp: delete_state_ok_def dest: ds_properD)
  note p = pop_proper [OF rp x]
  have ok': "delete_state_ok ?u" using ok p by (simp add: delete_state_ok_def)
  then have pend: "ds_proper (u_pending_delete_set ?u)" by (simp add: delete_state_ok_def)
  have pop_r: "pop_range u c = Some (x, ?u)" by (simp add: pop_range_def r x)
  have ds: "ds_clocks (u_delete_set u) c = clocks r" using r by (simp add: ds_clocks_def)
  show ?thesis
  proof (cases x)
    case None
    let ?v = "?u\<lparr>u_delete_set := hm_remove c (u_delete_set ?u)\<rparr>"
    have "clocks r = {}" using pop_clocks [OF x] None by simp
    then have "moves state u [] ?v"
      using ok' ds by (auto simp: moves_def delete_state_ok_def ds_proper_remove ds_clocks_remove)
    with None show ?thesis by (simp add: delete_turn_def pop_r turn_given_def)
  next
    case (Some y)
    have cl: "clocks r = range_clocks y \<union> clocks r'" and yp: "proper y" using pop_clocks [OF x] p Some by simp_all
    let ?l = "sv_get state c"
    consider "r_start y < ?l" "?l < r_end y" | "r_start y < ?l" "r_end y \<le> ?l" | "?l \<le> r_start y" by fastforce
    then show ?thesis
    proof cases
      case 1
      obtain v where v: "add_pending c ?l (r_end y) ?u = Ok v" "u_delete_set v = u_delete_set ?u"
        "ds_proper (u_pending_delete_set v)" "ds_clocks (u_pending_delete_set v) = (ds_clocks (u_pending_delete_set ?u))
          (c := ds_clocks (u_pending_delete_set ?u) c \<union> range_clocks (mk_range ?l (r_end y)))"
        using pend less_imp_le [OF 1(2)] by (rule add_pending_clocks)
      have split: "range_clocks y = range_clocks (mk_range (r_start y) ?l) \<union> range_clocks (mk_range ?l (r_end y))"
        using 1 by (auto simp: range_clocks_def)
      have late: "range_clocks (mk_range ?l (r_end y)) \<subseteq> {k. ?l \<le> k}" by (auto simp: range_clocks_def)
      have "moves state u [(c, mk_range (r_start y) ?l)] v"
        unfolding moves_def
      proof (intro conjI allI)
        show "delete_state_ok v" using ok' v by (simp add: delete_state_ok_def)
        show "\<forall>(c, r) \<in> set [(c, mk_range (r_start y) ?l)]. proper r \<and> r_end r \<le> sv_get state c"
          using 1 by (simp add: proper_def)
        fix c'
        show "\<exists>later \<subseteq> {k. sv_get state c' \<le> k}.
            ds_clocks (u_pending_delete_set v) c' = ds_clocks (u_pending_delete_set u) c' \<union> later
            \<and> ds_clocks (u_delete_set u) c' = yielded [(c, mk_range (r_start y) ?l)] c' \<union> later \<union> ds_clocks (u_delete_set v) c'"
        proof (cases "c' = c")
          case True
          with v late split cl ds show ?thesis
            by (intro exI [of _ "range_clocks (mk_range ?l (r_end y))"]) auto
        qed (use v in \<open>auto intro!: exI [of _ "{}"]\<close>)
      qed
      with Some 1 v(1) show ?thesis by (simp add: delete_turn_def pop_r turn_given_def)
    next
      case 2
      have "moves state u [(c, y)] ?u"
        using ok' 2 yp ds cl by (auto simp: moves_def intro!: exI [of _ "{}"])
      with Some 2 show ?thesis by (auto simp: delete_turn_def pop_r turn_given_def Let_def)
    next
      case 3
      obtain v where v: "add_pending c (r_start y) (r_end y) ?u = Ok v" "u_delete_set v = u_delete_set ?u"
        "ds_proper (u_pending_delete_set v)" "ds_clocks (u_pending_delete_set v) = (ds_clocks (u_pending_delete_set ?u))
          (c := ds_clocks (u_pending_delete_set ?u) c \<union> range_clocks (mk_range (r_start y) (r_end y)))"
        using pend yp [unfolded proper_def] by (rule add_pending_clocks)
      have late: "range_clocks y \<subseteq> {k. ?l \<le> k}" using 3 by (auto simp: range_clocks_def)
      have "moves state u [] v"
        unfolding moves_def
      proof (intro conjI allI)
        show "delete_state_ok v" using ok' v by (simp add: delete_state_ok_def)
        show "\<forall>(c, r) \<in> set []. proper r \<and> r_end r \<le> sv_get state c" by simp
        fix c'
        show "\<exists>later \<subseteq> {k. sv_get state c' \<le> k}.
            ds_clocks (u_pending_delete_set v) c' = ds_clocks (u_pending_delete_set u) c' \<union> later
            \<and> ds_clocks (u_delete_set u) c' = yielded [] c' \<union> later \<union> ds_clocks (u_delete_set v) c'"
        proof (cases "c' = c")
          case True
          with v late cl ds show ?thesis by (intro exI [of _ "range_clocks y"]) auto
        qed (use v in \<open>auto intro!: exI [of _ "{}"]\<close>)
      qed
      with Some 3 v(1) show ?thesis by (auto simp: delete_turn_def pop_r turn_given_def Let_def not_less)
    qed
  qed
qed

lemma delete_all_moves:
  "delete_state_ok u \<Longrightarrow> \<exists>ys u'. delete_all state u = Ok (ys, u') \<and> moves state u ys u' \<and> u_delete_set u' = []"
proof (induction state u rule: delete_all.induct)
  case (1 state u)
  show ?case
  proof (cases "u_delete_set u")
    case Nil
    have "moves state u [] u" using "1.prems" by (auto simp: moves_def intro!: exI [of _ "{}"])
    with Nil show ?thesis by (simp add: delete_all.simps [of state u])
  next
    case (Cons e ds)
    obtain c r where e: "e = (c, r)" by (cases e)
    then have "map_of (u_delete_set u) c = Some r" using Cons by simp
    from delete_turn_moves [OF "1.prems" this] obtain y u1 where
      t: "delete_turn state c u = Ok (y, u1)" "moves state u (turn_given y) u1" by blast
    then have "delete_state_ok u1" by (simp add: moves_def)
    then obtain ys u2 where r: "delete_all state u1 = Ok (ys, u2)" "moves state u1 ys u2" "u_delete_set u2 = []"
      using "1.IH" [OF Cons e [symmetric] t(1)] by auto
    from moves_trans [OF t(2) r(2)] t(1) r(1,3) Cons e show ?thesis
      by (cases y) (simp_all add: delete_all.simps [of state u] turn_given_def)
  qed
qed


section \<open>Properties\<close>

text \<open>C14: Taking an update apart always ends, without a panic, when the items of its nodes are alive and
  their clocks do not overflow, and gives the nodes in causal order: each one starts inside or
  right after what the store has of its client, with the offset of what is there already, it is
  no \<open>Skip\<close>, and its origins and its parent of other clients are before the state, which counts
  the nodes given so far.\<close>

theorem update_iteration_causal:
  assumes "structs_alive h (u_structs u)"
  shows "\<exists>ys it. iter_all h (update_iter u state) = Ok (ys, it) \<and> causal h state ys"
proof -
  have "iter_alive h (update_iter u state)"
    using assms by (simp add: iter_alive_def update_iter_def split: prod.splits)
  from iter_all_alive [OF this] obtain ys it where ys: "iter_all h (update_iter u state) = Ok (ys, it)" by blast
  from iter_all_causal [OF this] have "causal h state ys" by (simp add: update_iter_def split: prod.splits)
  with ys show ?thesis by blast
qed

lemma update_iteration_causal_witness:
  "\<exists>ys it. iter_all rooted_heap (update_iter rooted_update [(7, 10)]) = Ok (ys, it) \<and> causal rooted_heap [(7, 10)] ys"
proof (rule update_iteration_causal)
  have "alive rooted_heap (Item (SRef 0))"
    by (simp add: alive_def rooted_heap_get get_item_unchecked_def)
      (simp add: rooted_item_def item_len_def new_id_def)
  then show "structs_alive rooted_heap (u_structs rooted_update)"
    by (simp add: structs_alive_def rooted_update_def) (simp add: alive_def new_id_def)
qed

text \<open>The delete set is divided at the state of the store.  For ranges that are not reversed the
  iteration ends; what it gives lies below the state of its client, what is left lies above and
  is added to the pending set, and together they are the delete set.\<close>

lemma delete_set_divided:
  assumes "hm_wf (u_delete_set u)" "ds_proper (u_delete_set u)" "ds_proper (u_pending_delete_set u)"
  shows "\<exists>ys u'. delete_all state u = Ok (ys, u') \<and> u_delete_set u' = []
    \<and> yielded ys c = {k \<in> ds_clocks (u_delete_set u) c. k < sv_get state c}
    \<and> ds_clocks (u_pending_delete_set u') c
        = ds_clocks (u_pending_delete_set u) c \<union> {k \<in> ds_clocks (u_delete_set u) c. sv_get state c \<le> k}"
proof -
  have "delete_state_ok u" using assms by (simp add: delete_state_ok_def)
  from delete_all_moves [OF this] obtain ys u' where d: "delete_all state u = Ok (ys, u')" "moves state u ys u'"
    "u_delete_set u' = []" by blast
  from d(2) obtain later where l: "later \<subseteq> {k. sv_get state c \<le> k}"
    "ds_clocks (u_pending_delete_set u') c = ds_clocks (u_pending_delete_set u) c \<union> later"
    "ds_clocks (u_delete_set u) c = yielded ys c \<union> later \<union> ds_clocks (u_delete_set u') c"
    unfolding moves_def by blast
  have early: "yielded ys c \<subseteq> {k. k < sv_get state c}"
  proof
    fix k assume "k \<in> yielded ys c"
    then obtain r where r: "(c, r) \<in> set ys" "k \<in> range_clocks r" by (auto simp: yielded_def split: if_splits)
    then have "r_end r \<le> sv_get state c" using d(2) by (auto simp: moves_def)
    with r(2) show "k \<in> {k. k < sv_get state c}" by (auto simp: range_clocks_def)
  qed
  have "ds_clocks (u_delete_set u') c = {}" using d(3) by (simp add: ds_clocks_def)
  with l early have "yielded ys c = {k \<in> ds_clocks (u_delete_set u) c. k < sv_get state c}"
    "later = {k \<in> ds_clocks (u_delete_set u) c. sv_get state c \<le> k}" by (auto simp: not_le)
  with d l(2) show ?thesis by blast
qed

lemma delete_set_divided_witness:
  "\<exists>ys u'. delete_all [(7, 14)] rooted_update = Ok (ys, u') \<and> yielded ys 7 = {12, 13}"
proof -
  have "ds_clocks (u_delete_set rooted_update) 7 = {k. 12 \<le> k \<and> k < 15}"
    by (simp add: rooted_update_def ds_clocks_def range_clocks_def)
  moreover have "{k \<in> {k :: u64. 12 \<le> k \<and> k < 15}. k < 14} = {12, 13}"
  proof -
    have "k = 12 \<or> k = 13" if "12 \<le> k" "k < 14" for k :: u64
    proof -
      have "unat k = 12 \<or> unat k = 13" using that by (simp add: word_le_nat_alt word_less_nat_alt) arith
      then show ?thesis by (auto simp: word_unat_eq_iff)
    qed
    then show ?thesis by auto
  qed
  moreover have "hm_wf (u_delete_set rooted_update)" "ds_proper (u_delete_set rooted_update)"
    "ds_proper (u_pending_delete_set rooted_update)" "sv_get [(7 :: client, 14 :: clock)] 7 = 14"
    by (auto simp: rooted_update_def sv_get_def hm_wf_def ds_proper_def proper_def default_update_def split: if_splits)
  ultimately show ?thesis
    using delete_set_divided [of rooted_update "[(7, 14)]" 7] by auto
qed

text \<open>Putting the stack aside can lose nodes.  When it holds two nodes of one client, as a cycle of
  dependencies between two clients makes it, the second replaces what was kept for the first, the
  node and everything that waited behind it.\<close>

lemma set_aside_overwrites:
  assumes "node_client h a = (Ok c :: _ codec_result)" "node_client h b = (Ok c :: _ codec_result)"
    and "it_stack it = [a, b]"
  shows "\<exists>it'. add_stack_to_rest h it = Ok it'
    \<and> map_of (u_pending_structs (it_update it')) c = Some [b] \<and> map_of (it_structs it') c = None
    \<and> c \<notin> set (it_clients it')"
proof -
  let ?it = "it\<lparr>it_stack := []\<rparr>"
  let ?u1 = "set_aside c a (it_update it)"
  have none: "map_of (u_structs ?u1) c = None"
    by (auto simp: set_aside_def split: option.splits)
  then have "map_of (u_pending_structs (set_aside c b ?u1)) c = Some [b] \<and> map_of (u_structs (set_aside c b ?u1)) c = None"
    by (simp add: set_aside_def [of c b])
  with assms show ?thesis by (simp add: add_stack_to_rest_def)
qed

lemma set_aside_overwrites_witness:
  "\<exists>it'. add_stack_to_rest empty_heap
      (update_iter (default_update\<lparr>u_structs := [(2, [new_gc (new_id 2 9) 3])]\<rparr>) []
         \<lparr>it_stack := [new_gc (new_id 2 1) 1, new_gc (new_id 2 5) 1]\<rparr>) = Ok it'
    \<and> map_of (u_pending_structs (it_update it')) 2 = Some [new_gc (new_id 2 5) 1]"
  using set_aside_overwrites [of empty_heap "new_gc (new_id 2 1) 1" 2 "new_gc (new_id 2 5) 1"
      "update_iter (default_update\<lparr>u_structs := [(2, [new_gc (new_id 2 9) 3])]\<rparr>) []
         \<lparr>it_stack := [new_gc (new_id 2 1) 1, new_gc (new_id 2 5) 1]\<rparr>"]
  by (auto simp: node_client_def new_gc_def new_id_def)

end
