(* ===== verification/Store_Model.thy ===== *)
theory Store_Model
  imports Update_Iterator
begin

text \<open>
  The document store, \<open>libs/jwst-codec/src/doc/store.rs\<close>, first part: its state, the lookup of
  nodes by clock and the splitting of nodes.  The operations take the store and the heap and give
  both back; nodes of a client are a list in the order of their clocks.
\<close>

section \<open>State\<close>

record store =
  st_client :: client
  st_items :: structs
  st_delete_set :: delete_set
  st_types :: "(bytes, ytype_ref) hashmap"
  st_dangling_types :: "(nat, ytype_ref) hashmap"
  st_pending :: "update option"
  st_last_optimized_state :: state_vector

definition with_client :: "client \<Rightarrow> store" where
  "with_client client =
     \<lparr>st_client = client, st_items = [], st_delete_set = [], st_types = [], st_dangling_types = [],
      st_pending = None, st_last_optimized_state = []\<rparr>"

definition store_eq :: "store \<Rightarrow> store \<Rightarrow> bool" where
  "store_eq a b \<longleftrightarrow> st_client a = st_client b"

definition clients :: "store \<Rightarrow> client list" where
  "clients st = map fst (st_items st)"

definition node_end :: "heap \<Rightarrow> node \<Rightarrow> ('e, clock) result" where
  "node_end h n = rbind (node_clock h n) (\<lambda>c. rbind (node_length h n) (\<lambda>l. add_u64 c l))"

definition get_state :: "heap \<Rightarrow> store \<Rightarrow> client \<Rightarrow> clock codec_result" where
  "get_state h st client =
     (case map_of (st_items st) client of
        Some structs \<Rightarrow> if structs = [] then Ok 0 else node_end h (last structs)
      | None \<Rightarrow> Ok 0)"

fun items_as_state_vector :: "heap \<Rightarrow> (client \<times> node list) list \<Rightarrow> state_vector codec_result" where
  "items_as_state_vector h [] = Ok []"
| "items_as_state_vector h ((client, structs) # items) =
     rbind (if structs = [] then Ok [] else rbind (node_end h (last structs)) (\<lambda>e. Ok [(client, e)])) (\<lambda>entry.
     rbind (items_as_state_vector h items) (\<lambda>state. Ok (entry @ state)))"

definition get_state_vector :: "heap \<Rightarrow> store \<Rightarrow> state_vector codec_result" where
  "get_state_vector h st = items_as_state_vector h (st_items st)"

definition add_node :: "heap \<Rightarrow> node \<Rightarrow> store \<Rightarrow> store codec_result" where
  "add_node h n st =
     rbind (node_client h n) (\<lambda>client_id.
     case map_of (st_items st) client_id of
       Some structs \<Rightarrow>
         rbind (if structs = [] then Ok ()
                else rbind (node_end h (last structs)) (\<lambda>expect.
                     rbind (node_clock h n) (\<lambda>actually.
                     if expect \<noteq> actually then Err (StructClockInvalid expect actually) else Ok ()))) (\<lambda>_.
         Ok (st\<lparr>st_items := hm_insert client_id (structs @ [n]) (st_items st)\<rparr>))
     | None \<Rightarrow> Ok (st\<lparr>st_items := hm_insert client_id [n] (st_items st)\<rparr>))"

section \<open>Lookup by clock\<close>

text \<open>Indexing panics out of bounds; division panics on zero; \<open>usize\<close> products can overflow.\<close>

definition index_node :: "node list \<Rightarrow> nat \<Rightarrow> ('e, node) result" where
  "index_node items i = (if i < length items then Ok (items ! i) else Panic)"

definition div_u64 :: "u64 \<Rightarrow> u64 \<Rightarrow> ('e, u64) result" where
  "div_u64 a b = (if b = 0 then Panic else Ok (a div b))"

definition mul_usize :: "nat \<Rightarrow> nat \<Rightarrow> ('e, nat) result" where
  "mul_usize a b = (if a * b < 2 ^ 64 then Ok (a * b) else Panic)"

text \<open>One turn of the search: found, or the new bounds.\<close>

datatype probe = Found nat | Between nat nat

definition probe_at :: "heap \<Rightarrow> node list \<Rightarrow> clock \<Rightarrow> nat \<Rightarrow> nat \<Rightarrow> nat \<Rightarrow> ('e, probe) result" where
  "probe_at h items clock left right middle_index =
     rbind (index_node items middle_index) (\<lambda>middle.
     rbind (node_clock h middle) (\<lambda>middle_clock.
     if middle_clock \<le> clock then
       rbind (node_end h middle) (\<lambda>e.
       if clock < e then Ok (Found middle_index) else Ok (Between (middle_index + 1) right))
     else if middle_index = 0 then Panic
     else Ok (Between left (middle_index - 1))))"

lemma probe_between:
  "probe_at h items clock left right m = Ok (Between l r) \<Longrightarrow>
   l = m + 1 \<and> r = right \<or> l = left \<and> r = m - 1 \<and> 0 < m"
  by (auto simp: probe_at_def outcome_simps split: if_splits)

function index_loop :: "heap \<Rightarrow> node list \<Rightarrow> clock \<Rightarrow> nat \<Rightarrow> nat \<Rightarrow> ('e, nat option) result" where
  "index_loop h items clock left right =
     (if left \<le> right then
        rbind (probe_at h items clock left right ((left + right) div 2)) (\<lambda>p.
        case p of
          Found i \<Rightarrow> Ok (Some i)
        | Between l r \<Rightarrow> index_loop h items clock l r)
      else Ok None)"
  by pat_completeness auto
termination
  by (relation "measure (\<lambda>(h, items, clock, left, right). Suc right - left)")
    (auto dest!: probe_between)

declare index_loop.simps [simp del]

definition get_node_index :: "heap \<Rightarrow> node list \<Rightarrow> clock \<Rightarrow> ('e, nat option) result" where
  "get_node_index h items clock =
     (if items = [] then Panic
      else let right = length items - 1
        in rbind (index_node items right) (\<lambda>middle.
           rbind (node_clock h middle) (\<lambda>middle_clock.
           if middle_clock = clock then Ok (Some right)
           else
             rbind (node_end h middle) (\<lambda>e.
             rbind (sub_u64 e 1) (\<lambda>last.
             rbind (div_u64 clock last) (\<lambda>q.
             rbind (mul_usize (unat q) right) (\<lambda>middle_index.
             rbind (probe_at h items clock 0 right middle_index) (\<lambda>p.
             case p of
               Found i \<Rightarrow> Ok (Some i)
             | Between l r \<Rightarrow> index_loop h items clock l r))))))))"

fun clone_node :: "node \<Rightarrow> node" where
  "clone_node (Item r) = Item (somr_clone r)"
| "clone_node n = n"

definition get_node_with_idx :: "heap \<Rightarrow> id \<Rightarrow> store \<Rightarrow> ('e, (node \<times> nat) option) result" where
  "get_node_with_idx h i st =
     (case map_of (st_items st) (id_client i) of
        None \<Rightarrow> Ok None
      | Some items \<Rightarrow>
          rbind (get_node_index h items (id_clock i)) (\<lambda>r.
          case r of
            None \<Rightarrow> Ok None
          | Some index \<Rightarrow> Ok (if index < length items then Some (clone_node (items ! index), index) else None)))"

definition get_node :: "heap \<Rightarrow> id \<Rightarrow> store \<Rightarrow> ('e, node option) result" where
  "get_node h i st = rbind (get_node_with_idx h i st) (\<lambda>r. Ok (map_option fst r))"

definition create_item ::
    "content \<Rightarrow> somr \<Rightarrow> somr \<Rightarrow> parent option \<Rightarrow> bytes option \<Rightarrow> store \<Rightarrow> heap \<Rightarrow> (codec_error, somr \<times> heap) result" where
  "create_item content left right parent sub st h =
     rbind (get_state h st (st_client st)) (\<lambda>clock.
     rbind (new_item h (new_id (st_client st) clock) content left right parent sub) (\<lambda>i.
     Ok (case new_item_ref i h of (r, h) \<Rightarrow> (r, link_type i r h))))"

section \<open>Splitting\<close>

definition upd_item :: "somr \<Rightarrow> (item \<Rightarrow> item) \<Rightarrow> heap \<Rightarrow> ('e, heap) result" where
  "upd_item r f h = rbind (get_item_unchecked h r) (\<lambda>i. Ok (put_item r (f i) h))"

text \<open>
  The links of the new right item: it goes between the left item and the item right of it, whose
  \<open>left\<close> it takes over.  \<open>mem::replace\<close> moves the old pointer out.
\<close>

definition link_right :: "somr \<Rightarrow> somr \<Rightarrow> heap \<Rightarrow> (codec_error, heap) result" where
  "link_right item_ref right_ref h =
     rbind (get_item_unchecked h item_ref) (\<lambda>left_item.
     rbind (case get_item h (item_right left_item) of
              Some right_right \<Rightarrow>
                Ok (item_left right_right,
                    put_item (item_right left_item) (right_right\<lparr>item_left := somr_clone right_ref\<rparr>) h)
            | None \<Rightarrow> Ok (somr_clone item_ref, h)) (\<lambda>(new_left, h).
     rbind (upd_item right_ref (\<lambda>i. i\<lparr>item_left := new_left\<rparr>) h) (\<lambda>h.
     rbind (get_item_unchecked h item_ref) (\<lambda>left_item.
     rbind (upd_item right_ref (\<lambda>i. i\<lparr>item_right := item_right left_item\<rparr>) h) (\<lambda>h.
     rbind (upd_item item_ref (\<lambda>i. i\<lparr>item_right := somr_clone right_ref\<rparr>) h) (\<lambda>h.
     rbind (get_item_unchecked h item_ref) (\<lambda>left_item.
     rbind (last_id left_item) (\<lambda>lid.
     upd_item right_ref (\<lambda>i. i\<lparr>origin_left_id := Some lid, origin_right_id := origin_right_id left_item\<rparr>) h))))))))"

definition split_node_at :: "node list \<Rightarrow> nat \<Rightarrow> u64 \<Rightarrow> heap \<Rightarrow> (codec_error, (node \<times> node) \<times> node list \<times> heap) result" where
  "split_node_at items idx diff h =
     rbind (debug_assert (0 < diff)) (\<lambda>_.
     rbind (index_node items idx) (\<lambda>n.
     case clone_node n of
       Item item_ref \<Rightarrow>
         rbind (unwrap (get_item h item_ref)) (\<lambda>i.
         rbind (item_split_at h i diff) (\<lambda>(left, right).
         case new_item_ref left h of (left_ref, h) \<Rightarrow>
         case new_item_ref right h of (right_ref, h) \<Rightarrow>
         rbind (upd_item item_ref (\<lambda>i. i\<lparr>item_content := clone_content (item_content left)\<rparr>) h) (\<lambda>h.
         rbind (link_right item_ref right_ref h) (\<lambda>h.
         Ok ((Item item_ref, clone_node (Item right_ref)),
             take (idx + 1) items @ Item right_ref # drop (idx + 1) items,
             drop_item left_ref h)))))
     | _ \<Rightarrow> Panic))"

definition set_items :: "client \<Rightarrow> node list \<Rightarrow> store \<Rightarrow> store" where
  "set_items client items st = st\<lparr>st_items := hm_insert client items (st_items st)\<rparr>"

definition split_node :: "id \<Rightarrow> u64 \<Rightarrow> store \<Rightarrow> heap \<Rightarrow> (codec_error, (node \<times> node) \<times> store \<times> heap) result" where
  "split_node i diff st h =
     rbind (debug_assert (0 < diff)) (\<lambda>_.
     case map_of (st_items st) (id_client i) of
       None \<Rightarrow> Err (StructSequenceNotExists (id_client i))
     | Some items \<Rightarrow>
         rbind (get_node_index h items (id_clock i)) (\<lambda>r.
         case r of
           None \<Rightarrow> Err (StructSequenceNotExists (id_client i))
         | Some idx \<Rightarrow>
             rbind (split_node_at items idx diff h) (\<lambda>(lr, items, h). Ok (lr, set_items (id_client i) items st, h))))"

definition split_at_and_get_right :: "id \<Rightarrow> store \<Rightarrow> heap \<Rightarrow> (codec_error, node \<times> store \<times> heap) result" where
  "split_at_and_get_right i st h =
     (case map_of (st_items st) (id_client i) of
        None \<Rightarrow> Err (StructSequenceNotExists (id_client i))
      | Some items \<Rightarrow>
          rbind (get_node_index h items (id_clock i)) (\<lambda>r.
          case r of
            None \<Rightarrow> Err (StructSequenceNotExists (id_client i))
          | Some index \<Rightarrow>
              rbind (index_node items index) (\<lambda>n.
              let item = clone_node n
              in rbind (node_clock h item) (\<lambda>c.
                 rbind (sub_u64 (id_clock i) c) (\<lambda>offset.
                 if 0 < offset \<and> is_item item then
                   rbind (split_node_at items index offset h) (\<lambda>((_, right), items, h).
                   Ok (right, set_items (id_client i) items st, h))
                 else Ok (item, st, h))))))"

definition split_at_and_get_left :: "id \<Rightarrow> store \<Rightarrow> heap \<Rightarrow> (codec_error, node \<times> store \<times> heap) result" where
  "split_at_and_get_left i st h =
     (case map_of (st_items st) (id_client i) of
        None \<Rightarrow> Err (StructSequenceNotExists (id_client i))
      | Some items \<Rightarrow>
          rbind (get_node_index h items (id_clock i)) (\<lambda>r.
          case r of
            None \<Rightarrow> Err (StructSequenceNotExists (id_client i))
          | Some index \<Rightarrow>
              rbind (index_node items index) (\<lambda>n.
              let item = clone_node n
              in rbind (node_clock h item) (\<lambda>c.
                 rbind (sub_u64 (id_clock i) c) (\<lambda>offset.
                 rbind (node_length h item) (\<lambda>len.
                 rbind (sub_u64 len 1) (\<lambda>last.
                 if offset \<noteq> last \<and> \<not> is_gc item then
                   rbind (add_u64 offset 1) (\<lambda>diff.
                   rbind (split_node_at items index diff h) (\<lambda>((left, _), items, h).
                   Ok (left, set_items (id_client i) items st, h)))
                 else Ok (item, st, h))))))))"

fun check_nodes :: "heap \<Rightarrow> node list \<Rightarrow> unit codec_result" where
  "check_nodes h (l # r # ns) =
     rbind (node_end h l) (\<lambda>e.
     rbind (node_clock h r) (\<lambda>c.
     if e \<noteq> c then
       rbind (node_client h l) (\<lambda>client. rbind (node_clock h l) (\<lambda>clock. Err (StructSequenceInvalid client clock)))
     else check_nodes h (r # ns)))"
| "check_nodes h _ = Ok ()"

fun check_clients :: "heap \<Rightarrow> (client \<times> node list) list \<Rightarrow> unit codec_result" where
  "check_clients h [] = Ok ()"
| "check_clients h ((_, structs) # items) = rbind (check_nodes h structs) (\<lambda>_. check_clients h items)"

definition self_check :: "heap \<Rightarrow> store \<Rightarrow> unit codec_result" where
  "self_check h st = check_clients h (st_items st)"

end
