(* ===== verification/Store_Lookup.thy ===== *)
theory Store_Lookup
  imports Store_Model
begin

text \<open>
  What the lookup, the state and the appending of nodes do on a well-formed store,
  \<open>libs/jwst-codec/src/doc/store.rs\<close>.  The nodes of a client are a \<open>run\<close>: each starts where the
  one before it ends.
\<close>

section \<open>Runs of nodes\<close>

fun run :: "heap \<Rightarrow> client \<Rightarrow> nat \<Rightarrow> node list \<Rightarrow> bool" where
  "run h client c [] = True"
| "run h client c (n # ns) = (node_fits h client n \<and> clock_of h n = c \<and> run h client (end_of h n) ns)"

fun run_end :: "heap \<Rightarrow> nat \<Rightarrow> node list \<Rightarrow> nat" where
  "run_end h c [] = c"
| "run_end h c (n # ns) = run_end h (end_of h n) ns"

lemma node_fits_span: "node_fits h client n \<Longrightarrow> clock_of h n < end_of h n \<and> end_of h n < 2 ^ 64"
  by (erule node_fitsD) simp

lemma run_append: "run h client c (as @ bs) \<longleftrightarrow> run h client c as \<and> run h client (run_end h c as) bs"
  by (induction as arbitrary: c) auto

lemma run_end_append: "run_end h c (as @ bs) = run_end h (run_end h c as) bs"
  by (induction as arbitrary: c) auto

lemma run_end_ge: "run h client c ns \<Longrightarrow> c + length ns \<le> run_end h c ns"
proof (induction ns arbitrary: c)
  case (Cons n ns)
  then have "clock_of h n < end_of h n" "clock_of h n = c" by (auto dest: node_fits_span)
  with Cons.IH [of "end_of h n"] Cons.prems show ?case by simp
qed simp

lemma run_last: "run h client c ns \<Longrightarrow> ns \<noteq> [] \<Longrightarrow> run_end h c ns = end_of h (last ns)"
  by (induction ns arbitrary: c) auto

lemma run_at:
  assumes "run h client c ns" "i < length ns"
  shows "node_fits h client (ns ! i)" "clock_of h (ns ! i) = run_end h c (take i ns)"
    "end_of h (ns ! i) = run_end h c (take (Suc i) ns)"
proof -
  have ns: "ns = take i ns @ ns ! i # drop (Suc i) ns" using assms(2) by (rule id_take_nth_drop)
  have r: "run h client c (take i ns @ ns ! i # drop (Suc i) ns)" using assms(1) ns by simp
  then show "node_fits h client (ns ! i)" "clock_of h (ns ! i) = run_end h c (take i ns)"
    unfolding run_append by simp_all
  show "end_of h (ns ! i) = run_end h c (take (Suc i) ns)"
    using assms(2) by (simp add: take_Suc_conv_app_nth run_end_append)
qed

lemma run_end_take_mono:
  assumes "run h client c ns" "i \<le> j"
  shows "run_end h c (take i ns) \<le> run_end h c (take j ns)"
proof -
  obtain k where k: "take j ns = take i ns @ k" by (metis assms(2) le_iff_add take_add)
  have "run h client c (take j ns)" using assms(1) run_append [of h client c "take j ns" "drop j ns"] by simp
  then show ?thesis using k run_end_ge [of h client "run_end h c (take i ns)" k] by (simp add: run_append run_end_append)
qed

lemma node_end_ok:
  assumes "node_fits h client n"
  obtains k where "node_end h n = (Ok k :: _ codec_result)" "unat k = end_of h n"
proof -
  from assms obtain c l where "node_clock h n = (Ok c :: _ codec_result)" "node_length h n = (Ok l :: _ codec_result)"
    "unat c + unat l < 2 ^ 64" "end_of h n = unat c + unat l" by (rule node_fitsD)
  then show thesis by (intro that [of "c + l"]) (simp_all add: node_end_def add_u64_def unat_plus_u64)
qed

lemma node_clock_ok:
  assumes "node_fits h client n"
  obtains k where "node_clock h n = (Ok k :: _ codec_result)" "unat k = clock_of h n"
  using assms by (rule node_fitsD) (simp add: that)

section \<open>The search\<close>

lemma probe_fits:
  assumes "node_fits h client (ns ! i)" "i < length ns"
  shows "probe_at h ns clock left right i =
    (if clock_of h (ns ! i) \<le> unat clock then
       (if unat clock < end_of h (ns ! i) then Ok (Found i) else Ok (Between (i + 1) right))
     else if i = 0 then Panic else Ok (Between left (i - 1)) :: _ codec_result)"
proof -
  obtain e where e: "node_end h (ns ! i) = (Ok e :: _ codec_result)" "unat e = end_of h (ns ! i)"
    using assms(1) by (rule node_end_ok)
  obtain k where k: "node_clock h (ns ! i) = (Ok k :: _ codec_result)" "unat k = clock_of h (ns ! i)"
    using assms(1) by (rule node_clock_ok)
  show ?thesis
    using assms(2) e k by (auto simp: probe_at_def index_node_def word_le_nat_alt word_less_nat_alt)
qed

text \<open>The position of a clock in a run.\<close>

definition holds_at :: "heap \<Rightarrow> node list \<Rightarrow> nat \<Rightarrow> nat \<Rightarrow> bool" where
  "holds_at h ns i k \<longleftrightarrow> i < length ns \<and> clock_of h (ns ! i) \<le> k \<and> k < end_of h (ns ! i)"

lemma holds_at_exists:
  assumes "run h client c ns" "c \<le> k" "k < run_end h c ns"
  shows "\<exists>i. holds_at h ns i k"
  using assms
proof (induction ns arbitrary: c)
  case (Cons n ns)
  show ?case
  proof (cases "k < end_of h n")
    case True
    with Cons.prems have "holds_at h (n # ns) 0 k" by (simp add: holds_at_def)
    then show ?thesis by blast
  next
    case False
    with Cons.prems obtain i where "holds_at h ns i k" using Cons.IH [of "end_of h n"] by auto
    then have "holds_at h (n # ns) (Suc i) k" by (simp add: holds_at_def)
    then show ?thesis by blast
  qed
qed simp

lemma holds_at_less:
  assumes "run h client c ns" "holds_at h ns t k" "i < length ns"
  shows "clock_of h (ns ! i) \<le> k \<longleftrightarrow> i \<le> t" "k < end_of h (ns ! i) \<longleftrightarrow> t \<le> i"
proof -
  have t: "t < length ns" "clock_of h (ns ! t) \<le> k" "k < end_of h (ns ! t)" using assms(2) by (simp_all add: holds_at_def)
  have up: "end_of h (ns ! a) \<le> clock_of h (ns ! b)" if "a < b" "b < length ns" for a b
    using run_end_take_mono [OF assms(1), of "Suc a" b] run_at [OF assms(1), of a] run_at [OF assms(1), of b] that by simp
  show "clock_of h (ns ! i) \<le> k \<longleftrightarrow> i \<le> t"
    using up [of t i] up [of i t] t assms(3) node_fits_span [OF run_at(1) [OF assms(1,3)]]
    by (cases i t rule: linorder_cases) auto
  show "k < end_of h (ns ! i) \<longleftrightarrow> t \<le> i"
    using up [of t i] up [of i t] t assms(3) node_fits_span [OF run_at(1) [OF assms(1,3)]]
    by (cases i t rule: linorder_cases) auto
qed

lemma index_loop_finds:
  assumes "run h client c ns" "holds_at h ns t (unat clock)"
  shows "l \<le> t \<Longrightarrow> t \<le> r \<Longrightarrow> r < length ns \<Longrightarrow> index_loop h ns clock l r = (Ok (Some t) :: _ codec_result)"
proof (induction "Suc r - l" arbitrary: l r rule: less_induct)
  case less
  let ?m = "(l + r) div 2"
  have m: "l \<le> ?m" "?m \<le> r" "?m < length ns" using less.prems by auto
  note p = probe_fits [OF run_at(1) [OF assms(1) m(3)] m(3), of clock l r]
  note h = holds_at_less [OF assms m(3)]
  show ?case
  proof (cases ?m t rule: linorder_cases)
    case less: less
    then have "index_loop h ns clock l r = (index_loop h ns clock (?m + 1) r :: _ codec_result)"
      using p h m by (simp add: index_loop.simps [of h ns clock l r])
    also have "\<dots> = Ok (Some t)"
      using less m less.prems by (intro less.hyps) auto
    finally show ?thesis .
  next
    case equal
    then show ?thesis using p h m by (simp add: index_loop.simps [of h ns clock l r])
  next
    case greater
    then have "index_loop h ns clock l r = (index_loop h ns clock l (?m - 1) :: _ codec_result)"
      using p h m by (simp add: index_loop.simps [of h ns clock l r])
    also have "\<dots> = Ok (Some t)"
      using greater m less.prems by (intro less.hyps) auto
    finally show ?thesis .
  qed
qed

lemma index_loop_above:
  assumes "run h client c ns" "run_end h c ns \<le> unat clock"
  shows "r < length ns \<Longrightarrow> index_loop h ns clock l r = (Ok None :: _ codec_result)"
proof (induction "Suc r - l" arbitrary: l rule: less_induct)
  case less
  show ?case
  proof (cases "l \<le> r")
    case True
    let ?m = "(l + r) div 2"
    have m: "l \<le> ?m" "?m \<le> r" "?m < length ns" using less.prems True by auto
    have e: "end_of h (ns ! ?m) \<le> unat clock"
      using run_end_take_mono [OF assms(1), of "Suc ?m" "length ns"] run_at(3) [OF assms(1) m(3)] m assms(2) by simp
    then have "clock_of h (ns ! ?m) \<le> unat clock" using node_fits_span [OF run_at(1) [OF assms(1) m(3)]] by simp
    with e probe_fits [OF run_at(1) [OF assms(1) m(3)] m(3), of clock l r] True
    have "index_loop h ns clock l r = (index_loop h ns clock (?m + 1) r :: _ codec_result)"
      by (simp add: index_loop.simps [of h ns clock l r])
    also have "\<dots> = Ok None" using m less.prems by (intro less.hyps) auto
    finally show ?thesis .
  qed (simp add: index_loop.simps [of h ns clock l r])
qed

text \<open>The reference: the first node that ends after the clock.\<close>

fun position :: "heap \<Rightarrow> nat \<Rightarrow> node list \<Rightarrow> nat option" where
  "position h k [] = None"
| "position h k (n # ns) = (if k < end_of h n then Some 0 else map_option Suc (position h k ns))"

lemma position_holds:
  assumes "run h client c ns" "holds_at h ns t k"
  shows "position h k ns = Some t"
  using assms
proof (induction ns arbitrary: c t)
  case (Cons n ns)
  note less = holds_at_less [OF Cons.prems, of 0]
  show ?case
  proof (cases t)
    case 0
    then show ?thesis using less by simp
  next
    case (Suc t')
    have "holds_at h ns t' k" using Cons.prems(2) Suc by (simp add: holds_at_def)
    then show ?thesis using Cons.IH [of "end_of h n" t'] Cons.prems(1) less Suc by simp
  qed
qed (simp add: holds_at_def)

lemma unat_div_u64: "unat (a div b :: u64) = unat a div unat b"
  by (simp add: unat_div)

lemma get_node_index_unfold:
  assumes "run h client c ns" "ns \<noteq> []"
  shows "get_node_index h ns clock =
    (let e = run_end h c ns; right = length ns - 1
     in if clock_of h (ns ! right) = unat clock then Ok (Some right)
        else if e = 1 then Panic
        else let q = unat clock div (e - 1) * right
          in if 2 ^ 64 \<le> q then Panic
             else rbind (probe_at h ns clock 0 right q) (\<lambda>p.
               case p of Found i \<Rightarrow> Ok (Some i) | Between l r \<Rightarrow> index_loop h ns clock l r) :: _ codec_result)"
proof -
  let ?r = "length ns - 1"
  have r: "?r < length ns" using assms(2) by simp
  note at = run_at [OF assms(1) r]
  obtain k where k: "node_clock h (ns ! ?r) = (Ok k :: _ codec_result)" "unat k = clock_of h (ns ! ?r)"
    using at(1) by (rule node_clock_ok)
  obtain e where e: "node_end h (ns ! ?r) = (Ok e :: _ codec_result)" "unat e = end_of h (ns ! ?r)"
    using at(1) by (rule node_end_ok)
  have ee: "unat e = run_end h c ns" using e(2) at(3) assms(2) by simp
  have pos: "0 < unat e" using node_fits_span [OF at(1)] e(2) by simp
  then have one: "sub_u64 e 1 = (Ok (e - 1) :: _ codec_result)" "unat (e - 1) = unat e - 1"
    by (simp_all add: sub_u64_def word_le_nat_alt unat_minus_u64)
  have "e - 1 = 0 \<longleftrightarrow> unat (e - 1) = 0" by (simp only: unat_eq_zero)
  then have z: "e - 1 = 0 \<longleftrightarrow> unat e = 1" unfolding one(2) using pos by linarith
  have c: "k = clock \<longleftrightarrow> clock_of h (ns ! ?r) = unat clock" using k(2) by (auto simp: word_unat_eq_iff)
  have "get_node_index h ns clock =
    (if k = clock then Ok (Some ?r)
     else rbind (div_u64 clock (e - 1)) (\<lambda>q. rbind (mul_usize (unat q) ?r) (\<lambda>m.
          rbind (probe_at h ns clock 0 ?r m) (\<lambda>p.
          case p of Found i \<Rightarrow> Ok (Some i) | Between l r \<Rightarrow> index_loop h ns clock l r))) :: _ codec_result)"
    using assms(2) r k(1) e(1) one(1) by (simp add: get_node_index_def index_node_def Let_def)
  also have "\<dots> = (if k = clock then Ok (Some ?r) else if e - 1 = 0 then Panic
     else rbind (mul_usize (unat clock div (unat e - 1)) ?r) (\<lambda>m.
          rbind (probe_at h ns clock 0 ?r m) (\<lambda>p.
          case p of Found i \<Rightarrow> Ok (Some i) | Between l r \<Rightarrow> index_loop h ns clock l r)))"
    by (simp add: div_u64_def unat_div_u64 one(2))
  finally show ?thesis by (simp only: c z ee mul_usize_def Let_def) (auto simp: not_le)
qed

lemma run_bounds:
  assumes "run h client c ns" "ns \<noteq> []"
  shows "end_of h (ns ! (length ns - 1)) = run_end h c ns" "c + length ns \<le> run_end h c ns" "run_end h c ns < 2 ^ 64"
    "clock_of h (ns ! (length ns - 1)) < run_end h c ns" "c \<le> clock_of h (ns ! (length ns - 1))"
    "node_fits h client (ns ! (length ns - 1))" "length ns - 1 < length ns"
    "node_fits h client (ns ! 0)" "clock_of h (ns ! 0) = c"
proof -
  let ?r = "length ns - 1"
  show r: "?r < length ns" using assms(2) by simp
  note at = run_at [OF assms(1) r]
  show e: "end_of h (ns ! ?r) = run_end h c ns" using at(3) assms(2) by simp
  show "c + length ns \<le> run_end h c ns" using run_end_ge [OF assms(1)] .
  show "run_end h c ns < 2 ^ 64" "clock_of h (ns ! ?r) < run_end h c ns" using node_fits_span [OF at(1)] e by simp_all
  show "c \<le> clock_of h (ns ! ?r)" using run_end_take_mono [OF assms(1), of 0 ?r] at(2) by simp
  show "node_fits h client (ns ! ?r)" by (rule at(1))
  show "node_fits h client (ns ! 0)" using run_at(1) [OF assms(1), of 0] assms(2) by simp
  show "clock_of h (ns ! 0) = c" using assms by (cases ns) auto
qed

lemma get_node_index_below:
  assumes "run h client c ns" "ns \<noteq> []" "unat clock < c"
  shows "get_node_index h ns clock = (Panic :: _ codec_result)"
proof -
  note b = run_bounds [OF assms(1,2)]
  have "unat clock div (run_end h c ns - 1) = 0" using b(2) assms(2,3) by (cases ns) auto
  then show ?thesis
    using assms(2,3) get_node_index_unfold [OF assms(1,2), of clock] b(5,2,9) probe_fits [OF b(8), of clock 0 "length ns - 1"]
    by (auto simp: Let_def)
qed

lemma get_node_index_inside:
  assumes "run h client c ns" "ns \<noteq> []" "c \<le> unat clock" "unat clock < run_end h c ns"
  shows "get_node_index h ns clock = (Ok (position h (unat clock) ns) :: _ codec_result)"
proof -
  let ?r = "length ns - 1" and ?e = "run_end h c ns" and ?k = "unat clock"
  note b = run_bounds [OF assms(1,2)] and unf = get_node_index_unfold [OF assms(1,2), of clock]
  obtain t where t: "holds_at h ns t ?k" using holds_at_exists [OF assms(1,3,4)] by blast
  have tr: "t \<le> ?r" using t by (auto simp: holds_at_def)
  note less = holds_at_less [OF assms(1) t]
  have pos: "position h ?k ns = Some t" using assms(1) t by (rule position_holds)
  show ?thesis
  proof (cases "clock_of h (ns ! ?r) = ?k")
    case True
    then have "?r = t" using less(1) [OF b(7)] tr by simp
    then show ?thesis using unf True pos by simp
  next
    case False
    have e1: "1 < ?e" using assms(3,4) False b(2,4,5,7) by (cases "?e = 1") auto
    have q: "?k div (?e - 1) = (if ?k = ?e - 1 then 1 else 0)" using assms(4) e1 by auto
    have right: "probe_at h ns clock 0 ?r ?r = (Ok (Found ?r) :: _ codec_result) \<and> t = ?r" if "?k = ?e - 1"
      using that probe_fits [OF b(6,7), of clock 0 ?r] b(1,4) assms(4) less(1) [OF b(7)] tr by auto
    have left: "rbind (probe_at h ns clock 0 ?r 0) (\<lambda>p. case p of Found i \<Rightarrow> Ok (Some i)
        | Between l r \<Rightarrow> index_loop h ns clock l r) = (Ok (Some t) :: _ codec_result)"
      using probe_fits [OF b(8), of clock 0 ?r] assms(2) less [of 0]
        index_loop_finds [OF assms(1) t, of 1 ?r] tr b(7) by (auto split: if_splits)
    have "?r < 2 ^ 64" using b(2,3) by linarith
    then show ?thesis using unf False e1 q right left pos by (auto simp: Let_def)
  qed
qed

lemma get_node_index_above:
  assumes "run h client c ns" "ns \<noteq> []" "run_end h c ns \<le> unat clock"
  shows "get_node_index h ns clock =
    (if run_end h c ns = 1 \<or> 1 < length ns \<and> 2 * (run_end h c ns - 1) \<le> unat clock then Panic
     else Ok None :: _ codec_result)"
proof -
  let ?r = "length ns - 1" and ?e = "run_end h c ns" and ?k = "unat clock"
  note b = run_bounds [OF assms(1,2)] and unf = get_node_index_unfold [OF assms(1,2), of clock]
  have ne: "clock_of h (ns ! ?r) \<noteq> ?k" using b(4) assms(3) by simp
  have fit: "rbind (probe_at h ns clock 0 ?r ?r) (\<lambda>p. case p of Found i \<Rightarrow> Ok (Some i)
      | Between l r \<Rightarrow> index_loop h ns clock l r) = (Ok None :: _ codec_result)"
    using probe_fits [OF b(6,7), of clock 0 ?r] b(1,4) assms(3) index_loop_above [OF assms(1,3) b(7)] by simp
  have sz: "?r < 2 ^ 64" using b(2,3) by linarith
  show ?thesis
  proof (cases "?e = 1 \<or> ?r = 0")
    case True
    then show ?thesis using unf ne assms(3) fit b(2) by (auto simp: Let_def)
  next
    case False
    have q1: "?k div (?e - 1) = 1" if "\<not> 2 * (?e - 1) \<le> ?k"
      using that assms(3) False by (intro div_nat_eqI) auto
    have over: "length ns \<le> ?k div (?e - 1) * ?r" if "2 * (?e - 1) \<le> ?k"
    proof -
      have "2 \<le> ?k div (?e - 1)"
        using that assms(3) False b(2) by (simp add: less_eq_div_iff_mult_less_eq mult.commute)
      then have "2 * ?r \<le> ?k div (?e - 1) * ?r" by (rule mult_le_mono1)
      then show ?thesis using False by linarith
    qed
    have out: "probe_at h ns clock 0 ?r m = (Panic :: _ codec_result)" if "length ns \<le> m" for m
      using that by (simp add: probe_at_def index_node_def)
    show ?thesis
      using unf ne assms(3) fit sz False q1 out [OF over] b(2) by (cases "2 * (?e - 1) \<le> ?k") (auto simp: Let_def)
  qed
qed

text \<open>
  C24: The search for a clock in the nodes of a client agrees with a linear scan wherever a node
  holds the clock.  Outside it is not total: below the first node the upper bound underflows, and
  above the last one the first guess can divide by zero (a single node of one clock) or leave the
  list (twice the last clock, with more than one node); only the rest gives no node.
\<close>

theorem get_node_index_exact:
  assumes "run h client c ns" "ns \<noteq> []"
  shows "get_node_index h ns clock =
    (if unat clock < c then Panic
     else if unat clock < run_end h c ns then Ok (position h (unat clock) ns)
     else if run_end h c ns = 1 \<or> 1 < length ns \<and> 2 * (run_end h c ns - 1) \<le> unat clock then Panic
     else Ok None :: _ codec_result)"
  using get_node_index_below [OF assms] get_node_index_inside [OF assms] get_node_index_above [OF assms] by simp

lemma length_node_facts [simp]:
  "clock_of h (GC l) = unat (id_clock (nl_id l))" "end_of h (GC l) = unat (id_clock (nl_id l)) + unat (nl_len l)"
  "clock_of h (Skip l) = unat (id_clock (nl_id l))" "end_of h (Skip l) = unat (id_clock (nl_id l)) + unat (nl_len l)"
  "node_fits h client (GC l) \<longleftrightarrow>
    id_client (nl_id l) = client \<and> 0 < nl_len l \<and> unat (id_clock (nl_id l)) + unat (nl_len l) < 2 ^ 64"
  "node_fits h client (Skip l) \<longleftrightarrow>
    id_client (nl_id l) = client \<and> 0 < nl_len l \<and> unat (id_clock (nl_id l)) + unat (nl_len l) < 2 ^ 64"
  by (simp_all add: clock_of_def end_of_def node_clock_def node_fits_def)

lemma get_node_index_exact_witness:
  "get_node_index empty_heap [GC \<lparr>nl_id = new_id 1 0, nl_len = 3\<rparr>, GC \<lparr>nl_id = new_id 1 3, nl_len = 2\<rparr>] 2
     = (Ok (Some 0) :: _ codec_result)"
  by (subst get_node_index_exact [where client = 1 and c = 0]) (simp_all add: new_id_def)

section \<open>The state of the store\<close>

text \<open>Every client of the store has a run of nodes from clock 0.\<close>

definition store_ok :: "heap \<Rightarrow> store \<Rightarrow> bool" where
  "store_ok h st \<longleftrightarrow> hm_wf (st_items st) \<and> (\<forall>(client, ns) \<in> set (st_items st). ns \<noteq> [] \<and> run h client 0 ns)"

definition nodes_of :: "store \<Rightarrow> client \<Rightarrow> node list" where
  "nodes_of st client = (case map_of (st_items st) client of Some ns \<Rightarrow> ns | None \<Rightarrow> [])"

definition state_of :: "heap \<Rightarrow> store \<Rightarrow> client \<Rightarrow> nat" where
  "state_of h st client = run_end h 0 (nodes_of st client)"

lemma store_ok_run: "store_ok h st \<Longrightarrow> run h client 0 (nodes_of st client)"
  by (auto simp: store_ok_def nodes_of_def split: option.splits dest: map_of_SomeD)

lemma store_ok_nonempty: "store_ok h st \<Longrightarrow> map_of (st_items st) client = Some ns \<Longrightarrow> ns \<noteq> []"
  by (auto simp: store_ok_def dest: map_of_SomeD)

lemma get_state_exact:
  assumes "store_ok h st"
  obtains k where "get_state h st client = Ok k" "unat k = state_of h st client"
proof (cases "map_of (st_items st) client")
  case None
  then show thesis by (intro that [of 0]) (simp_all add: get_state_def state_of_def nodes_of_def)
next
  case (Some ns)
  have ne: "ns \<noteq> []" using store_ok_nonempty [OF assms Some] .
  have r: "run h client 0 ns" using store_ok_run [OF assms, of client] Some by (simp add: nodes_of_def)
  have l: "length ns - 1 < length ns" using ne by simp
  obtain k where "node_end h (last ns) = (Ok k :: _ codec_result)" "unat k = end_of h (last ns)"
    using node_end_ok [OF run_at(1) [OF r l]] ne by (metis last_conv_nth)
  then show thesis using Some ne run_last [OF r ne]
    by (intro that [of k]) (simp_all add: get_state_def state_of_def nodes_of_def)
qed

lemma hm_insert_entries: "hm_wf m \<Longrightarrow> set (hm_insert k v m) = insert (k, v) {e \<in> set m. fst e \<noteq> k}"
  by (induction k v m rule: hm_insert.induct) (force simp: hm_wf_def)+

lemma store_ok_insert:
  assumes "store_ok h st" "ns \<noteq> []" "run h client 0 ns"
  shows "store_ok h (st\<lparr>st_items := hm_insert client ns (st_items st)\<rparr>)"
  using assms by (auto simp: store_ok_def hm_insert_entries)

lemma add_node_cases:
  assumes "store_ok h st" "node_fits h client n" "nodes_of st client \<noteq> [] \<or> clock_of h n = 0"
  obtains e a where "unat e = state_of h st client" "unat a = clock_of h n"
    "add_node h n st =
      (if e = a then Ok (st\<lparr>st_items := hm_insert client (nodes_of st client @ [n]) (st_items st)\<rparr>)
       else Err (StructClockInvalid e a))"
proof -
  obtain a l where n: "node_id h n = (Ok (new_id client a) :: _ codec_result)" "node_clock h n = (Ok a :: _ codec_result)"
    "clock_of h n = unat a"
    using assms(2) by (rule node_fitsD)
  obtain e where e: "get_state h st client = Ok e" "unat e = state_of h st client"
    using assms(1) by (rule get_state_exact)
  have c: "node_client h n = (Ok client :: _ codec_result)" using n(1) by (simp add: node_client_def new_id_def)
  have "add_node h n st =
      (if e = a then Ok (st\<lparr>st_items := hm_insert client (nodes_of st client @ [n]) (st_items st)\<rparr>)
       else Err (StructClockInvalid e a))"
  proof (cases "map_of (st_items st) client")
    case None
    then have "e = 0" "a = 0" using e assms(3) n(3) by (auto simp: get_state_def nodes_of_def unat_eq_zero)
    then show ?thesis using None c by (simp add: add_node_def nodes_of_def)
  next
    case (Some ns)
    then have "ns \<noteq> []" using store_ok_nonempty [OF assms(1)] by simp
    then show ?thesis using Some c e(1) n(2) by (auto simp: add_node_def nodes_of_def get_state_def)
  qed
  then show thesis using that e(2) n(3) by simp
qed

lemma appended_node:
  assumes "store_ok h st" "node_fits h client n" "clock_of h n = state_of h st client"
  defines "st' \<equiv> st\<lparr>st_items := hm_insert client (nodes_of st client @ [n]) (st_items st)\<rparr>"
  shows "store_ok h st'" "state_of h st' client = end_of h n" "nodes_of st' client = nodes_of st client @ [n]"
    "other \<noteq> client \<Longrightarrow> nodes_of st' other = nodes_of st other"
proof -
  have "run h client 0 (nodes_of st client @ [n])"
    using store_ok_run [OF assms(1), of client] assms(2,3) by (simp add: run_append state_of_def)
  then show "store_ok h st'" unfolding st'_def using store_ok_insert [OF assms(1)] by simp
  show "state_of h st' client = end_of h n" "nodes_of st' client = nodes_of st client @ [n]"
    "other \<noteq> client \<Longrightarrow> nodes_of st' other = nodes_of st other"
    by (simp_all add: st'_def state_of_def nodes_of_def run_end_append)
qed

lemma add_node_continues:
  assumes "store_ok h st" "node_fits h client n" "clock_of h n = state_of h st client"
  shows "add_node h n st = Ok (st\<lparr>st_items := hm_insert client (nodes_of st client @ [n]) (st_items st)\<rparr>)"
proof -
  have "nodes_of st client \<noteq> [] \<or> clock_of h n = 0" using assms(3) by (auto simp: state_of_def)
  from add_node_cases [OF assms(1,2) this] assms(3) show ?thesis by (metis word_unat_eq_iff)
qed

text \<open>
  C34: A node that continues its client is appended: the store stays well formed, the client's state
  becomes the end of the node and no other client's nodes change.  Any other node of a known
  client is refused with the expected and the actual clock.
\<close>

theorem add_node_exact:
  assumes "store_ok h st" "node_fits h client n" "nodes_of st client \<noteq> [] \<or> clock_of h n = 0"
  shows "\<exists>e a. unat e = state_of h st client \<and> unat a = clock_of h n
    \<and> add_node h n st =
        (if e = a then Ok (st\<lparr>st_items := hm_insert client (nodes_of st client @ [n]) (st_items st)\<rparr>)
         else Err (StructClockInvalid e a))
    \<and> (e = a \<longrightarrow> (let st' = st\<lparr>st_items := hm_insert client (nodes_of st client @ [n]) (st_items st)\<rparr>
         in store_ok h st' \<and> state_of h st' client = end_of h n
            \<and> (\<forall>other. other \<noteq> client \<longrightarrow> nodes_of st' other = nodes_of st other)))"
proof -
  obtain e a where ea: "unat e = state_of h st client" "unat a = clock_of h n"
    "add_node h n st =
      (if e = a then Ok (st\<lparr>st_items := hm_insert client (nodes_of st client @ [n]) (st_items st)\<rparr>)
       else Err (StructClockInvalid e a))"
    using add_node_cases [OF assms] .
  have "let st' = st\<lparr>st_items := hm_insert client (nodes_of st client @ [n]) (st_items st)\<rparr>
      in store_ok h st' \<and> state_of h st' client = end_of h n
         \<and> (\<forall>other. other \<noteq> client \<longrightarrow> nodes_of st' other = nodes_of st other)" if "e = a"
    using appended_node [OF assms(1,2)] that ea(1,2) by (simp add: Let_def)
  then show ?thesis using ea by blast
qed

lemma add_node_exact_witness:
  "add_node empty_heap (GC \<lparr>nl_id = new_id 1 0, nl_len = 3\<rparr>) (with_client 1)
     = Ok ((with_client 1)\<lparr>st_items := [(1, [GC \<lparr>nl_id = new_id 1 0, nl_len = 3\<rparr>])]\<rparr>)"
proof -
  let ?n = "GC \<lparr>nl_id = new_id 1 0, nl_len = 3\<rparr>"
  have "store_ok empty_heap (with_client 1)" "nodes_of (with_client 1) 1 = []"
    by (simp_all add: store_ok_def with_client_def nodes_of_def)
  moreover from this have "state_of empty_heap (with_client 1) 1 = 0" by (simp add: state_of_def)
  ultimately show ?thesis using add_node_exact [of empty_heap "with_client 1" 1 ?n]
    by (auto simp: new_id_def with_client_def unat_eq_zero)
qed

lemma items_as_state_vector_ok:
  assumes "\<forall>(client, ns) \<in> set items. ns \<noteq> [] \<and> run h client 0 ns"
  obtains sv where "items_as_state_vector h items = Ok sv" "map fst sv = map fst items"
    "\<forall>client. map_option unat (map_of sv client) = map_option (run_end h 0) (map_of items client)"
  using assms
proof (induction items arbitrary: thesis)
  case (Cons entry items)
  obtain client ns where entry: "entry = (client, ns)" by fastforce
  then have ne: "ns \<noteq> []" and r: "run h client 0 ns" using Cons.prems(2) by auto
  obtain sv where sv: "items_as_state_vector h items = Ok sv" "map fst sv = map fst items"
    "\<forall>client. map_option unat (map_of sv client) = map_option (run_end h 0) (map_of items client)"
    using Cons.IH Cons.prems(2) by auto
  have l: "length ns - 1 < length ns" using ne by simp
  obtain k where "node_end h (last ns) = (Ok k :: _ codec_result)" "unat k = end_of h (last ns)"
    using node_end_ok [OF run_at(1) [OF r l]] ne by (metis last_conv_nth)
  then show thesis using sv entry ne run_last [OF r ne] by (intro Cons.prems(1) [of "(client, k) # sv"]) simp_all
qed simp

text \<open>
  On a well-formed store the state vector has one entry for every client, and its clocks are the
  states \<open>get_state\<close> gives, 0 for a client the store does not know.
\<close>

lemma state_vector_agrees:
  assumes "store_ok h st"
  shows "\<exists>sv. get_state_vector h st = Ok sv \<and> map fst sv = clients st
    \<and> (\<forall>client. get_state h st client = Ok (sv_get sv client) \<and> unat (sv_get sv client) = state_of h st client)"
proof -
  obtain sv where sv: "items_as_state_vector h (st_items st) = Ok sv" "map fst sv = map fst (st_items st)"
    "\<forall>client. map_option unat (map_of sv client) = map_option (run_end h 0) (map_of (st_items st) client)"
    using assms by (auto simp: store_ok_def elim: items_as_state_vector_ok)
  have "unat (sv_get sv client) = state_of h st client" for client
    using sv(3) [rule_format, of client]
    by (auto simp: sv_get_def state_of_def nodes_of_def split: option.splits)
  moreover from this have "get_state h st client = Ok (sv_get sv client)" for client
    using get_state_exact [OF assms, of client] by (metis word_unat_eq_iff)
  ultimately show ?thesis using sv(1,2) by (auto simp: get_state_vector_def clients_def)
qed

lemma state_vector_agrees_witness:
  "\<exists>sv. get_state_vector empty_heap (with_client 1) = Ok sv \<and> map fst sv = []"
  using state_vector_agrees [of empty_heap "with_client 1"]
  by (simp add: store_ok_def with_client_def clients_def)

text \<open>The self check.\<close>

lemma check_nodes_iff:
  assumes "\<forall>n \<in> set ns. node_fits h client n" "ns \<noteq> []"
  shows "check_nodes h ns = Ok () \<longleftrightarrow> run h client (clock_of h (hd ns)) ns"
    "check_nodes h ns = Ok () \<or> (\<exists>clock. check_nodes h ns = Err (StructSequenceInvalid client clock))"
proof -
  have "(check_nodes h ns = Ok () \<longleftrightarrow> run h client (clock_of h (hd ns)) ns) \<and>
    (check_nodes h ns = Ok () \<or> (\<exists>clock. check_nodes h ns = Err (StructSequenceInvalid client clock)))"
    using assms
  proof (induction h ns rule: check_nodes.induct)
    case (1 h l r ns)
    obtain e where e: "node_end h l = (Ok e :: _ codec_result)" "unat e = end_of h l"
      using 1(2) node_end_ok [of h client l] by auto
    obtain c where c: "node_clock h r = (Ok c :: _ codec_result)" "unat c = clock_of h r"
      using 1(2) node_clock_ok [of h client r] by auto
    obtain k j where "node_id h l = (Ok (new_id client k) :: _ codec_result)" "node_clock h l = (Ok j :: _ codec_result)"
      using 1(2) by (auto elim: node_fitsD)
    then have i: "node_client h l = (Ok client :: _ codec_result)" "node_clock h l = (Ok j :: _ codec_result)"
      by (simp_all add: node_client_def new_id_def)
    have eq: "e = c \<longleftrightarrow> clock_of h r = end_of h l" using e(2) c(2) by (auto simp: word_unat_eq_iff)
    show ?case
    proof (cases "e = c")
      case True
      then show ?thesis using 1 e(1) c(1) eq by auto
    next
      case False
      then show ?thesis using 1(2) e(1) c(1) i eq by simp
    qed
  qed auto
  then show "check_nodes h ns = Ok () \<longleftrightarrow> run h client (clock_of h (hd ns)) ns"
    "check_nodes h ns = Ok () \<or> (\<exists>clock. check_nodes h ns = Err (StructSequenceInvalid client clock))" by blast+
qed

lemma check_clients_iff:
  "\<forall>(client, ns) \<in> set items. ns \<noteq> [] \<and> (\<forall>n \<in> set ns. node_fits h client n) \<Longrightarrow>
   check_clients h items = Ok () \<longleftrightarrow> (\<forall>(client, ns) \<in> set items. run h client (clock_of h (hd ns)) ns)"
proof (induction items)
  case (Cons entry items)
  obtain client ns where entry: "entry = (client, ns)" by fastforce
  then show ?case using Cons check_nodes_iff [of ns h client] by (auto simp: outcome_simps)
qed simp

text \<open>
  The self check accepts a store whose nodes belong to their clients exactly when the nodes of
  every client follow each other without gap or overlap.
\<close>

lemma self_check_iff:
  assumes "\<forall>(client, ns) \<in> set (st_items st). ns \<noteq> [] \<and> (\<forall>n \<in> set ns. node_fits h client n)"
  shows "self_check h st = Ok () \<longleftrightarrow> (\<forall>(client, ns) \<in> set (st_items st). run h client (clock_of h (hd ns)) ns)"
  unfolding self_check_def using assms by (rule check_clients_iff)

lemma self_check_iff_witness:
  "self_check empty_heap ((with_client 1)\<lparr>st_items := [(1, [new_gc (new_id 1 0) 3, new_gc (new_id 1 4) 2])]\<rparr>) \<noteq> Ok ()"
  by (subst self_check_iff) (simp_all add: new_gc_def new_id_def)

end
