(* ===== verification/Store_Integrate.thy ===== *)
theory Store_Integrate
  imports Store_Model
begin

text \<open>
  The document store, \<open>libs/jwst-codec/src/doc/store.rs\<close>, second part: repairing an incoming item,
  deleting items and integrating nodes.  A \<open>&mut YType\<close> is the pointer to the cell of the type, a
  \<open>&Item\<close> the pointer to the item.  Loops over chains and the recursion through nested types take
  fuel; running out of it counts as a panic.
\<close>

section \<open>Types by name\<close>

definition get_or_create_type :: "bytes \<Rightarrow> store \<Rightarrow> heap \<Rightarrow> ytype_ref \<times> store \<times> heap" where
  "get_or_create_type name st h =
     (case map_of (st_types st) name of
        Some ty \<Rightarrow> (clone_ytype_ref ty, st, h)
      | None \<Rightarrow>
          (case new_type_cell ((new_ytype KUnknown None)\<lparr>yt_root_name := Some name\<rparr>) h of (inner, h) \<Rightarrow>
             let ty = \<lparr>yr_store = True, yr_inner = inner\<rparr>
             in (clone_ytype_ref ty, st\<lparr>st_types := hm_insert name ty (st_types st)\<rparr>, h)))"

section \<open>Repair\<close>

text \<open>The neighbours are cut so that the item fits between them.\<close>

definition repair_left :: "somr \<Rightarrow> store \<Rightarrow> heap \<Rightarrow> (codec_error, store \<times> heap) result" where
  "repair_left r st h =
     rbind (get_item_unchecked h r) (\<lambda>item.
     case origin_left_id item of
       None \<Rightarrow> Ok (st, h)
     | Some left_id \<Rightarrow>
         rbind (split_at_and_get_left left_id st h) (\<lambda>(n, st, h).
         case n of
           Item left_ref \<Rightarrow>
             rbind (opt_result last_id (get_item h left_ref)) (\<lambda>left_id.
             rbind (upd_item r (\<lambda>i. i\<lparr>origin_left_id := left_id, item_left := left_ref\<rparr>) h) (\<lambda>h. Ok (st, h)))
         | _ \<Rightarrow> rbind (upd_item r (\<lambda>i. i\<lparr>origin_left_id := None\<rparr>) h) (\<lambda>h. Ok (st, h))))"

definition repair_right :: "somr \<Rightarrow> store \<Rightarrow> heap \<Rightarrow> (codec_error, store \<times> heap) result" where
  "repair_right r st h =
     rbind (get_item_unchecked h r) (\<lambda>item.
     case origin_right_id item of
       None \<Rightarrow> Ok (st, h)
     | Some right_id \<Rightarrow>
         rbind (split_at_and_get_right right_id st h) (\<lambda>(n, st, h).
         case n of
           Item right_ref \<Rightarrow>
             rbind (upd_item r (\<lambda>i. i\<lparr>origin_right_id := map_option item_id (get_item h right_ref),
                                     item_right := right_ref\<rparr>) h) (\<lambda>h. Ok (st, h))
         | _ \<Rightarrow> rbind (upd_item r (\<lambda>i. i\<lparr>origin_right_id := None\<rparr>) h) (\<lambda>h. Ok (st, h))))"

definition repair_parent :: "somr \<Rightarrow> store \<Rightarrow> heap \<Rightarrow> (codec_error, store \<times> heap) result" where
  "repair_parent r st h =
     rbind (get_item_unchecked h r) (\<lambda>item.
     case item_parent item of
       Some (ParentString str) \<Rightarrow>
         (case get_or_create_type str st h of (ty, st, h) \<Rightarrow>
            rbind (upd_item r (\<lambda>i. i\<lparr>item_parent := Some (ParentType ty)\<rparr>) h) (\<lambda>h. Ok (st, h)))
     | Some (ParentId parent_id) \<Rightarrow>
         rbind (get_node h parent_id st) (\<lambda>n.
         case n of
           Some (Item parent_item) \<Rightarrow>
             rbind (unwrap (get_item h parent_item)) (\<lambda>p.
             rbind (upd_item r (\<lambda>i. i\<lparr>item_parent :=
                      (case item_content p of ContentType ty \<Rightarrow> Some (ParentType (clone_ytype_ref ty)) | _ \<Rightarrow> None)\<rparr>) h) (\<lambda>h.
             Ok (st, h)))
         | _ \<Rightarrow> rbind (upd_item r (\<lambda>i. i\<lparr>item_parent := None\<rparr>) h) (\<lambda>h. Ok (st, h)))
     | None \<Rightarrow>
         (case get_item h (item_left item) of
            Some left \<Rightarrow>
              rbind (upd_item r (\<lambda>i. i\<lparr>item_parent := map_option clone_parent (item_parent left),
                                      parent_sub := parent_sub left\<rparr>) h) (\<lambda>h. Ok (st, h))
          | None \<Rightarrow>
              (case get_item h (item_right item) of
                 Some right \<Rightarrow>
                   rbind (upd_item r (\<lambda>i. i\<lparr>item_parent := map_option clone_parent (item_parent right),
                                           parent_sub := parent_sub right\<rparr>) h) (\<lambda>h. Ok (st, h))
               | None \<Rightarrow> Ok (st, h)))
     | _ \<Rightarrow> Ok (st, h))"

text \<open>The store takes the ownership of the cell of a type the item brings along.\<close>

definition repair_content :: "somr \<Rightarrow> store \<Rightarrow> heap \<Rightarrow> (codec_error, store \<times> heap) result" where
  "repair_content r st h =
     rbind (get_item_unchecked h r) (\<lambda>item.
     case item_content item of
       ContentType ty \<Rightarrow>
         (case yr_inner ty of
            SOwned a \<Rightarrow>
              rbind (somr_swap_take (SOwned a)) (\<lambda>(owned_inner, inner).
              rbind (upd_item r (\<lambda>i. i\<lparr>item_content := ContentType \<lparr>yr_store = True, yr_inner = inner\<rparr>\<rparr>) h) (\<lambda>h.
              Ok (st\<lparr>st_dangling_types :=
                     hm_insert a \<lparr>yr_store = True, yr_inner = owned_inner\<rparr> (st_dangling_types st)\<rparr>, h)))
          | _ \<Rightarrow> Err InvalidParent)
     | _ \<Rightarrow> Ok (st, h))"

definition repair :: "somr \<Rightarrow> store \<Rightarrow> heap \<Rightarrow> (codec_error, store \<times> heap) result" where
  "repair r st h =
     rbind (repair_left r st h) (\<lambda>(st, h).
     rbind (repair_right r st h) (\<lambda>(st, h).
     rbind (repair_parent r st h) (\<lambda>(st, h).
     repair_content r st h)))"

section \<open>Deletion\<close>

type_synonym pending_deletes = "(client, range list) hashmap"

definition push_delete :: "client \<Rightarrow> range \<Rightarrow> pending_deletes \<Rightarrow> pending_deletes" where
  "push_delete client r ds =
     hm_insert client (case map_of ds client of Some v \<Rightarrow> v @ [r] | None \<Rightarrow> [r]) ds"

definition shrink_type :: "ytype_ref \<Rightarrow> u64 \<Rightarrow> heap \<Rightarrow> (codec_error, heap) result" where
  "shrink_type p len h =
     rbind (unwrap (get_ty h p)) (\<lambda>ty.
     rbind (sub_u64 (yt_len ty) len) (\<lambda>l. Ok (put_ty p (ty\<lparr>yt_len := l\<rparr>) h)))"

definition adjust_parent :: "item \<Rightarrow> ytype_ref option \<Rightarrow> heap \<Rightarrow> (codec_error, heap) result" where
  "adjust_parent item parent h =
     (if parent_sub item = None \<and> is_item_countable item then
        (case parent of
           Some p \<Rightarrow>
             rbind (unwrap (get_ty h p)) (\<lambda>ty. if yt_len ty \<noteq> 0 then shrink_type p (item_len item) h else Ok h)
         | None \<Rightarrow>
             (case item_parent item of
                Some (ParentType ty) \<Rightarrow> shrink_type ty (item_len item) h
              | _ \<Rightarrow> Ok h))
      else Ok h)"

text \<open>
  The children of a type: the items of its chain, then the values of its map.  \<open>del\<close> is the recursive
  call on a child.
\<close>

type_synonym deleter = "pending_deletes \<Rightarrow> somr \<Rightarrow> heap \<Rightarrow> (codec_error, pending_deletes \<times> heap) result"

definition delete_child :: "deleter \<Rightarrow> pending_deletes \<Rightarrow> somr \<Rightarrow> item \<Rightarrow> heap \<Rightarrow> (codec_error, pending_deletes \<times> heap) result" where
  "delete_child del ds r child h = (if \<not> is_item_deleted child then del ds r h else Ok (ds, h))"

fun delete_chain :: "deleter \<Rightarrow> nat \<Rightarrow> pending_deletes \<Rightarrow> somr \<Rightarrow> heap \<Rightarrow> (codec_error, pending_deletes \<times> heap) result" where
  "delete_chain del 0 ds item_ref h = Panic"
| "delete_chain del (Suc fuel) ds item_ref h =
     (case get_item h item_ref of
        None \<Rightarrow> Ok (ds, h)
      | Some child \<Rightarrow>
          rbind (delete_child del ds item_ref child h) (\<lambda>(ds, h).
          rbind (get_item_unchecked h item_ref) (\<lambda>child.
          delete_chain del fuel ds (somr_clone (item_right child)) h)))"

fun delete_values :: "deleter \<Rightarrow> pending_deletes \<Rightarrow> somr list \<Rightarrow> heap \<Rightarrow> (codec_error, pending_deletes \<times> heap) result" where
  "delete_values del ds [] h = Ok (ds, h)"
| "delete_values del ds (r # map_values) h =
     rbind (case get_item h r of
              None \<Rightarrow> Ok (ds, h)
            | Some child \<Rightarrow> delete_child del ds r child h) (\<lambda>(ds, h).
     delete_values del ds map_values h)"

definition delete_children :: "deleter \<Rightarrow> pending_deletes \<Rightarrow> ytype_ref \<Rightarrow> heap \<Rightarrow> (codec_error, pending_deletes \<times> heap) result" where
  "delete_children del ds ty h =
     (case get_ty h ty of
        None \<Rightarrow> Ok (ds, h)
      | Some t \<Rightarrow>
          rbind (delete_chain del (h_next h + 1) ds (somr_clone (yt_start t)) h) (\<lambda>(ds, h).
          rbind (unwrap (get_ty h ty)) (\<lambda>t.
          delete_values del ds (map (somr_clone \<circ> snd) (yt_map t)) h)))"

text \<open>What is done to the item itself.\<close>

definition delete_self :: "pending_deletes \<Rightarrow> somr \<Rightarrow> item \<Rightarrow> ytype_ref option \<Rightarrow> heap \<Rightarrow> (codec_error, pending_deletes \<times> heap) result" where
  "delete_self ds r item parent h =
     (let h = put_item r item h
      in rbind (add_u64 (id_clock (item_id item)) (item_len item)) (\<lambda>e.
         let ds = push_delete (id_client (item_id item)) (mk_range (id_clock (item_id item)) e) ds
         in rbind (adjust_parent item parent h) (\<lambda>h. Ok (ds, h))))"

primrec delete_item_inner :: "nat \<Rightarrow> pending_deletes \<Rightarrow> somr \<Rightarrow> ytype_ref option \<Rightarrow> heap \<Rightarrow> (codec_error, pending_deletes \<times> heap) result" where
  "delete_item_inner 0 ds r parent h = Panic"
| "delete_item_inner (Suc fuel) ds r parent h =
     rbind (get_item_unchecked h r) (\<lambda>item.
     case delete_item item of
       (False, _) \<Rightarrow> Ok (ds, h)
     | (True, item) \<Rightarrow>
         rbind (delete_self ds r item parent h) (\<lambda>(ds, h).
         case item_content item of
           ContentType ty \<Rightarrow> delete_children (\<lambda>ds r h. delete_item_inner fuel ds r (Some ty) h) ds ty h
         | _ \<Rightarrow> Ok (ds, h)))"

text \<open>Every level of the recursion has marked another cell as deleted.\<close>

definition delete_fuel :: "heap \<Rightarrow> nat" where
  "delete_fuel h = h_next h + 1"

definition add_pending_deletes :: "pending_deletes \<Rightarrow> delete_set \<Rightarrow> delete_set" where
  "add_pending_deletes pending ds = fold (\<lambda>(client, ranges) ds. batch_add_ranges client ranges ds) pending ds"

definition store_delete_item :: "somr \<Rightarrow> ytype_ref option \<Rightarrow> store \<Rightarrow> heap \<Rightarrow> (codec_error, store \<times> heap) result" where
  "store_delete_item r parent st h =
     rbind (delete_item_inner (delete_fuel h) [] r parent h) (\<lambda>(pending, h).
     Ok (st\<lparr>st_delete_set := add_pending_deletes pending (st_delete_set st)\<rparr>, h))"

definition delete_node :: "node \<Rightarrow> ytype_ref option \<Rightarrow> store \<Rightarrow> heap \<Rightarrow> (codec_error, store \<times> heap) result" where
  "delete_node n parent st h =
     (case get_item h (as_item n) of
        Some _ \<Rightarrow> store_delete_item (as_item n) parent st h
      | None \<Rightarrow> Ok (st, h))"

section \<open>Integration\<close>

text \<open>The first clocks of the node are known already: they are cut off.\<close>

definition cut_item :: "somr \<Rightarrow> u64 \<Rightarrow> store \<Rightarrow> heap \<Rightarrow> (codec_error, store \<times> heap) result" where
  "cut_item r offset st h =
     (if offset = 0 then Ok (st, h)
      else
        rbind (get_item_unchecked h r) (\<lambda>this.
        rbind (add_u64 (id_clock (item_id this)) offset) (\<lambda>clock.
        rbind (upd_item r (\<lambda>i. i\<lparr>item_id := new_id (id_client (item_id i)) clock\<rparr>) h) (\<lambda>h.
        rbind (sub_u64 clock 1) (\<lambda>last.
        rbind (split_at_and_get_left (new_id (id_client (item_id this)) last) st h) (\<lambda>(n, st, h).
        rbind (case n of
                 Item left_ref \<Rightarrow>
                   rbind (opt_result last_id (get_item h left_ref)) (\<lambda>left_id.
                   upd_item r (\<lambda>i. i\<lparr>origin_left_id := left_id, item_left := left_ref\<rparr>) h)
               | _ \<Rightarrow> Ok h) (\<lambda>h.
        rbind (get_item_unchecked h r) (\<lambda>this.
        rbind (content_split (item_content this) offset) (\<lambda>(_, content).
        rbind (upd_item r (\<lambda>i. i\<lparr>item_content := content\<rparr>) h) (\<lambda>h.
        Ok (st, h)))))))))))"

text \<open>
  The loop over the conflicting items gives the item after which the new one goes.  The sets are
  \<open>conflicting_items\<close> and \<open>items_before_origin\<close>.
\<close>

fun scan_conflicts :: "nat \<Rightarrow> heap \<Rightarrow> item \<Rightarrow> somr \<Rightarrow> somr \<Rightarrow> somr \<Rightarrow> id set \<Rightarrow> id set \<Rightarrow> ('e, somr) result" where
  "scan_conflicts 0 h this right conflict left conflicting before = Panic"
| "scan_conflicts (Suc fuel) h this right conflict left conflicting before =
     (case get_item h conflict of
        None \<Rightarrow> Ok left
      | Some conflict_item \<Rightarrow>
          if item_ref_eq h conflict right then Ok left
          else
            let conflict_id = item_id conflict_item;
                before = insert conflict_id before;
                conflicting = insert conflict_id conflicting;
                next = somr_clone (item_right conflict_item)
            in if origin_left_id this = origin_left_id conflict_item then
                 if id_client conflict_id < id_client (item_id this) then
                   scan_conflicts fuel h this right next (somr_clone conflict) {} before
                 else if origin_right_id this = origin_right_id conflict_item then Ok left
                 else scan_conflicts fuel h this right next left conflicting before
               else
                 (case origin_left_id conflict_item of
                    Some conflict_item_left \<Rightarrow>
                      if conflict_item_left \<in> before \<and> conflict_item_left \<notin> conflicting then
                        scan_conflicts fuel h this right next (somr_clone conflict) {} before
                      else scan_conflicts fuel h this right next left conflicting before
                  | None \<Rightarrow> Ok left))"

text \<open>When the neighbours are no longer next to each other the position is searched.\<close>

definition find_left :: "somr \<Rightarrow> ytype_ref \<Rightarrow> heap \<Rightarrow> (codec_error, somr) result" where
  "find_left r pr h =
     rbind (get_item_unchecked h r) (\<lambda>this.
     rbind (unwrap (get_ty h pr)) (\<lambda>parent.
     let left = somr_clone (item_left this);
         right = somr_clone (item_right this);
         right_is_null_or_has_left =
           (case get_item h right of None \<Rightarrow> True | Some r \<Rightarrow> get_item h (item_left r) \<noteq> None);
         left_has_other_right_than_self =
           (case get_item h left of Some l \<Rightarrow> \<not> item_ref_eq h (item_right l) right | None \<Rightarrow> False)
     in if get_item h left = None \<and> right_is_null_or_has_left \<or> left_has_other_right_than_self then
          let conflict =
                (case get_item h left of
                   Some l \<Rightarrow> somr_clone (item_right l)
                 | None \<Rightarrow>
                     (case parent_sub this of
                        Some sub \<Rightarrow> (case map_of (yt_map parent) sub of Some i \<Rightarrow> somr_clone i | None \<Rightarrow> SNone)
                      | None \<Rightarrow> somr_clone (yt_start parent)))
          in scan_conflicts (h_next h + 1) h this right conflict left {} {}
        else Ok left))"

definition connect_left :: "somr \<Rightarrow> ytype_ref \<Rightarrow> somr \<Rightarrow> heap \<Rightarrow> (codec_error, somr \<times> heap) result" where
  "connect_left r pr left h =
     rbind (get_item_unchecked h r) (\<lambda>this.
     rbind (unwrap (get_ty h pr)) (\<lambda>parent.
     case get_item h left of
       Some l \<Rightarrow>
         rbind (upd_item left (\<lambda>i. i\<lparr>item_right := somr_clone r\<rparr>) h) (\<lambda>h.
         rbind (upd_item r (\<lambda>i. i\<lparr>item_left := somr_clone left\<rparr>) h) (\<lambda>h.
         Ok (somr_clone (item_right l), h)))
     | None \<Rightarrow>
         rbind (case parent_sub this of
                  Some sub \<Rightarrow>
                    (case map_of (yt_map parent) sub of
                       Some n \<Rightarrow>
                         rbind (unwrap (node_head (h_next h + 2) h (Item (somr_clone n)))) (\<lambda>head.
                         Ok (as_item_option (Some head), h))
                     | None \<Rightarrow> Ok (as_item_option None, h))
                | None \<Rightarrow> Ok (yt_start parent, put_ty pr (parent\<lparr>yt_start := somr_clone r\<rparr>) h)) (\<lambda>(right, h).
         rbind (upd_item r (\<lambda>i. i\<lparr>item_left := SNone\<rparr>) h) (\<lambda>h.
         Ok (right, h)))))"

definition connect_right :: "somr \<Rightarrow> ytype_ref \<Rightarrow> somr \<Rightarrow> store \<Rightarrow> heap \<Rightarrow> (codec_error, store \<times> heap) result" where
  "connect_right r pr right st h =
     rbind (get_item_unchecked h r) (\<lambda>this.
     rbind (unwrap (get_ty h pr)) (\<lambda>parent.
     rbind (case get_item h right of
              Some _ \<Rightarrow> rbind (upd_item right (\<lambda>i. i\<lparr>item_left := somr_clone r\<rparr>) h) (\<lambda>h. Ok (st, h))
            | None \<Rightarrow>
                (case parent_sub this of
                   Some sub \<Rightarrow>
                     let h = put_ty pr (parent\<lparr>yt_map := hm_insert sub (somr_clone r) (yt_map parent)\<rparr>) h
                     in (case get_item h (item_left this) of
                           Some _ \<Rightarrow> store_delete_item (item_left this) (Some pr) st h
                         | None \<Rightarrow> Ok (st, h))
                 | None \<Rightarrow> Ok (st, h))) (\<lambda>(st, h).
     rbind (upd_item r (\<lambda>i. i\<lparr>item_right := somr_clone right\<rparr>) h) (\<lambda>h.
     Ok (st, h)))))"

definition settle :: "somr \<Rightarrow> ytype_ref \<Rightarrow> store \<Rightarrow> heap \<Rightarrow> (codec_error, store \<times> heap) result" where
  "settle r pr st h =
     rbind (get_item_unchecked h r) (\<lambda>this.
     rbind (unwrap (get_ty h pr)) (\<lambda>parent.
     let parent_deleted = (case get_item h (yt_item parent) of Some i \<Rightarrow> is_item_deleted i | None \<Rightarrow> False)
     in if parent_deleted \<or> parent_sub this \<noteq> None \<and> get_item h (item_right this) \<noteq> None then
          delete_node (Item (somr_clone r)) (Some pr) st h
        else if parent_sub this = None then
          rbind (add_u64 (yt_len parent) (item_len this)) (\<lambda>l.
          Ok (st, put_ty pr (parent\<lparr>yt_len := l\<rparr>) h))
        else Ok (st, h)))"

definition insert_item :: "somr \<Rightarrow> ytype_ref \<Rightarrow> store \<Rightarrow> heap \<Rightarrow> (codec_error, store \<times> heap) result" where
  "insert_item r pr st h =
     rbind (find_left r pr h) (\<lambda>left.
     rbind (connect_left r pr left h) (\<lambda>(right, h).
     rbind (connect_right r pr right st h) (\<lambda>(st, h).
     settle r pr st h)))"

definition integrate :: "node \<Rightarrow> u64 \<Rightarrow> ytype_ref option \<Rightarrow> store \<Rightarrow> heap \<Rightarrow> (codec_error, store \<times> heap) result" where
  "integrate n offset parent st h =
     (case n of
        Item r \<Rightarrow>
          rbind (debug_assert (somr_is_owned r)) (\<lambda>_.
          rbind (cut_item r offset st h) (\<lambda>(st, h).
          rbind (get_item_unchecked h r) (\<lambda>this.
          case item_parent this of
            Some (ParentType ty) \<Rightarrow>
              (case (case parent of Some p \<Rightarrow> Some p | None \<Rightarrow> if get_ty h ty \<noteq> None then Some ty else None) of
                 Some pr \<Rightarrow>
                   rbind (insert_item r pr st h) (\<lambda>(st, h).
                   rbind (add_node h (Item r) st) (\<lambda>st. Ok (st, h)))
               | None \<Rightarrow> Ok (st, drop_item r h))
          | _ \<Rightarrow>
              (let h = drop_item r h
               in rbind (add_node h (new_gc (item_id this) (item_len this)) st) (\<lambda>st. Ok (st, h))))))
      | GC l \<Rightarrow>
          rbind (if offset = 0 then Ok l
                 else
                   rbind (add_u64 (id_clock (nl_id l)) offset) (\<lambda>clock.
                   rbind (sub_u64 (nl_len l) offset) (\<lambda>len.
                   Ok \<lparr>nl_id = new_id (id_client (nl_id l)) clock, nl_len = len\<rparr>))) (\<lambda>l.
          rbind (add_node h (GC l) st) (\<lambda>st. Ok (st, h)))
      | Skip l \<Rightarrow> rbind (add_node h (Skip l) st) (\<lambda>st. Ok (st, h)))"

end
