(* ===== verification/Store_Sync.thy ===== *)
theory Store_Sync
  imports Store_Integrate
begin

text \<open>
  The document store, \<open>libs/jwst-codec/src/doc/store.rs\<close>, third part: deleting ranges of clocks, the
  difference to a remote state, garbage collection and merging of neighbours.
\<close>

section \<open>Deleting a range\<close>

text \<open>
  The loop of \<open>delete_range\<close>: it leaves at the first node from \<open>range.end\<close> on.  A split makes the list
  one longer, but the node behind it ends the loop.
\<close>

fun delete_range_loop ::
    "nat \<Rightarrow> clock \<Rightarrow> node list \<Rightarrow> nat \<Rightarrow> pending_deletes \<Rightarrow> heap \<Rightarrow> (codec_error, node list \<times> pending_deletes \<times> heap) result"
where
  "delete_range_loop 0 e items idx pending h = Panic"
| "delete_range_loop (Suc fuel) e items idx pending h =
     (if idx < length items then
        let node = clone_node (items ! idx)
        in rbind (node_clock h node) (\<lambda>clock.
           if clock < e then
             rbind (node_deleted h node) (\<lambda>deleted.
             rbind (if \<not> deleted \<and> get_item h (as_item node) \<noteq> None then
                      rbind (node_length h node) (\<lambda>len.
                      rbind (add_u64 clock len) (\<lambda>node_end.
                      rbind (if e < node_end then
                               rbind (sub_u64 e clock) (\<lambda>diff.
                               rbind (split_node_at items idx diff h) (\<lambda>(_, items, h). Ok (items, h)))
                             else Ok (items, h)) (\<lambda>(items, h).
                      rbind (delete_item_inner (delete_fuel h) pending (as_item node) None h) (\<lambda>(pending, h).
                      Ok (items, pending, h)))))
                    else Ok (items, pending, h)) (\<lambda>(items, pending, h).
             delete_range_loop fuel e items (idx + 1) pending h))
           else Ok (items, pending, h))
      else Ok (items, pending, h))"

definition split_start :: "node list \<Rightarrow> nat \<Rightarrow> clock \<Rightarrow> heap \<Rightarrow> (codec_error, node list \<times> nat \<times> heap) result" where
  "split_start items idx start h =
     rbind (index_node items idx) (\<lambda>node.
     rbind (node_clock h node) (\<lambda>clock.
     rbind (node_deleted h node) (\<lambda>deleted.
     if \<not> deleted \<and> clock < start then
       rbind (sub_u64 start clock) (\<lambda>diff.
       rbind (split_node_at items idx diff h) (\<lambda>(_, items, h). Ok (items, idx + 1, h)))
     else Ok (items, idx, h))))"

definition delete_range :: "client \<Rightarrow> range \<Rightarrow> store \<Rightarrow> heap \<Rightarrow> (codec_error, store \<times> heap) result" where
  "delete_range client r st h =
     (case map_of (st_items st) client of
        None \<Rightarrow> Ok (st, h)
      | Some items \<Rightarrow>
          rbind (get_node_index h items (r_start r)) (\<lambda>index.
          case index of
            None \<Rightarrow> Ok (st, h)
          | Some idx \<Rightarrow>
              rbind (split_start items idx (r_start r) h) (\<lambda>(items, idx, h).
              rbind (delete_range_loop (length items + 2) (r_end r) items idx [] h) (\<lambda>(items, pending, h).
              Ok ((set_items client items st)\<lparr>st_delete_set := add_pending_deletes pending (st_delete_set st)\<rparr>, h)))))"

section \<open>Difference to a remote state\<close>

definition diff_state_vectors :: "state_vector \<Rightarrow> state_vector \<Rightarrow> (client \<times> clock) list" where
  "diff_state_vectors local_state_vector remote_state_vector =
     filter (\<lambda>(client, remote_clock). sv_get local_state_vector client > remote_clock) remote_state_vector
     @ map (\<lambda>(client, _). (client, 0)) (filter (\<lambda>(client, _). sv_get remote_state_vector client = 0) local_state_vector)"

definition diff_nodes :: "node list \<Rightarrow> clock \<Rightarrow> heap \<Rightarrow> (codec_error, node list \<times> heap) result" where
  "diff_nodes items clock h =
     rbind (index_node items 0) (\<lambda>front.
     rbind (node_clock h front) (\<lambda>front_clock.
     let clock = max front_clock clock
     in rbind (get_node_index h items clock) (\<lambda>r.
        case r of
          None \<Rightarrow> Ok ([], h)
        | Some index \<Rightarrow>
            rbind (index_node items index) (\<lambda>first_block.
            rbind (node_clock h first_block) (\<lambda>first_clock.
            rbind (sub_u64 first_clock clock) (\<lambda>offset.
            rbind (if offset \<noteq> 0 then
                     rbind (node_split_at h (clone_node first_block) offset) (\<lambda>((left, right), h).
                     Ok (right, (case left of Item l \<Rightarrow> drop_item l h | _ \<Rightarrow> h)))
                   else Ok (clone_node first_block, h)) (\<lambda>(first_block, h).
            Ok (first_block # map clone_node (drop (index + 1) items), h))))))))"

fun diff_clients :: "structs \<Rightarrow> (client \<times> clock) list \<Rightarrow> structs \<Rightarrow> heap \<Rightarrow> (codec_error, structs \<times> heap) result" where
  "diff_clients m [] update_structs h = Ok (update_structs, h)"
| "diff_clients m ((client, clock) # diff) update_structs h =
     (case map_of m client of
        None \<Rightarrow> diff_clients m diff update_structs h
      | Some items \<Rightarrow>
          if items = [] then diff_clients m diff update_structs h
          else
            rbind (diff_nodes items clock h) (\<lambda>(nodes, h).
            diff_clients m diff (hm_insert client nodes update_structs) h))"

definition diff_structs :: "structs \<Rightarrow> state_vector \<Rightarrow> heap \<Rightarrow> (codec_error, structs \<times> heap) result" where
  "diff_structs m sv h =
     rbind (items_as_state_vector h m) (\<lambda>local_state_vector.
     diff_clients m (diff_state_vectors local_state_vector sv) [] h)"

fun add_deleted :: "heap \<Rightarrow> client \<Rightarrow> node list \<Rightarrow> delete_set \<Rightarrow> (codec_error, delete_set) result" where
  "add_deleted h client [] ds = Ok ds"
| "add_deleted h client (n # nodes) ds =
     rbind (node_deleted h n) (\<lambda>deleted.
     rbind (if deleted
            then rbind (node_clock h n) (\<lambda>clock. rbind (node_length h n) (\<lambda>len. add client clock len ds))
            else Ok ds) (\<lambda>ds.
     add_deleted h client nodes ds))"

fun deleted_ranges :: "heap \<Rightarrow> structs \<Rightarrow> delete_set \<Rightarrow> (codec_error, delete_set) result" where
  "deleted_ranges h [] ds = Ok ds"
| "deleted_ranges h ((client, nodes) # refs) ds =
     rbind (add_deleted h client nodes ds) (\<lambda>ds. deleted_ranges h refs ds)"

definition generate_delete_set :: "heap \<Rightarrow> structs \<Rightarrow> (codec_error, delete_set) result" where
  "generate_delete_set h refs = deleted_ranges h refs []"

definition diff_state_vector :: "state_vector \<Rightarrow> bool \<Rightarrow> store \<Rightarrow> heap \<Rightarrow> (codec_error, update \<times> heap) result" where
  "diff_state_vector sv with_pending st h =
     rbind (diff_structs (st_items st) sv h) (\<lambda>(update_structs, h).
     rbind (generate_delete_set h (st_items st)) (\<lambda>delete_set.
     let update = default_update\<lparr>u_structs := update_structs, u_delete_set := delete_set\<rparr>
     in case (if with_pending then st_pending st else None) of
          Some pending \<Rightarrow> rbind (merge_into h update [pending]) (\<lambda>update. Ok (update, h))
        | None \<Rightarrow> Ok (update, h)))"

section \<open>Garbage collection\<close>

text \<open>The items of a collected type stay in the store; the type forgets them.\<close>

definition gc_content :: "content \<Rightarrow> heap \<Rightarrow> heap" where
  "gc_content content h =
     (case content of
        ContentType ty \<Rightarrow>
          (case get_ty h ty of
             Some t \<Rightarrow> put_ty ty (t\<lparr>yt_start := SNone, yt_map := []\<rparr>) h
           | None \<Rightarrow> h)
      | _ \<Rightarrow> h)"

definition gc_item :: "node list \<Rightarrow> nat \<Rightarrow> bool \<Rightarrow> heap \<Rightarrow> (codec_error, node list \<times> heap) result" where
  "gc_item items idx replace h =
     rbind (index_node items idx) (\<lambda>n.
     case n of
       Item item_ref \<Rightarrow>
         rbind (get_item_unchecked h item_ref) (\<lambda>item.
         if \<not> replace \<and> \<not> is_item_deleted item then Err Unexpected
         else
           let h = gc_content (item_content item) h
           in if replace then Ok (items[idx := new_gc (item_id item) (item_len item)], drop_item item_ref h)
              else
                let flags = flag_clear_countable (item_flags item)
                in rbind (debug_assert (\<not> flag_countable flags)) (\<lambda>_.
                   Ok (items, put_item item_ref
                                (item\<lparr>item_content := ContentDeleted (item_len item), item_flags := flags\<rparr>) h)))
     | _ \<Rightarrow> Ok (items, h))"

definition parent_gced :: "heap \<Rightarrow> item \<Rightarrow> bool" where
  "parent_gced h item =
     (case item_parent item of
        Some (ParentType ty) \<Rightarrow>
          (case get_ty h ty of
             Some t \<Rightarrow>
               get_item h (yt_start t) = None \<and> yt_map t = []
               \<or> (case get_item h (yt_item t) of Some i \<Rightarrow> is_item_deleted i | None \<Rightarrow> False)
           | None \<Rightarrow> False)
      | _ \<Rightarrow> False)"

text \<open>The loop from \<open>idx\<close> to the end of the list; the number is that of the nodes left.\<close>

fun gc_loop :: "nat \<Rightarrow> clock \<Rightarrow> node list \<Rightarrow> heap \<Rightarrow> (codec_error, node list \<times> heap) result" where
  "gc_loop 0 e items h = Ok (items, h)"
| "gc_loop (Suc n) e items h =
     (let idx = length items - Suc n
      in rbind (index_node items idx) (\<lambda>node.
         case node of
           Item r \<Rightarrow>
             rbind (get_item_unchecked h r) (\<lambda>item.
             if e \<le> id_clock (item_id item) then Ok (items, h)
             else if \<not> is_item_keep item then
               rbind (gc_item items idx (parent_gced h item) h) (\<lambda>(items, h). gc_loop n e items h)
             else gc_loop n e items h)
         | _ \<Rightarrow> gc_loop n e items h))"

fun gc_ranges :: "range list \<Rightarrow> node list \<Rightarrow> heap \<Rightarrow> (codec_error, node list \<times> heap) result" where
  "gc_ranges [] items h = Ok (items, h)"
| "gc_ranges (r # deletes) items h =
     rbind (get_node_index h items (r_start r)) (\<lambda>index.
     rbind (case index of
              None \<Rightarrow> Ok (items, h)
            | Some idx \<Rightarrow> gc_loop (length items - idx) (r_end r) items h) (\<lambda>(items, h).
     gc_ranges deletes items h))"

fun gc_clients :: "delete_set \<Rightarrow> store \<Rightarrow> heap \<Rightarrow> (codec_error, store \<times> heap) result" where
  "gc_clients [] st h = Ok (st, h)"
| "gc_clients ((client, deletes) # delete_set) st h =
     (case order_range_iter deletes of
        [] \<Rightarrow> gc_clients delete_set st h
      | ranges \<Rightarrow>
          rbind (unwrap (map_of (st_items st) client)) (\<lambda>items.
          rbind (gc_ranges ranges items h) (\<lambda>(items, h).
          gc_clients delete_set (set_items client items st) h)))"

definition gc_delete_set :: "store \<Rightarrow> heap \<Rightarrow> (codec_error, store \<times> heap) result" where
  "gc_delete_set st h = gc_clients (st_delete_set st) st h"

section \<open>Merging neighbours\<close>

text \<open>The node at a position is merged into the ones left of it as long as that works.\<close>

fun merge_leftwards :: "nat \<Rightarrow> node list \<Rightarrow> heap \<Rightarrow> (codec_error, nat \<times> node list \<times> heap) result" where
  "merge_leftwards 0 nodes h = Ok (0, nodes, h)"
| "merge_leftwards (Suc pos) nodes h =
     rbind (index_node nodes (Suc pos)) (\<lambda>right.
     rbind (index_node nodes pos) (\<lambda>left.
     rbind (node_merge h left (clone_node right)) (\<lambda>(left, merged, h).
     if merged then merge_leftwards pos (nodes[pos := left]) h
     else Ok (Suc pos, nodes[pos := left], h))))"

definition drop_node :: "node \<Rightarrow> heap \<Rightarrow> heap" where
  "drop_node n h = (case n of Item r \<Rightarrow> drop_item r h | _ \<Rightarrow> h)"

definition merge_with_lefts :: "node list \<Rightarrow> nat \<Rightarrow> heap \<Rightarrow> (codec_error, nat \<times> node list \<times> heap) result" where
  "merge_with_lefts nodes idx h =
     rbind (merge_leftwards idx nodes h) (\<lambda>(pos, nodes, h).
     Ok (idx - pos,
         take (pos + 1) nodes @ drop (idx + 1) nodes,
         fold drop_node (take (idx - pos) (drop (pos + 1) nodes)) h))"

function make_loop :: "nat \<Rightarrow> nat \<Rightarrow> node list \<Rightarrow> heap \<Rightarrow> (codec_error, node list \<times> heap) result" where
  "make_loop first_change idx nodes h =
     (if 0 < idx \<and> first_change \<le> idx then
        rbind (merge_with_lefts nodes idx h) (\<lambda>(merged, nodes, h).
        make_loop first_change (idx - (merged + 1)) nodes h)
      else Ok (nodes, h))"
  by pat_completeness auto
termination
  by (relation "measure (\<lambda>(first_change, idx, nodes, h). idx)") auto

declare make_loop.simps [simp del]

fun make_clients :: "state_vector \<Rightarrow> store \<Rightarrow> heap \<Rightarrow> (codec_error, store \<times> heap) result" where
  "make_clients [] st h = Ok (st, h)"
| "make_clients ((client, clock) # state) st h =
     (let before_state = sv_get (st_last_optimized_state st) client
      in if before_state = clock then make_clients state st h
         else
           rbind (unwrap (map_of (st_items st) client)) (\<lambda>nodes.
           rbind (get_node_index h nodes before_state) (\<lambda>index.
           let first_change = max (case index of Some i \<Rightarrow> i | None \<Rightarrow> 1) 1
           in rbind (if nodes = [] then Panic else Ok (length nodes - 1)) (\<lambda>idx.
              rbind (make_loop first_change idx nodes h) (\<lambda>(nodes, h).
              make_clients state (set_items client nodes st) h)))))"

definition make_continuous :: "store \<Rightarrow> heap \<Rightarrow> (codec_error, store \<times> heap) result" where
  "make_continuous st h =
     rbind (get_state_vector h st) (\<lambda>state.
     rbind (make_clients state st h) (\<lambda>(st, h).
     Ok (st\<lparr>st_last_optimized_state := state\<rparr>, h)))"

definition optimize :: "store \<Rightarrow> heap \<Rightarrow> (codec_error, store \<times> heap) result" where
  "optimize st h = rbind (gc_delete_set st h) (\<lambda>(st, h). make_continuous st h)"

end
