(* ===== verification/Store_Split.thy ===== *)
theory Store_Split
  imports Store_Lookup Store_Sync Item_Laws
begin

text \<open>
  The laws of the heap of items, and what splitting a node does to the nodes of its client and to
  the links of its neighbours.
\<close>

section \<open>Heap laws\<close>

named_theorems heap_simps \<open>reading and writing cells\<close>

lemma get_item_cell [heap_simps]:
  "get_item h (SOwned a) = h_items h a" "get_item h (SRef a) = h_items h a" "get_item h SNone = None"
  "get_item h (somr_clone r) = get_item h r"
  by (cases r; simp add: get_item_def somr_lookup_def)+

lemma get_item_unchecked_Some [simp]: "get_item h r = Some i \<Longrightarrow> get_item_unchecked h r = Ok i"
  by (simp add: get_item_unchecked_def)

lemma put_item_cell [heap_simps]:
  "put_item (SOwned a) i h = h\<lparr>h_items := (h_items h)(a \<mapsto> i)\<rparr>"
  "put_item (SRef a) i h = h\<lparr>h_items := (h_items h)(a \<mapsto> i)\<rparr>"
  "put_item (somr_clone r) i h = put_item r i h"
  by (cases r; simp add: put_item_def)+

lemma h_put_item [simp]:
  "h_types (put_item r i h) = h_types h" "h_next (put_item r i h) = h_next h"
  by (simp_all add: put_item_def split: option.splits)

lemma get_ty_put_item [simp]: "get_ty (put_item r i h) ty = get_ty h ty"
  by (simp add: get_ty_def)


lemma h_next_put_ty [simp]: "h_next (put_ty p ty h) = h_next h"
  by (simp add: put_ty_def split: option.splits)

lemma get_item_ptr: "somr_ptr r = Some a \<Longrightarrow> get_item h r = h_items h a"
  by (simp add: get_item_def somr_lookup_def)

lemma get_item_ptrE:
  assumes "get_item h r = Some i"
  obtains a where "somr_ptr r = Some a" "h_items h a = Some i"
  using assms by (auto simp: get_item_def somr_lookup_def split: option.splits)

lemma put_item_ptr: "somr_ptr r = Some a \<Longrightarrow> put_item r i h = h\<lparr>h_items := (h_items h)(a \<mapsto> i)\<rparr>"
  by (simp add: put_item_def)

lemma somr_ptr_clone [simp]: "somr_ptr (somr_clone r) = somr_ptr r"
  by (cases r) auto

lemma somr_clone_eq: "somr_ptr r = Some a \<Longrightarrow> somr_clone r = SRef a"
  by (cases r) auto

lemma clone_node_facts [simp]:
  "node_id h (clone_node n) = node_id h n" "node_length h (clone_node n) = node_length h n"
  "is_item (clone_node n) = is_item n" "is_gc (clone_node n) = is_gc n"
  by (cases n; simp add: get_item_unchecked_def heap_simps)+

lemma clone_node_clock [simp]: "node_clock h (clone_node n) = node_clock h n"
  by (simp add: node_clock_def)

lemma upd_item_ok:
  assumes "somr_ptr r = Some a" "h_items h a = Some i"
  shows "upd_item r f h = Ok (h\<lparr>h_items := (h_items h)(a \<mapsto> f i)\<rparr>)"
  using assms by (simp add: upd_item_def get_item_ptr put_item_ptr)

section \<open>Spans\<close>

text \<open>What a run depends on: the id and the length of its nodes.\<close>

definition same_span :: "heap \<Rightarrow> heap \<Rightarrow> node \<Rightarrow> bool" where
  "same_span h h' n \<longleftrightarrow>
     (node_id h' n :: id codec_result) = node_id h n \<and> (node_length h' n :: u64 codec_result) = node_length h n"

lemma same_span_facts:
  assumes "same_span h h' n"
  shows "node_fits h' client n = node_fits h client n" "clock_of h' n = clock_of h n" "end_of h' n = end_of h n"
  using assms by (simp_all add: same_span_def node_fits_def clock_of_def end_of_def node_clock_def)

lemma same_span_run:
  assumes "\<forall>n \<in> set ns. same_span h h' n"
  shows "run h' client c ns = run h client c ns" "run_end h' c ns = run_end h c ns"
  using assms by (induction ns arbitrary: c) (auto simp: same_span_facts)

text \<open>Two positions of a run never hold the same cell.\<close>

lemma run_cells_distinct:
  assumes "run h client c ns" "i < length ns" "j < length ns" "ns ! i = Item r" "ns ! j = Item s"
    "somr_ptr r = somr_ptr s"
  shows "i = j"
proof -
  have "clock_of h (ns ! i) = clock_of h (ns ! j)"
    using assms(4-6) by (simp add: clock_of_def node_clock_def get_item_unchecked_def get_item_def somr_lookup_def)
  moreover have "clock_of h (ns ! a) < clock_of h (ns ! b)" if "a < b" "b < length ns" for a b
    using run_end_take_mono [OF assms(1), of "Suc a" b] run_at [OF assms(1), of a] run_at [OF assms(1), of b] that
      node_fits_span [OF run_at(1) [OF assms(1), of a]] by simp
  ultimately show ?thesis using assms(2,3) by (metis less_irrefl linorder_neqE_nat)
qed

section \<open>Splitting a node\<close>

text \<open>The heap after the split of the item of cell \<open>a\<close>; the new item gets the cell \<open>b\<close>.\<close>

definition split_left :: "item \<Rightarrow> content \<Rightarrow> nat \<Rightarrow> item" where
  "split_left i lc b = i\<lparr>item_content := lc, item_right := SRef b\<rparr>"

definition split_right :: "heap \<Rightarrow> item \<Rightarrow> nat \<Rightarrow> u64 \<Rightarrow> content \<Rightarrow> item" where
  "split_right h i a d rc =
     \<lparr>item_id = new_id (id_client (item_id i)) (id_clock (item_id i) + d),
      origin_left_id = Some (new_id (id_client (item_id i)) (id_clock (item_id i) + d - 1)),
      origin_right_id = origin_right_id i,
      item_left = (case get_item h (item_right i) of Some n \<Rightarrow> item_left n | None \<Rightarrow> SRef a),
      item_right = item_right i, item_parent = map_option clone_parent (item_parent i), parent_sub = parent_sub i,
      item_content = rc, item_flags = (if content_countable rc then item_countable else 0)\<rparr>"

definition split_heap :: "heap \<Rightarrow> item \<Rightarrow> nat \<Rightarrow> nat \<Rightarrow> u64 \<Rightarrow> content \<Rightarrow> content \<Rightarrow> heap" where
  "split_heap h i a b d lc rc =
     h\<lparr>h_items := ((case somr_ptr (item_right i) of
                      Some n \<Rightarrow> (h_items h)(n := map_option (\<lambda>x. x\<lparr>item_left := SRef b\<rparr>) (h_items h n))
                    | None \<Rightarrow> h_items h)(a \<mapsto> split_left i lc b, b \<mapsto> split_right h i a d rc)),
       h_next := h_next h + 2\<rparr>"

definition fresh :: "heap \<Rightarrow> bool" where
  "fresh h \<longleftrightarrow> (\<forall>a. h_next h \<le> a \<longrightarrow> h_items h a = None)"

lemma fresh_less: "fresh h \<Longrightarrow> h_items h a = Some i \<Longrightarrow> a < h_next h"
  by (metis fresh_def not_le_imp_less option.distinct(1))

lemma last_id_ok:
  assumes "0 < item_len i" "unat (id_clock (item_id i)) + unat (item_len i) < 2 ^ 64"
  shows "last_id i = Ok (new_id (id_client (item_id i)) (id_clock (item_id i) + item_len i - 1))"
proof -
  have "1 \<le> id_clock (item_id i) + item_len i"
    using assms by (simp add: word_le_nat_alt word_less_nat_alt unat_plus_u64)
  then show ?thesis using assms(2) by (simp add: last_id_def add_u64_def sub_u64_def)
qed

text \<open>
  The links: the new right item takes over the left pointer of the item behind and points to it; the
  left item and the item behind point to the new one.
\<close>

lemma link_right_ok:
  assumes "somr_ptr r = Some a" "somr_ptr s = Some b" "a \<noteq> b"
    and "h_items h a = Some i" "h_items h b = Some j" "last_id i = (Ok lid :: _ codec_result)"
    and "somr_ptr (item_right i) \<noteq> Some a" "somr_ptr (item_right i) \<noteq> Some b"
  shows "link_right r s h = Ok (h\<lparr>h_items :=
    (case somr_ptr (item_right i) of
       Some n \<Rightarrow> (h_items h)(n := map_option (\<lambda>x. x\<lparr>item_left := SRef b\<rparr>) (h_items h n))
     | None \<Rightarrow> h_items h)
    (b \<mapsto> j\<lparr>item_left := (case get_item h (item_right i) of Some n \<Rightarrow> item_left n | None \<Rightarrow> SRef a),
            item_right := item_right i, origin_left_id := Some lid, origin_right_id := origin_right_id i\<rparr>,
     a \<mapsto> i\<lparr>item_right := SRef b\<rparr>)\<rparr>)"
proof -
  have clones: "somr_clone r = SRef a" "somr_clone s = SRef b" using assms(1,2) by (simp_all add: somr_clone_eq)
  have lid: "last_id (i\<lparr>item_right := x\<rparr>) = (Ok lid :: _ codec_result)" for x
    using assms(6) by (simp add: last_id_def item_len_def)
  show ?thesis
  proof (cases "get_item h (item_right i)")
    case None
    have "(case somr_ptr (item_right i) of
       Some n \<Rightarrow> (h_items h)(n := map_option (\<lambda>x. x\<lparr>item_left := SRef b\<rparr>) (h_items h n))
     | None \<Rightarrow> h_items h) = h_items h"
      using None by (auto simp: get_item_def somr_lookup_def split: option.splits)
    with None assms clones lid show ?thesis
      by (simp add: link_right_def get_item_ptr upd_item_ok fun_upd_twist)
  next
    case (Some n)
    obtain k where k: "somr_ptr (item_right i) = Some k" "h_items h k = Some n" using Some by (rule get_item_ptrE)
    have "k \<noteq> a" "k \<noteq> b" using k(1) assms(7,8) by auto
    with Some assms clones lid k show ?thesis
      by (simp add: link_right_def get_item_ptr put_item_ptr upd_item_ok fun_upd_twist)
  qed
qed

lemma content_split_kinds:
  assumes "content_split c d = Ok (lc, rc)"
  shows "clone_content lc = lc" "\<nexists>ty. lc = ContentType ty"
    "content_countable lc = content_countable c" "content_countable rc = content_countable c"
  using assms by (cases c; auto simp: outcome_simps slice_split_at_def split: prod.splits if_splits)+

lemma split_node_at_heap:
  assumes "i < length ns" "ns ! i = Item r" "somr_ptr r = Some a" "h_items h a = Some it" "fresh h"
    and "content_split (item_content it) d = Ok (lc, rc)" "clock_len lc = d"
    and "0 < d" "d < item_len it" "unat (id_clock (item_id it)) + unat (item_len it) < 2 ^ 64"
    and "somr_ptr (item_right it) \<noteq> Some a" "\<forall>n. somr_ptr (item_right it) = Some n \<longrightarrow> n < h_next h"
  shows "split_node_at ns i d h =
    Ok ((Item (SRef a), Item (SRef (h_next h + 1))), take (i + 1) ns @ Item (SOwned (h_next h + 1)) # drop (i + 1) ns,
        split_heap h it a (h_next h + 1) d lc rc)"
proof -
  let ?p = "map_option clone_parent (item_parent it)"
  let ?b = "h_next h + 1"
  have a: "a < h_next h" using assms(4,5) by (simp add: fresh_less)
  have d: "unat d < unat (item_len it)" "1 < item_len it" using assms(8,9) by (simp_all add: word_less_nat_alt)
  have add: "add_u64 (id_clock (item_id it)) d = (Ok (id_clock (item_id it) + d) :: _ codec_result)"
    using d(1) assms(10) by (simp add: add_u64_def)
  note kinds = content_split_kinds [OF assms(6)]
  define l where "l = \<lparr>item_id = item_id it, origin_left_id = None, origin_right_id = None, item_left = SNone, item_right = SNone,
         item_parent = ?p, parent_sub = parent_sub it, item_content = lc,
         item_flags = (if content_countable lc then item_countable else 0)\<rparr>"
  define j where "j = \<lparr>item_id = new_id (id_client (item_id it)) (id_clock (item_id it) + d), origin_left_id = None,
         origin_right_id = None, item_left = SNone, item_right = SNone, item_parent = ?p, parent_sub = parent_sub it,
         item_content = rc, item_flags = (if content_countable rc then item_countable else 0)\<rparr>"
  have sp: "item_split_at h it d = Ok (l, j)"
    using assms(6,8,9) d(2) add
    by (simp add: item_split_at_def new_item_unlinked fresh_flags l_def j_def is_item_deleted_def is_item_keep_def Let_def)
  define h1 where "h1 = h\<lparr>h_next := ?b + 1, h_items := (h_items h)(h_next h \<mapsto> l, ?b \<mapsto> j, a \<mapsto> it\<lparr>item_content := lc\<rparr>)\<rparr>"
  have lc: "item_content l = lc" by (simp add: l_def)
  have len: "item_len (it\<lparr>item_content := lc\<rparr>) = d" using assms(7) by (simp add: item_len_def)
  have lid: "last_id (it\<lparr>item_content := lc\<rparr>)
      = (Ok (new_id (id_client (item_id it)) (id_clock (item_id it) + d - 1)) :: _ codec_result)"
    using last_id_ok [of "it\<lparr>item_content := lc\<rparr>"] assms(8,10) d(1) len by simp
  have node: "clone_node (ns ! i) = Item (SRef a)" using assms(2,3) by (simp add: somr_clone_eq)
  have steps: "split_node_at ns i d h =
      rbind (link_right (SRef a) (SOwned ?b) h1) (\<lambda>h. Ok ((Item (SRef a), Item (SRef ?b)),
        take (i + 1) ns @ Item (SOwned ?b) # drop (i + 1) ns, drop_item (SOwned (h_next h1 - 2)) h))"
    using assms(1,4,8) a node sp kinds(1) lc
    by (simp add: split_node_at_def index_node_def new_item_ref_def heap_simps upd_item_ok h1_def fun_upd_twist)
  have right: "get_item h1 (item_right it) = get_item h (item_right it)"
    using assms(11,12) by (auto simp: get_item_def somr_lookup_def h1_def split: option.splits)
  have cells: "h_items h1 a = Some (it\<lparr>item_content := lc\<rparr>)" "h_items h1 ?b = Some j" using a by (simp_all add: h1_def)
  have nb: "somr_ptr (item_right it) \<noteq> Some a" "somr_ptr (item_right it) \<noteq> Some ?b" using assms(11,12) by auto
  define M where "M = (case somr_ptr (item_right it) of
       Some n \<Rightarrow> (h_items h1)(n := map_option (\<lambda>x. x\<lparr>item_left := SRef ?b\<rparr>) (h_items h1 n))
     | None \<Rightarrow> h_items h1)
    (?b \<mapsto> split_right h it a d rc, a \<mapsto> split_left it lc ?b)"
  have link: "link_right (SRef a) (SOwned ?b) h1 = Ok (h1\<lparr>h_items := M\<rparr>)"
    using link_right_ok [of "SRef a" a "SOwned ?b" ?b h1 "it\<lparr>item_content := lc\<rparr>" j] a lid cells nb right
    by (simp add: M_def split_left_def split_right_def j_def)
  have L: "h_items h1 (h_next h) = Some l" using a by (simp add: h1_def)
  then have Mx: "M (h_next h) = Some l" using a assms(12) by (auto simp: M_def split: option.splits)
  have drop: "drop_item (SOwned (h_next h)) (h1\<lparr>h_items := M\<rparr>) = h1\<lparr>h_items := M(h_next h := None)\<rparr>"
    using Mx kinds(2) lc by (auto simp: drop_item_def Let_def split: content.splits)
  have "h_items h (h_next h) = None" "h_items h ?b = None" using assms(5) by (simp_all add: fresh_def)
  then have "M(h_next h := None) = h_items (split_heap h it a ?b d lc rc)"
    using a assms(11,12) by (cases "somr_ptr (item_right it)") (auto simp: M_def split_heap_def h1_def fun_eq_iff)
  then have "h1\<lparr>h_items := M(h_next h := None)\<rparr> = split_heap h it a ?b d lc rc"
    by (simp add: split_heap_def h1_def)
  then show ?thesis unfolding steps link using drop by (simp add: h1_def)
qed

lemma split_heap_cells:
  assumes "a \<noteq> b" "somr_ptr (item_right i) \<noteq> Some a" "somr_ptr (item_right i) \<noteq> Some b"
  shows "h_items (split_heap h i a b d lc rc) a = Some (split_left i lc b)"
    "h_items (split_heap h i a b d lc rc) b = Some (split_right h i a d rc)"
    "x \<noteq> a \<Longrightarrow> x \<noteq> b \<Longrightarrow> somr_ptr (item_right i) \<noteq> Some x \<Longrightarrow> h_items (split_heap h i a b d lc rc) x = h_items h x"
    "x \<noteq> a \<Longrightarrow> x \<noteq> b \<Longrightarrow> somr_ptr (item_right i) = Some x \<Longrightarrow>
       h_items (split_heap h i a b d lc rc) x = map_option (\<lambda>y. y\<lparr>item_left := SRef b\<rparr>) (h_items h x)"
  using assms by (auto simp: split_heap_def split: option.splits)

lemma item_node_facts:
  assumes "somr_ptr r = Some a" "h_items h a = Some i"
  shows "node_id h (Item r) = Ok (item_id i)" "node_length h (Item r) = Ok (item_len i)"
    "clock_of h (Item r) = unat (id_clock (item_id i))"
    "end_of h (Item r) = unat (id_clock (item_id i)) + unat (item_len i)"
    "node_fits h client (Item r) \<longleftrightarrow> id_client (item_id i) = client \<and> 0 < item_len i
       \<and> unat (id_clock (item_id i)) + unat (item_len i) < 2 ^ 64"
  using assms
  by (simp_all add: get_item_unchecked_def get_item_ptr clock_of_def end_of_def node_clock_def node_fits_def)

lemma node_fits_item:
  assumes "node_fits h client (Item s)"
  obtains k x where "somr_ptr s = Some k" "h_items h k = Some x"
  using assms
  by (auto simp: node_fits_def get_item_unchecked_def unwrap_def elim!: get_item_ptrE split: option.splits result.splits)

lemma node_span_cell:
  assumes "somr_ptr r = Some a"
    "map_option (\<lambda>i. (item_id i, item_len i)) (h_items h' a) = map_option (\<lambda>i. (item_id i, item_len i)) (h_items h a)"
  shows "same_span h h' (Item r)"
  using assms
  by (cases "h_items h a"; cases "h_items h' a") (simp_all add: same_span_def get_item_unchecked_def get_item_ptr unwrap_def)

text \<open>A node of a run is replaced by two nodes that share its span.\<close>

lemma run_replace_split:
  assumes "run h client c (as @ x # cs)" "\<forall>n \<in> set as. same_span h h' n" "\<forall>n \<in> set cs. same_span h h' n"
    and "node_fits h' client y" "clock_of h' y = clock_of h x"
    and "node_fits h' client z" "clock_of h' z = end_of h' y" "end_of h' z = end_of h x"
  shows "run h' client c (as @ y # z # cs)" "run_end h' c (as @ y # z # cs) = run_end h c (as @ x # cs)"
  using assms by (auto simp: run_append run_end_append same_span_run [OF assms(2)] same_span_run [OF assms(3)])

lemma split_heap_other:
  assumes "run h client c ns" "i < length ns" "ns ! i = Item r" "somr_ptr r = Some a" "fresh h"
    and "\<And>k. k \<noteq> a \<Longrightarrow> k \<noteq> h_next h + 1 \<Longrightarrow> map_option (\<lambda>i. (item_id i, item_len i)) (h_items h' k)
           = map_option (\<lambda>i. (item_id i, item_len i)) (h_items h k)"
    and "j < length ns" "j \<noteq> i"
  shows "same_span h h' (ns ! j)"
proof (cases "ns ! j")
  case (Item s)
  have "node_fits h client (Item s)" using run_at(1) [OF assms(1,7)] Item by simp
  then obtain k x where k: "somr_ptr s = Some k" "h_items h k = Some x" by (rule node_fits_item)
  have "k \<noteq> a" using run_cells_distinct [OF assms(1,7,2) Item assms(3)] assms(8) k(1) assms(4) by auto
  moreover have "k \<noteq> h_next h + 1" using k(2) assms(5) by (auto dest: fresh_less)
  ultimately show ?thesis using node_span_cell [OF k(1) assms(6)] Item by simp
qed (simp_all add: same_span_def)

lemma split_node_at_run:
  assumes "run h client c ns" "i < length ns" "ns ! i = Item r" "somr_ptr r = Some a" "h_items h a = Some it" "fresh h"
    and "content_ok (item_content it)" "splittable (item_content it) \<or> is_deleted_content (item_content it)"
    and "0 < d" "d < item_len it" "split_boundary (item_content it) d"
    and "somr_ptr (item_right it) \<noteq> Some a" "\<forall>n. somr_ptr (item_right it) = Some n \<longrightarrow> n < h_next h"
  obtains lc rc r' where
    "split_node_at ns i d h = Ok ((Item (SRef a), Item (SRef (h_next h + 1))),
       take (i + 1) ns @ Item (SOwned (h_next h + 1)) # drop (i + 1) ns, split_heap h it a (h_next h + 1) d lc rc)"
    "content_split (item_content it) d = Ok (lc, rc)"
    "content_merge lc rc = (Ok (Some (item_content it, r')) :: _ codec_result)"
    "unat (clock_len lc) = unat d" "unat (clock_len lc) + unat (clock_len rc) = unat (item_len it)"
    "run (split_heap h it a (h_next h + 1) d lc rc) client c (take (i + 1) ns @ Item (SOwned (h_next h + 1)) # drop (i + 1) ns)"
    "run_end (split_heap h it a (h_next h + 1) d lc rc) c (take (i + 1) ns @ Item (SOwned (h_next h + 1)) # drop (i + 1) ns)
      = run_end h c ns"
    "clock_of (split_heap h it a (h_next h + 1) d lc rc) ((take (i + 1) ns @ Item (SOwned (h_next h + 1)) # drop (i + 1) ns) ! (i + 1))
      = clock_of h (ns ! i) + unat d"
    "fresh (split_heap h it a (h_next h + 1) d lc rc)"
    "\<And>x. x \<noteq> a \<Longrightarrow> x \<noteq> h_next h + 1 \<Longrightarrow> somr_ptr (item_right it) \<noteq> Some x \<Longrightarrow>
       h_items (split_heap h it a (h_next h + 1) d lc rc) x = h_items h x"
proof -
  let ?b = "h_next h + 1"
  have dl: "d \<le> clock_len (item_content it)" using assms(10) by (simp add: item_len_def)
  obtain lc rc r' where parts: "content_split (item_content it) d = Ok (lc, rc)"
    "content_merge lc rc = (Ok (Some (item_content it, r')) :: _ codec_result)"
    "unat (clock_len lc) = unat d" "unat (clock_len lc) + unat (clock_len rc) = unat (item_len it)"
    using content_split_merge [OF assms(7,8,9) dl] assms(11) by (metis item_len_def)
  have fit: "node_fits h client (Item r)" using run_at(1) [OF assms(1,2)] assms(3) by simp
  note facts = item_node_facts [OF assms(4,5)]
  have bound: "id_client (item_id it) = client" "unat (id_clock (item_id it)) + unat (item_len it) < 2 ^ 64"
    using fit facts(5) by simp_all
  have ll: "clock_len lc = d" using parts(3) by (simp add: word_unat_eq_iff)
  let ?h = "split_heap h it a ?b d lc rc" and ?ns = "take (i + 1) ns @ Item (SOwned ?b) # drop (i + 1) ns"
  have split: "split_node_at ns i d h = Ok ((Item (SRef a), Item (SRef ?b)), ?ns, ?h)"
    using split_node_at_heap [OF assms(2-6) parts(1) ll assms(9,10) bound(2) assms(12,13)] .
  have a: "a < h_next h" using assms(5,6) by (simp add: fresh_less)
  have nb: "a \<noteq> ?b" "somr_ptr (item_right it) \<noteq> Some ?b" using a assms(13) by auto
  note cells = split_heap_cells [OF nb(1) assms(12) nb(2), where h = h and d = d and lc = lc and rc = rc]
  have lens: "unat d < unat (item_len it)" "unat (clock_len rc) = unat (item_len it) - unat d"
    using assms(10) parts(3,4) by (simp_all add: word_less_nat_alt)
  have clock: "unat (id_clock (item_id it) + d) = unat (id_clock (item_id it)) + unat d"
    using bound(2) lens(1) by (simp add: unat_plus_u64)
  have left: "node_fits ?h client (Item r)" "clock_of ?h (Item r) = unat (id_clock (item_id it))"
    "end_of ?h (Item r) = unat (id_clock (item_id it)) + unat d"
    using item_node_facts [OF assms(4) cells(1)] bound lens(1) assms(9) ll
    by (simp_all add: split_left_def item_len_def)
  have right: "node_fits ?h client (Item (SOwned ?b))"
    "clock_of ?h (Item (SOwned ?b)) = unat (id_clock (item_id it)) + unat d"
    "end_of ?h (Item (SOwned ?b)) = unat (id_clock (item_id it)) + unat (item_len it)"
    using item_node_facts [of "SOwned ?b" ?b ?h, OF _ cells(2)] bound lens clock
    by (simp_all add: split_right_def item_len_def new_id_def word_less_nat_alt)
  have spans: "map_option (\<lambda>i. (item_id i, item_len i)) (h_items ?h k) = map_option (\<lambda>i. (item_id i, item_len i)) (h_items h k)"
    if "k \<noteq> a" "k \<noteq> ?b" for k
    using cells(3,4) [where x = k] that
    by (cases "h_items h k"; cases "somr_ptr (item_right it) = Some k") (simp_all add: item_len_def)
  note other = split_heap_other [OF assms(1-4,6) spans]
  let ?as = "take i ns" and ?cs = "drop (i + 1) ns"
  have same: "\<forall>n \<in> set ?as. same_span h ?h n" "\<forall>n \<in> set ?cs. same_span h ?h n"
    using other assms(2) by (auto simp: in_set_conv_nth)
  have ns: "ns = ?as @ Item r # ?cs" using id_take_nth_drop [OF assms(2)] assms(3) by simp
  have ns': "?ns = ?as @ Item r # Item (SOwned ?b) # ?cs" using assms(2,3) by (simp add: take_Suc_conv_app_nth)
  have "run h client c (?as @ Item r # ?cs)" using assms(1) ns by simp
  note rep = run_replace_split [OF this same left(1) _ right(1)]
  have runs: "run ?h client c ?ns" "run_end ?h c ?ns = run_end h c ns"
    unfolding ns' using rep left right facts(3,4) ns by simp_all
  have clk: "clock_of ?h (?ns ! (i + 1)) = clock_of h (ns ! i) + unat d"
    using right(2) facts(3) assms(2,3) by (simp add: nth_append)
  have fr: "fresh ?h"
    using assms(6,13) a by (auto simp: fresh_def split_heap_def split: option.splits)
  show thesis
    by (rule that [of lc rc r']) (use split parts runs clk fr cells(3) in \<open>simp_all add: item_len_def\<close>)
qed

text \<open>
  C12: Splitting the item at a position of a client's nodes, at an offset inside it that does not cut a
  character in two, puts the rest behind it as a new item: the client still has a run of nodes with
  the same end, the new item starts at the offset, the contents put together are the old content,
  and apart from the links of the item behind no other item changes.
\<close>

theorem split_node_keeps_run:
  assumes "run h client c ns" "i < length ns" "ns ! i = Item r" "somr_ptr r = Some a" "h_items h a = Some it" "fresh h"
    and "content_ok (item_content it)" "splittable (item_content it) \<or> is_deleted_content (item_content it)"
    and "0 < d" "d < item_len it" "split_boundary (item_content it) d"
    and "somr_ptr (item_right it) \<noteq> Some a" "\<forall>n. somr_ptr (item_right it) = Some n \<longrightarrow> n < h_next h"
  shows "\<exists>lc rc r'. let b = h_next h + 1; h' = split_heap h it a b d lc rc;
      ns' = take (i + 1) ns @ Item (SOwned b) # drop (i + 1) ns
    in split_node_at ns i d h = Ok ((Item (SRef a), Item (SRef b)), ns', h')
      \<and> content_merge lc rc = (Ok (Some (item_content it, r')) :: _ codec_result)
      \<and> run h' client c ns' \<and> run_end h' c ns' = run_end h c ns
      \<and> clock_of h' (ns' ! (i + 1)) = clock_of h (ns ! i) + unat d
      \<and> fresh h'
      \<and> (\<forall>x. x \<noteq> a \<and> x \<noteq> b \<and> somr_ptr (item_right it) \<noteq> Some x \<longrightarrow> h_items h' x = h_items h x)"
  by (rule split_node_at_run [OF assms]) (unfold Let_def, intro exI conjI; (assumption | blast))

lemma one_item_heap_cells [simp]:
  "h_items one_item_heap a = (if a = 0 then Some text_item else None)" "h_next one_item_heap = 1"
  by (simp_all add: one_item_heap_def new_item_ref_def empty_heap_def)

lemma split_node_keeps_run_witness:
  "\<exists>h'. split_node_at [Item (SOwned 0)] 0 2 one_item_heap
       = Ok ((Item (SRef 0), Item (SRef 2)), [Item (SOwned 0), Item (SOwned 2)], h')
     \<and> run h' 7 10 [Item (SOwned 0), Item (SOwned 2)] \<and> clock_of h' (Item (SOwned 2)) = 12"
proof -
  have s: "utf8_valid (str_bytes ''abc'')" "utf16_len (str_bytes ''abc'') = 3"
    "utf16_boundary (str_bytes ''abc'') 2"
    by (simp_all add: utf8_valid_def utf16_len_def utf16_boundary_def str_chars_def text_item_chars len_utf16_def widths16_def)
      (rule exI [of _ 2], simp add: numeral_2_eq_2)
  have i: "item_id text_item = new_id 7 10" "item_content text_item = ContentString (str_bytes ''abc'')"
    "item_right text_item = SNone"
    by (simp_all add: text_item_def default_item_def)
  have r: "run one_item_heap 7 10 [Item (SOwned 0)]" "run_end one_item_heap 10 [Item (SOwned 0)] = 13"
    using s i item_node_facts [of "SOwned 0" 0 one_item_heap text_item]
    by (simp_all add: item_len_def new_id_def)
  have "fresh one_item_heap" by (simp add: fresh_def)
  with split_node_keeps_run [of one_item_heap 7 10 "[Item (SOwned 0)]" 0 "SOwned 0" 0 text_item 2] r s i
  show ?thesis using item_node_facts(3) [of "SOwned 0" 0 one_item_heap text_item]
    by (auto simp: item_len_def new_id_def Let_def simp del: One_nat_def)
qed

end
