(* ===== verification/Content_Laws.thy ===== *)
theory Content_Laws
  imports Item_Laws
begin

text \<open>
  More on \<open>Content::split\<close> and the merging of contents (\<open>libs/jwst-codec/src/doc/codec/content.rs\<close>,
  \<open>item.rs\<close>): strings put together, the length of a merged content, and the UTF-16 boundaries of the
  parts of a content.
\<close>

section \<open>Merging contents\<close>

lemma utf8_char_append: "utf8_char l = Some x \<Longrightarrow> utf8_char (l @ r) = Some x"
proof (cases l)
  case b0: (Cons b0 r0)
  assume l: "utf8_char l = Some x"
  show ?thesis
  proof (cases "b0 < 0x80")
    case ge: False
    then obtain b1 r1 where b1: "r0 = b1 # r1" using l b0 by (auto simp: utf8_char_def split: list.splits)
    show ?thesis
    proof (cases "0xC2 \<le> b0 \<and> b0 \<le> 0xDF")
      case ge2: False
      then obtain b2 r2 where b2: "r1 = b2 # r2"
        using l b0 b1 ge by (cases r1) (simp_all add: utf8_char_def del: de_Morgan_conj)
      show ?thesis
      proof (cases "0xE0 \<le> b0 \<and> b0 \<le> 0xEF")
        case ge3: False
        then obtain b3 r3 where b3: "r2 = b3 # r3"
          using l b0 b1 b2 ge ge2 by (cases r2) (simp_all add: utf8_char_def del: de_Morgan_conj)
        then show ?thesis using l b0 b1 b2 ge ge2 ge3 by (simp add: utf8_char_def del: de_Morgan_conj)
      qed (use l b0 b1 b2 ge ge2 in \<open>simp add: utf8_char_def del: de_Morgan_conj\<close>)
    qed (use l b0 b1 ge in \<open>simp add: utf8_char_def\<close>)
  qed (use l b0 in \<open>simp add: utf8_char_def\<close>)
qed (simp add: utf8_char_def)

lemma utf8_chars_append: "utf8_chars l = Some as \<Longrightarrow> utf8_chars r = Some bs \<Longrightarrow> utf8_chars (l @ r) = Some (as @ bs)"
proof (induction as arbitrary: l)
  case Nil
  then show ?case by (auto dest: utf8_chars_Nil)
next
  case (Cons x as)
  note u = utf8_chars_Cons [OF Cons.prems(1)]
  have "utf8_chars (drop (snd x) l @ r) = Some (as @ bs)" using Cons.IH [OF u(3)] Cons.prems(2) by simp
  then show ?case using utf8_char_append [OF u(2), of r] u(1,5)
    by (cases x) (simp add: utf8_chars.simps [of "l @ r"])
qed

lemma utf16_len_append:
  assumes "utf8_valid l" "utf8_valid r"
  shows "utf16_len (l @ r) = utf16_len l + utf16_len r" "utf8_valid (l @ r)"
  using assms utf8_chars_append [of l _ r] by (auto simp: utf8_valid_def utf16_len_def str_chars_def)

lemma content_mergeE:
  assumes "content_merge l r = (Ok (Some (c, d)) :: _ codec_result)"
  obtains (deleted) m n where "l = ContentDeleted m" "r = ContentDeleted n" "add_u64 m n = (Ok (m + n) :: _ codec_result)"
      "c = ContentDeleted (m + n)" "d = ContentDeleted n"
  | (json) xs ys where "l = ContentJson xs" "r = ContentJson ys" "c = ContentJson (xs @ ys)" "d = ContentJson []"
  | (string) s t where "l = ContentString s" "r = ContentString t" "c = ContentString (s @ t)" "d = ContentString t"
  | (any) us vs where "l = ContentAny us" "r = ContentAny vs" "c = ContentAny (us @ vs)" "d = ContentAny []"
proof (cases l)
  case (ContentDeleted m)
  then show thesis using assms that(1) by (cases r) (auto simp: outcome_simps)
next
  case (ContentJson xs)
  then show thesis using assms that(2) by (cases r) auto
next
  case (ContentString s)
  then show thesis using assms that(3) by (cases r) auto
next
  case (ContentAny us)
  then show thesis using assms that(4) by (cases r) auto
qed (use assms in simp_all)

lemma content_merge_length:
  assumes "content_merge l r = (Ok (Some (c, d)) :: _ codec_result)" "content_ok l" "content_ok r"
    and "unat (clock_len l) + unat (clock_len r) < 2 ^ 64"
  shows "content_ok c" "unat (clock_len c) = unat (clock_len l) + unat (clock_len r)"
  using assms
  by (cases rule: content_mergeE [OF assms(1)]; simp add: unat_plus_u64 unat_of_nat utf16_len_append)+

section \<open>Boundaries\<close>

text \<open>Boundaries of a string are boundaries of its parts.\<close>

lemma str_chars_append: "utf8_valid l \<Longrightarrow> utf8_valid r \<Longrightarrow> str_chars (l @ r) = str_chars l @ str_chars r"
  using utf8_chars_append [of l _ r] by (auto simp: utf8_valid_def str_chars_def)

lemma utf16_boundary_parts:
  assumes "utf8_valid l" "utf8_valid r"
  shows "utf16_boundary (l @ r) n \<Longrightarrow> n \<le> utf16_len l \<Longrightarrow> utf16_boundary l n"
    "utf16_boundary (l @ r) (utf16_len l + n) \<Longrightarrow> 0 < n \<Longrightarrow> utf16_boundary r n"
proof -
  let ?l = "str_chars l" and ?r = "str_chars r"
  note ch = str_chars_append [OF assms]
  show "utf16_boundary l n" if b: "utf16_boundary (l @ r) n" and n: "n \<le> utf16_len l"
  proof -
    obtain k where k: "k \<le> length (?l @ ?r)" "widths16 (take k (?l @ ?r)) = n" using b by (auto simp: utf16_boundary_def ch)
    show ?thesis
    proof (cases "k \<le> length ?l")
      case True
      then show ?thesis using k by (auto simp: utf16_boundary_def)
    next
      case False
      then have "widths16 ?l \<le> n" using k(2) widths16_take_mono [of "length ?l" k "?l @ ?r"] by simp
      then have "widths16 (take (length ?l) ?l) = n" using n by (simp add: utf16_len_widths)
      then show ?thesis unfolding utf16_boundary_def by blast
    qed
  qed
  show "utf16_boundary r n" if b: "utf16_boundary (l @ r) (utf16_len l + n)" and n: "0 < n"
  proof -
    obtain k where k: "k \<le> length (?l @ ?r)" "widths16 (take k (?l @ ?r)) = utf16_len l + n" using b by (auto simp: utf16_boundary_def ch)
    have "\<not> k \<le> length ?l"
      using k(2) n widths16_take_mono [of k "length ?l" ?l] by (auto simp: utf16_len_widths)
    then have "take k (?l @ ?r) = ?l @ take (k - length ?l) ?r" by simp
    then have "widths16 (take (k - length ?l) ?r) = n" "k - length ?l \<le> length ?r" using k by (simp_all add: utf16_len_widths)
    then show ?thesis unfolding utf16_boundary_def by blast
  qed
qed

lemma split_boundary_parts:
  assumes "content_merge l r = (Ok (Some (c, c')) :: _ codec_result)" "content_ok l" "content_ok r" "split_boundary c e"
  shows "unat e \<le> unat (clock_len l) \<Longrightarrow> split_boundary l e"
    "unat e = unat (clock_len l) + unat d \<Longrightarrow> 0 < d \<Longrightarrow> split_boundary r d"
proof -
  show "split_boundary l e" if "unat e \<le> unat (clock_len l)"
    using assms that by (cases rule: content_mergeE [OF assms(1)]) (auto simp: unat_of_nat intro: utf16_boundary_parts)
  show "split_boundary r d" if "unat e = unat (clock_len l) + unat d" "0 < d"
    using assms that by (cases rule: content_mergeE [OF assms(1)]) (auto simp: unat_of_nat word_less_nat_alt intro: utf16_boundary_parts)
qed
end
