(* ===== verification/Store_Compact.thy ===== *)
theory Store_Compact
  imports Store_Split Content_Laws
begin

text \<open>
  Optimizing the store: collecting the garbage and merging neighbours keep every client's run of
  nodes and its end, so the state of the store does not change.
\<close>

section \<open>Merging nodes\<close>

definition node_sound :: "heap \<Rightarrow> client \<Rightarrow> node \<Rightarrow> bool" where
  "node_sound h client n \<longleftrightarrow> node_fits h client n
     \<and> (case n of Item r \<Rightarrow> (\<forall>i. get_item h r = Some i \<longrightarrow> content_ok (item_content i)) | _ \<Rightarrow> True)"

definition node_cell :: "node \<Rightarrow> nat option" where
  "node_cell n = (case n of Item r \<Rightarrow> somr_ptr r | _ \<Rightarrow> None)"

text \<open>What a step leaves of a node: its span and, for an item, its content.\<close>

definition same_node_at :: "heap \<Rightarrow> heap \<Rightarrow> nat \<Rightarrow> bool" where
  "same_node_at h h' a \<longleftrightarrow>
     map_option (\<lambda>i. (item_id i, item_content i)) (h_items h' a) = map_option (\<lambda>i. (item_id i, item_content i)) (h_items h a)"

lemma same_node_at_sound:
  assumes "\<And>a. node_cell n = Some a \<Longrightarrow> same_node_at h h' a"
  shows "same_span h h' n" "node_sound h' client n = node_sound h client n"
proof -
  have "same_span h h' n \<and> node_sound h' client n = node_sound h client n"
  proof (cases n)
    case (Item r)
    show ?thesis
    proof (cases "somr_ptr r")
      case None
      then have "get_item h r = None" "get_item h' r = None" by (simp_all add: get_item_def somr_lookup_def)
      then show ?thesis using Item by (simp add: same_span_def node_sound_def node_fits_def get_item_unchecked_def)
    next
      case (Some a)
      then have s: "same_node_at h h' a" using assms Item by (simp add: node_cell_def)
      then have "same_span h h' (Item r)"
        by (intro node_span_cell [OF Some]) (cases "h_items h a"; cases "h_items h' a"; simp add: same_node_at_def item_len_def)
      moreover have "(\<forall>i. h_items h' a = Some i \<longrightarrow> content_ok (item_content i)) \<longleftrightarrow> (\<forall>i. h_items h a = Some i \<longrightarrow> content_ok (item_content i))"
        using s by (cases "h_items h a"; cases "h_items h' a"; simp add: same_node_at_def)
      ultimately show ?thesis using Item Some same_span_facts(1) [of h h' "Item r"] by (simp add: node_sound_def get_item_ptr)
    qed
  qed (simp_all add: same_span_def node_sound_def)
  then show "same_span h h' n" "node_sound h' client n = node_sound h client n" by blast+
qed

lemma merge_markers_items:
  assumes "merge_markers lref rref n i h = (Ok h' :: _ codec_result)"
  shows "h_items h' = h_items h" "h_next h' = h_next h"
  using assms by (auto simp: merge_markers_def outcome_simps put_ty_def split: option.splits parent.splits)

text \<open>
  Merging two adjacent nodes, the right one being a clone: either nothing changes, or the left node
  covers both and only the cells of the two change their id or content.
\<close>

lemma merge_items_effect:
  assumes "merge_items h l r = (Ok (m, h') :: _ codec_result)" "somr_ptr l = Some a" "somr_ptr r = Some b" "a \<noteq> b"
    and "h_items h a = Some i" "h_items h b = Some j" "content_ok (item_content i)" "content_ok (item_content j)"
    and "unat (item_len i) + unat (item_len j) < 2 ^ 64"
  shows "\<not> m \<Longrightarrow> h' = h"
    "m \<Longrightarrow> (\<forall>x. x \<noteq> a \<and> x \<noteq> b \<longrightarrow> same_node_at h h' x)
       \<and> (\<exists>i'. h_items h' a = Some i' \<and> item_id i' = item_id i \<and> content_ok (item_content i')
            \<and> unat (item_len i') = unat (item_len i) + unat (item_len j))"
proof -
  have gi: "get_item h l = Some i" "get_item h r = Some j" using assms(2,3,5,6) by (simp_all add: get_item_ptr)
  have "(\<not> m \<longrightarrow> h' = h) \<and> (m \<longrightarrow> (\<forall>x. x \<noteq> a \<and> x \<noteq> b \<longrightarrow> same_node_at h h' x)
       \<and> (\<exists>i'. h_items h' a = Some i' \<and> item_id i' = item_id i \<and> content_ok (item_content i')
            \<and> unat (item_len i') = unat (item_len i) + unat (item_len j)))"
  proof (cases "m")
    case False
    then show ?thesis using assms(1) gi
      by (auto simp: merge_items_def outcome_simps Let_def split: if_splits option.splits)
  next
    case True
    with assms(1) gi obtain c d where cd: "content_merge (item_content i) (item_content j) = (Ok (Some (c, d)) :: _ codec_result)"
      by (auto simp: merge_items_def outcome_simps split: if_splits option.splits)
    define h1 where "h1 = put_item r (j\<lparr>item_content := d\<rparr>) (put_item l (i\<lparr>item_content := c\<rparr>) h)"
    define i1 where "i1 = i\<lparr>item_content := c,
        item_flags := (if is_item_keep j then flag_set_keep (item_flags i) else item_flags i), item_right := somr_clone (item_right j)\<rparr>"
    obtain ok where ok: "can_merge h i j r = (Ok ok :: _ codec_result)" "ok"
      using True assms(1) gi by (auto simp: merge_items_def outcome_simps split: if_splits)
    have tail: "rbind (merge_markers l r (item_len i) i h1) (\<lambda>h. let h = put_item l i1 h in
        case get_item h (item_right i1) of None \<Rightarrow> Ok (True, h)
        | Some rr \<Rightarrow> Ok (True, put_item (item_right i1) (rr\<lparr>item_left := somr_clone l\<rparr>) h)) = (Ok (True, h') :: _ codec_result)"
      using True assms(1) gi ok cd
      by (cases "is_item_keep j") (simp_all add: merge_items_def h1_def i1_def Let_def cong: option.case_cong)
    then obtain h2 where h2: "merge_markers l r (item_len i) i h1 = (Ok h2 :: _ codec_result)"
      and h': "(case get_item (put_item l i1 h2) (item_right i1) of None \<Rightarrow> h' = put_item l i1 h2
        | Some rr \<Rightarrow> h' = put_item (item_right i1) (rr\<lparr>item_left := somr_clone l\<rparr>) (put_item l i1 h2))"
      by (auto simp: outcome_simps Let_def split: option.splits)
    define h3 where "h3 = put_item l i1 h2"
    have cells: "h_items h3 = (h_items h)(b \<mapsto> j\<lparr>item_content := d\<rparr>, a \<mapsto> i1)"
      using merge_markers_items(1) [OF h2] assms(2-4) by (simp add: h3_def h1_def put_item_ptr fun_upd_twist)
    have same: "same_node_at h3 h' x" for x
    proof (cases "get_item h3 (item_right i1)")
      case None
      then show ?thesis using h' by (simp add: h3_def same_node_at_def)
    next
      case (Some rr)
      obtain k where "somr_ptr (item_right i1) = Some k" "h_items h3 k = Some rr" using Some by (rule get_item_ptrE)
      then show ?thesis using h' Some by (simp add: h3_def [symmetric] same_node_at_def put_item_ptr)
    qed
    note len = content_merge_length [OF cd assms(7,8)]
    have i1: "item_id i1 = item_id i" "item_content i1 = c" by (simp_all add: i1_def)
    have "\<forall>x. x \<noteq> a \<and> x \<noteq> b \<longrightarrow> same_node_at h h' x"
      using same cells by (simp add: same_node_at_def)
    moreover obtain i' where "h_items h' a = Some i'" "item_id i' = item_id i" "item_content i' = c"
      using same [of a] cells i1 by (cases "h_items h' a") (simp_all add: same_node_at_def)
    ultimately show ?thesis using len assms(9) True by (auto simp: item_len_def)
  qed
  then show "\<not> m \<Longrightarrow> h' = h"
    "m \<Longrightarrow> (\<forall>x. x \<noteq> a \<and> x \<noteq> b \<longrightarrow> same_node_at h h' x)
       \<and> (\<exists>i'. h_items h' a = Some i' \<and> item_id i' = item_id i \<and> content_ok (item_content i')
            \<and> unat (item_len i') = unat (item_len i) + unat (item_len j))" by blast+
qed

lemma node_merge_effect:
  assumes "node_merge h x (clone_node y) = (Ok (x', m, h') :: _ codec_result)"
    and "node_sound h client x" "node_sound h client y" "end_of h x = clock_of h y"
    and "\<forall>c. node_cell x = Some c \<longrightarrow> node_cell y \<noteq> Some c"
  shows "\<not> m \<Longrightarrow> x' = x \<and> h' = h"
    "m \<Longrightarrow> node_sound h' client x' \<and> clock_of h' x' = clock_of h x \<and> end_of h' x' = end_of h y
       \<and> node_cell x' = node_cell x
       \<and> (\<forall>c. node_cell x \<noteq> Some c \<and> node_cell y \<noteq> Some c \<longrightarrow> same_node_at h h' c)"
proof -
  have fits: "node_fits h client x" "node_fits h client y" using assms(2,3) by (simp_all add: node_sound_def)
  have "(\<not> m \<longrightarrow> x' = x \<and> h' = h) \<and> (m \<longrightarrow> node_sound h' client x' \<and> clock_of h' x' = clock_of h x \<and> end_of h' x' = end_of h y
       \<and> node_cell x' = node_cell x
       \<and> (\<forall>c. node_cell x \<noteq> Some c \<and> node_cell y \<noteq> Some c \<longrightarrow> same_node_at h h' c))"
  proof (cases x)
    case (GC l)
    show ?thesis
    proof (cases y)
      case (GC r)
      then show ?thesis using assms(1,4) fits \<open>x = GC l\<close>
        by (auto simp: outcome_simps node_sound_def node_cell_def same_node_at_def unat_plus_u64 word_less_nat_alt)
    next
      case (Item r)
      then show ?thesis using assms(1) GC by (cases r) (auto simp: drop_item_def)
    qed (use assms(1) GC in auto)
  next
    case (Skip l)
    show ?thesis
    proof (cases y)
      case (Skip r)
      then show ?thesis using assms(1,4) fits \<open>x = Skip l\<close>
        by (auto simp: outcome_simps node_sound_def node_cell_def same_node_at_def unat_plus_u64 word_less_nat_alt)
    next
      case (Item r)
      then show ?thesis using assms(1) Skip by (cases r) (auto simp: drop_item_def)
    qed (use assms(1) Skip in auto)
  next
    case (Item l)
    show ?thesis
    proof (cases y)
      case (Item r)
      have no_drop: "drop_item (somr_clone r) k = k" for k by (cases r) (simp_all add: drop_item_def)
      have run: "merge_items h l (somr_clone r) = (Ok (m, h') :: _ codec_result)" "x' = x"
        using assms(1) \<open>x = Item l\<close> Item no_drop by (auto simp: outcome_simps)
      obtain a i where a: "somr_ptr l = Some a" "h_items h a = Some i"
        using fits(1) \<open>x = Item l\<close> by (auto elim: node_fits_item)
      obtain b j where b: "somr_ptr r = Some b" "h_items h b = Some j"
        using fits(2) Item by (auto elim: node_fits_item)
      have ab: "a \<noteq> b" using assms(5) a(1) b(1) \<open>x = Item l\<close> Item by (auto simp: node_cell_def)
      have ok: "content_ok (item_content i)" "content_ok (item_content j)"
        using assms(2,3) \<open>x = Item l\<close> Item a b by (auto simp: node_sound_def get_item_ptr)
      note fx = item_node_facts [OF a] and fy = item_node_facts [OF b]
      have sum: "unat (item_len i) + unat (item_len j) < 2 ^ 64"
        using fits(2) assms(4) \<open>x = Item l\<close> Item fx(4) fy(3,5) by simp
      have rb: "somr_ptr (somr_clone r) = Some b" using b(1) by simp
      note e = merge_items_effect [OF run(1) a(1) rb ab a(2) b(2) ok sum]
      show ?thesis
      proof (cases m)
        case False
        then show ?thesis using e(1) run(2) by simp
      next
        case True
        then obtain i' where i': "h_items h' a = Some i'" "item_id i' = item_id i" "content_ok (item_content i')"
          "unat (item_len i') = unat (item_len i) + unat (item_len j)"
          and rest: "\<forall>x. x \<noteq> a \<and> x \<noteq> b \<longrightarrow> same_node_at h h' x" using e(2) by blast
        note f' = item_node_facts [OF a(1) i'(1)]
        show ?thesis
          using True run(2) rest i' f' fx fy fits assms(4) \<open>x = Item l\<close> Item a(1) b(1)
          by (auto simp: node_sound_def node_cell_def get_item_ptr word_less_nat_alt)
      qed
    qed (use assms(1) Item in auto)
  qed
  then show "\<not> m \<Longrightarrow> x' = x \<and> h' = h"
    "m \<Longrightarrow> node_sound h' client x' \<and> clock_of h' x' = clock_of h x \<and> end_of h' x' = end_of h y
       \<and> node_cell x' = node_cell x
       \<and> (\<forall>c. node_cell x \<noteq> Some c \<and> node_cell y \<noteq> Some c \<longrightarrow> same_node_at h h' c)" by blast+
qed

section \<open>Merging a stretch of nodes\<close>

text \<open>A sound run: the nodes follow each other and their contents are in order.\<close>

definition sound_run :: "heap \<Rightarrow> client \<Rightarrow> nat \<Rightarrow> node list \<Rightarrow> bool" where
  "sound_run h client c ns \<longleftrightarrow> run h client c ns \<and> (\<forall>n \<in> set ns. node_sound h client n)"

definition cells_of :: "node list \<Rightarrow> nat set" where
  "cells_of ns = {a. \<exists>n \<in> set ns. node_cell n = Some a}"

lemma cells_of_simps [simp]: "cells_of [] = {}" "cells_of (xs @ ys) = cells_of xs \<union> cells_of ys"
  by (auto simp: cells_of_def)

lemma sound_run_append:
  "sound_run h client c (as @ bs) \<longleftrightarrow> sound_run h client c as \<and> sound_run h client (run_end h c as) bs"
  by (auto simp: sound_run_def run_append)

lemma sound_run_Cons:
  "sound_run h client c (n # ns) = (node_sound h client n \<and> clock_of h n = c \<and> sound_run h client (end_of h n) ns)"
  by (auto simp: sound_run_def node_sound_def)

lemma sound_run_same:
  assumes "\<forall>a \<in> cells_of ns. same_node_at h h' a"
  shows "sound_run h' client c ns = sound_run h client c ns" "run_end h' c ns = run_end h c ns"
proof -
  have n: "same_span h h' n" "node_sound h' client n = node_sound h client n" if "n \<in> set ns" for n
    using assms that by (auto intro!: same_node_at_sound simp: cells_of_def)
  then show "sound_run h' client c ns = sound_run h client c ns" "run_end h' c ns = run_end h c ns"
    using same_span_run [of ns h h'] by (simp_all add: sound_run_def)
qed

lemma run_cells_disjoint:
  assumes "run h client c (as @ bs)"
  shows "cells_of as \<inter> cells_of bs = {}"
proof (rule ccontr)
  assume "cells_of as \<inter> cells_of bs \<noteq> {}"
  then obtain x m n where mn: "m \<in> set as" "n \<in> set bs" "node_cell m = Some x" "node_cell n = Some x"
    by (auto simp: cells_of_def)
  obtain i where i: "i < length as" "as ! i = m" using mn(1) by (auto simp: in_set_conv_nth)
  obtain j where j: "j < length bs" "bs ! j = n" using mn(2) by (auto simp: in_set_conv_nth)
  obtain r s where rs: "m = Item r" "n = Item s" "somr_ptr r = Some x" "somr_ptr s = Some x"
    using mn(3,4) by (auto simp: node_cell_def split: node.splits)
  have "i = length as + j"
    using run_cells_distinct [OF assms, of i "length as + j" r s] i j rs by (simp add: nth_append)
  then show False using i(1) by simp
qed

lemma same_node_at_trans: "same_node_at h h1 a \<Longrightarrow> same_node_at h1 h2 a \<Longrightarrow> same_node_at h h2 a"
  by (simp add: same_node_at_def)

lemma same_node_at_refl [simp]: "same_node_at h h a"
  by (simp add: same_node_at_def)

text \<open>The nodes before the position are \<open>as\<close>, those after it that are merged away \<open>bs\<close>.\<close>

lemma merge_leftwards_effect:
  "merge_leftwards p nodes h = Ok (q, nodes', h') \<Longrightarrow> p < length nodes \<Longrightarrow>
   sound_run h client c (take (p + 1) nodes) \<Longrightarrow>
   q \<le> p \<and> length nodes' = length nodes \<and> drop (p + 1) nodes' = drop (p + 1) nodes
   \<and> sound_run h' client c (take (q + 1) nodes')
   \<and> run_end h' c (take (q + 1) nodes') = run_end h c (take (p + 1) nodes)
   \<and> map node_cell nodes' = map node_cell nodes
   \<and> (\<forall>a. a \<notin> cells_of (take (p + 1) nodes) \<longrightarrow> same_node_at h h' a)"
proof (induction p arbitrary: nodes h)
  case (Suc p)
  let ?x = "nodes ! p" and ?y = "nodes ! Suc p"
  have len: "p < length nodes" "Suc p < length nodes" using Suc.prems(2) by simp_all
  have t1: "take (p + 1) nodes = take p nodes @ [?x]" using len(1) by (simp add: take_Suc_conv_app_nth)
  have t2: "take (Suc p + 1) nodes = take p nodes @ [?x, ?y]"
    using len by (simp add: take_Suc_conv_app_nth)
  have s: "sound_run h client c (take p nodes)" "sound_run h client (run_end h c (take p nodes)) [?x, ?y]"
    using Suc.prems(3) unfolding t2 sound_run_append by simp_all
  then have xy: "node_sound h client ?x" "node_sound h client ?y" "clock_of h ?x = run_end h c (take p nodes)"
    "end_of h ?x = clock_of h ?y" by (auto simp: sound_run_def)
  have dis: "cells_of (take p nodes @ [?x]) \<inter> cells_of [?y] = {}" "cells_of (take p nodes) \<inter> cells_of [?x, ?y] = {}"
    using Suc.prems(3) t2 run_cells_disjoint [of h client c "take p nodes @ [?x]" "[?y]"]
      run_cells_disjoint [of h client c "take p nodes" "[?x, ?y]"] by (simp_all add: sound_run_def)
  obtain left m h1 where run: "node_merge h ?x (clone_node ?y) = (Ok (left, m, h1) :: _ codec_result)"
    "(if m then merge_leftwards p (nodes[p := left]) h1 else Ok (Suc p, nodes[p := left], h1)) = Ok (q, nodes', h')"
    using Suc.prems(1) len by (auto simp: outcome_simps index_node_def)
  have cell: "\<forall>a. node_cell ?x = Some a \<longrightarrow> node_cell ?y \<noteq> Some a"
    using dis(1) by (auto simp: cells_of_def)
  note e = node_merge_effect [OF run(1) xy(1,2,4) cell]
  show ?case
  proof (cases m)
    case False
    then have "q = Suc p" "nodes' = nodes" "h' = h" using run(2) e(1) len by auto
    then show ?thesis using Suc.prems by simp
  next
    case True
    note e2 = e(2) [OF True]
    let ?ns = "nodes[p := left]"
    have t: "take (p + 1) ?ns = take p nodes @ [left]" using len(1) by (simp add: take_Suc_conv_app_nth)
    have "\<forall>a \<in> cells_of (take p nodes). same_node_at h h1 a"
    proof
      fix a assume "a \<in> cells_of (take p nodes)"
      then have "a \<notin> cells_of [?x, ?y]" using dis(2) by blast
      then show "same_node_at h h1 a" using e2 by (simp add: cells_of_def)
    qed
    note same = sound_run_same [OF this]
    have keep: "sound_run h1 client c (take p nodes)" "run_end h1 c (take p nodes) = run_end h c (take p nodes)"
      using same s(1) by simp_all
    have left: "sound_run h1 client c (take (p + 1) ?ns)"
      unfolding t sound_run_append using keep e2 xy(3) by (simp add: sound_run_def node_sound_def)
    have "merge_leftwards p ?ns h1 = Ok (q, nodes', h')" using run(2) True by simp
    from Suc.IH [OF this _ left] len have IH: "q \<le> p \<and> length nodes' = length nodes \<and> drop (p + 1) nodes' = drop (p + 1) ?ns
      \<and> sound_run h' client c (take (q + 1) nodes')
      \<and> run_end h' c (take (q + 1) nodes') = run_end h1 c (take (p + 1) ?ns)
      \<and> map node_cell nodes' = map node_cell ?ns
      \<and> (\<forall>a. a \<notin> cells_of (take (p + 1) ?ns) \<longrightarrow> same_node_at h1 h' a)" by simp
    have "map node_cell ?ns = map node_cell nodes"
      using e2 len(1) by (simp add: map_update list_update_same_conv)
    moreover have "run_end h1 c (take (p + 1) ?ns) = run_end h c (take (Suc p + 1) nodes)"
      unfolding t t2 using e2 by (simp add: run_end_append)
    moreover have "cells_of (take (p + 1) ?ns) \<subseteq> cells_of (take (Suc p + 1) nodes)"
      unfolding t t2 using e2 by (auto simp: cells_of_def)
    moreover have "same_node_at h h1 a" if "a \<notin> cells_of (take (Suc p + 1) nodes)" for a
      using that e2 unfolding t2 by (auto simp: cells_of_def)
    moreover have "drop (Suc p + 1) nodes' = drop (Suc p + 1) nodes"
    proof -
      have "drop 1 (drop (p + 1) nodes') = drop 1 (drop (p + 1) ?ns)" using IH by simp
      then show ?thesis by simp
    qed
    ultimately show ?thesis using IH by (auto intro: same_node_at_trans)
  qed
qed simp

lemma drop_nodes_same: "a \<notin> cells_of ns \<Longrightarrow> same_node_at h (fold drop_node ns h) a"
proof (induction ns arbitrary: h)
  case (Cons n ns)
  have "h_items (drop_node n h) a = h_items h a"
    using Cons.prems
    by (auto simp: drop_node_def drop_item_def drop_type_def cells_of_def node_cell_def Let_def
        split: node.splits somr.splits option.splits content.splits)
  then have "same_node_at h (drop_node n h) a" by (simp add: same_node_at_def)
  moreover have "same_node_at (drop_node n h) (fold drop_node ns (drop_node n h)) a"
    using Cons by (auto simp: cells_of_def)
  ultimately show ?case by (auto intro: same_node_at_trans)
qed simp

lemma merge_with_lefts_effect:
  assumes "merge_with_lefts nodes idx h = Ok (k, nodes', h')" "sound_run h client c nodes" "idx < length nodes"
  shows "sound_run h' client c nodes'" "run_end h' c nodes' = run_end h c nodes" "cells_of nodes' \<subseteq> cells_of nodes"
    "k \<le> idx" "length nodes' = length nodes - k" "\<And>a. a \<notin> cells_of nodes \<Longrightarrow> same_node_at h h' a"
proof -
  obtain p ns h1 where run: "merge_leftwards idx nodes h = Ok (p, ns, h1)" "k = idx - p"
    "nodes' = take (p + 1) ns @ drop (idx + 1) ns" "h' = fold drop_node (take (idx - p) (drop (p + 1) ns)) h1"
    using assms(1) by (auto simp: merge_with_lefts_def outcome_simps)
  let ?a = "take (idx + 1) nodes" and ?b = "drop (idx + 1) nodes"
  have ab: "sound_run h client c ?a" "sound_run h client (run_end h c ?a) ?b" "cells_of ?a \<inter> cells_of ?b = {}"
    using assms(2) sound_run_append [of h client c ?a ?b] run_cells_disjoint [of h client c ?a ?b]
    by (simp_all add: sound_run_def)
  note e = merge_leftwards_effect [OF run(1) assms(3) ab(1)]
  let ?d = "take (idx - p) (drop (p + 1) ns)"
  have cells: "cells_of (f ns) = cells_of (f nodes)" if "\<And>xs. map node_cell (f xs) = f' (map node_cell xs)" for f f'
  proof -
    have "cells_of xs = {a. Some a \<in> set (map node_cell xs)}" for xs by (auto simp: cells_of_def image_iff) metis+
    moreover have "map node_cell ns = map node_cell nodes" using e by simp
    ultimately show ?thesis by (simp only: that)
  qed
  have cp: "cells_of (take (p + 1) ns) = cells_of (take (p + 1) nodes)" by (rule cells [of _ "take (p + 1)"]) (simp add: take_map)
  have cd: "cells_of ?d = cells_of (take (idx - p) (drop (p + 1) nodes))"
    by (rule cells [of _ "\<lambda>xs. take (idx - p) (drop (p + 1) xs)"]) (simp add: take_map drop_map)
  have pa: "?a = take (p + 1) nodes @ take (idx - p) (drop (p + 1) nodes)"
  proof -
    have "idx + 1 = (p + 1) + (idx - p)" using e by simp
    then show ?thesis by (simp only: take_add)
  qed
  have sep: "cells_of (take (p + 1) nodes) \<inter> cells_of (take (idx - p) (drop (p + 1) nodes)) = {}"
    using ab(1) run_cells_disjoint unfolding pa sound_run_def by blast
  have out: "same_node_at h h1 x" if "x \<notin> cells_of ?a" for x using e that by simp
  have d1: "same_node_at h1 h' x" if "x \<notin> cells_of ?d" for x unfolding run(4) using that by (rule drop_nodes_same)
  have "\<forall>a \<in> cells_of (take (p + 1) ns). same_node_at h1 h' a" using d1 cp cd sep by blast
  note same1 = sound_run_same [OF this]
  have s1: "sound_run h' client c (take (p + 1) ns)" "run_end h' c (take (p + 1) ns) = run_end h1 c (take (p + 1) ns)"
    using same1 e by auto
  have bb: "drop (idx + 1) ns = ?b" using e by simp
  have "cells_of ?d \<subseteq> cells_of ?a" unfolding cd pa by simp
  then have "\<forall>a \<in> cells_of ?b. same_node_at h h' a"
    using ab(3) out d1 by (blast intro: same_node_at_trans)
  note same2 = sound_run_same [OF this]
  have s2: "sound_run h' client (run_end h c ?a) ?b" "run_end h' (run_end h c ?a) ?b = run_end h (run_end h c ?a) ?b"
    using same2 ab(2) by auto
  have re: "run_end h' c (take (p + 1) ns) = run_end h c ?a" using s1(2) e by simp
  show "sound_run h' client c nodes'" unfolding run(3) bb sound_run_append using s1(1) s2(1) re by simp
  have "run_end h c nodes = run_end h c (?a @ ?b)" by simp
  then show "run_end h' c nodes' = run_end h c nodes"
    unfolding run(3) bb run_end_append using re s2(2) by simp
  have n: "cells_of ?a \<union> cells_of ?b = cells_of nodes" using cells_of_simps(2) [of ?a ?b] by simp
  then show "cells_of nodes' \<subseteq> cells_of nodes" unfolding run(3) bb using cp pa by auto
  show "k \<le> idx" using run(2) by simp
  show "length nodes' = length nodes - k" using run(2,3) e assms(3) by simp
  show "same_node_at h h' a" if "a \<notin> cells_of nodes" for a
    using that n cd pa out [of a] d1 [of a] by (auto intro: same_node_at_trans)
qed

lemma make_loop_effect:
  "make_loop first_change idx nodes h = Ok (nodes', h') \<Longrightarrow> sound_run h client c nodes \<Longrightarrow> idx < length nodes \<Longrightarrow>
   sound_run h' client c nodes' \<and> run_end h' c nodes' = run_end h c nodes \<and> cells_of nodes' \<subseteq> cells_of nodes
   \<and> nodes' \<noteq> [] \<and> (\<forall>a. a \<notin> cells_of nodes \<longrightarrow> same_node_at h h' a)"
proof (induction first_change idx nodes h rule: make_loop.induct)
  case (1 first_change idx nodes h)
  show ?case
  proof (cases "0 < idx \<and> first_change \<le> idx")
    case False
    then have "nodes' = nodes" "h' = h" using "1.prems"(1) by (auto simp: make_loop.simps [of first_change idx])
    then show ?thesis using "1.prems" by auto
  next
    case True
    then obtain k ns h1 where k: "merge_with_lefts nodes idx h = Ok (k, ns, h1)"
      "make_loop first_change (idx - (k + 1)) ns h1 = Ok (nodes', h')"
      using "1.prems"(1) by (auto simp: make_loop.simps [of first_change idx nodes] outcome_simps)
    note e = merge_with_lefts_effect [OF k(1) "1.prems"(2,3)]
    have len: "idx - (k + 1) < length ns" using e(4,5) "1.prems"(3) True by simp
    have IH: "sound_run h' client c nodes' \<and> run_end h' c nodes' = run_end h1 c ns \<and> cells_of nodes' \<subseteq> cells_of ns
      \<and> nodes' \<noteq> [] \<and> (\<forall>a. a \<notin> cells_of ns \<longrightarrow> same_node_at h1 h' a)"
      by (rule "1.IH" [OF True k(1) refl refl k(2) e(1) len])
    have "same_node_at h h' a" if "a \<notin> cells_of nodes" for a
    proof -
      have "a \<notin> cells_of ns" using that e(3) by blast
      then show ?thesis using e(6) [OF that] IH by (blast intro: same_node_at_trans)
    qed
    then show ?thesis using IH e(2,3) by auto
  qed
qed

section \<open>Collecting garbage\<close>

lemma gc_content_items [simp]: "h_items (gc_content c h) = h_items h"
  by (simp add: gc_content_def put_ty_def split: content.splits option.splits)

lemma gc_item_effect:
  assumes "gc_item nodes idx replace h = Ok (nodes', h')" "sound_run h client c nodes" "idx < length nodes"
  shows "sound_run h' client c nodes'" "run_end h' c nodes' = run_end h c nodes" "cells_of nodes' \<subseteq> cells_of nodes"
    "length nodes' = length nodes" "\<forall>a. a \<notin> cells_of nodes \<longrightarrow> same_node_at h h' a"
proof -
  have ns: "nodes = take idx nodes @ nodes ! idx # drop (idx + 1) nodes"
    using assms(3) by (simp add: id_take_nth_drop [symmetric])
  have "sound_run h' client c nodes' \<and> run_end h' c nodes' = run_end h c nodes \<and> cells_of nodes' \<subseteq> cells_of nodes
      \<and> length nodes' = length nodes \<and> (\<forall>a. a \<notin> cells_of nodes \<longrightarrow> same_node_at h h' a)"
  proof (cases "nodes ! idx")
    case (Item r)
    let ?x = "nodes ! idx" and ?as = "take idx nodes" and ?bs = "drop (idx + 1) nodes"
    have snd: "sound_run h client c (?as @ ?x # ?bs)" using assms(2) ns by simp
    then have x: "node_fits h client ?x" by (simp add: sound_run_def node_sound_def)
    then obtain a i where a: "somr_ptr r = Some a" "h_items h a = Some i" using Item by (auto elim: node_fits_item)
    then have gi: "get_item h r = Some i" by (simp add: get_item_ptr)
    have cell: "cells_of [?x] = {a}" using Item a(1) by (auto simp: cells_of_def node_cell_def)
    have dis: "a \<notin> cells_of ?as" "a \<notin> cells_of ?bs"
      using snd run_cells_disjoint [of h client c ?as "[?x] @ ?bs"] run_cells_disjoint [of h client c "?as @ [?x]" ?bs] cell
        cells_of_simps(2) [of "[?x]" ?bs]
      by (auto simp: sound_run_def)
    note f = item_node_facts [OF a]
    have keep: "sound_run k client c (?as @ y # ?bs) \<and> run_end k c (?as @ y # ?bs) = run_end h c nodes"
      if k: "\<forall>b. b \<noteq> a \<longrightarrow> same_node_at h k b" and y: "node_sound k client y" "clock_of k y = clock_of h ?x" "end_of k y = end_of h ?x"
      for k y
    proof -
      have "\<forall>b \<in> cells_of ?as. same_node_at h k b" "\<forall>b \<in> cells_of ?bs. same_node_at h k b" using k dis by auto
      note s1 = sound_run_same [OF this(1)] and s2 = sound_run_same [OF this(2)]
      have "sound_run h client c ?as" "sound_run h client (run_end h c ?as) (?x # ?bs)"
        using snd sound_run_append by blast+
      then have "sound_run k client c ?as" "sound_run k client (run_end k c ?as) (y # ?bs)"
        unfolding s1 s2 sound_run_Cons using y s2(1) [of client "end_of h ?x"] by simp_all
      then have "sound_run k client c (?as @ y # ?bs)" using sound_run_append by blast
      moreover have "run_end k c (?as @ y # ?bs) = run_end h c (?as @ ?x # ?bs)" using y s1 s2 by (simp add: run_end_append)
      ultimately show ?thesis using ns by simp
    qed
    show ?thesis
    proof (cases replace)
      case True
      then have out: "nodes' = nodes[idx := new_gc (item_id i) (item_len i)]"
        "h' = drop_item r (gc_content (item_content i) h)"
        using assms(1,3) Item gi by (auto simp: gc_item_def index_node_def outcome_simps Let_def)
      have n': "nodes' = ?as @ new_gc (item_id i) (item_len i) # ?bs"
        unfolding out(1) using assms(3) by (simp add: upd_conv_take_nth_drop)
      have h': "h_items h' b = h_items h b" if "b \<noteq> a" for b
        using that a(1) unfolding out(2) by (cases r) (auto simp: drop_item_def drop_type_def Let_def split: option.splits content.splits somr.splits)
      have same: "\<forall>b. b \<noteq> a \<longrightarrow> same_node_at h h' b" using h' by (simp add: same_node_at_def)
      have "sound_run h' client c nodes' \<and> run_end h' c nodes' = run_end h c nodes"
        unfolding n' by (rule keep) (use same x f Item in \<open>simp_all add: new_gc_def node_sound_def\<close>)
      moreover have "cells_of nodes' \<subseteq> cells_of nodes"
        unfolding n' by (subst ns) (auto simp: cells_of_def new_gc_def node_cell_def)
      moreover have "a \<in> cells_of nodes" by (subst ns) (use cell in \<open>auto simp: cells_of_def\<close>)
      ultimately show ?thesis using out(1) same by auto
    next
      case False
      then have out: "nodes' = nodes"
        "h' = put_item r (i\<lparr>item_content := ContentDeleted (item_len i), item_flags := flag_clear_countable (item_flags i)\<rparr>)
                (gc_content (item_content i) h)"
        using assms(1,3) Item gi by (auto simp: gc_item_def index_node_def outcome_simps Let_def split: if_splits)
      have cells: "h_items h' = (h_items h)(a \<mapsto> i\<lparr>item_content := ContentDeleted (item_len i), item_flags := flag_clear_countable (item_flags i)\<rparr>)"
        unfolding out(2) by (simp add: put_item_ptr [OF a(1)])
      then have same: "\<forall>b. b \<noteq> a \<longrightarrow> same_node_at h h' b" by (simp add: same_node_at_def)
      have f': "h_items h' a = Some (i\<lparr>item_content := ContentDeleted (item_len i), item_flags := flag_clear_countable (item_flags i)\<rparr>)"
        using cells by simp
      note g = item_node_facts [OF a(1) f']
      have "node_sound h' client ?x"
        using x f g a f' Item by (simp add: node_sound_def item_len_def get_item_ptr)
      moreover have "clock_of h' ?x = clock_of h ?x" "end_of h' ?x = end_of h ?x"
        using f g Item by (simp_all add: item_len_def)
      ultimately have "sound_run h' client c (?as @ ?x # ?bs) \<and> run_end h' c (?as @ ?x # ?bs) = run_end h c nodes"
        by (rule keep [OF same])
      then have "sound_run h' client c nodes' \<and> run_end h' c nodes' = run_end h c nodes"
        unfolding out(1) using ns by simp
      moreover have "a \<in> cells_of nodes" by (subst ns) (use cell in \<open>auto simp: cells_of_def\<close>)
      ultimately show ?thesis using out(1) same by auto
    qed
  qed (use assms in \<open>auto simp: gc_item_def index_node_def\<close>)
  then show "sound_run h' client c nodes'" "run_end h' c nodes' = run_end h c nodes" "cells_of nodes' \<subseteq> cells_of nodes"
    "length nodes' = length nodes" "\<forall>a. a \<notin> cells_of nodes \<longrightarrow> same_node_at h h' a" by blast+
qed

text \<open>What the steps over one client's nodes keep.\<close>

definition keeps :: "heap \<Rightarrow> client \<Rightarrow> node list \<Rightarrow> heap \<Rightarrow> node list \<Rightarrow> bool" where
  "keeps h client nodes h' nodes' \<longleftrightarrow>
     sound_run h' client 0 nodes' \<and> run_end h' 0 nodes' = run_end h 0 nodes \<and> cells_of nodes' \<subseteq> cells_of nodes
     \<and> (nodes \<noteq> [] \<longrightarrow> nodes' \<noteq> []) \<and> (\<forall>a. a \<notin> cells_of nodes \<longrightarrow> same_node_at h h' a)"

lemma keeps_refl: "sound_run h client 0 nodes \<Longrightarrow> keeps h client nodes h nodes"
  by (simp add: keeps_def)

lemma keeps_trans:
  assumes "keeps h client ns h1 ns1" "keeps h1 client ns1 h2 ns2"
  shows "keeps h client ns h2 ns2"
proof -
  have "same_node_at h h2 a" if "a \<notin> cells_of ns" for a
    using assms that unfolding keeps_def by (blast intro: same_node_at_trans)
  then show ?thesis using assms by (auto simp: keeps_def)
qed

lemma keeps_sound: "keeps h client ns h' ns' \<Longrightarrow> sound_run h' client 0 ns'"
  by (simp add: keeps_def)

lemma gc_loop_keeps:
  "gc_loop n e items h = Ok (items', h') \<Longrightarrow> n \<le> length items \<Longrightarrow> sound_run h client 0 items \<Longrightarrow>
   keeps h client items h' items'"
proof (induction n arbitrary: items h)
  case 0
  then show ?case by (simp add: keeps_refl)
next
  case (Suc n)
  let ?idx = "length items - Suc n"
  have idx: "?idx < length items" using Suc.prems(2) by simp
  have skip: "keeps h client items h' items'" if "gc_loop n e items h = Ok (items', h')"
    using Suc.IH [OF that] Suc.prems by simp
  show ?case
  proof (cases "items ! ?idx")
    case (Item r)
    obtain i where i: "get_item h r = Some i"
      using Suc.prems(1) idx Item by (auto simp: outcome_simps index_node_def get_item_unchecked_def Let_def)
    show ?thesis
    proof (cases "e \<le> id_clock (item_id i)")
      case True
      then show ?thesis using Suc.prems i Item idx by (simp add: index_node_def Let_def keeps_refl)
    next
      case False
      show ?thesis
      proof (cases "is_item_keep i")
        case True
        then show ?thesis using skip Suc.prems(1) False i Item idx by (simp add: index_node_def Let_def)
      next
        case keep: False
        obtain ns h1 where gc: "gc_item items ?idx (parent_gced h i) h = Ok (ns, h1)" "gc_loop n e ns h1 = Ok (items', h')"
          using Suc.prems(1) False keep i Item idx by (auto simp: index_node_def Let_def outcome_simps)
        note e = gc_item_effect [OF gc(1) Suc.prems(3) idx]
        have "keeps h client items h1 ns" using e by (auto simp: keeps_def)
        moreover have "keeps h1 client ns h' items'" using Suc.IH [OF gc(2) _ e(1)] e(4) Suc.prems(2) by simp
        ultimately show ?thesis by (rule keeps_trans)
      qed
    qed
  qed (use Suc.prems(1) skip idx in \<open>simp_all add: index_node_def Let_def\<close>)
qed

lemma gc_ranges_keeps:
  "gc_ranges rs items h = Ok (items', h') \<Longrightarrow> sound_run h client 0 items \<Longrightarrow> keeps h client items h' items'"
proof (induction rs arbitrary: items h)
  case (Cons r rs)
  obtain index ns h1 where 1: "(case index of None \<Rightarrow> Ok (items, h)
      | Some idx \<Rightarrow> gc_loop (length items - idx) (r_end r) items h) = Ok (ns, h1)" "gc_ranges rs ns h1 = Ok (items', h')"
    using Cons.prems(1) by (auto simp: outcome_simps)
  have "keeps h client items h1 ns"
    using 1(1) Cons.prems(2) gc_loop_keeps [of _ "r_end r" items h ns h1 client] by (auto simp: keeps_refl split: option.splits)
  then show ?case using Cons.IH [OF 1(2)] keeps_sound keeps_trans by blast
qed (simp add: keeps_refl)

section \<open>The whole store\<close>

definition store_sound :: "heap \<Rightarrow> store \<Rightarrow> bool" where
  "store_sound h st \<longleftrightarrow> hm_wf (st_items st) \<and> (\<forall>(client, ns) \<in> set (st_items st). ns \<noteq> [] \<and> sound_run h client 0 ns)"

lemma store_sound_ok: "store_sound h st \<Longrightarrow> store_ok h st"
  by (auto simp: store_sound_def store_ok_def sound_run_def)

lemma sound_cells_client:
  assumes "sound_run h client c ns" "a \<in> cells_of ns"
  obtains i where "h_items h a = Some i" "id_client (item_id i) = client"
proof -
  obtain n where n: "n \<in> set ns" "node_cell n = Some a" using assms(2) by (auto simp: cells_of_def)
  from n(2) obtain r where "n = Item r" "somr_ptr r = Some a" by (cases n) (simp_all add: node_cell_def)
  then have r: "Item r \<in> set ns" "somr_ptr r = Some a" using n(1) by simp_all
  then have fit: "node_fits h client (Item r)" using assms(1) by (auto simp: sound_run_def node_sound_def)
  then obtain k x where "somr_ptr r = Some k" "h_items h k = Some x" by (rule node_fits_item)
  then have x: "h_items h a = Some x" using r(2) by simp
  show thesis using that [OF x] fit item_node_facts(5) [OF r(2) x] by simp
qed

text \<open>One client's nodes are replaced by nodes that keep its run.\<close>

lemma store_sound_set:
  assumes "store_sound h st" "map_of (st_items st) client = Some ns" "keeps h client ns h' ns'"
  shows "store_sound h' (set_items client ns' st)" "state_of h' (set_items client ns' st) other = state_of h st other"
proof -
  have mem: "(client, ns) \<in> set (st_items st)" using assms(2) by (rule map_of_SomeD)
  then have ns: "ns \<noteq> []" "sound_run h client 0 ns" using assms(1) by (auto simp: store_sound_def)
  have others: "sound_run h' c 0 ms \<and> run_end h' 0 ms = run_end h 0 ms"
    if cm: "(c, ms) \<in> set (st_items st)" "c \<noteq> client" for c ms
  proof -
    have s: "sound_run h c 0 ms" using assms(1) cm(1) by (auto simp: store_sound_def)
    have "\<forall>a \<in> cells_of ms. same_node_at h h' a"
    proof
      fix a assume a: "a \<in> cells_of ms"
      obtain i where i: "h_items h a = Some i" "id_client (item_id i) = c" using s a by (rule sound_cells_client)
      have "a \<notin> cells_of ns"
      proof
        assume "a \<in> cells_of ns"
        with ns(2) obtain j where "h_items h a = Some j" "id_client (item_id j) = client" by (rule sound_cells_client)
        then show False using i cm(2) by simp
      qed
      then show "same_node_at h h' a" using assms(3) by (simp add: keeps_def)
    qed
    from sound_run_same [OF this] show ?thesis using s by simp
  qed
  show "store_sound h' (set_items client ns' st)"
    using assms(1,3) ns others by (auto simp: store_sound_def set_items_def hm_insert_entries keeps_def)
  show "state_of h' (set_items client ns' st) other = state_of h st other"
  proof (cases "other = client")
    case True
    then show ?thesis using assms(2,3) by (simp add: state_of_def nodes_of_def set_items_def keeps_def)
  next
    case False
    then show ?thesis
      using others by (auto simp: state_of_def nodes_of_def set_items_def split: option.splits dest: map_of_SomeD)
  qed
qed

lemma gc_clients_keeps:
  "gc_clients ds st h = Ok (st', h') \<Longrightarrow> store_sound h st \<Longrightarrow>
   store_sound h' st' \<and> (\<forall>client. state_of h' st' client = state_of h st client)"
proof (induction ds arbitrary: st h)
  case (Cons entry ds)
  obtain client deletes where entry: "entry = (client, deletes)" by fastforce
  show ?case
  proof (cases "order_range_iter deletes")
    case Nil
    then show ?thesis using Cons entry by simp
  next
    case (Cons r rs)
    obtain items ns h1 where 1: "map_of (st_items st) client = Some items" "gc_ranges (r # rs) items h = Ok (ns, h1)"
      "gc_clients ds (set_items client ns st) h1 = Ok (st', h')"
      using Cons.prems(1) entry Cons by (auto simp: outcome_simps simp del: gc_ranges.simps)
    have "sound_run h client 0 items"
      using Cons.prems(2) map_of_SomeD [OF 1(1)] by (auto simp: store_sound_def)
    then have "keeps h client items h1 ns" using gc_ranges_keeps [OF 1(2)] by simp
    note s = store_sound_set [OF Cons.prems(2) 1(1) this]
    show ?thesis using Cons.IH [OF 1(3) s(1)] s(2) by simp
  qed
qed simp

lemma make_clients_keeps:
  "make_clients sv st h = Ok (st', h') \<Longrightarrow> store_sound h st \<Longrightarrow>
   store_sound h' st' \<and> (\<forall>client. state_of h' st' client = state_of h st client)"
proof (induction sv arbitrary: st h)
  case (Cons entry sv)
  obtain client clock where entry: "entry = (client, clock)" by fastforce
  show ?case
  proof (cases "sv_get (st_last_optimized_state st) client = clock")
    case True
    then show ?thesis using Cons entry by (simp add: Let_def)
  next
    case False
    then obtain items f ns h1 where 1: "map_of (st_items st) client = Some items" "items \<noteq> []"
      "make_loop f (length items - 1) items h = Ok (ns, h1)" "make_clients sv (set_items client ns st) h1 = Ok (st', h')"
      using Cons.prems(1) entry by (auto simp: outcome_simps Let_def split: if_splits)
    have s: "sound_run h client 0 items"
      using Cons.prems(2) map_of_SomeD [OF 1(1)] by (auto simp: store_sound_def)
    have "length items - 1 < length items" using 1(2) by simp
    from make_loop_effect [OF 1(3) s this] have "keeps h client items h1 ns" by (auto simp: keeps_def)
    note s = store_sound_set [OF Cons.prems(2) 1(1) this]
    show ?thesis using Cons.IH [OF 1(4) s(1)] s(2) by simp
  qed
qed simp

text \<open>
  C5: Optimizing a store, that is replacing or emptying deleted items and merging neighbours, keeps
  the nodes of every client one run without gap or overlap and does not move any client's state.
\<close>

theorem optimize_keeps_state:
  assumes "optimize st h = Ok (st', h')" "store_sound h st"
  shows "store_sound h' st' \<and> (\<forall>client. get_state h' st' client = get_state h st client)"
proof -
  obtain st1 h1 state st2 where 1: "gc_clients (st_delete_set st) st h = Ok (st1, h1)"
    "make_clients state st1 h1 = Ok (st2, h')" "st' = st2\<lparr>st_last_optimized_state := state\<rparr>"
    using assms(1) by (auto simp: optimize_def gc_delete_set_def make_continuous_def outcome_simps)
  note g = gc_clients_keeps [OF 1(1) assms(2)]
  note m = make_clients_keeps [OF 1(2) conjunct1 [OF g]]
  have s: "store_sound h' st'" "\<And>client. state_of h' st' client = state_of h st client"
    using g m 1(3) by (simp_all add: store_sound_def state_of_def nodes_of_def)
  have "get_state h' st' client = get_state h st client" for client
  proof -
    obtain k where k: "get_state h' st' client = Ok k" "unat k = state_of h' st' client"
      using store_sound_ok [OF s(1)] by (rule get_state_exact)
    obtain l where l: "get_state h st client = Ok l" "unat l = state_of h st client"
      using store_sound_ok [OF assms(2)] by (rule get_state_exact)
    then show ?thesis using k s(2) by (simp add: word_unat_eq_iff)
  qed
  then show ?thesis using s(1) by blast
qed

text \<open>Two neighbouring GC nodes become one; the state stays.\<close>

lemma optimize_keeps_state_witness:
  "store_sound empty_heap ((with_client 1)\<lparr>st_items := [(1, [new_gc (new_id 1 0) 5])], st_last_optimized_state := [(1, 5)]\<rparr>)
   \<and> get_state empty_heap ((with_client 1)\<lparr>st_items := [(1, [new_gc (new_id 1 0) 5])], st_last_optimized_state := [(1, 5)]\<rparr>) 1
     = get_state empty_heap ((with_client 1)\<lparr>st_items := [(1, [new_gc (new_id 1 0) 2, new_gc (new_id 1 2) 3])]\<rparr>) 1"
proof -
  let ?st = "(with_client 1)\<lparr>st_items := [(1, [new_gc (new_id 1 0) 2, new_gc (new_id 1 2) 3])]\<rparr>"
  let ?st' = "(with_client 1)\<lparr>st_items := [(1, [new_gc (new_id 1 0) 5])], st_last_optimized_state := [(1, 5)]\<rparr>"
  let ?ns = "[new_gc (new_id 1 0) 2, new_gc (new_id 1 2) 3]"
  have state: "get_state_vector empty_heap ?st = Ok [(1, 5)]"
    by (simp add: get_state_vector_def with_client_def new_gc_def new_id_def node_end_def node_clock_def add_u64_def)
  have index: "get_node_index empty_heap ?ns 0 = (Ok (Some 0) :: _ codec_result)"
    by (subst get_node_index_exact [where client = 1 and c = 0]) (simp_all add: new_gc_def new_id_def)
  have loop: "make_loop 1 1 ?ns empty_heap = Ok ([new_gc (new_id 1 0) 5], empty_heap)"
    by (simp add: make_loop.simps [of _ "Suc 0"] make_loop.simps [of _ 0] merge_with_lefts_def new_gc_def new_id_def index_node_def drop_node_def add_u64_def)
  have "optimize ?st empty_heap = Ok (?st', empty_heap)"
    using state index loop by (simp add: optimize_def gc_delete_set_def make_continuous_def with_client_def set_items_def Let_def sv_get_def)
  moreover have "store_sound empty_heap ?st"
    by (simp add: store_sound_def hm_wf_def with_client_def sound_run_def node_sound_def new_gc_def new_id_def)
  ultimately show ?thesis using optimize_keeps_state by blast
qed

end
