(* ===== verification/Store_Delete.thy ===== *)
theory Store_Delete
  imports Store_Split
begin

text \<open>
  What deleting an item does to the heap and to the pending delete set: only flags and type lengths
  change, the recorded clocks are those of the items newly marked, and the items inside a newly
  deleted container are deleted too.
\<close>

section \<open>Marking\<close>

definition mark :: "item \<Rightarrow> item" where
  "mark i = i\<lparr>item_flags := flag_set_deleted (item_flags i)\<rparr>"

lemma flag_set_deleted_bit [flag_simps]: "bit (flag_set_deleted w) m \<longleftrightarrow> bit w m \<or> m = 2"
  unfolding flag_set_deleted_def flag_values_push(3) by (simp only: flag_updates) auto

lemma mark_deleted [simp]: "is_item_deleted (mark i)"
  by (simp add: is_item_deleted_def mark_def flag_simps)

lemma mark_keeps [simp]:
  "item_id (mark i) = item_id i" "item_len (mark i) = item_len i" "item_content (mark i) = item_content i"
  "item_left (mark i) = item_left i" "item_right (mark i) = item_right i" "item_parent (mark i) = item_parent i"
  "parent_sub (mark i) = parent_sub i" "is_item_keep (mark i) = is_item_keep i"
  "is_item_countable (mark i) = is_item_countable i"
  by (simp_all add: mark_def item_len_def is_item_keep_def is_item_countable_def flag_simps)

definition deleted_at :: "heap \<Rightarrow> nat \<Rightarrow> bool" where
  "deleted_at h a \<longleftrightarrow> (case h_items h a of Some i \<Rightarrow> is_item_deleted i | None \<Rightarrow> False)"

definition newly :: "heap \<Rightarrow> heap \<Rightarrow> nat set" where
  "newly h h' = {a. h_items h a \<noteq> None \<and> \<not> deleted_at h a \<and> deleted_at h' a}"

text \<open>\<open>h'\<close> is \<open>h\<close> with some items marked and other type lengths.\<close>

definition marks :: "heap \<Rightarrow> heap \<Rightarrow> bool" where
  "marks h h' \<longleftrightarrow>
     h_next h' = h_next h
     \<and> (\<forall>a. h_items h' a = h_items h a \<or> a \<in> newly h h' \<and> h_items h' a = map_option mark (h_items h a))
     \<and> (\<forall>a. map_option (yt_len_update (\<lambda>_. 0)) (h_types h' a) = map_option (yt_len_update (\<lambda>_. 0)) (h_types h a))"

lemma marks_refl [simp]: "marks h h" "newly h h = {}"
  by (auto simp: marks_def newly_def)

lemma marks_deleted: "marks h h' \<Longrightarrow> deleted_at h a \<Longrightarrow> deleted_at h' a"
  unfolding marks_def newly_def deleted_at_def by (auto split: option.splits)

lemma marks_live: "marks h h' \<Longrightarrow> h_items h' a = None \<longleftrightarrow> h_items h a = None"
  unfolding marks_def by (metis option.map_disc_iff)

lemma marks_item:
  assumes "marks h h'" "h_items h a = Some i"
  shows "h_items h' a = Some i \<or> \<not> is_item_deleted i \<and> h_items h' a = Some (mark i)"
  using assms unfolding marks_def newly_def deleted_at_def by (metis (no_types, lifting) mem_Collect_eq option.simps(5,9))

lemma newly_trans:
  assumes "marks h h1" "marks h1 h2"
  shows "newly h h2 = newly h h1 \<union> newly h1 h2"
  using marks_deleted [OF assms(1)] marks_deleted [OF assms(2)] marks_live [OF assms(1)] by (auto simp: newly_def)

lemma marks_trans:
  assumes "marks h h1" "marks h1 h2"
  shows "marks h h2"
  unfolding marks_def
proof (intro conjI allI)
  show "h_next h2 = h_next h" using assms by (simp add: marks_def)
  fix a
  show "map_option (yt_len_update (\<lambda>_. 0)) (h_types h2 a) = map_option (yt_len_update (\<lambda>_. 0)) (h_types h a)"
    using assms by (simp add: marks_def)
  show "h_items h2 a = h_items h a \<or> a \<in> newly h h2 \<and> h_items h2 a = map_option mark (h_items h a)"
  proof (cases "h_items h a")
    case None
    then show ?thesis using marks_live [OF assms(1)] marks_live [OF assms(2)] by simp
  next
    case (Some i)
    from marks_item [OF assms(1) Some] show ?thesis
    proof
      assume "h_items h1 a = Some i"
      from marks_item [OF assms(2) this] show ?thesis
        using Some by (auto simp: newly_def deleted_at_def)
    next
      assume 1: "\<not> is_item_deleted i \<and> h_items h1 a = Some (mark i)"
      then have "h_items h2 a = Some (mark i)" using marks_item [OF assms(2), of a "mark i"] by simp
      then show ?thesis using Some 1 by (simp add: newly_def deleted_at_def)
    qed
  qed
qed

section \<open>The items inside an item\<close>

inductive chain_reach :: "heap \<Rightarrow> somr \<Rightarrow> nat \<Rightarrow> bool" for h where
  chain_here: "somr_ptr r = Some a \<Longrightarrow> h_items h a = Some i \<Longrightarrow> chain_reach h r a"
| chain_next: "somr_ptr r = Some a \<Longrightarrow> h_items h a = Some i \<Longrightarrow> chain_reach h (item_right i) b \<Longrightarrow> chain_reach h r b"

lemma chain_reach_dead: "get_item h r = None \<Longrightarrow> \<not> chain_reach h r b"
  by (auto elim: chain_reach.cases simp: get_item_ptr)

lemma chain_reach_step:
  assumes "somr_ptr r = Some a" "h_items h a = Some i"
  shows "chain_reach h r b \<longleftrightarrow> b = a \<or> chain_reach h (item_right i) b"
  using assms by (auto elim: chain_reach.cases intro: chain_reach.intros)

lemma chain_reach_ptr: "somr_ptr r = somr_ptr s \<Longrightarrow> chain_reach h r b \<Longrightarrow> chain_reach h s b"
  by (erule chain_reach.cases) (auto intro: chain_here chain_next dest: sym)

lemma chain_reach_clone [simp]: "chain_reach h (somr_clone r) b = chain_reach h r b"
  using chain_reach_ptr [of "somr_clone r" r] chain_reach_ptr [of r "somr_clone r"] by auto

definition child :: "heap \<Rightarrow> nat \<Rightarrow> nat \<Rightarrow> bool" where
  "child h a b \<longleftrightarrow>
     (\<exists>i ty t. h_items h a = Some i \<and> item_content i = ContentType ty \<and> get_ty h ty = Some t
        \<and> (chain_reach h (yt_start t) b
           \<or> h_items h b \<noteq> None \<and> (\<exists>k r. (k, r) \<in> set (yt_map t) \<and> somr_ptr r = Some b)))"

lemma marks_chain_reach:
  assumes "marks h h'"
  shows "chain_reach h' r b = chain_reach h r b"
proof
  assume "chain_reach h' r b"
  then show "chain_reach h r b"
  proof induction
    case (chain_here r a i)
    then show ?case using marks_live [OF assms, of a] by (auto intro: chain_reach.chain_here)
  next
    case (chain_next r a i b)
    then obtain j where j: "h_items h a = Some j" using marks_live [OF assms, of a] by auto
    then have "item_right i = item_right j" using marks_item [OF assms j] chain_next(2) by auto
    then show ?case using chain_next j by (auto intro: chain_reach.chain_next)
  qed
next
  assume "chain_reach h r b"
  then show "chain_reach h' r b"
  proof induction
    case (chain_here r a i)
    then show ?case using marks_live [OF assms, of a] by (auto intro: chain_reach.chain_here)
  next
    case (chain_next r a i b)
    from marks_item [OF assms chain_next(2)] obtain j where "h_items h' a = Some j" "item_right j = item_right i" by auto
    then show ?case using chain_next by (auto intro: chain_reach.chain_next)
  qed
qed

lemma marks_type:
  assumes "marks h h'"
  shows "get_ty h' ty = None \<longleftrightarrow> get_ty h ty = None"
    "get_ty h ty = Some t \<Longrightarrow> \<exists>t'. get_ty h' ty = Some t' \<and> yt_start t' = yt_start t \<and> yt_map t' = yt_map t"
proof -
  have m: "map_option (yt_len_update (\<lambda>_. 0)) (get_ty h' ty) = map_option (yt_len_update (\<lambda>_. 0)) (get_ty h ty)"
    using assms by (simp add: marks_def get_ty_def somr_lookup_def split: option.splits)
  then show "get_ty h' ty = None \<longleftrightarrow> get_ty h ty = None" by (metis option.map_disc_iff)
  assume "get_ty h ty = Some t"
  with m obtain t' where "get_ty h' ty = Some t'" "yt_len_update (\<lambda>_. 0) t' = yt_len_update (\<lambda>_. 0) t" by auto
  then show "\<exists>t'. get_ty h' ty = Some t' \<and> yt_start t' = yt_start t \<and> yt_map t' = yt_map t"
    by (intro exI [of _ t']) (cases t; cases t'; simp)
qed

lemma marks_child_imp: "marks h h' \<Longrightarrow> child h a b \<Longrightarrow> child h' a b"
  unfolding child_def
proof (elim exE conjE)
  fix i ty t
  assume m: "marks h h'" and i: "h_items h a = Some i" "item_content i = ContentType ty" "get_ty h ty = Some t"
    "chain_reach h (yt_start t) b \<or> h_items h b \<noteq> None \<and> (\<exists>k r. (k, r) \<in> set (yt_map t) \<and> somr_ptr r = Some b)"
  obtain i' where "h_items h' a = Some i'" "item_content i' = ContentType ty"
    using marks_item [OF m i(1)] i(2) by auto
  moreover obtain t' where "get_ty h' ty = Some t'" "yt_start t' = yt_start t" "yt_map t' = yt_map t"
    using marks_type(2) [OF m i(3)] by blast
  ultimately show "\<exists>i ty t. h_items h' a = Some i \<and> item_content i = ContentType ty \<and> get_ty h' ty = Some t
      \<and> (chain_reach h' (yt_start t) b
         \<or> h_items h' b \<noteq> None \<and> (\<exists>k r. (k, r) \<in> set (yt_map t) \<and> somr_ptr r = Some b))"
    using i(4) marks_chain_reach [OF m] marks_live [OF m, of b] by auto
qed

lemma marks_newly_child:
  assumes "marks h h1" "child h a b"
  shows "child h1 a b"
  using marks_child_imp [OF assms] .

section \<open>The clocks recorded\<close>

definition item_span :: "item \<Rightarrow> (client \<times> clock) set" where
  "item_span i = {(c, k). c = id_client (item_id i)
     \<and> range_contains (mk_range (id_clock (item_id i)) (id_clock (item_id i) + item_len i)) k}"

definition clocks_at :: "heap \<Rightarrow> nat set \<Rightarrow> (client \<times> clock) set" where
  "clocks_at h A = (\<Union>a \<in> A. case h_items h a of Some i \<Rightarrow> item_span i | None \<Rightarrow> {})"

definition pend_clocks :: "pending_deletes \<Rightarrow> (client \<times> clock) set" where
  "pend_clocks ds = {(c, k). \<exists>rs. map_of ds c = Some rs \<and> (\<exists>r \<in> set rs. range_contains r k)}"

lemma pend_clocks_Nil [simp]: "pend_clocks [] = {}"
  by (simp add: pend_clocks_def)

lemma pend_clocks_push: "pend_clocks (push_delete c r ds) = pend_clocks ds \<union> {(x, k). x = c \<and> range_contains r k}"
  by (auto simp: pend_clocks_def push_delete_def split: option.splits if_splits)

lemma clocks_at_simps [simp]: "clocks_at h {} = {}" "clocks_at h (A \<union> B) = clocks_at h A \<union> clocks_at h B"
  by (auto simp: clocks_at_def)

lemma mark_span [simp]: "item_span (mark i) = item_span i"
  by (simp add: item_span_def)

lemma marks_clocks_at: "marks h h' \<Longrightarrow> clocks_at h' A = clocks_at h A"
proof -
  assume m: "marks h h'"
  have "(case h_items h' a of Some i \<Rightarrow> item_span i | None \<Rightarrow> {}) = (case h_items h a of Some i \<Rightarrow> item_span i | None \<Rightarrow> {})" for a
    using marks_item [OF m, of a] marks_live [OF m, of a] by (cases "h_items h a") auto
  then show ?thesis by (simp add: clocks_at_def)
qed

definition pend_ok :: "pending_deletes \<Rightarrow> bool" where
  "pend_ok ds \<longleftrightarrow> hm_wf ds \<and> (\<forall>(c, rs) \<in> set ds. list_all proper rs)"

lemma pend_ok_push: "pend_ok ds \<Longrightarrow> proper r \<Longrightarrow> pend_ok (push_delete c r ds)"
  by (auto simp: pend_ok_def push_delete_def hm_insert_entries split: option.splits dest: map_of_SomeD)

definition del_step :: "heap \<Rightarrow> pending_deletes \<Rightarrow> heap \<Rightarrow> pending_deletes \<Rightarrow> bool" where
  "del_step h ds h' ds' \<longleftrightarrow>
     marks h h' \<and> (pend_ok ds \<longrightarrow> pend_ok ds') \<and> pend_clocks ds' = pend_clocks ds \<union> clocks_at h (newly h h')
     \<and> (\<forall>a \<in> newly h h'. \<forall>b. child h a b \<longrightarrow> deleted_at h' b)"

lemma del_step_refl [simp]: "del_step h ds h ds"
  by (simp add: del_step_def)

lemma del_step_trans:
  assumes "del_step h ds h1 d1" "del_step h1 d1 h2 d2"
  shows "del_step h ds h2 d2"
proof -
  have m: "marks h h1" "marks h1 h2" using assms by (simp_all add: del_step_def)
  note n = newly_trans [OF m]
  have "deleted_at h2 b" if "a \<in> newly h h2" "child h a b" for a b
    using that n assms marks_deleted [OF m(2)] marks_newly_child [OF m(1)] unfolding del_step_def by blast
  then show ?thesis
    using assms n marks_trans [OF m] marks_clocks_at [OF m(1)] by (auto simp: del_step_def)
qed

text \<open>What the recursive call is assumed, and shown, to do.\<close>

definition del_good :: "deleter \<Rightarrow> bool" where
  "del_good del \<longleftrightarrow>
     (\<forall>ds r h ds' h'. del ds r h = Ok (ds', h') \<longrightarrow>
        del_step h ds h' ds' \<and> (\<forall>a. somr_ptr r = Some a \<longrightarrow> deleted_at h' a))"

lemma delete_child_step:
  assumes "del_good del" "delete_child del ds r i h = Ok (ds', h')" "somr_ptr r = Some a" "h_items h a = Some i"
  shows "del_step h ds h' ds'" "deleted_at h' a"
  using assms by (auto simp: delete_child_def del_good_def deleted_at_def split: if_splits)

lemma delete_chain_step:
  assumes "del_good del"
  shows "delete_chain del n ds r h = Ok (ds', h') \<Longrightarrow>
    del_step h ds h' ds' \<and> (\<forall>b. chain_reach h r b \<longrightarrow> deleted_at h' b)"
proof (induction n arbitrary: ds r h)
  case (Suc n)
  show ?case
  proof (cases "get_item h r")
    case None
    then show ?thesis using Suc.prems chain_reach_dead [OF None] by simp
  next
    case (Some i)
    obtain a where a: "somr_ptr r = Some a" "h_items h a = Some i" using Some by (rule get_item_ptrE)
    from Suc.prems Some obtain d1 h1 j where 1: "delete_child del ds r i h = Ok (d1, h1)" "get_item h1 r = Some j"
      "delete_chain del n d1 (somr_clone (item_right j)) h1 = Ok (ds', h')"
      by (auto simp: outcome_simps get_item_unchecked_def)
    note c = delete_child_step [OF assms 1(1) a]
    have m: "marks h h1" using c(1) by (simp add: del_step_def)
    have "item_right j = item_right i" using marks_item [OF m a(2)] 1(2) a(1) by (auto simp: get_item_ptr)
    with Suc.IH [OF 1(3)] have 2: "del_step h1 d1 h' ds'" "\<forall>b. chain_reach h (item_right i) b \<longrightarrow> deleted_at h' b"
      using marks_chain_reach [OF m] by simp_all
    have "deleted_at h' a" using c(2) 2(1) by (auto simp: del_step_def dest: marks_deleted)
    then show ?thesis using del_step_trans [OF c(1) 2(1)] 2(2) chain_reach_step [OF a] by auto
  qed
qed simp

lemma delete_values_step:
  assumes "del_good del"
  shows "delete_values del ds rs h = Ok (ds', h') \<Longrightarrow>
    del_step h ds h' ds' \<and> (\<forall>r \<in> set rs. \<forall>a. somr_ptr r = Some a \<and> h_items h a \<noteq> None \<longrightarrow> deleted_at h' a)"
proof (induction rs arbitrary: ds h)
  case (Cons r rs)
  show ?case
  proof (cases "get_item h r")
    case None
    then show ?thesis using Cons by (auto simp: get_item_ptr)
  next
    case (Some i)
    obtain a where a: "somr_ptr r = Some a" "h_items h a = Some i" using Some by (rule get_item_ptrE)
    from Cons.prems Some obtain d1 h1 where 1: "delete_child del ds r i h = Ok (d1, h1)"
      "delete_values del d1 rs h1 = Ok (ds', h')"
      by (auto simp: outcome_simps)
    note c = delete_child_step [OF assms 1(1) a]
    have m: "marks h h1" using c(1) by (simp add: del_step_def)
    note 2 = Cons.IH [OF 1(2)]
    have "deleted_at h' a" using c(2) 2 by (auto simp: del_step_def dest: marks_deleted)
    then show ?thesis using del_step_trans [OF c(1)] 2 a(1) marks_live [OF m] by auto
  qed
qed simp

lemma delete_children_step:
  assumes "del_good del" "delete_children del ds ty h = Ok (ds', h')"
  shows "del_step h ds h' ds'"
    "get_ty h ty = Some t \<Longrightarrow> chain_reach h (yt_start t) b \<Longrightarrow> deleted_at h' b"
    "get_ty h ty = Some t \<Longrightarrow> h_items h b \<noteq> None \<Longrightarrow> (k, r) \<in> set (yt_map t) \<Longrightarrow> somr_ptr r = Some b \<Longrightarrow> deleted_at h' b"
proof -
  have "del_step h ds h' ds' \<and> (\<forall>t. get_ty h ty = Some t \<longrightarrow>
      (\<forall>b. chain_reach h (yt_start t) b \<longrightarrow> deleted_at h' b)
      \<and> (\<forall>b k r. h_items h b \<noteq> None \<longrightarrow> (k, r) \<in> set (yt_map t) \<longrightarrow> somr_ptr r = Some b \<longrightarrow> deleted_at h' b))"
  proof (cases "get_ty h ty")
    case None
    then show ?thesis using assms(2) by (simp add: delete_children_def)
  next
    case (Some t)
    with assms(2) obtain d1 h1 t1 where 1: "delete_chain del (h_next h + 1) ds (somr_clone (yt_start t)) h = Ok (d1, h1)"
      "get_ty h1 ty = Some t1" "delete_values del d1 (map (somr_clone \<circ> snd) (yt_map t1)) h1 = Ok (ds', h')"
      by (auto simp: delete_children_def outcome_simps)
    note c = delete_chain_step [OF assms(1) 1(1)] and v = delete_values_step [OF assms(1) 1(3)]
    have m: "marks h h1" "marks h1 h'" using c v by (simp_all add: del_step_def)
    have t1: "yt_map t1 = yt_map t" using marks_type(2) [OF m(1) Some] 1(2) by auto
    have "deleted_at h' b" if "h_items h b \<noteq> None" "(k, r) \<in> set (yt_map t)" "somr_ptr r = Some b" for b k r
    proof -
      have "somr_clone r \<in> set (map (somr_clone \<circ> snd) (yt_map t1))" using that(2) t1 by force
      with v have "\<forall>a. somr_ptr (somr_clone r) = Some a \<and> h_items h1 a \<noteq> None \<longrightarrow> deleted_at h' a" by blast
      then show ?thesis using that marks_live [OF m(1), of b] by auto
    qed
    then show ?thesis using Some c v marks_deleted [OF m(2)] by (auto dest: del_step_trans)
  qed
  then show "del_step h ds h' ds'"
    "get_ty h ty = Some t \<Longrightarrow> chain_reach h (yt_start t) b \<Longrightarrow> deleted_at h' b"
    "get_ty h ty = Some t \<Longrightarrow> h_items h b \<noteq> None \<Longrightarrow> (k, r) \<in> set (yt_map t) \<Longrightarrow> somr_ptr r = Some b \<Longrightarrow> deleted_at h' b"
    by blast+
qed

lemma shrink_type_effect:
  assumes "shrink_type p len h = Ok h'"
  shows "h_items h' = h_items h" "h_next h' = h_next h"
    "map_option (yt_len_update (\<lambda>_. 0)) (h_types h' a) = map_option (yt_len_update (\<lambda>_. 0)) (h_types h a)"
  using assms
  by (auto simp: shrink_type_def outcome_simps put_ty_def get_ty_def somr_lookup_def split: option.splits)

lemma adjust_parent_effect:
  assumes "adjust_parent i parent h = Ok h'"
  shows "h_items h' = h_items h" "h_next h' = h_next h"
    "map_option (yt_len_update (\<lambda>_. 0)) (h_types h' a) = map_option (yt_len_update (\<lambda>_. 0)) (h_types h a)"
  using assms
  by (auto simp: adjust_parent_def outcome_simps shrink_type_effect split: if_splits option.splits parent.splits)

lemma delete_self_effect:
  assumes "delete_self ds r (mark i) parent h = Ok (ds', h')" "somr_ptr r = Some a" "h_items h a = Some i"
    "\<not> is_item_deleted i"
  shows "marks h h'" "newly h h' = {a}" "pend_clocks ds' = pend_clocks ds \<union> item_span i" "pend_ok ds \<longrightarrow> pend_ok ds'"
proof -
  let ?h = "h\<lparr>h_items := (h_items h)(a \<mapsto> mark i)\<rparr>"
  from assms(1) obtain e where e: "add_u64 (id_clock (item_id i)) (item_len i) = (Ok e :: _ codec_result)"
    "adjust_parent (mark i) parent ?h = Ok h'"
    "ds' = push_delete (id_client (item_id i)) (mk_range (id_clock (item_id i)) e) ds"
    by (auto simp: delete_self_def outcome_simps Let_def put_item_ptr [OF assms(2)])
  note h' = adjust_parent_effect [OF e(2)]
  show n: "newly h h' = {a}" using h'(1) assms(3,4) by (auto simp: newly_def deleted_at_def split: option.splits if_splits)
  show "marks h h'" unfolding marks_def n using h' assms(3) by simp
  show "pend_clocks ds' = pend_clocks ds \<union> item_span i"
    using e(1,3) by (auto simp: pend_clocks_push item_span_def outcome_simps)
  have "proper (mk_range (id_clock (item_id i)) e)"
    using e(1) by (auto simp: proper_def mk_range_def outcome_simps word_le_nat_alt unat_plus_u64)
  then show "pend_ok ds \<longrightarrow> pend_ok ds'" using e(3) pend_ok_push by simp
qed

lemma delete_item_inner_good: "del_good (\<lambda>ds r h. delete_item_inner fuel ds r parent h)"
proof (induction fuel arbitrary: parent)
  case (Suc fuel)
  show ?case unfolding del_good_def
  proof (intro allI impI)
    fix ds r h ds' h'
    assume run: "delete_item_inner (Suc fuel) ds r parent h = Ok (ds', h')"
    then obtain i where i: "get_item h r = Some i"
      by (auto simp: outcome_simps get_item_unchecked_def)
    obtain a where a: "somr_ptr r = Some a" "h_items h a = Some i" using i by (rule get_item_ptrE)
    show "del_step h ds h' ds' \<and> (\<forall>a. somr_ptr r = Some a \<longrightarrow> deleted_at h' a)"
    proof (cases "is_item_deleted i")
      case True
      then show ?thesis using run i a by (simp add: Item_Model.delete_item_def deleted_at_def)
    next
      case False
      then have di: "Item_Model.delete_item i = (True, mark i)" by (simp add: Item_Model.delete_item_def mark_def)
      have "rbind (delete_self ds r (mark i) parent h) (\<lambda>(ds, h).
         case item_content i of
           ContentType ty \<Rightarrow> delete_children (\<lambda>ds r h. delete_item_inner fuel ds r (Some ty) h) ds ty h
         | _ \<Rightarrow> Ok (ds, h)) = Ok (ds', h')"
        using run i di by simp
      then obtain d1 h1 where 1: "delete_self ds r (mark i) parent h = Ok (d1, h1)"
        "(case item_content i of ContentType ty \<Rightarrow>
            delete_children (\<lambda>ds r h. delete_item_inner fuel ds r (Some ty) h) d1 ty h1 | _ \<Rightarrow> Ok (d1, h1)) = Ok (ds', h')"
        by (auto simp only: rbind_eq_Ok split_paired_all prod.case)
      note s = delete_self_effect [OF 1(1) a False]
      have step: "del_step h1 d1 h' ds'"
        using 1(2) delete_children_step(1) [OF Suc.IH] by (auto split: content.splits)
      have m: "marks h1 h'" using step by (simp add: del_step_def)
      have kids: "deleted_at h' b" if kid: "child h a b" for b
      proof -
        obtain j ty t where k: "h_items h1 a = Some j" "item_content j = ContentType ty" "get_ty h1 ty = Some t"
          "chain_reach h1 (yt_start t) b \<or> h_items h1 b \<noteq> None \<and> (\<exists>k r. (k, r) \<in> set (yt_map t) \<and> somr_ptr r = Some b)"
          using marks_child_imp [OF s(1) kid] unfolding child_def by blast
        have "item_content i = ContentType ty" using marks_item [OF s(1) a(2)] k(1,2) by auto
        then have "delete_children (\<lambda>ds r h. delete_item_inner fuel ds r (Some ty) h) d1 ty h1 = Ok (ds', h')"
          using 1(2) by simp
        from delete_children_step(2,3) [OF Suc.IH this k(3)] k(4) show ?thesis by blast
      qed
      have "deleted_at h1 a" using s(2) by (auto simp: newly_def)
      then have d: "deleted_at h' a" using marks_deleted [OF m] by simp
      have n: "newly h h' = insert a (newly h1 h')" using newly_trans [OF s(1) m] s(2) by simp
      have "deleted_at h' c" if "b \<in> newly h h'" "child h b c" for b c
        using that n kids step marks_newly_child [OF s(1)] by (auto simp: del_step_def)
      moreover have "pend_clocks ds' = pend_clocks ds \<union> clocks_at h (newly h h')"
        using step s(3) n marks_clocks_at [OF s(1)] a(2) by (auto simp: del_step_def clocks_at_def)
      ultimately show ?thesis using marks_trans [OF s(1) m] d a(1) step s(4) by (simp add: del_step_def)
    qed
  qed
qed (simp add: del_good_def)

lemma marks_child:
  assumes "marks h h'"
  shows "child h' a b = child h a b"
proof
  assume "child h' a b"
  then obtain i' ty t' where i': "h_items h' a = Some i'" "item_content i' = ContentType ty" "get_ty h' ty = Some t'"
    "chain_reach h' (yt_start t') b \<or> h_items h' b \<noteq> None \<and> (\<exists>k r. (k, r) \<in> set (yt_map t') \<and> somr_ptr r = Some b)"
    unfolding child_def by blast
  obtain i where i: "h_items h a = Some i" using i'(1) marks_live [OF assms, of a] by auto
  then have "item_content i = ContentType ty" using marks_item [OF assms i] i'(1,2) by auto
  moreover obtain t where t: "get_ty h ty = Some t" using i'(3) marks_type(1) [OF assms, of ty] by auto
  moreover have "yt_start t = yt_start t'" "yt_map t = yt_map t'" using marks_type(2) [OF assms t] i'(3) by auto
  ultimately show "child h a b" using i i'(4) marks_chain_reach [OF assms] marks_live [OF assms, of b]
    unfolding child_def by auto
qed (rule marks_child_imp [OF assms])

section \<open>The delete set\<close>

lemma add_pending_deletes_clocks:
  assumes "pend_ok pending" "ds_proper ds"
  shows "ds_clocks (add_pending_deletes pending ds) c = ds_clocks ds c \<union> {k. (c, k) \<in> pend_clocks pending}
    \<and> ds_proper (add_pending_deletes pending ds)"
  using assms
proof (induction pending arbitrary: ds)
  case (Cons entry pending)
  obtain x rs where entry: "entry = (x, rs)" by fastforce
  have x: "map_of pending x = None" using Cons.prems(1) entry by (auto simp: pend_ok_def hm_wf_def map_of_eq_None_iff)
  have pok: "pend_ok pending" "list_all proper rs" using Cons.prems(1) entry by (auto simp: pend_ok_def hm_wf_def)
  note b = batch_add_ranges_clocks [OF Cons.prems(2) pok(2), of x]
  have IH: "ds_clocks (add_pending_deletes (entry # pending) ds) c
      = ds_clocks (batch_add_ranges x rs ds) c \<union> {k. (c, k) \<in> pend_clocks pending}
    \<and> ds_proper (add_pending_deletes (entry # pending) ds)"
    using Cons.IH [OF pok(1) conjunct2 [OF b]] entry by (simp add: add_pending_deletes_def)
  have "{k. (c, k) \<in> pend_clocks (entry # pending)}
      = (if c = x then clocks_of rs else {}) \<union> {k. (c, k) \<in> pend_clocks pending}"
    using entry x by (auto simp: pend_clocks_def clocks_of_def range_clocks_def range_contains_def)
  then show ?case using IH b by auto
qed (simp add: add_pending_deletes_def)

text \<open>No live item is inside a deleted one.\<close>

definition deleted_closed :: "heap \<Rightarrow> bool" where
  "deleted_closed h \<longleftrightarrow> (\<forall>a b. deleted_at h a \<longrightarrow> child h a b \<longrightarrow> deleted_at h b)"


section \<open>Enough fuel\<close>

definition undeleted :: "heap \<Rightarrow> nat set" where
  "undeleted h = {a. h_items h a \<noteq> None \<and> \<not> deleted_at h a}"

lemma undeleted_fresh: "fresh h \<Longrightarrow> undeleted h \<subseteq> {..<h_next h}"
  by (auto simp: undeleted_def dest: fresh_less)

lemma marks_undeleted: "marks h h' \<Longrightarrow> undeleted h' = undeleted h - newly h h'"
  using marks_live [of h h'] marks_deleted [of h h'] by (auto simp: undeleted_def newly_def)

lemma delete_child_cong:
  assumes "del ds r h = del' ds r h"
  shows "delete_child del ds r i h = delete_child del' ds r i h"
  using assms by (simp add: delete_child_def)

lemma delete_chain_cong:
  assumes "del_good del" "\<And>ds r h2. marks h h2 \<Longrightarrow> del ds r h2 = del' ds r h2"
  shows "delete_chain del k ds r h = delete_chain del' k ds r h"
  using assms(2)
proof (induction k arbitrary: ds r h)
  case (Suc k)
  have step: "rbind (delete_child del ds r i h) f = rbind (delete_child del' ds r i h) g"
    if i: "get_item h r = Some i" and fg: "\<And>d h1. marks h h1 \<Longrightarrow> f (d, h1) = g (d, h1)" for i f g
  proof -
    obtain a where a: "somr_ptr r = Some a" "h_items h a = Some i" using i by (rule get_item_ptrE)
    have eq: "delete_child del ds r i h = delete_child del' ds r i h" by (rule delete_child_cong) (simp add: Suc.prems)
    show ?thesis
    proof (cases "delete_child del ds r i h")
      case (Ok x)
      then obtain d h1 where x: "delete_child del ds r i h = Ok (d, h1)" by (cases x) auto
      have "marks h h1" using delete_child_step(1) [OF assms(1) x a] by (simp add: del_step_def)
      then show ?thesis using x eq fg by simp
    qed (use eq in simp_all)
  qed
  have rest: "delete_chain del k ds r h1 = delete_chain del' k ds r h1" if "marks h h1" for ds r h1
    by (rule Suc.IH) (simp add: Suc.prems marks_trans [OF that])
  show ?case
  proof (cases "get_item h r")
    case (Some i)
    show ?thesis unfolding delete_chain.simps Some option.case
      by (rule step [OF Some]) (simp add: rest)
  qed simp
qed simp

lemma delete_values_cong:
  assumes "del_good del" "\<And>ds r h2. marks h h2 \<Longrightarrow> del ds r h2 = del' ds r h2"
  shows "delete_values del ds rs h = delete_values del' ds rs h"
  using assms(2)
proof (induction rs arbitrary: ds h)
  case (Cons r rs)
  have rest: "delete_values del ds rs h1 = delete_values del' ds rs h1" if "marks h h1" for ds h1
    by (rule Cons.IH) (simp add: Cons.prems marks_trans [OF that])
  show ?case
  proof (cases "get_item h r")
    case None
    then show ?thesis using rest [of h] by simp
  next
    case (Some i)
    obtain a where a: "somr_ptr r = Some a" "h_items h a = Some i" using Some by (rule get_item_ptrE)
    have eq: "delete_child del ds r i h = delete_child del' ds r i h" by (rule delete_child_cong) (simp add: Cons.prems)
    show ?thesis
    proof (cases "delete_child del ds r i h")
      case (Ok x)
      then obtain d h1 where x: "delete_child del ds r i h = Ok (d, h1)" by (cases x) auto
      have "marks h h1" using delete_child_step(1) [OF assms(1) x a] by (simp add: del_step_def)
      then show ?thesis using x eq rest Some by simp
    qed (use eq Some in simp_all)
  qed
qed simp

lemma delete_children_cong:
  assumes "del_good del" "\<And>ds r h2. marks h h2 \<Longrightarrow> del ds r h2 = del' ds r h2"
  shows "delete_children del ds ty h = delete_children del' ds ty h"
proof (cases "get_ty h ty")
  case (Some t)
  have chain: "delete_chain del k ds r h = delete_chain del' k ds r h" for k ds r
    using assms by (rule delete_chain_cong)
  show ?thesis
  proof (cases "delete_chain del (h_next h + 1) ds (somr_clone (yt_start t)) h")
    case (Ok x)
    then obtain d h1 where x: "delete_chain del (h_next h + 1) ds (somr_clone (yt_start t)) h = Ok (d, h1)" by (cases x) auto
    have m: "marks h h1" using delete_chain_step [OF assms(1) x] by (simp add: del_step_def)
    have "delete_values del d rs h1 = delete_values del' d rs h1" for rs
      using assms(1) by (rule delete_values_cong) (simp add: assms(2) marks_trans [OF m])
    then show ?thesis using Some x chain by (simp add: delete_children_def del: delete_chain.simps)
  qed (use Some chain in \<open>simp_all add: delete_children_def del: delete_chain.simps\<close>)
qed (simp add: delete_children_def)

lemma delete_item_inner_fuel:
  "finite (undeleted h) \<Longrightarrow> card (undeleted h) < n \<Longrightarrow> card (undeleted h) < m \<Longrightarrow>
   delete_item_inner n ds r parent h = delete_item_inner m ds r parent h"
proof (induction n arbitrary: m ds r parent h)
  case (Suc n)
  obtain k where k: "m = Suc k" using Suc.prems(3) by (cases m) auto
  show ?case
  proof (cases "get_item h r")
    case (Some i)
    obtain a where a: "somr_ptr r = Some a" "h_items h a = Some i" using Some by (rule get_item_ptrE)
    show ?thesis
    proof (cases "is_item_deleted i")
      case True
      then show ?thesis using Some k by (simp add: Item_Model.delete_item_def)
    next
      case False
      then have di: "Item_Model.delete_item i = (True, mark i)" by (simp add: Item_Model.delete_item_def mark_def)
      have kids: "delete_children (\<lambda>ds r h. delete_item_inner n ds r (Some ty) h) d ty h1
          = delete_children (\<lambda>ds r h. delete_item_inner k ds r (Some ty) h) d ty h1"
        if s: "delete_self ds r (mark i) parent h = Ok (d, h1)" for d h1 ty
      proof (rule delete_children_cong [OF delete_item_inner_good])
        fix ds r h2
        assume m: "marks h1 h2"
        note e = delete_self_effect [OF s a False]
        have "undeleted h2 \<subseteq> undeleted h - {a}" using marks_undeleted [OF m] marks_undeleted [OF e(1)] e(2) by auto
        moreover have "a \<in> undeleted h" using a(2) False by (simp add: undeleted_def deleted_at_def)
        ultimately have "finite (undeleted h2)" "card (undeleted h2) < card (undeleted h)"
          using Suc.prems(1) by (auto intro: finite_subset psubset_card_mono)
        then show "delete_item_inner n ds r (Some ty) h2 = delete_item_inner k ds r (Some ty) h2"
          using Suc.prems(2,3) k by (intro Suc.IH) auto
      qed
      show ?thesis
      proof (cases "delete_self ds r (mark i) parent h")
        case (Ok x)
        then obtain d h1 where "delete_self ds r (mark i) parent h = Ok (d, h1)" by (cases x) auto
        then show ?thesis using Some k di kids by (simp split: content.splits)
      qed (use Some k di in simp_all)
    qed
  qed (use k in \<open>simp add: get_item_unchecked_def\<close>)
qed simp


definition plain_item :: item where
  "plain_item = default_item\<lparr>item_id := new_id 3 5, item_content := ContentJson [None, None]\<rparr>"

definition plain_heap :: heap where "plain_heap = snd (new_item_ref plain_item empty_heap)"

lemma plain_heap_cells [simp]:
  "h_items plain_heap a = (if a = 0 then Some plain_item else None)" "h_next plain_heap = 1"
  by (simp_all add: plain_heap_def new_item_ref_def empty_heap_def)

lemma plain_item_facts [simp]:
  "item_id plain_item = new_id 3 5" "item_content plain_item = ContentJson [None, None]" "item_len plain_item = 2"
  "\<not> is_item_deleted plain_item" "\<not> is_item_countable plain_item" "item_parent plain_item = None"
  by (simp_all add: plain_item_def default_item_def item_len_def is_item_deleted_def is_item_countable_def flag_simps)



end
