(* ===== verification/Store_Chain.thy ===== *)
theory Store_Chain
  imports Store_Delete
begin

text \<open>
  Integrating an item into the chain of a list or text type: the chain is seen as a list of cells,
  and the insertion puts the new cell between two of them.
\<close>

section \<open>Doubly linked lists\<close>

text \<open>
  \<open>R\<close> and \<open>L\<close> are the right and left neighbours, \<open>p\<close> the cell before the list and \<open>c\<close> its first cell.
\<close>

fun linked :: "(nat \<Rightarrow> nat option) \<Rightarrow> (nat \<Rightarrow> nat option) \<Rightarrow> nat option \<Rightarrow> nat option \<Rightarrow> nat list \<Rightarrow> bool" where
  "linked R L p c [] \<longleftrightarrow> c = None"
| "linked R L p c (x # xs) \<longleftrightarrow> c = Some x \<and> L x = p \<and> linked R L (Some x) (R x) xs"

definition first :: "nat list \<Rightarrow> nat option" where
  "first xs = (case xs of [] \<Rightarrow> None | x # _ \<Rightarrow> Some x)"

definition last_or :: "nat option \<Rightarrow> nat list \<Rightarrow> nat option" where
  "last_or p xs = (if xs = [] then p else Some (last xs))"

lemma first_simps [simp]: "first [] = None" "first (x # xs) = Some x"
  by (simp_all add: first_def)

lemma last_or_simps [simp]: "last_or p [] = p" "last_or p (x # xs) = last_or (Some x) xs" "last_or p (xs @ [x]) = Some x"
  by (simp_all add: last_or_def)

lemma linked_first: "linked R L p c xs \<Longrightarrow> c = first xs"
  by (cases xs) auto

lemma linked_cong:
  "linked R L p c xs \<Longrightarrow> (\<And>x. x \<in> set xs \<Longrightarrow> R' x = R x \<and> L' x = L x) \<Longrightarrow> linked R' L' p c xs"
  by (induction xs arbitrary: p c) auto

lemma linked_unique: "linked R L p c xs \<Longrightarrow> linked R L q c ys \<Longrightarrow> xs = ys"
proof (induction xs arbitrary: p q c ys)
  case Nil
  then show ?case by (cases ys) auto
next
  case (Cons x xs)
  then show ?case by (cases ys) auto
qed

lemma linked_suffix: "linked R L p c (xs @ ys) \<Longrightarrow> linked R L (last_or p xs) (first ys) ys"
  by (induction xs arbitrary: p c) (auto dest: linked_first)

lemma linked_distinct: "linked R L p c xs \<Longrightarrow> distinct xs"
proof (induction xs arbitrary: p c)
  case (Cons x xs)
  have "x \<notin> set xs"
  proof
    assume "x \<in> set xs"
    then obtain ys zs where xs: "xs = ys @ x # zs" by (meson split_list)
    have "linked R L (last_or p (x # ys)) (Some x) (x # zs)"
      using linked_suffix [of R L p c "x # ys" "x # zs"] Cons.prems xs by simp
    then have "x # xs = x # zs" using Cons.prems linked_unique by (metis linked.simps(2))
    then show False using xs by simp
  qed
  then show ?case using Cons by auto
qed simp

lemma linked_at:
  assumes "linked R L p c (xs @ x # ys)"
  shows "R x = first ys" "L x = last_or p xs"
  using linked_suffix [OF assms] linked_first [of R L "Some x" "R x" ys] by auto

text \<open>Putting a new cell between two of the list.\<close>

lemma linked_insert:
  assumes "linked R L p c (xs @ ys)" "a \<notin> set (xs @ ys)"
    and "\<And>x. x \<in> set (xs @ ys) \<Longrightarrow> R' x = (if last_or None xs = Some x then Some a else R x)"
    and "\<And>x. x \<in> set (xs @ ys) \<Longrightarrow> L' x = (if first ys = Some x then Some a else L x)"
    and "R' a = first ys" "L' a = last_or p xs" "c' = (if xs = [] then Some a else c)"
  shows "linked R' L' p c' (xs @ a # ys)"
  using assms
proof (induction xs arbitrary: p c c')
  case Nil
  have "linked R' L' (Some a) (first ys) ys"
  proof (cases ys)
    case (Cons y zs)
    have d: "distinct ys" using Nil.prems(1) linked_distinct by auto
    have "linked R L (Some y) (R y) zs" using Nil.prems(1) Cons by simp
    then have "linked R' L' (Some y) (R y) zs"
      by (rule linked_cong) (use Nil.prems(3,4) Cons d in auto)
    then show ?thesis using Nil.prems(3,4) Cons by simp
  qed simp
  then show ?case using Nil.prems(5-7) by simp
next
  case (Cons x xs)
  have d: "distinct (x # xs @ ys)" using linked_distinct [OF Cons.prems(1)] by simp
  have "linked R' L' (Some x) (R' x) (xs @ a # ys)"
  proof (rule Cons.IH)
    show "linked R L (Some x) (R x) (xs @ ys)" using Cons.prems(1) by simp
    show "R' x = (if xs = [] then Some a else R x)" using Cons.prems(3) [of x] d by (auto simp: last_or_def)
    show "R' z = (if last_or None xs = Some z then Some a else R z)" if "z \<in> set (xs @ ys)" for z
      using Cons.prems(3) [of z] that d by (auto simp: last_or_def)
    show "L' z = (if first ys = Some z then Some a else L z)" if "z \<in> set (xs @ ys)" for z
      using Cons.prems(4) [of z] that by simp
  qed (use Cons.prems in auto)
  moreover have "L' x = p" using Cons.prems(1,4) d by (cases ys) auto
  ultimately show ?case using Cons.prems(1,7) by simp
qed

section \<open>The chain in the heap\<close>

definition live :: "heap \<Rightarrow> somr \<Rightarrow> nat option" where
  "live h r = (if get_item h r = None then None else somr_ptr r)"

definition rt :: "heap \<Rightarrow> nat \<Rightarrow> nat option" where
  "rt h a = (case h_items h a of Some i \<Rightarrow> live h (item_right i) | None \<Rightarrow> None)"

definition lf :: "heap \<Rightarrow> nat \<Rightarrow> nat option" where
  "lf h a = (case h_items h a of Some i \<Rightarrow> live h (item_left i) | None \<Rightarrow> None)"

definition chain :: "heap \<Rightarrow> ytype \<Rightarrow> nat list \<Rightarrow> bool" where
  "chain h t cs \<longleftrightarrow> linked (rt h) (lf h) None (live h (yt_start t)) cs"

lemma live_clone [simp]: "live h (somr_clone r) = live h r"
  by (simp add: live_def heap_simps)

lemma live_SNone [simp]: "live h SNone = None"
  by (simp add: live_def heap_simps)

lemma live_Some: "live h r = Some a \<longleftrightarrow> somr_ptr r = Some a \<and> h_items h a \<noteq> None"
  by (auto simp: live_def get_item_def somr_lookup_def split: option.splits)

lemma live_None: "live h r = None \<longleftrightarrow> get_item h r = None"
  by (auto simp: live_def get_item_def somr_lookup_def split: option.splits)

lemma live_cong: "(\<And>x. h_items h' x = None \<longleftrightarrow> h_items h x = None) \<Longrightarrow> live h' r = live h r"
  by (cases "somr_ptr r") (simp_all add: live_def get_item_def somr_lookup_def)

lemma linked_live:
  "linked (rt h) L p c cs \<Longrightarrow> (\<And>x. c = Some x \<Longrightarrow> h_items h x \<noteq> None) \<Longrightarrow> x \<in> set cs \<Longrightarrow> h_items h x \<noteq> None"
proof (induction cs arbitrary: p c)
  case (Cons y ys)
  show ?case
  proof (cases "x = y")
    case False
    have "h_items h z \<noteq> None" if "rt h y = Some z" for z
      using that by (auto simp: rt_def live_Some split: option.splits)
    then show ?thesis using Cons.IH [of "Some y" "rt h y"] Cons.prems False by auto
  qed (use Cons.prems in auto)
qed simp

lemma chain_live: "chain h t cs \<Longrightarrow> x \<in> set cs \<Longrightarrow> h_items h x \<noteq> None"
  unfolding chain_def by (erule linked_live) (auto simp: live_Some)

section \<open>Inserting\<close>

text \<open>
  The heap after the item \<open>this\<close> of cell \<open>a\<close> has been put between the cells \<open>lo\<close> and \<open>ro\<close>, where \<open>right\<close>
  is the pointer found at the right of \<open>lo\<close>.
\<close>

definition relink :: "nat \<Rightarrow> item \<Rightarrow> nat option \<Rightarrow> nat option \<Rightarrow> somr \<Rightarrow> heap \<Rightarrow> nat \<Rightarrow> item option" where
  "relink a this lo ro right h =
     (\<lambda>x. if x = a then Some (this\<lparr>item_left := (case lo of Some l \<Rightarrow> SRef l | None \<Rightarrow> SNone), item_right := somr_clone right\<rparr>)
          else map_option (\<lambda>i. i\<lparr>item_left := (if ro = Some x then SRef a else item_left i),
                                 item_right := (if lo = Some x then SRef a else item_right i)\<rparr>) (h_items h x))"

definition right_of :: "heap \<Rightarrow> ytype \<Rightarrow> nat option \<Rightarrow> somr" where
  "right_of h t lo = (case lo of Some l \<Rightarrow> (case h_items h l of Some i \<Rightarrow> somr_clone (item_right i) | None \<Rightarrow> SNone) | None \<Rightarrow> yt_start t)"

definition started :: "nat \<Rightarrow> nat option \<Rightarrow> ytype \<Rightarrow> ytype" where
  "started a lo t = (if lo = None then t\<lparr>yt_start := SRef a\<rparr> else t)"

lemma h_put_ty [simp]: "h_items (put_ty p t h) = h_items h"
  by (simp_all add: put_ty_def split: option.splits)

lemma get_put_ty [simp]: "get_ty h p \<noteq> None \<Longrightarrow> get_ty (put_ty p t h) p = Some t"
  by (auto simp: put_ty_def get_ty_def somr_lookup_def split: option.splits)

lemma put_put_ty [simp]: "put_ty p t (put_ty p t' h) = put_ty p t h"
  by (auto simp: put_ty_def split: option.splits)

lemma put_ty_same [simp]: "get_ty h p = Some t \<Longrightarrow> put_ty p t h = h"
  by (auto simp: put_ty_def get_ty_def somr_lookup_def fun_upd_idem split: option.splits)

lemma get_ty_items [simp]: "get_ty (h\<lparr>h_items := m\<rparr>) p = get_ty h p"
  by (simp add: get_ty_def)

lemma put_ty_items: "put_ty p t (h\<lparr>h_items := m\<rparr>) = (put_ty p t h)\<lparr>h_items := m\<rparr>"
  by (simp add: put_ty_def split: option.splits)

lemma connect_left_effect:
  assumes "somr_ptr r = Some a" "h_items h a = Some this" "parent_sub this = None" "get_ty h pr = Some t"
    and "live h left \<noteq> Some a"
  shows "connect_left r pr left h = Ok (right_of h t (live h left),
    (put_ty pr (started a (live h left) t) h)
      \<lparr>h_items := (case live h left of
          Some l \<Rightarrow> (h_items h)(l := map_option (\<lambda>i. i\<lparr>item_right := SRef a\<rparr>) (h_items h l), a \<mapsto> this\<lparr>item_left := SRef l\<rparr>)
        | None \<Rightarrow> (h_items h)(a \<mapsto> this\<lparr>item_left := SNone\<rparr>))\<rparr>)"
proof (cases "get_item h left")
  case None
  then have l: "live h left = None" by (simp add: live_None)
  have clone: "somr_clone r = SRef a" using assms(1) by (rule somr_clone_eq)
  have p: "h_items (put_ty pr (t\<lparr>yt_start := SRef a\<rparr>) h) a = Some this" using assms(2) by simp
  show ?thesis using assms None l clone
    by (simp add: connect_left_def get_item_ptr right_of_def started_def upd_item_ok [OF assms(1) p])
next
  case (Some i)
  obtain l where l: "somr_ptr left = Some l" "h_items h l = Some i" using Some by (rule get_item_ptrE)
  then have live: "live h left = Some l" by (simp add: live_Some)
  then have "l \<noteq> a" using assms(5) by simp
  have clone: "somr_clone r = SRef a" "somr_clone left = SRef l" using assms(1) l(1) by (simp_all add: somr_clone_eq)
  show ?thesis using assms Some l live clone \<open>l \<noteq> a\<close>
    by (simp add: connect_left_def get_item_ptr right_of_def started_def upd_item_ok)
qed

lemma connect_right_effect:
  assumes "somr_ptr r = Some a" "h_items h a = Some this" "parent_sub this = None" "get_ty h pr = Some t"
    and "live h right \<noteq> Some a"
  shows "connect_right r pr right st h = Ok (st, h\<lparr>h_items :=
      (case live h right of
         Some x \<Rightarrow> (h_items h)(x := map_option (\<lambda>i. i\<lparr>item_left := SRef a\<rparr>) (h_items h x), a \<mapsto> this\<lparr>item_right := somr_clone right\<rparr>)
       | None \<Rightarrow> (h_items h)(a \<mapsto> this\<lparr>item_right := somr_clone right\<rparr>))\<rparr>)"
proof (cases "get_item h right")
  case None
  then have l: "live h right = None" by (simp add: live_None)
  show ?thesis using assms None l by (simp add: connect_right_def get_item_ptr upd_item_ok)
next
  case (Some i)
  obtain x where x: "somr_ptr right = Some x" "h_items h x = Some i" using Some by (rule get_item_ptrE)
  then have live: "live h right = Some x" by (simp add: live_Some)
  then have "x \<noteq> a" using assms(5) by simp
  have clone: "somr_clone r = SRef a" using assms(1) by (rule somr_clone_eq)
  show ?thesis using assms Some x live clone \<open>x \<noteq> a\<close>
    by (simp add: connect_right_def get_item_ptr upd_item_ok)
qed

lemma connect_effect:
  assumes "somr_ptr r = Some a" "h_items h a = Some this" "parent_sub this = None" "get_ty h pr = Some t"
    and "live h left = lo" "right = right_of h t lo" "lo \<noteq> Some a" "live h right \<noteq> Some a"
    and "lo = None \<or> live h right \<noteq> lo"
  shows "rbind (connect_left r pr left h) (\<lambda>(right, h). rbind (connect_right r pr right st h) f)
    = f (st, (put_ty pr (started a lo t) h)\<lparr>h_items := relink a this lo (live h right) right h\<rparr>)"
proof -
  define h1 where "h1 = (put_ty pr (started a lo t) h)
      \<lparr>h_items := (case lo of
          Some l \<Rightarrow> (h_items h)(l := map_option (\<lambda>i. i\<lparr>item_right := SRef a\<rparr>) (h_items h l), a \<mapsto> this\<lparr>item_left := SRef l\<rparr>)
        | None \<Rightarrow> (h_items h)(a \<mapsto> this\<lparr>item_left := SNone\<rparr>))\<rparr>"
  define this1 where "this1 = this\<lparr>item_left := (case lo of Some l \<Rightarrow> SRef l | None \<Rightarrow> SNone)\<rparr>"
  have left: "connect_left r pr left h = Ok (right, h1)"
    using connect_left_effect [OF assms(1-4)] assms(5-7) by (simp add: h1_def)
  have a1: "h_items h1 a = Some this1" using assms(7) by (auto simp: h1_def this1_def split: option.splits)
  have dom: "h_items h1 x = None \<longleftrightarrow> h_items h x = None" for x
    using assms(2) by (auto simp: h1_def split: option.splits)
  have live: "live h1 q = live h q" for q by (rule live_cong) (rule dom)
  have ty: "get_ty h1 pr = Some (started a lo t)" using assms(4) by (simp add: h1_def)
  have sub: "parent_sub this1 = None" using assms(3) by (simp add: this1_def)
  note right = connect_right_effect [OF assms(1) a1 sub ty, unfolded live, OF assms(8)]
  have "(case live h right of
         Some x \<Rightarrow> (h_items h1)(x := map_option (\<lambda>i. i\<lparr>item_left := SRef a\<rparr>) (h_items h1 x), a \<mapsto> this1\<lparr>item_right := somr_clone right\<rparr>)
       | None \<Rightarrow> (h_items h1)(a \<mapsto> this1\<lparr>item_right := somr_clone right\<rparr>)) = relink a this lo (live h right) right h"
    using assms(7-9)
    by (auto simp: relink_def h1_def this1_def fun_eq_iff option.map_comp comp_def option.map_ident split: option.splits)
  then show ?thesis using left right by (simp add: h1_def)
qed

definition linked_heap :: "nat \<Rightarrow> item \<Rightarrow> ytype_ref \<Rightarrow> ytype \<Rightarrow> nat list \<Rightarrow> heap \<Rightarrow> heap" where
  "linked_heap a this pr t xs h =
     (let lo = last_or None xs; right = right_of h t lo
      in (put_ty pr (started a lo t) h)\<lparr>h_items := relink a this lo (live h right) right h\<rparr>)"

lemma chain_at:
  assumes "chain h t (xs @ ys)"
  shows "live h (right_of h t (last_or None xs)) = first ys"
proof (cases xs rule: rev_cases)
  case Nil
  then show ?thesis using linked_first [OF assms [unfolded chain_def]] by (simp add: right_of_def)
next
  case (snoc zs x)
  have "rt h x = first ys" using linked_at(1) [of "rt h" "lf h" None "live h (yt_start t)" zs x ys] assms snoc
    by (simp add: chain_def)
  then show ?thesis using snoc by (auto simp: right_of_def rt_def split: option.splits)
qed

lemma last_or_in: "last_or None xs = Some x \<Longrightarrow> x \<in> set xs"
  by (auto simp: last_or_def split: if_splits)

lemma first_in: "first xs = Some x \<Longrightarrow> x \<in> set xs"
  by (cases xs) auto

lemma linked_heap_facts:
  assumes "h_items h a = Some this" "get_ty h pr = Some t" "chain h t (xs @ ys)" "a \<notin> set (xs @ ys)"
  shows "live (linked_heap a this pr t xs h) q = live h q"
    "get_ty (linked_heap a this pr t xs h) pr = Some (started a (last_or None xs) t)"
    "chain (linked_heap a this pr t xs h) (started a (last_or None xs) t) (xs @ a # ys)"
proof -
  let ?lo = "last_or None xs" and ?h = "linked_heap a this pr t xs h"
  let ?right = "right_of h t ?lo"
  have right: "live h ?right = first ys" using assms(3) by (rule chain_at)
  have dom: "h_items ?h x = None \<longleftrightarrow> h_items h x = None" for x
    using assms(1) by (simp add: linked_heap_def relink_def Let_def)
  show live: "live ?h q = live h q" for q by (rule live_cong) (rule dom)
  show ty: "get_ty ?h pr = Some (started a ?lo t)" using assms(2) by (simp add: linked_heap_def Let_def)
  have cells: "h_items ?h a = Some (this\<lparr>item_left := (case ?lo of Some l \<Rightarrow> SRef l | None \<Rightarrow> SNone), item_right := somr_clone ?right\<rparr>)"
    "x \<noteq> a \<Longrightarrow> h_items ?h x = map_option (\<lambda>i. i\<lparr>item_left := (if first ys = Some x then SRef a else item_left i),
                                 item_right := (if ?lo = Some x then SRef a else item_right i)\<rparr>) (h_items h x)" for x
    using right by (simp_all add: linked_heap_def relink_def Let_def)
  have la: "live h (SRef a) = Some a" using assms(1) by (simp add: live_Some)
  have lo: "live h (case ?lo of Some l \<Rightarrow> SRef l | None \<Rightarrow> SNone) = ?lo"
    using chain_live [OF assms(3)] last_or_in [of xs] by (auto simp: live_Some split: option.splits)
  have R: "rt ?h x = (if ?lo = Some x then Some a else rt h x)" and L: "lf ?h x = (if first ys = Some x then Some a else lf h x)"
    if "x \<in> set (xs @ ys)" for x
  proof -
    have x: "x \<noteq> a" using that assms(4) by auto
    have "h_items h x \<noteq> None" using assms(3) that by (rule chain_live)
    then obtain i where i: "h_items h x = Some i" by auto
    show "rt ?h x = (if ?lo = Some x then Some a else rt h x)" "lf ?h x = (if first ys = Some x then Some a else lf h x)"
      using i cells(2) [OF x] la by (simp_all add: rt_def lf_def live)
  qed
  have "linked (rt ?h) (lf ?h) None (live ?h (yt_start (started a ?lo t))) (xs @ a # ys)"
  proof (rule linked_insert [where R = "rt h" and L = "lf h" and c = "live h (yt_start t)"])
    show "linked (rt h) (lf h) None (live h (yt_start t)) (xs @ ys)" using assms(3) by (simp add: chain_def)
    show "rt ?h a = first ys" using cells(1) right by (simp add: rt_def live)
    show "lf ?h a = ?lo" using cells(1) lo by (simp add: lf_def live)
    show "live ?h (yt_start (started a ?lo t)) = (if xs = [] then Some a else live h (yt_start t))"
      unfolding live using la by (simp add: started_def last_or_def)
  qed (use assms(4) R L in auto)
  then show "chain ?h (started a ?lo t) (xs @ a # ys)" by (simp add: chain_def)
qed

lemma insert_item_settles:
  assumes "somr_ptr r = Some a" "h_items h a = Some this" "parent_sub this = None" "get_ty h pr = Some t"
    and "chain h t (xs @ ys)" "a \<notin> set (xs @ ys)"
    and "find_left r pr h = Ok left" "live h left = last_or None xs"
  shows "insert_item r pr st h = settle r pr st (linked_heap a this pr t xs h)"
proof -
  let ?lo = "last_or None xs"
  have right: "live h (right_of h t ?lo) = first ys" using assms(5) by (rule chain_at)
  have ne: "?lo \<noteq> Some a" "first ys \<noteq> Some a" using assms(6) last_or_in first_in by auto
  have d: "distinct (xs @ ys)" using assms(5) linked_distinct unfolding chain_def by blast
  have sep: "?lo = None \<or> first ys \<noteq> ?lo"
    using d last_or_in [of xs] first_in [of ys] by (cases ?lo) auto
  have "insert_item r pr st h = rbind (connect_left r pr left h) (\<lambda>(right, h).
      rbind (connect_right r pr right st h) (\<lambda>(st, h). settle r pr st h))"
    using assms(7) by (simp add: insert_item_def)
  also have "\<dots> = settle r pr st (linked_heap a this pr t xs h)"
    using connect_effect [OF assms(1-4) assms(8) refl ne(1), unfolded right, OF ne(2) sep, of st "\<lambda>(st, h). settle r pr st h"] right
    by (simp add: linked_heap_def Let_def)
  finally show ?thesis .
qed

section \<open>Where the new item goes\<close>

text \<open>The search only ever stops after the left neighbour or after an item of the chain.\<close>

lemma scan_conflicts_stays:
  "scan_conflicts fuel h this right conflict left conflicting before = Ok l \<Longrightarrow>
   linked (rt h) L p (live h conflict) ys \<Longrightarrow>
   live h l = live h left \<or> (\<exists>x \<in> set ys. live h l = Some x)"
proof (induction fuel arbitrary: conflict left conflicting before p ys)
  case (Suc fuel)
  show ?case
  proof (cases "get_item h conflict")
    case None
    then show ?thesis using Suc.prems(1) by simp
  next
    case (Some c)
    obtain x where x: "somr_ptr conflict = Some x" "h_items h x = Some c" using Some by (rule get_item_ptrE)
    then have live: "live h conflict = Some x" by (simp add: live_Some)
    then obtain zs where ys: "ys = x # zs" using Suc.prems(2) by (cases ys) auto
    have zs: "linked (rt h) L (Some x) (live h (somr_clone (item_right c))) zs"
    proof -
      have "rt h x = live h (item_right c)" using x(2) by (simp add: rt_def)
      then show ?thesis using Suc.prems(2) ys by simp
    qed
    show ?thesis
      using Suc.prems(1) Some Suc.IH [OF _ zs] live ys
      by (auto simp: Let_def split: if_splits option.splits)
  qed
qed simp

definition needs_scan :: "heap \<Rightarrow> item \<Rightarrow> bool" where
  "needs_scan h this \<longleftrightarrow>
     (case get_item h (item_left this) of
        None \<Rightarrow> (case get_item h (item_right this) of None \<Rightarrow> True | Some r \<Rightarrow> get_item h (item_left r) \<noteq> None)
      | Some l \<Rightarrow> \<not> item_ref_eq h (item_right l) (somr_clone (item_right this)))"

definition first_conflict :: "heap \<Rightarrow> item \<Rightarrow> ytype \<Rightarrow> somr" where
  "first_conflict h this t =
     (case get_item h (item_left this) of Some l \<Rightarrow> somr_clone (item_right l) | None \<Rightarrow> somr_clone (yt_start t))"

lemma find_left_list:
  assumes "somr_ptr r = Some a" "h_items h a = Some this" "parent_sub this = None" "get_ty h pr = Some t"
  shows "find_left r pr h =
    (if needs_scan h this
     then scan_conflicts (h_next h + 1) h this (somr_clone (item_right this)) (first_conflict h this t)
            (somr_clone (item_left this)) {} {}
     else Ok (somr_clone (item_left this)))"
  using assms
  by (cases "get_item h (item_left this)")
    (simp_all add: find_left_def get_item_ptr needs_scan_def first_conflict_def heap_simps Let_def
      del: scan_conflicts.simps)

lemma find_left_stays:
  assumes "somr_ptr r = Some a" "h_items h a = Some this" "parent_sub this = None" "get_ty h pr = Some t"
    and "chain h t cs" "live h (item_left this) = None \<or> (\<exists>x \<in> set cs. live h (item_left this) = Some x)"
    and "find_left r pr h = Ok left"
  shows "live h left = None \<or> (\<exists>x \<in> set cs. live h left = Some x)"
proof -
  let ?l = "somr_clone (item_left this)" and ?right = "somr_clone (item_right this)"
  let ?conflict = "first_conflict h this t"
  have "left = ?l \<or> scan_conflicts (h_next h + 1) h this ?right ?conflict ?l {} {} = (Ok left :: _ codec_result)"
    using assms(7) unfolding find_left_list [OF assms(1-4)] by (auto split: if_splits simp del: scan_conflicts.simps)
  then show ?thesis
  proof
    assume "left = ?l"
    then show ?thesis using assms(6) by simp
  next
    assume scan: "scan_conflicts (h_next h + 1) h this ?right ?conflict ?l {} {} = (Ok left :: _ codec_result)"
    obtain zs p where zs: "linked (rt h) (lf h) p (live h ?conflict) zs" "set zs \<subseteq> set cs"
    proof (cases "get_item h (item_left this)")
      case None
      then show thesis using assms(5) that [of None cs] by (simp add: chain_def first_conflict_def)
    next
      case (Some i)
      then have "live h (item_left this) \<noteq> None" by (simp add: live_None)
      then obtain x where x: "x \<in> set cs" "live h (item_left this) = Some x" using assms(6) by auto
      obtain us ws where cs: "cs = us @ x # ws" using split_list [OF x(1)] by blast
      have lk: "linked (rt h) (lf h) (last_or None us) (Some x) (x # ws)"
        using linked_suffix [of "rt h" "lf h" None "live h (yt_start t)" us "x # ws"] assms(5) cs by (simp add: chain_def)
      have "h_items h x = Some i" using Some x(2) by (auto simp: live_Some get_item_ptr)
      then have "live h ?conflict = rt h x" using Some by (simp add: rt_def first_conflict_def)
      then show thesis using lk cs that [of "Some x" ws] by auto
    qed
    from scan_conflicts_stays [OF scan zs(1)] show ?thesis using assms(6) zs(2) by auto
  qed
qed

section \<open>Integration\<close>

lemma marks_chain:
  assumes "marks h h'" "chain h t cs" "get_ty h p = Some t"
  obtains t' where "get_ty h' p = Some t'" "chain h' t' cs"
proof -
  have live: "live h' q = live h q" for q by (rule live_cong) (rule marks_live [OF assms(1)])
  have "rt h' x = rt h x \<and> lf h' x = lf h x" for x
  proof (cases "h_items h x")
    case None
    then show ?thesis using marks_live [OF assms(1), of x] by (simp add: rt_def lf_def)
  next
    case (Some i)
    then show ?thesis using marks_item [OF assms(1) Some] by (auto simp: rt_def lf_def live)
  qed
  then have eq: "rt h' = rt h" "lf h' = lf h" by auto
  obtain t' where "get_ty h' p = Some t'" "yt_start t' = yt_start t" using marks_type(2) [OF assms(1,3)] by blast
  then show thesis using that [of t'] assms(2) by (simp add: chain_def eq live)
qed

lemma put_ty_chain [simp]: "chain (put_ty p t' h) t cs \<longleftrightarrow> chain h t cs" "chain h (t\<lparr>yt_len := l\<rparr>) cs \<longleftrightarrow> chain h t cs"
proof -
  have live: "live (put_ty p t' h) q = live h q" for q by (rule live_cong) simp
  have "rt (put_ty p t' h) = rt h" "lf (put_ty p t' h) = lf h" by (auto simp: rt_def lf_def live fun_eq_iff split: option.splits)
  then show "chain (put_ty p t' h) t cs \<longleftrightarrow> chain h t cs" by (simp add: chain_def live)
qed (simp add: chain_def)

definition parent_dead :: "heap \<Rightarrow> ytype \<Rightarrow> bool" where
  "parent_dead h t \<longleftrightarrow> (case get_item h (yt_item t) of Some i \<Rightarrow> is_item_deleted i | None \<Rightarrow> False)"

lemma settle_list:
  assumes "somr_ptr r = Some a" "h_items h a = Some this" "parent_sub this = None" "get_ty h pr = Some t"
  shows "settle r pr st h =
    (if parent_dead h t then store_delete_item (SRef a) (Some pr) st h
     else rbind (add_u64 (yt_len t) (item_len this)) (\<lambda>l. Ok (st, put_ty pr (t\<lparr>yt_len := l\<rparr>) h)))"
  using assms
  by (simp add: settle_def get_item_ptr parent_dead_def delete_node_def heap_simps somr_clone_eq Let_def)

lemma settle_keeps_chain:
  assumes "settle r pr st h = Ok (st', h')" "somr_ptr r = Some a" "h_items h a = Some this" "parent_sub this = None"
    and "get_ty h pr = Some t" "chain h t cs" "ds_proper (st_delete_set st)"
  obtains t' where "get_ty h' pr = Some t'" "chain h' t' cs" "st_items st' = st_items st"
proof (cases "parent_dead h t")
  case True
  then have del: "store_delete_item (SRef a) (Some pr) st h = Ok (st', h')"
    using assms(1) settle_list [OF assms(2-5)] by simp
  obtain pending where run: "delete_item_inner (delete_fuel h) [] (SRef a) (Some pr) h = Ok (pending, h')"
    "st' = st\<lparr>st_delete_set := add_pending_deletes pending (st_delete_set st)\<rparr>"
    using del by (auto simp: store_delete_item_def outcome_simps)
  have "del_step h [] h' pending"
    using delete_item_inner_good [of "delete_fuel h" "Some pr", unfolded del_good_def, rule_format, OF run(1)] by simp
  then have "marks h h'" by (simp add: del_step_def)
  with assms(5,6) show thesis using run(2) by (auto elim!: marks_chain intro: that)
next
  case False
  then obtain l where "st' = st" "h' = put_ty pr (t\<lparr>yt_len := l\<rparr>) h"
    using assms(1) settle_list [OF assms(2-5)] by (auto simp: outcome_simps)
  then show thesis using assms(5,6) by (intro that [of "t\<lparr>yt_len := l\<rparr>"]) simp_all
qed

text \<open>A list item that is not yet in the chain of its parent, with its left neighbour in it.\<close>

definition joins :: "heap \<Rightarrow> nat \<Rightarrow> item \<Rightarrow> ytype_ref \<Rightarrow> ytype \<Rightarrow> nat list \<Rightarrow> bool" where
  "joins h a this ty t cs \<longleftrightarrow>
     h_items h a = Some this \<and> item_parent this = Some (ParentType ty) \<and> parent_sub this = None
     \<and> get_ty h ty = Some t \<and> chain h t cs \<and> a \<notin> set cs
     \<and> (live h (item_left this) = None \<or> (\<exists>x \<in> set cs. live h (item_left this) = Some x))"

lemma split_last_or:
  assumes "x = None \<or> (\<exists>c \<in> set cs. x = Some c)"
  shows "\<exists>xs ys. cs = xs @ ys \<and> x = last_or None xs"
proof (cases x)
  case None
  then show ?thesis by (intro exI [of _ "[]"] exI [of _ cs]) simp
next
  case (Some c)
  then obtain us ws where "cs = us @ c # ws" using assms by (auto dest: split_list)
  then show ?thesis using Some by (intro exI [of _ "us @ [c]"] exI [of _ ws]) simp
qed

lemma insert_item_keeps_order:
  assumes "insert_item r ty st h = Ok (st', h')" "joins h a this ty t cs" "somr_ptr r = Some a" "ds_proper (st_delete_set st)"
  obtains xs ys t' where "cs = xs @ ys" "get_ty h' ty = Some t'" "chain h' t' (xs @ a # ys)" "st_items st' = st_items st"
proof -
  have j: "h_items h a = Some this" "parent_sub this = None" "get_ty h ty = Some t" "chain h t cs" "a \<notin> set cs"
    "live h (item_left this) = None \<or> (\<exists>x \<in> set cs. live h (item_left this) = Some x)"
    using assms(2) by (simp_all add: joins_def)
  obtain left where left: "find_left r ty h = Ok left" using assms(1) by (auto simp: insert_item_def outcome_simps)
  have stays: "live h left = None \<or> (\<exists>x \<in> set cs. live h left = Some x)"
    using find_left_stays [OF assms(3) j(1-4) j(6) left] .
  obtain xs ys where xs: "cs = xs @ ys" "live h left = last_or None xs"
    using split_last_or [OF stays] by blast
  have settle: "settle r ty st (linked_heap a this ty t xs h) = Ok (st', h')"
    using insert_item_settles [OF assms(3) j(1-3) _ _ left xs(2), of ys] assms(1) j(4,5) xs(1) by simp
  note f = linked_heap_facts [OF j(1,3), of xs ys, folded xs(1), OF j(4,5)]
  obtain this' where "h_items (linked_heap a this ty t xs h) a = Some this'" "parent_sub this' = None"
    using j(2) by (simp add: linked_heap_def relink_def Let_def)
  from settle_keeps_chain [OF settle assms(3) this f(2,3) assms(4)]
  obtain t' where "get_ty h' ty = Some t'" "chain h' t' (xs @ a # ys)" "st_items st' = st_items st" .
  with xs(1) show thesis by (rule that)
qed

end
