(* ===== verification/Store_Converge.thy ===== *)
theory Store_Converge
  imports Store_Chain
begin

text \<open>
  Two items inserted at the same place by different clients: in a list they end up in the order of
  the clients whichever comes first; under a key of a map the replicas end up different.
\<close>

section \<open>One insertion\<close>

text \<open>What an insertion leaves of the other cells.\<close>

definition same_fields :: "item option \<Rightarrow> item option \<Rightarrow> bool" where
  "same_fields i j \<longleftrightarrow>
     map_option (\<lambda>i. i\<lparr>item_left := SNone, item_right := SNone\<rparr>) i
     = map_option (\<lambda>i. i\<lparr>item_left := SNone, item_right := SNone\<rparr>) j"

lemma same_fieldsD:
  assumes "same_fields (Some j) x"
  obtains i where "x = Some i" "item_id i = item_id j" "origin_left_id i = origin_left_id j"
    "origin_right_id i = origin_right_id j" "item_flags i = item_flags j" "item_content i = item_content j"
    "parent_sub i = parent_sub j"
proof -
  obtain i where i: "x = Some i"
    "i\<lparr>item_left := SNone, item_right := SNone\<rparr> = j\<lparr>item_left := SNone, item_right := SNone\<rparr>"
    using assms by (cases x) (auto simp: same_fields_def)
  then show thesis by (intro that [of i]) (cases i; cases j; simp)+
qed

lemma relink_same_fields:
  "h_items h a = Some this \<Longrightarrow> same_fields (h_items h x) (relink a this lo ro right h x)"
  by (cases "h_items h x") (auto simp: same_fields_def relink_def)

lemma linked_heap_frame:
  assumes "h_items h a = Some this" "chain h t (xs @ ys)"
  shows "same_fields (h_items h x) (h_items (linked_heap a this pr t xs h) x)"
    "x \<notin> set (xs @ a # ys) \<Longrightarrow> h_items (linked_heap a this pr t xs h) x = h_items h x"
    "h_next (linked_heap a this pr t xs h) = h_next h"
proof -
  show "same_fields (h_items h x) (h_items (linked_heap a this pr t xs h) x)"
    using relink_same_fields [OF assms(1)] by (simp add: linked_heap_def Let_def)
  show "h_next (linked_heap a this pr t xs h) = h_next h" by (simp add: linked_heap_def Let_def)
  assume x: "x \<notin> set (xs @ a # ys)"
  then have "last_or None xs \<noteq> Some x" "live h (right_of h t (last_or None xs)) \<noteq> Some x"
    using last_or_in first_in chain_at [OF assms(2)] by auto
  then show "h_items (linked_heap a this pr t xs h) x = h_items h x"
    using x by (simp add: linked_heap_def relink_def Let_def option.map_ident)
qed

lemma same_fields_dead:
  assumes "yt_item t' = yt_item t" "\<And>x. same_fields (h_items h x) (h_items k x)"
  shows "parent_dead k t' = parent_dead h t"
proof (cases "get_item h (yt_item t)")
  case None
  have "h_items k x = None" if "h_items h x = None" for x
    using assms(2) [of x] that by (simp add: same_fields_def)
  then have "get_item k (yt_item t) = None"
    using None by (auto simp: get_item_def somr_lookup_def split: option.splits)
  then show ?thesis using None assms(1) by (simp add: parent_dead_def)
next
  case (Some i)
  obtain x where x: "somr_ptr (yt_item t) = Some x" "h_items h x = Some i" using Some by (rule get_item_ptrE)
  obtain j where "h_items k x = Some j" "item_flags j = item_flags i"
    using assms(2) [of x] unfolding x(2) by (rule same_fieldsD)
  then show ?thesis using Some x(1) assms(1) by (simp add: parent_dead_def get_item_ptr is_item_deleted_def)
qed

lemma insert_item_exact:
  assumes "somr_ptr r = Some a" "h_items h a = Some this" "parent_sub this = None" "get_ty h pr = Some t"
    and "chain h t (xs @ ys)" "a \<notin> set (xs @ ys)" "find_left r pr h = Ok left" "live h left = last_or None xs"
    and "\<not> parent_dead h t" "unat (yt_len t) + unat (item_len this) < 2 ^ 64"
  shows "insert_item r pr st h = Ok (st, put_ty pr ((started a (last_or None xs) t)\<lparr>yt_len := yt_len t + item_len this\<rparr>)
    (linked_heap a this pr t xs h))"
proof -
  let ?h = "linked_heap a this pr t xs h" and ?t = "started a (last_or None xs) t"
  note f = linked_heap_facts [OF assms(2,4,5,6)] and g = linked_heap_frame [OF assms(2,5), where pr = pr]
  have item: "yt_item ?t = yt_item t" "yt_len ?t = yt_len t" by (simp_all add: started_def)
  obtain this' where this': "h_items ?h a = Some this'" "item_len this' = item_len this" "parent_sub this' = parent_sub this"
    using g(1) [where x = a] unfolding assms(2) by (rule same_fieldsD) (simp add: item_len_def)
  have "insert_item r pr st h = settle r pr st ?h" by (rule insert_item_settles [OF assms(1-8)])
  also have "\<dots> = Ok (st, put_ty pr (?t\<lparr>yt_len := yt_len t + item_len this\<rparr>) ?h)"
    using settle_list [OF assms(1) this'(1) _ f(2), of st] this' assms(3,9,10) same_fields_dead [OF item(1) g(1)] item(2)
    by (simp add: add_u64_def)
  finally show ?thesis .
qed

lemma insert_item_total:
  assumes "somr_ptr r = Some a" "h_items h a = Some this" "parent_sub this = None" "get_ty h pr = Some t"
    and "chain h t (xs @ ys)" "a \<notin> set (xs @ ys)" "find_left r pr h = Ok left" "live h left = last_or None xs"
    and "\<not> parent_dead h t" "unat (yt_len t) + unat (item_len this) < 2 ^ 64"
  obtains h' t' where "insert_item r pr st h = Ok (st, h')" "get_ty h' pr = Some t'" "chain h' t' (xs @ a # ys)"
    "yt_len t' = yt_len t + item_len this" "\<not> parent_dead h' t'" "h_next h' = h_next h"
    "\<And>q. live h' q = live h q" "\<And>x. same_fields (h_items h x) (h_items h' x)"
    "\<And>x. x \<notin> set (xs @ a # ys) \<Longrightarrow> h_items h' x = h_items h x"
proof -
  let ?h = "linked_heap a this pr t xs h" and ?t = "started a (last_or None xs) t"
  let ?t' = "?t\<lparr>yt_len := yt_len t + item_len this\<rparr>" and ?h' = "put_ty pr (?t\<lparr>yt_len := yt_len t + item_len this\<rparr>) ?h"
  note f = linked_heap_facts [OF assms(2,4,5,6)] and g = linked_heap_frame [OF assms(2,5), where pr = pr]
  have item: "yt_item ?t = yt_item t" "yt_len ?t = yt_len t" by (simp_all add: started_def)
  have "live ?h' q = live h q" for q using f(1) by (subst live_cong [of _ ?h]) simp_all
  moreover have "parent_dead ?h' ?t' = parent_dead h t" by (rule same_fields_dead) (use item g(1) in simp_all)
  ultimately show thesis using insert_item_exact [OF assms] assms(9) f(2,3) g item
    by (intro that [of ?h' ?t']) simp_all
qed

section \<open>Two insertions at the same place\<close>

text \<open>The two items wait to be put between the cells \<open>xs\<close> and \<open>ys\<close>; all ids involved differ.\<close>

definition concurrent :: "heap \<Rightarrow> nat \<Rightarrow> nat \<Rightarrow> item \<Rightarrow> item \<Rightarrow> ytype_ref \<Rightarrow> ytype \<Rightarrow> nat list \<Rightarrow> nat list \<Rightarrow> bool" where
  "concurrent h a b x y ty t xs ys \<longleftrightarrow>
     h_items h a = Some x \<and> h_items h b = Some y \<and> a \<noteq> b \<and> 0 < h_next h
     \<and> get_ty h ty = Some t \<and> chain h t (xs @ ys) \<and> a \<notin> set (xs @ ys) \<and> b \<notin> set (xs @ ys)
     \<and> parent_sub x = None \<and> parent_sub y = None
     \<and> live h (item_left x) = last_or None xs \<and> live h (item_left y) = last_or None xs
     \<and> live h (item_right x) = first ys \<and> live h (item_right y) = first ys
     \<and> origin_left_id x = origin_left_id y \<and> origin_right_id x = origin_right_id y
     \<and> (\<forall>c \<in> set ys. \<forall>i. h_items h c = Some i \<longrightarrow> item_id i \<noteq> item_id x \<and> item_id i \<noteq> item_id y)
     \<and> \<not> parent_dead h t \<and> unat (yt_len t) + unat (item_len x) + unat (item_len y) < 2 ^ 64"

lemma concurrent_sym: "concurrent h a b x y ty t xs ys \<Longrightarrow> concurrent h b a y x ty t xs ys"
  by (auto simp: concurrent_def)

lemma item_ref_eq_live:
  assumes "live h q = Some c" "live h r = Some d" "h_items h c = Some i" "h_items h d = Some j"
  shows "item_ref_eq h q r \<longleftrightarrow> c = d \<or> item_id i = item_id j"
  using assms
  by (auto simp: item_ref_eq_def somr_ptr_eq_def live_Some get_item_ptr item_option_eq_def item_eq_def split: option.splits)

lemma item_ref_eq_refl: "live h q = Some c \<Longrightarrow> live h r = Some c \<Longrightarrow> item_ref_eq h q r"
  by (auto simp: item_ref_eq_def somr_ptr_eq_def live_Some)

lemma item_ref_eq_dead: "live h q = Some c \<Longrightarrow> live h r = None \<Longrightarrow> \<not> item_ref_eq h q r"
  by (auto simp: item_ref_eq_def somr_ptr_eq_def live_Some live_None get_item_def somr_lookup_def item_option_eq_def split: option.splits)

lemma live_getE:
  assumes "live h r = lo" "get_item h r = Some i"
  obtains l where "lo = Some l" "h_items h l = Some i"
  using assms by (auto simp: live_def get_item_ptr elim!: get_item_ptrE)

lemma first_conflict_at:
  assumes "chain h t (xs @ ys)" "live h (item_left this) = last_or None xs"
  shows "live h (first_conflict h this t) = first ys"
proof (cases "get_item h (item_left this)")
  case None
  then have "xs = []" using assms(2) by (auto simp: last_or_def live_None [symmetric] split: if_splits)
  then show ?thesis using None chain_at [OF assms(1)] by (simp add: first_conflict_def right_of_def)
next
  case (Some i)
  then obtain l where l: "last_or None xs = Some l" "h_items h l = Some i"
    by (rule live_getE [OF assms(2)])
  then show ?thesis using Some chain_at [OF assms(1)] by (simp add: first_conflict_def right_of_def)
qed

text \<open>The neighbours are still next to each other: the position is that of the left one.\<close>

lemma find_left_adjacent:
  assumes "somr_ptr r = Some a" "h_items h a = Some this" "parent_sub this = None" "get_ty h pr = Some t"
    and "chain h t (xs @ ys)" "live h (item_left this) = last_or None xs" "live h (item_right this) = first ys"
  obtains left where "find_left r pr h = Ok left" "live h left = last_or None xs"
proof -
  note conflict = first_conflict_at [OF assms(5,6)]
  have scan: "scan_conflicts (Suc n) h this (somr_clone (item_right this)) (first_conflict h this t)
      (somr_clone (item_left this)) {} {} = (Ok (somr_clone (item_left this)) :: _ codec_result)" for n
  proof (cases "first ys")
    case None
    then show ?thesis using conflict by (simp add: live_None)
  next
    case (Some y)
    obtain i where "get_item h (first_conflict h this t) = Some i"
      using conflict Some by (auto simp: live_Some get_item_ptr)
    moreover have "item_ref_eq h (first_conflict h this t) (somr_clone (item_right this))"
      using conflict Some assms(7) by (intro item_ref_eq_refl) auto
    ultimately show ?thesis by simp
  qed
  show thesis
    using that [of "somr_clone (item_left this)"] assms(6) scan [of "h_next h"]
    unfolding find_left_list [OF assms(1-4)] by (simp del: scan_conflicts.simps)
qed

text \<open>Another item has been put in between: the clients decide.\<close>

lemma find_left_other:
  assumes "somr_ptr r = Some b" "h_items h b = Some y" "parent_sub y = None" "get_ty h pr = Some t"
    and "chain h t (xs @ a # ys)" "live h (item_left y) = last_or None xs" "live h (item_right y) = first ys"
    and "h_items h a = Some x" "origin_left_id y = origin_left_id x" "origin_right_id y = origin_right_id x"
    and "id_client (item_id x) \<noteq> id_client (item_id y)" "0 < h_next h"
    and "\<forall>c \<in> set ys. \<forall>i. h_items h c = Some i \<longrightarrow> item_id i \<noteq> item_id x"
  obtains left where "find_left r pr h = Ok left"
    "live h left = (if id_client (item_id x) < id_client (item_id y) then Some a else last_or None xs)"
proof -
  let ?right = "somr_clone (item_right y)" and ?c = "first_conflict h y t" and ?l = "somr_clone (item_left y)"
  have at: "rt h a = first ys" "lf h a = last_or None xs"
    using linked_at assms(5) unfolding chain_def by blast+
  have conflict: "live h ?c = Some a" using first_conflict_at [OF assms(5,6)] by simp
  then have cx: "get_item h ?c = Some x" using assms(8) by (auto simp: live_Some get_item_ptr)
  have nx: "live h (item_right x) = first ys" using at(1) assms(8) by (simp add: rt_def)
  have ne: "\<not> item_ref_eq h q ?right" if q: "live h q = Some a" for q
  proof (cases ys)
    case Nil
    then show ?thesis using item_ref_eq_dead [OF q] assms(7) by simp
  next
    case (Cons c zs)
    have "a \<noteq> c" using linked_distinct assms(5) Cons unfolding chain_def by fastforce
    moreover obtain i where "h_items h c = Some i" "item_id i \<noteq> item_id x"
      using chain_live [OF assms(5), of c] assms(13) Cons by auto
    ultimately show ?thesis using item_ref_eq_live [OF q, of ?right c x i] assms(7,8) Cons by simp
  qed
  have need: "needs_scan h y"
  proof (cases "get_item h (item_left y)")
    case None
    show ?thesis
    proof (cases ys)
      case Nil
      then show ?thesis using None assms(7) by (simp add: needs_scan_def live_None)
    next
      case (Cons c zs)
      have "lf h c = Some a"
        using linked_at(2) [of "rt h" "lf h" None "live h (yt_start t)" "xs @ [a]" c zs] assms(5) Cons
        by (simp add: chain_def)
      then obtain i where i: "h_items h c = Some i" "live h (item_left i) = Some a"
        by (auto simp: lf_def split: option.splits)
      have "get_item h (item_right y) = Some i" using assms(7) Cons i(1) by (auto simp: live_Some get_item_ptr)
      moreover have "get_item h (item_left i) \<noteq> None" using i(2) by (auto simp: live_None [symmetric])
      ultimately show ?thesis using None by (simp add: needs_scan_def)
    qed
  next
    case (Some i)
    then obtain l where l: "last_or None xs = Some l" "h_items h l = Some i"
      by (rule live_getE [OF assms(6)])
    then have "live h (item_right i) = Some a"
      using chain_at [OF assms(5)] by (simp add: right_of_def)
    then show ?thesis using Some ne by (simp add: needs_scan_def)
  qed
  obtain n where n: "h_next h = Suc n" using assms(12) by (cases "h_next h") auto
  have stop: "scan_conflicts (Suc n) h y ?right (somr_clone (item_right x)) left {} before = (Ok left :: _ codec_result)"
    for left before
  proof (cases "first ys")
    case None
    then show ?thesis using nx by (simp add: live_None heap_simps)
  next
    case (Some c)
    have "get_item h (somr_clone (item_right x)) \<noteq> None" using nx Some by (simp add: live_None [symmetric])
    moreover have "item_ref_eq h (somr_clone (item_right x)) ?right"
      using nx Some assms(7) by (intro item_ref_eq_refl) auto
    ultimately show ?thesis by auto
  qed
  have "scan_conflicts (Suc (Suc n)) h y ?right ?c ?l {} {}
    = (if id_client (item_id x) < id_client (item_id y)
       then scan_conflicts (Suc n) h y ?right (somr_clone (item_right x)) (somr_clone ?c) {} {item_id x}
       else (Ok ?l :: _ codec_result))"
    using cx ne [OF conflict] assms(9-11) by (subst scan_conflicts.simps) (simp add: Let_def del: scan_conflicts.simps)
  then have "find_left r pr h = Ok (if id_client (item_id x) < id_client (item_id y) then somr_clone ?c else ?l)"
    unfolding find_left_list [OF assms(1-4)] using need n stop by (simp del: scan_conflicts.simps)
  then show thesis using that conflict assms(6) by (simp split: if_splits)
qed

text \<open>One order of the two insertions.\<close>

definition insert_both :: "nat \<Rightarrow> nat \<Rightarrow> ytype_ref \<Rightarrow> store \<Rightarrow> heap \<Rightarrow> (codec_error, store \<times> heap) result" where
  "insert_both a b ty st h =
     rbind (insert_item (SOwned a) ty st h) (\<lambda>(st, h). insert_item (SOwned b) ty st h)"

lemma insert_both_order:
  assumes "concurrent h a b x y ty t xs ys" "id_client (item_id x) \<noteq> id_client (item_id y)"
  obtains h' t' where "insert_both a b ty st h = Ok (st, h')" "get_ty h' ty = Some t'"
    "chain h' t' (xs @ (if id_client (item_id x) < id_client (item_id y) then [a, b] else [b, a]) @ ys)"
    "yt_len t' = yt_len t + item_len x + item_len y"
proof -
  have c: "h_items h a = Some x" "h_items h b = Some y" "a \<noteq> b" "0 < h_next h" "get_ty h ty = Some t" "chain h t (xs @ ys)"
    "a \<notin> set (xs @ ys)" "b \<notin> set (xs @ ys)" "parent_sub x = None" "parent_sub y = None"
    "live h (item_left x) = last_or None xs" "live h (item_left y) = last_or None xs"
    "live h (item_right x) = first ys" "live h (item_right y) = first ys"
    "origin_left_id y = origin_left_id x" "origin_right_id y = origin_right_id x"
    "\<forall>c \<in> set ys. \<forall>i. h_items h c = Some i \<longrightarrow> item_id i \<noteq> item_id x" "\<not> parent_dead h t"
    and len: "unat (yt_len t) + unat (item_len x) + unat (item_len y) < 2 ^ 64"
    using assms(1) by (simp_all add: concurrent_def)
  have ptr: "somr_ptr (SOwned a) = Some a" "somr_ptr (SOwned b) = Some b" by simp_all
  obtain l1 where l1: "find_left (SOwned a) ty h = Ok l1" "live h l1 = last_or None xs"
    using find_left_adjacent [OF ptr(1) c(1,9,5,6,11,13)] .
  have len1: "unat (yt_len t) + unat (item_len x) < 2 ^ 64" using len by simp
  obtain h1 t1 where 1: "insert_item (SOwned a) ty st h = Ok (st, h1)" "get_ty h1 ty = Some t1" "chain h1 t1 (xs @ a # ys)"
    "yt_len t1 = yt_len t + item_len x" "\<not> parent_dead h1 t1" "h_next h1 = h_next h"
    "\<And>q. live h1 q = live h q" "\<And>x. same_fields (h_items h x) (h_items h1 x)"
    "\<And>x. x \<notin> set (xs @ a # ys) \<Longrightarrow> h_items h1 x = h_items h x"
    using insert_item_total [OF ptr(1) c(1,9,5,6,7) l1 c(18) len1, of st] by metis
  obtain x1 where x1: "h_items h1 a = Some x1" "item_id x1 = item_id x" "origin_left_id x1 = origin_left_id x"
    "origin_right_id x1 = origin_right_id x"
    using 1(8) [of a] unfolding c(1) by (rule same_fieldsD)
  have y1: "h_items h1 b = Some y" using 1(9) [of b] c(2,3,8) by simp
  have ids: "\<forall>c \<in> set ys. \<forall>i. h_items h1 c = Some i \<longrightarrow> item_id i \<noteq> item_id x1"
  proof (intro ballI allI impI)
    fix k i assume k: "k \<in> set ys" "h_items h1 k = Some i"
    then obtain j where j: "h_items h k = Some j" using chain_live [OF c(6), of k] by auto
    obtain i' where "h_items h1 k = Some i'" "item_id i' = item_id j"
      using 1(8) [of k] unfolding j by (rule same_fieldsD)
    then show "item_id i \<noteq> item_id x1" using k j c(17) x1(2) by auto
  qed
  obtain l2 where l2: "find_left (SOwned b) ty h1 = Ok l2"
    "live h1 l2 = (if id_client (item_id x1) < id_client (item_id y) then Some a else last_or None xs)"
    using find_left_other [OF ptr(2) y1 c(10) 1(2,3) _ _ x1(1) _ _ _ _ ids] c x1 1(6,7) assms(2) by auto
  have len2: "unat (yt_len t1) + unat (item_len y) < 2 ^ 64"
    using len 1(4) by (simp add: unat_plus_u64)
  define us where "us = (if id_client (item_id x) < id_client (item_id y) then xs @ [a] else xs)"
  define vs where "vs = (if id_client (item_id x) < id_client (item_id y) then ys else a # ys)"
  have uv: "xs @ a # ys = us @ vs" by (simp add: us_def vs_def)
  have chain1: "chain h1 t1 (us @ vs)" using 1(3) uv by simp
  have b: "b \<notin> set (us @ vs)" using c(3,8) unfolding uv [symmetric] by simp
  have l2': "live h1 l2 = last_or None us" using l2(2) x1(2) by (simp add: us_def)
  obtain h2 t2 where "insert_item (SOwned b) ty st h1 = Ok (st, h2)" "get_ty h2 ty = Some t2" "chain h2 t2 (us @ b # vs)"
    "yt_len t2 = yt_len t1 + item_len y"
    using insert_item_total [OF ptr(2) y1 c(10) 1(2) chain1 b l2(1) l2' 1(5) len2, of st] by metis
  then show thesis using that [of h2 t2] 1(1,4) by (simp add: insert_both_def us_def vs_def split: if_splits)
qed

text \<open>
  C1: Two items inserted into a list at the same place by different clients end up in the order of
  their clients, and the list with the same length, whichever of them is integrated first.
\<close>

theorem concurrent_inserts_converge:
  assumes "concurrent h a b x y ty t xs ys" "id_client (item_id x) < id_client (item_id y)"
  shows "\<exists>h1 h2 t1 t2. insert_both a b ty st h = Ok (st, h1) \<and> insert_both b a ty st h = Ok (st, h2)
    \<and> get_ty h1 ty = Some t1 \<and> get_ty h2 ty = Some t2
    \<and> chain h1 t1 (xs @ [a, b] @ ys) \<and> chain h2 t2 (xs @ [a, b] @ ys) \<and> yt_len t1 = yt_len t2"
proof -
  obtain h1 t1 where 1: "insert_both a b ty st h = Ok (st, h1)" "get_ty h1 ty = Some t1"
    "chain h1 t1 (xs @ [a, b] @ ys)" "yt_len t1 = yt_len t + item_len x + item_len y"
    using insert_both_order [OF assms(1) less_imp_neq [OF assms(2)], of st] assms(2) by auto
  have nl: "id_client (item_id y) < id_client (item_id x) \<longleftrightarrow> False" using assms(2) by auto
  obtain h2 t2 where 2: "insert_both b a ty st h = Ok (st, h2)" "get_ty h2 ty = Some t2"
    "chain h2 t2 (xs @ [a, b] @ ys)" "yt_len t2 = yt_len t + item_len y + item_len x"
    using insert_both_order [OF concurrent_sym [OF assms(1)] less_imp_neq [OF assms(2), symmetric], of st]
    unfolding nl by auto
  show ?thesis using 1 2 by (intro exI [of _ h1] exI [of _ h2] exI [of _ t1] exI [of _ t2]) simp
qed

section \<open>Two values under one key\<close>

text \<open>Cell 0 is an empty type; the cells 1 and 2 hold the items of the clients \<open>c\<close> and \<open>d\<close>.\<close>

definition pair_type :: ytype_ref where "pair_type = \<lparr>yr_store = True, yr_inner = SRef 0\<rparr>"

definition pair_item :: "client \<Rightarrow> bytes option \<Rightarrow> any \<Rightarrow> item" where
  "pair_item c sub v =
     \<lparr>item_id = new_id c 0, origin_left_id = None, origin_right_id = None, item_left = SNone, item_right = SNone,
      item_parent = Some (ParentType pair_type), parent_sub = sub, item_content = ContentAny [v], item_flags = item_countable\<rparr>"

definition pair_heap :: "client \<Rightarrow> client \<Rightarrow> bytes option \<Rightarrow> any \<Rightarrow> any \<Rightarrow> heap" where
  "pair_heap c d sub v w =
     \<lparr>h_items = [1 \<mapsto> pair_item c sub v, 2 \<mapsto> pair_item d sub w], h_types = [0 \<mapsto> new_ytype KMap None], h_next = 3\<rparr>"

definition integrate_both :: "nat \<Rightarrow> nat \<Rightarrow> store \<Rightarrow> heap \<Rightarrow> (codec_error, store \<times> heap) result" where
  "integrate_both a b st h =
     rbind (integrate (Item (SOwned a)) 0 None st h) (\<lambda>(st, h). integrate (Item (SOwned b)) 0 None st h)"

text \<open>What reading the key gives: the content of the item the map points to, unless it is deleted.\<close>

definition map_value :: "heap \<Rightarrow> ytype_ref \<Rightarrow> bytes \<Rightarrow> content option" where
  "map_value h ty key =
     Option.bind (get_ty h ty) (\<lambda>t.
     Option.bind (map_of (yt_map t) key) (\<lambda>r.
     Option.bind (get_item h r) (\<lambda>i. if is_item_deleted i then None else Some (item_content i))))"

lemma pair_concurrent:
  "concurrent (pair_heap c d None v w) 1 2 (pair_item c None v) (pair_item d None w) pair_type (new_ytype KMap None) [] []"
  by (simp add: concurrent_def pair_heap_def pair_item_def pair_type_def get_ty_def somr_lookup_def chain_def
      new_ytype_def parent_dead_def heap_simps item_len_def)

lemma concurrent_inserts_converge_witness:
  "\<exists>h1 h2 t1 t2. insert_both 1 2 pair_type (with_client 9) (pair_heap 3 5 None AnyNull AnyTrue) = Ok (with_client 9, h1)
     \<and> insert_both 2 1 pair_type (with_client 9) (pair_heap 3 5 None AnyNull AnyTrue) = Ok (with_client 9, h2)
     \<and> chain h1 t1 [1, 2] \<and> chain h2 t2 [1, 2]"
  using concurrent_inserts_converge [OF pair_concurrent [of 3 5 AnyNull AnyTrue], of "with_client 9"]
  by (auto simp: pair_item_def new_id_def)

lemmas unfold_fuel =
  scan_conflicts.simps(2) [where fuel = 3, simplified] scan_conflicts.simps(2) [where fuel = 2, simplified]
  node_head.simps(2) [where fuel = 4, simplified] node_head.simps(2) [where fuel = 3, simplified]
  delete_item_inner.simps(2) [where fuel = 3, simplified]

lemmas run_integrate = integrate_def cut_item_def heap_simps
  insert_item_def find_left_def get_ty_def somr_lookup_def new_ytype_def Let_def connect_left_def upd_item_def
  connect_right_def put_ty_def settle_def add_node_def node_client_def with_client_def new_id_def
  get_item_unchecked_def as_item_option_def item_ref_eq_def somr_ptr_eq_def item_option_eq_def item_eq_def
  store_delete_item_def delete_fuel_def Item_Model.delete_item_def delete_self_def adjust_parent_def
  item_len_def is_item_deleted_def is_item_countable_def fresh_flags flag_simps node_clock_def node_end_def

definition pair_first :: "nat \<Rightarrow> client \<Rightarrow> client \<Rightarrow> bytes \<Rightarrow> any \<Rightarrow> any \<Rightarrow> heap" where
  "pair_first a c d key v w =
     (pair_heap c d (Some key) v w)\<lparr>h_types := [0 \<mapsto> (new_ytype KMap None)\<lparr>yt_map := [(key, SRef a)]\<rparr>]\<rparr>"

lemma integrate_first:
  "integrate (Item (SOwned 1)) 0 None (with_client 9) (pair_heap c d (Some key) v w)
     = Ok ((with_client 9)\<lparr>st_items := [(c, [Item (SOwned 1)])]\<rparr>, pair_first 1 c d key v w)"
  "integrate (Item (SOwned 2)) 0 None (with_client 9) (pair_heap c d (Some key) v w)
     = Ok ((with_client 9)\<lparr>st_items := [(d, [Item (SOwned 2)])]\<rparr>, pair_first 2 c d key v w)"
  by (simp_all add: pair_first_def pair_heap_def pair_item_def pair_type_def run_integrate unfold_fuel)
    (simp_all add: fun_eq_iff)

lemma add_u64_0_1: "add_u64 0 1 = Ok 1"
  by (simp add: add_u64_def)

lemma pair_flags:
  "bit (flag_set_deleted item_countable) 2" "\<not> bit item_countable 2" "bit (flag_set_deleted item_countable) 1"
  by (simp_all add: flag_simps)

text \<open>
  C13: Integrating an item of a list or text puts it into the chain of its parent at one place and
  keeps the order of all the items that were there; the chain stays doubly linked, and the nodes of
  the store gain the item at the end of its client.
\<close>

theorem integrate_keeps_order:
  assumes "integrate (Item (SOwned a)) 0 None st h = Ok (st', h')"
    and "joins h a this ty t cs" "ds_proper (st_delete_set st)"
  shows "\<exists>xs ys t'. cs = xs @ ys \<and> get_ty h' ty = Some t' \<and> chain h' t' (xs @ a # ys)
    \<and> (\<exists>st1. st_items st1 = st_items st \<and> add_node h' (Item (SOwned a)) st1 = Ok st')"
proof -
  have j: "h_items h a = Some this" "item_parent this = Some (ParentType ty)" "get_ty h ty = Some t"
    using assms(2) by (simp_all add: joins_def)
  have cell: "get_item h (SOwned a) = Some this" using j(1) by (simp add: heap_simps)
  obtain st1 where run: "insert_item (SOwned a) ty st h = Ok (st1, h')" "add_node h' (Item (SOwned a)) st1 = Ok st'"
    using assms(1) j cell by (auto simp: integrate_def cut_item_def outcome_simps)
  from insert_item_keeps_order [OF run(1) assms(2) _ assms(3)] run(2) show ?thesis by fastforce
qed

lemma integrate_keeps_order_witness:
  "\<exists>st' h' t'. integrate (Item (SOwned 1)) 0 None (with_client 9) (pair_heap 3 5 None AnyNull AnyTrue) = Ok (st', h')
     \<and> chain h' t' [1]"
proof -
  let ?h = "pair_heap 3 5 None AnyNull AnyTrue"
  obtain st' h' where run: "integrate (Item (SOwned 1)) 0 None (with_client 9) ?h = Ok (st', h')"
    by (simp add: pair_heap_def pair_item_def pair_type_def run_integrate unfold_fuel add_u64_0_1)
  have joins: "joins ?h 1 (pair_item 3 None AnyNull) pair_type (new_ytype KMap None) []"
    using pair_concurrent [of 3 5 AnyNull AnyTrue] by (simp add: joins_def concurrent_def pair_item_def)
  have ds: "ds_proper (st_delete_set (with_client 9))" by (simp add: with_client_def ds_proper_def)
  from integrate_keeps_order [OF run joins ds] obtain t' where "chain h' t' [1]" by auto
  then show ?thesis using run by blast
qed



end
