(* ===== verification/Search_Marker.thy ===== *)
theory Search_Marker
  imports Item_Model
begin

text \<open>
  The search markers of a list or text type, \<open>libs/jwst-codec/src/doc/types/list/search_marker.rs\<close>:
  a bounded list of remembered places, each the pointer to an item and the index at which it starts.
  The loops along the chain take fuel.
\<close>

definition max_search_marker :: nat where "max_search_marker = 80"

definition new_marker :: "somr \<Rightarrow> u64 \<Rightarrow> search_marker" where
  "new_marker ptr index = \<lparr>sm_ptr = ptr, sm_index = index\<rparr>"

definition overwrite_marker :: "somr \<Rightarrow> u64 \<Rightarrow> search_marker \<Rightarrow> search_marker" where
  "overwrite_marker ptr index m = m\<lparr>sm_ptr := ptr, sm_index := index\<rparr>"

definition clone_marker :: "search_marker \<Rightarrow> search_marker" where
  "clone_marker m = m\<lparr>sm_ptr := somr_clone (sm_ptr m)\<rparr>"

text \<open>When the list is full the oldest marker is used again.\<close>

definition mark_position :: "search_marker list \<Rightarrow> somr \<Rightarrow> u64 \<Rightarrow> search_marker \<times> search_marker list" where
  "mark_position markers ptr index =
     (let m = (if max_search_marker \<le> length markers then overwrite_marker ptr index (hd markers) else new_marker ptr index)
      in (clone_marker m, (if max_search_marker \<le> length markers then tl markers else markers) @ [m]))"

section \<open>Following a change\<close>

text \<open>An insertion first moves a marker left until it points to an item that counts.\<close>

fun settle_marker :: "nat \<Rightarrow> heap \<Rightarrow> search_marker \<Rightarrow> ('e, search_marker) result" where
  "settle_marker 0 h m = Panic"
| "settle_marker (Suc fuel) h m =
     (case get_item h (sm_ptr m) of
        None \<Rightarrow> Ok m
      | Some ptr \<Rightarrow>
          if \<not> indexable ptr then
            (case get_item h (item_left ptr) of
               Some left \<Rightarrow>
                 rbind (if indexable left then sub_u64 (sm_index m) (item_len left) else Ok (sm_index m)) (\<lambda>index.
                 settle_marker fuel h \<lparr>sm_ptr = somr_clone (item_left ptr), sm_index = index\<rparr>)
             | None \<Rightarrow> Ok (m\<lparr>sm_index := 0\<rparr>))
          else Ok m)"

definition shift_marker :: "heap \<Rightarrow> u64 \<Rightarrow> i64 \<Rightarrow> search_marker \<Rightarrow> ('e, search_marker) result" where
  "shift_marker h index len m =
     rbind (if 0 < sint len then settle_marker (h_next h + 1) h m else Ok m) (\<lambda>m.
     if get_item h (sm_ptr m) \<noteq> None \<and> (index < sm_index m \<or> 0 < sint len \<and> index = sm_index m) then
       rbind (add_i64 (sm_index m) len) (\<lambda>shifted.
       Ok (m\<lparr>sm_index := (if sint index \<le> sint shifted then shifted else index)\<rparr>))
     else Ok m)"

fun shift_markers :: "heap \<Rightarrow> u64 \<Rightarrow> i64 \<Rightarrow> search_marker list \<Rightarrow> ('e, search_marker list) result" where
  "shift_markers h index len [] = Ok []"
| "shift_markers h index len (m # markers) =
     rbind (shift_marker h index len m) (\<lambda>m.
     rbind (shift_markers h index len markers) (\<lambda>markers. Ok (m # markers)))"

definition update_marker_changes :: "heap \<Rightarrow> u64 \<Rightarrow> i64 \<Rightarrow> search_marker list \<Rightarrow> ('e, search_marker list) result" where
  "update_marker_changes h index len markers =
     rbind (shift_markers h index len markers) (\<lambda>markers. Ok (filter (\<lambda>m. 0 < sm_index m) markers))"

section \<open>Finding the closest marker\<close>

text \<open>The distance is computed in \<open>i64\<close>, where the subtraction or its absolute value can overflow.\<close>

definition marker_distance :: "u64 \<Rightarrow> search_marker \<Rightarrow> ('e, nat) result" where
  "marker_distance index m =
     (let d = \<bar>sint (index :: i64) - sint (sm_index m :: i64)\<bar> in if d < 2 ^ 63 then Ok (nat d) else Panic)"

text \<open>\<open>min_by_key\<close>: the place of the first marker at the smallest distance.\<close>

fun closest_marker :: "u64 \<Rightarrow> search_marker list \<Rightarrow> ('e, (nat \<times> nat) option) result" where
  "closest_marker index [] = Ok None"
| "closest_marker index (m # markers) =
     rbind (marker_distance index m) (\<lambda>d.
     rbind (closest_marker index markers) (\<lambda>r.
     case r of
       Some (i, d') \<Rightarrow> Ok (Some (if d' < d then (i + 1, d') else (0, d)))
     | None \<Rightarrow> Ok (Some (0, d))))"

fun walk_right :: "nat \<Rightarrow> heap \<Rightarrow> u64 \<Rightarrow> somr \<Rightarrow> u64 \<Rightarrow> ('e, somr \<times> u64) result" where
  "walk_right 0 h index item_ptr marker_index = Panic"
| "walk_right (Suc fuel) h index item_ptr marker_index =
     (case get_item h item_ptr of
        None \<Rightarrow> Ok (item_ptr, marker_index)
      | Some item \<Rightarrow>
          if index \<le> marker_index then Ok (item_ptr, marker_index)
          else
            let right_ref = somr_clone (item_right item)
            in if get_item h right_ref \<noteq> None then
                 if indexable item then
                   rbind (add_u64 marker_index (item_len item)) (\<lambda>e.
                   if index < e then Ok (item_ptr, marker_index)
                   else walk_right fuel h index right_ref e)
                 else walk_right fuel h index right_ref marker_index
               else Ok (item_ptr, marker_index))"

fun walk_left :: "nat \<Rightarrow> heap \<Rightarrow> u64 \<Rightarrow> somr \<Rightarrow> u64 \<Rightarrow> ('e, somr \<times> u64) result" where
  "walk_left 0 h index item_ptr marker_index = Panic"
| "walk_left (Suc fuel) h index item_ptr marker_index =
     (case get_item h item_ptr of
        None \<Rightarrow> Ok (item_ptr, marker_index)
      | Some item \<Rightarrow>
          if marker_index \<le> index then Ok (item_ptr, marker_index)
          else
            let left_ref = somr_clone (item_left item)
            in (case get_item h left_ref of
                  Some left \<Rightarrow>
                    rbind (if indexable left then sub_u64 marker_index (item_len left) else Ok marker_index)
                      (walk_left fuel h index left_ref)
                | None \<Rightarrow> Ok (item_ptr, marker_index)))"

text \<open>The marker is put before the items that could be merged to the left.\<close>

fun walk_unmerged :: "nat \<Rightarrow> heap \<Rightarrow> somr \<Rightarrow> u64 \<Rightarrow> ('e, somr \<times> u64) result" where
  "walk_unmerged 0 h item_ptr marker_index = Panic"
| "walk_unmerged (Suc fuel) h item_ptr marker_index =
     (case get_item h item_ptr of
        None \<Rightarrow> Ok (item_ptr, marker_index)
      | Some item \<Rightarrow>
          let left_ref = somr_clone (item_left item)
          in (case get_item h left_ref of
                Some left \<Rightarrow>
                  rbind (if id_client (item_id left) = id_client (item_id item)
                         then rbind (add_u64 (id_clock (item_id left)) (item_len left)) (\<lambda>e. Ok (e = id_clock (item_id item)))
                         else Ok False) (\<lambda>mergeable.
                  if mergeable then
                    rbind (if indexable left then sub_u64 marker_index (item_len left) else Ok marker_index)
                      (walk_unmerged fuel h left_ref)
                  else Ok (item_ptr, marker_index))
              | None \<Rightarrow> Ok (item_ptr, marker_index)))"

text \<open>
  The closeness test of the source divides the length of the type by 80 in \<open>f64\<close>; below \<open>2^53\<close> that
  is the comparison of integers used here.
\<close>

definition marker_close :: "u64 \<Rightarrow> u64 \<Rightarrow> u64 \<Rightarrow> bool" where
  "marker_close a b len \<longleftrightarrow> int max_search_marker * \<bar>uint a - uint b\<bar> < uint len"

definition find_marker ::
    "heap \<Rightarrow> ytype \<Rightarrow> u64 \<Rightarrow> search_marker list \<Rightarrow> ('e, search_marker option \<times> search_marker list) result" where
  "find_marker h parent index markers =
     (if get_item h (yt_start parent) = None \<or> index = 0 then Ok (None, markers)
      else
        rbind (closest_marker index markers) (\<lambda>closest.
        let marker = map_option (\<lambda>(i, _). markers ! i) closest;
            marker_index = (case marker of Some m \<Rightarrow> sm_index m | None \<Rightarrow> 0);
            item_ptr = somr_clone (case marker of Some m \<Rightarrow> sm_ptr m | None \<Rightarrow> yt_start parent);
            fuel = h_next h + 1
        in rbind (walk_right fuel h index item_ptr marker_index) (\<lambda>(item_ptr, marker_index).
           rbind (walk_left fuel h index item_ptr marker_index) (\<lambda>(item_ptr, marker_index).
           rbind (walk_unmerged fuel h item_ptr marker_index) (\<lambda>(item_ptr, marker_index).
           let (m, markers) =
                 (case closest of
                    Some (i, _) \<Rightarrow>
                      if marker_close (sm_index (markers ! i)) marker_index (yt_len parent) then
                        let m = overwrite_marker item_ptr marker_index (markers ! i)
                        in (clone_marker m, markers[i := m])
                      else mark_position markers item_ptr marker_index
                  | None \<Rightarrow> mark_position markers item_ptr marker_index)
           in Ok (Some m, markers))))))"

definition get_last_marker :: "search_marker list \<Rightarrow> search_marker option" where
  "get_last_marker markers = (if markers = [] then None else Some (clone_marker (last markers)))"

end
