(* ===== verification/List_Type.thy ===== *)
theory List_Type
  imports Search_Marker Store_Sync
begin

text \<open>
  Lists: \<open>libs/jwst-codec/src/doc/types/list/mod.rs\<close> and \<open>list/iterator.rs\<close>, the operations an array
  and a text share.  \<open>self\<close> is the pointer to the type; the guard on it is the pointer to its cell.
\<close>

section \<open>Positions\<close>

record item_position =
  pos_parent :: ytype_ref
  pos_left :: somr
  pos_right :: somr
  pos_index :: u64
  pos_offset :: u64

definition pos_forward :: "heap \<Rightarrow> item_position \<Rightarrow> ('e, item_position) result" where
  "pos_forward h pos =
     (case get_item h (pos_right pos) of
        Some right \<Rightarrow>
          rbind (if \<not> is_item_deleted right then add_u64 (pos_index pos) (item_len right) else Ok (pos_index pos)) (\<lambda>index.
          Ok (pos\<lparr>pos_index := index, pos_left := somr_clone (pos_right pos), pos_right := somr_clone (item_right right)\<rparr>))
      | None \<Rightarrow> Ok pos)"

text \<open>A position inside an item is put between the two halves of it.\<close>

definition normalize :: "item_position \<Rightarrow> store \<Rightarrow> heap \<Rightarrow> (codec_error, item_position \<times> store \<times> heap) result" where
  "normalize pos st h =
     (if 0 < pos_offset pos then
        rbind (debug_assert (get_item h (pos_left pos) \<noteq> None)) (\<lambda>_.
        case get_item h (pos_left pos) of
          Some left \<Rightarrow>
            rbind (split_node (item_id left) (pos_offset pos) st h) (\<lambda>((left, right), st, h).
            rbind (add_u64 (pos_index pos) (pos_offset pos)) (\<lambda>index.
            Ok (pos\<lparr>pos_left := as_item left, pos_right := as_item right, pos_index := index, pos_offset := 0\<rparr>, st, h)))
        | None \<Rightarrow> Ok (pos, st, h))
      else Ok (pos, st, h))"

definition content_len :: "ytype_ref \<Rightarrow> heap \<Rightarrow> ('e, u64) result" where
  "content_len self h = rbind (unwrap (get_ty h self)) (\<lambda>ty. Ok (yt_len ty))"

text \<open>\<open>write\<close>: both guards, if the store and the type are still there.\<close>

definition writable :: "ytype_ref \<Rightarrow> heap \<Rightarrow> bool" where
  "writable self h \<longleftrightarrow> yr_store self \<and> get_ty h self \<noteq> None"

text \<open>The walk over the items up to the index; no result when the chain is too short.\<close>

fun find_pos_loop :: "nat \<Rightarrow> heap \<Rightarrow> u64 \<Rightarrow> item_position \<Rightarrow> ('e, item_position option) result" where
  "find_pos_loop 0 h remain pos = Panic"
| "find_pos_loop (Suc fuel) h remain pos =
     (if remain = 0 then Ok (Some pos)
      else
        (case get_item h (pos_right pos) of
           Some item \<Rightarrow>
             let next = (\<lambda>pos. pos\<lparr>pos_left := somr_clone (pos_right pos), pos_right := somr_clone (item_right item)\<rparr>)
             in if \<not> is_item_deleted item then
                  (if remain < item_len item then find_pos_loop fuel h 0 (next (pos\<lparr>pos_offset := remain\<rparr>))
                   else rbind (add_u64 (pos_index pos) (item_len item)) (\<lambda>index.
                        find_pos_loop fuel h (remain - item_len item) (next (pos\<lparr>pos_index := index\<rparr>))))
                else find_pos_loop fuel h remain (next pos)
         | None \<Rightarrow> Ok None))"

definition find_pos :: "ytype_ref \<Rightarrow> u64 \<Rightarrow> heap \<Rightarrow> ('e, item_position option \<times> heap) result" where
  "find_pos self index h =
     rbind (unwrap (get_ty h self)) (\<lambda>inner.
     let pos = \<lparr>pos_parent = clone_ytype_ref self, pos_left = SNone, pos_right = somr_clone (yt_start inner),
                pos_index = 0, pos_offset = 0\<rparr>
     in if get_item h (pos_right pos) = None then Ok (Some pos, h)
        else
          rbind (case yt_markers inner of
                   None \<Rightarrow> Ok (None, h)
                 | Some markers \<Rightarrow>
                     rbind (find_marker h inner index markers) (\<lambda>(m, markers).
                     Ok (m, put_ty self (inner\<lparr>yt_markers := Some markers\<rparr>) h))) (\<lambda>(marker, h).
          let (remain, pos) =
                (case marker of
                   None \<Rightarrow> (index, pos)
                 | Some m \<Rightarrow>
                     (if index < sm_index m then 0 else index - sm_index m,
                      pos\<lparr>pos_index := sm_index m,
                          pos_left := (case get_item h (sm_ptr m) of Some ptr \<Rightarrow> somr_clone (item_left ptr) | None \<Rightarrow> SNone),
                          pos_right := sm_ptr m\<rparr>))
          in rbind (find_pos_loop (h_next h + 1) h remain pos) (\<lambda>r. Ok (r, h))))"

section \<open>Inserting\<close>

definition change_markers :: "ytype_ref \<Rightarrow> u64 \<Rightarrow> i64 \<Rightarrow> heap \<Rightarrow> (codec_error, heap) result" where
  "change_markers p index len h =
     rbind (unwrap (get_ty h p)) (\<lambda>ty.
     case yt_markers ty of
       None \<Rightarrow> Ok h
     | Some markers \<Rightarrow>
         rbind (update_marker_changes h index len markers) (\<lambda>markers.
         Ok (put_ty p (ty\<lparr>yt_markers := Some markers\<rparr>) h)))"

definition insert_after :: "ytype_ref \<Rightarrow> item_position \<Rightarrow> content \<Rightarrow> store \<Rightarrow> heap \<Rightarrow> (codec_error, store \<times> heap) result" where
  "insert_after ty pos content st h =
     rbind (change_markers ty (pos_index pos) (clock_len content) h) (\<lambda>h.
     rbind (create_item content (somr_clone (pos_left pos)) (somr_clone (pos_right pos))
              (Some (ParentType (pos_parent pos))) None st h) (\<lambda>(item, h).
     integrate (Item item) 0 (Some ty) st h))"

definition insert_at :: "ytype_ref \<Rightarrow> u64 \<Rightarrow> content \<Rightarrow> store \<Rightarrow> heap \<Rightarrow> (codec_error, store \<times> heap) result" where
  "insert_at self index content st h =
     rbind (content_len self h) (\<lambda>len.
     if len < index then Err (IndexOutOfBound index)
     else if writable self h then
       rbind (find_pos self index h) (\<lambda>(pos, h).
       case pos of
         Some pos \<Rightarrow>
           rbind (normalize pos st h) (\<lambda>(pos, st, h).
           insert_after self pos content st h)
       | None \<Rightarrow> Ok (st, h))
     else Err DocReleased)"

section \<open>Reading\<close>

definition get_item_at :: "ytype_ref \<Rightarrow> u64 \<Rightarrow> heap \<Rightarrow> ('e, (somr \<times> u64) option \<times> heap) result" where
  "get_item_at self index h =
     rbind (content_len self h) (\<lambda>len.
     if len \<le> index then Ok (None, h)
     else
       rbind (find_pos self index h) (\<lambda>(pos, h).
       case pos of
         Some pos \<Rightarrow>
           Ok (Some (if pos_offset pos = 0 then (pos_right pos, 0) else (pos_left pos, pos_offset pos)), h)
       | None \<Rightarrow> Ok (None, h)))"

text \<open>The iterator skips deleted items.\<close>

fun list_next :: "nat \<Rightarrow> heap \<Rightarrow> somr \<Rightarrow> ('e, somr option \<times> somr) result" where
  "list_next 0 h cur = Panic"
| "list_next (Suc fuel) h cur =
     (case get_item h cur of
        None \<Rightarrow> Ok (None, cur)
      | Some item \<Rightarrow>
          if is_item_deleted item then list_next fuel h (somr_clone (item_right item))
          else Ok (Some cur, somr_clone (item_right item)))"

text \<open>All it gives, in order.\<close>

fun list_items :: "nat \<Rightarrow> heap \<Rightarrow> somr \<Rightarrow> ('e, somr list) result" where
  "list_items 0 h cur = Panic"
| "list_items (Suc fuel) h cur =
     rbind (list_next (h_next h + 1) h cur) (\<lambda>(r, cur).
     case r of
       None \<Rightarrow> Ok []
     | Some item \<Rightarrow> rbind (list_items fuel h cur) (\<lambda>items. Ok (item # items)))"

definition iter_item :: "ytype_ref \<Rightarrow> heap \<Rightarrow> ('e, somr list) result" where
  "iter_item self h =
     rbind (unwrap (get_ty h self)) (\<lambda>inner. list_items (h_next h + 1) h (somr_clone (yt_start inner)))"

section \<open>Removing\<close>

fun remove_loop :: "nat \<Rightarrow> ytype_ref \<Rightarrow> u64 \<Rightarrow> item_position \<Rightarrow> store \<Rightarrow> heap \<Rightarrow> (codec_error, u64 \<times> item_position \<times> store \<times> heap) result" where
  "remove_loop 0 ty remain pos st h = Panic"
| "remove_loop (Suc fuel) ty remain pos st h =
     (if remain = 0 then Ok (0, pos, st, h)
      else
        (case get_item h (pos_right pos) of
           Some item \<Rightarrow>
             rbind (if \<not> is_item_deleted item then
                      rbind (if remain < item_len item
                             then rbind (split_node (item_id item) remain st h) (\<lambda>(_, st, h). Ok (0, st, h))
                             else Ok (remain - item_len item, st, h)) (\<lambda>(remain, st, h).
                      rbind (store_delete_item (pos_right pos) (Some ty) st h) (\<lambda>(st, h).
                      Ok (remain, st, h)))
                    else Ok (remain, st, h)) (\<lambda>(remain, st, h).
             rbind (pos_forward h pos) (\<lambda>pos.
             remove_loop fuel ty remain pos st h))
         | None \<Rightarrow> Ok (remain, pos, st, h)))"

definition remove_after :: "ytype_ref \<Rightarrow> item_position \<Rightarrow> u64 \<Rightarrow> store \<Rightarrow> heap \<Rightarrow> (codec_error, store \<times> heap) result" where
  "remove_after ty pos len st h =
     rbind (normalize pos st h) (\<lambda>(pos, st, h).
     rbind (remove_loop (h_next h + 2) ty len pos st h) (\<lambda>(remain, pos, st, h).
     rbind (sub_u64 len remain) (\<lambda>removed.
     rbind (neg_i64 removed) (\<lambda>shift.
     rbind (change_markers ty (pos_index pos) shift h) (\<lambda>h. Ok (st, h))))))"

definition remove_at :: "ytype_ref \<Rightarrow> u64 \<Rightarrow> u64 \<Rightarrow> store \<Rightarrow> heap \<Rightarrow> (codec_error, store \<times> heap) result" where
  "remove_at self idx len st h =
     (if len = 0 then Ok (st, h)
      else
        rbind (content_len self h) (\<lambda>n.
        if n \<le> idx then Err (IndexOutOfBound idx)
        else if writable self h then
          rbind (find_pos self idx h) (\<lambda>(pos, h).
          case pos of Some pos \<Rightarrow> remove_after self pos len st h | None \<Rightarrow> Ok (st, h))
        else Err DocReleased))"

end
