(* ===== verification/List_Chain.thy ===== *)
theory List_Chain
  imports List_Type Store_Converge Content_Laws
begin

text \<open>
  Lists as sequences: what an undeleted item of a chain stands for, the invariant of a list, and
  the cutting of an item, which keeps both.
\<close>

section \<open>What a list shows\<close>

definition shown_by :: "(id \<Rightarrow> content \<Rightarrow> 'a list) \<Rightarrow> item option \<Rightarrow> 'a list" where
  "shown_by f x = (case x of Some i \<Rightarrow> if is_item_deleted i then [] else f (item_id i) (item_content i) | None \<Rightarrow> [])"

definition view :: "(id \<Rightarrow> content \<Rightarrow> 'a list) \<Rightarrow> heap \<Rightarrow> nat list \<Rightarrow> 'a list" where
  "view f h cs = concat (map (\<lambda>a. shown_by f (h_items h a)) cs)"

definition item_vlen :: "item option \<Rightarrow> nat" where
  "item_vlen x = (case x of Some i \<Rightarrow> if is_item_deleted i then 0 else unat (item_len i) | None \<Rightarrow> 0)"

definition vlen :: "heap \<Rightarrow> nat list \<Rightarrow> nat" where
  "vlen h cs = sum_list (map (\<lambda>a. item_vlen (h_items h a)) cs)"

definition core :: "item option \<Rightarrow> (id \<times> content \<times> item_flag) option" where
  "core x = map_option (\<lambda>i. (item_id i, item_content i, item_flags i)) x"

lemma view_simps [simp]:
  "view f h [] = []" "view f h (a # cs) = shown_by f (h_items h a) @ view f h cs" "view f h (xs @ ys) = view f h xs @ view f h ys"
  by (simp_all add: view_def)

lemma vlen_simps [simp]:
  "vlen h [] = 0" "vlen h (a # cs) = item_vlen (h_items h a) + vlen h cs" "vlen h (xs @ ys) = vlen h xs + vlen h ys"
  by (simp_all add: vlen_def)

lemma core_eqD:
  assumes "core x = core (Some i)"
  obtains j where "x = Some j" "item_id j = item_id i" "item_content j = item_content i" "item_flags j = item_flags i"
  using assms by (auto simp: core_def)

lemma core_shown: "core x = core y \<Longrightarrow> shown_by f x = shown_by f y" "core x = core y \<Longrightarrow> item_vlen x = item_vlen y"
  by (cases x; cases y; simp add: core_def shown_by_def item_vlen_def is_item_deleted_def item_len_def)+

lemma view_cong:
  assumes "\<forall>a \<in> set cs. core (h_items h' a) = core (h_items h a)"
  shows "view f h' cs = view f h cs" "vlen h' cs = vlen h cs"
proof -
  show "view f h' cs = view f h cs" unfolding view_def
    by (rule arg_cong [where f = concat], rule map_cong [OF refl], rule core_shown(1)) (use assms in blast)
  show "vlen h' cs = vlen h cs" unfolding vlen_def
    by (rule arg_cong [where f = sum_list], rule map_cong [OF refl], rule core_shown(2)) (use assms in blast)
qed

lemma same_fields_core: "same_fields x y \<Longrightarrow> core y = core x"
proof (cases x)
  case None
  then show "same_fields x y \<Longrightarrow> core y = core x" by (cases y) (simp_all add: same_fields_def core_def)
next
  case (Some i)
  then show "same_fields x y \<Longrightarrow> core y = core x" by (auto elim!: same_fieldsD simp: core_def)
qed

section \<open>The invariant\<close>

definition bounded :: "heap \<Rightarrow> somr \<Rightarrow> bool" where
  "bounded h r \<longleftrightarrow> (\<forall>n. somr_ptr r = Some n \<longrightarrow> n < h_next h)"

definition stored :: "store \<Rightarrow> nat \<Rightarrow> client \<Rightarrow> bool" where
  "stored st a client \<longleftrightarrow> (\<exists>r. Item r \<in> set (nodes_of st client) \<and> somr_ptr r = Some a)"

definition plain :: "content \<Rightarrow> bool" where
  "plain c \<longleftrightarrow> (\<forall>ty. c \<noteq> ContentType ty)"

text \<open>An item of a list is in the store, and counts when it is not deleted.\<close>

definition list_item :: "heap \<Rightarrow> store \<Rightarrow> nat \<Rightarrow> bool" where
  "list_item h st a \<longleftrightarrow> (\<exists>i. h_items h a = Some i \<and> content_ok (item_content i) \<and> parent_sub i = None
     \<and> stored st a (id_client (item_id i)) \<and> bounded h (item_left i) \<and> bounded h (item_right i)
     \<and> (is_item_deleted i \<or> is_item_countable i \<and> content_countable (item_content i) \<and> plain (item_content i)))"

text \<open>A search marker points to an item of the list and has the count before it.\<close>

definition marker_ok :: "heap \<Rightarrow> nat list \<Rightarrow> search_marker \<Rightarrow> bool" where
  "marker_ok h cs m \<longleftrightarrow> (\<exists>us a ws. cs = us @ a # ws \<and> live h (sm_ptr m) = Some a \<and> unat (sm_index m) = vlen h us)"

definition markers_ok :: "heap \<Rightarrow> ytype \<Rightarrow> nat list \<Rightarrow> bool" where
  "markers_ok h t cs \<longleftrightarrow> (\<forall>ms. yt_markers t = Some ms \<longrightarrow> (\<forall>m \<in> set ms. marker_ok h cs m))"

text \<open>The invariant of a list type: what it is without the markers, and with them.\<close>

definition list_base :: "heap \<Rightarrow> store \<Rightarrow> ytype_ref \<Rightarrow> ytype \<Rightarrow> nat list \<Rightarrow> bool" where
  "list_base h st self t cs \<longleftrightarrow>
     store_ok h st \<and> fresh h \<and> yr_store self \<and> get_ty h self = Some t \<and> chain h t cs \<and> bounded h (yt_start t)
     \<and> \<not> parent_dead h t \<and> bounded h (yt_item t) \<and> somr_ptr (yt_item t) \<notin> Some ` set cs \<and> unat (yt_len t) = vlen h cs \<and> vlen h cs < 2 ^ 63
     \<and> (\<forall>a \<in> set cs. list_item h st a)"

definition list_ok :: "heap \<Rightarrow> store \<Rightarrow> ytype_ref \<Rightarrow> ytype \<Rightarrow> nat list \<Rightarrow> bool" where
  "list_ok h st self t cs \<longleftrightarrow> list_base h st self t cs \<and> markers_ok h t cs"

lemma list_baseD:
  assumes "list_base h st self t cs"
  shows "store_ok h st" "fresh h" "yr_store self" "get_ty h self = Some t" "chain h t cs" "bounded h (yt_start t)"
    "\<not> parent_dead h t" "bounded h (yt_item t)" "unat (yt_len t) = vlen h cs" "vlen h cs < 2 ^ 63"
    "\<And>a. a \<in> set cs \<Longrightarrow> list_item h st a" "somr_ptr (yt_item t) \<notin> Some ` set cs"
  using assms by (simp_all add: list_base_def)

lemma list_okD:
  assumes "list_ok h st self t cs"
  shows "store_ok h st" "fresh h" "yr_store self" "get_ty h self = Some t" "chain h t cs" "bounded h (yt_start t)"
    "\<not> parent_dead h t" "bounded h (yt_item t)" "markers_ok h t cs" "unat (yt_len t) = vlen h cs"
    "\<And>a. a \<in> set cs \<Longrightarrow> list_item h st a" "vlen h cs < 2 ^ 63" "list_base h st self t cs"
  using assms by (simp_all add: list_ok_def list_base_def)

lemma list_distinct: "list_base h st self t cs \<Longrightarrow> distinct cs"
  using linked_distinct unfolding list_base_def chain_def by blast

lemma stored_at:
  assumes "store_ok h st" "stored st a client" "h_items h a = Some i"
  obtains ns k r where "map_of (st_items st) client = Some ns" "run h client 0 ns" "k < length ns" "ns ! k = Item r"
    "somr_ptr r = Some a" "id_client (item_id i) = client" "0 < item_len i"
    "unat (id_clock (item_id i)) + unat (item_len i) < 2 ^ 64"
    "(get_node_index h ns (id_clock (item_id i)) :: nat option codec_result) = Ok (Some k)"
proof -
  obtain r where r: "Item r \<in> set (nodes_of st client)" "somr_ptr r = Some a" using assms(2) by (auto simp: stored_def)
  obtain ns where ns: "map_of (st_items st) client = Some ns" "Item r \<in> set ns"
    using r(1) by (cases "map_of (st_items st) client") (auto simp: nodes_of_def)
  obtain k where k: "k < length ns" "ns ! k = Item r" using ns(2) by (auto simp: in_set_conv_nth)
  have run: "run h client 0 ns" using store_ok_run [OF assms(1), of client] ns(1) by (simp add: nodes_of_def)
  have fit: "node_fits h client (Item r)" using run_at(1) [OF run k(1)] k(2) by simp
  note f = item_node_facts [OF r(2) assms(3)]
  have hold: "holds_at h ns k (unat (id_clock (item_id i)))"
    using k f(3,4) fit f(5) by (simp add: holds_at_def word_less_nat_alt)
  have "unat (id_clock (item_id i)) < run_end h 0 ns"
  proof -
    have "run_end h 0 (take (Suc k) ns) \<le> run_end h 0 ns"
      using run_end_take_mono [OF run, of "Suc k" "length ns"] k(1) by simp
    then show ?thesis using hold run_at(3) [OF run k(1)] by (simp add: holds_at_def)
  qed
  moreover have "ns \<noteq> []" using k(1) by auto
  ultimately have "(get_node_index h ns (id_clock (item_id i)) :: nat option codec_result) = Ok (Some k)"
    using get_node_index_inside [OF run, of "id_clock (item_id i)"] position_holds [OF run hold] by simp
  then show thesis using that [OF ns(1) run k r(2)] fit f(5) by simp
qed

section \<open>Cutting an item\<close>

text \<open>In \<open>h'\<close> the item of cell \<open>a\<close> is cut at the offset \<open>d\<close>, and \<open>b\<close> is the new cell of the rest.\<close>

definition cut_at :: "heap \<Rightarrow> heap \<Rightarrow> nat \<Rightarrow> nat \<Rightarrow> u64 \<Rightarrow> bool" where
  "cut_at h h' a b d \<longleftrightarrow>
     (\<exists>i lc rc r'. h_items h a = Some i \<and> \<not> is_item_deleted i \<and> content_ok (item_content i)
        \<and> content_split (item_content i) d = Ok (lc, rc) \<and> content_ok lc \<and> content_ok rc
        \<and> content_merge lc rc = (Ok (Some (item_content i, r')) :: _ codec_result)
        \<and> unat (clock_len lc) = unat d \<and> unat (clock_len lc) + unat (clock_len rc) = unat (item_len i)
        \<and> unat (id_clock (item_id i)) + unat (item_len i) < 2 ^ 64
        \<and> core (h_items h' a) = Some (item_id i, lc, item_flags i)
        \<and> core (h_items h' b) = Some (new_id (id_client (item_id i)) (id_clock (item_id i) + d), rc,
                                       if content_countable rc then item_countable else 0))
     \<and> h_items h b = None \<and> (\<forall>x. x \<noteq> a \<and> x \<noteq> b \<longrightarrow> core (h_items h' x) = core (h_items h x))"

lemma bounded_live_other:
  assumes "fresh h" "bounded h r" "\<And>x. x \<noteq> b \<Longrightarrow> h_items h' x = None \<longleftrightarrow> h_items h x = None" "h_next h \<le> b"
  shows "live h' r = live h r"
proof (cases "somr_ptr r")
  case (Some n)
  then have "n \<noteq> b" using assms(2,4) by (auto simp: bounded_def)
  then show ?thesis using assms(3) [of n] Some by (simp add: live_def get_item_ptr)
qed (simp add: live_def get_item_def somr_lookup_def)

lemma split_heap_next [simp]: "h_next (split_heap h i a b d lc rc) = h_next h + 2" "h_types (split_heap h i a b d lc rc) = h_types h"
  by (simp_all add: split_heap_def)

lemma split_chain:
  assumes "chain h t (xs @ a # ys)" "h_items h a = Some i" "fresh h" "bounded h (yt_start t)"
    and "\<And>x y. x \<in> set (xs @ a # ys) \<Longrightarrow> h_items h x = Some y \<Longrightarrow> bounded h (item_left y) \<and> bounded h (item_right y)"
  shows "chain (split_heap h i a (h_next h + 1) d lc rc) t (xs @ a # (h_next h + 1) # ys)"
proof -
  let ?b = "h_next h + 1"
  let ?h = "split_heap h i a ?b d lc rc" and ?cs = "(xs @ [a]) @ ys"
  have lk: "linked (rt h) (lf h) None (live h (yt_start t)) ?cs" using assms(1) by (simp add: chain_def)
  have dist: "distinct ?cs" using linked_distinct [OF lk] .
  have a: "a < h_next h" using assms(2,3) by (simp add: fresh_less)
  have bd: "bounded h (item_left i)" "bounded h (item_right i)" using assms(5) [of a i] assms(2) by simp_all
  have at: "rt h a = first ys" "lf h a = last_or None xs"
    using linked_at [of "rt h" "lf h" None "live h (yt_start t)" xs a ys] lk by simp_all
  have ne: "somr_ptr (item_right i) \<noteq> Some a"
  proof
    assume p: "somr_ptr (item_right i) = Some a"
    then have "rt h a = Some a" using assms(2) by (simp add: rt_def live_Some)
    then show False using at(1) dist first_in [of ys a] by auto
  qed
  have nb: "a \<noteq> ?b" "somr_ptr (item_right i) \<noteq> Some ?b" using a bd(2) by (auto simp: bounded_def)
  note cells = split_heap_cells [OF nb(1) ne nb(2), where h = h and d = d and lc = lc and rc = rc]
  have dom: "h_items ?h x = None \<longleftrightarrow> h_items h x = None" if "x \<noteq> ?b" for x
    using cells(1) cells(3,4) [where x = x] assms(2) that by (cases "x = a"; cases "somr_ptr (item_right i) = Some x") auto
  have lv: "live ?h r = live h r" if "bounded h r" for r
    using bounded_live_other [OF assms(3) that dom] by simp
  have lvb: "live ?h (SRef ?b) = Some ?b" "live ?h (SRef a) = Some a" using cells(1,2) by (simp_all add: live_Some)
  have other: "rt ?h x = rt h x \<and> lf ?h x = (if first ys = Some x then Some ?b else lf h x)"
    if x: "x \<in> set ?cs" "x \<noteq> a" for x
  proof -
    obtain y where y: "h_items h x = Some y" using chain_live [OF assms(1), of x] x(1) by auto
    have xb: "x \<noteq> ?b" using fresh_less [OF assms(3) y] by simp
    have bdy: "bounded h (item_left y)" "bounded h (item_right y)" using assms(5) [of x y] x(1) y by simp_all
    show ?thesis
    proof (cases "somr_ptr (item_right i) = Some x")
      case True
      then have "rt h a = Some x" using assms(2) y by (simp add: rt_def live_Some)
      then show ?thesis using cells(4) [OF x(2) xb True] y at(1) lv bdy lvb by (simp add: rt_def lf_def)
    next
      case False
      then have "rt h a \<noteq> Some x" using assms(2) by (simp add: rt_def live_Some)
      then show ?thesis using cells(3) [OF x(2) xb False] y at(1) lv bdy by (simp add: rt_def lf_def)
    qed
  qed
  have na: "first ys \<noteq> Some a" using dist first_in [of ys a] by auto
  have "linked (rt ?h) (lf ?h) None (live ?h (yt_start t)) ((xs @ [a]) @ ?b # ys)"
  proof (rule linked_insert [OF lk])
    show "?b \<notin> set ?cs" using chain_live [OF assms(1), of ?b] assms(3) by (auto simp: fresh_def)
    show "rt ?h x = (if last_or None (xs @ [a]) = Some x then Some ?b else rt h x)" if "x \<in> set ?cs" for x
      using other [OF that] cells(1) lvb(1) by (cases "x = a") (auto simp: rt_def split_left_def)
    show "lf ?h x = (if first ys = Some x then Some ?b else lf h x)" if "x \<in> set ?cs" for x
      using other [OF that] cells(1) na lv [OF bd(1)] assms(2) by (cases "x = a") (auto simp: lf_def split_left_def)
    show "rt ?h ?b = first ys" using cells(2) lv [OF bd(2)] at(1) assms(2) by (simp add: rt_def split_right_def)
    show "lf ?h ?b = last_or None (xs @ [a])"
    proof (cases "get_item h (item_right i)")
      case None
      then show ?thesis using cells(2) lvb(2) by (simp add: lf_def split_right_def)
    next
      case (Some y)
      then obtain n where n: "somr_ptr (item_right i) = Some n" "h_items h n = Some y" by (rule get_item_ptrE)
      then have "live h (item_right i) = Some n" by (simp add: live_Some)
      then have f: "first ys = Some n" using at(1) assms(2) by (simp add: rt_def)
      then obtain zs where ys: "ys = n # zs" by (cases ys) auto
      have "lf h n = Some a"
        using linked_at(2) [of "rt h" "lf h" None "live h (yt_start t)" "xs @ [a]" n zs] lk ys by simp
      moreover have "bounded h (item_left y)" using assms(5) [of n y] n(2) ys by simp
      ultimately show ?thesis using cells(2) lv Some n(2) by (simp add: lf_def split_right_def)
    qed
    show "live ?h (yt_start t) = (if xs @ [a] = [] then Some ?b else live h (yt_start t))" using lv [OF assms(4)] by simp
  qed
  then show ?thesis by (simp add: chain_def)
qed

lemma store_ok_set:
  assumes "store_ok h st" "ns \<noteq> []" "run h' client 0 ns"
    and "\<forall>c n. c \<noteq> client \<and> n \<in> set (nodes_of st c) \<longrightarrow> same_span h h' n"
  shows "store_ok h' (set_items client ns st)" "nodes_of (set_items client ns st) client = ns"
    "c \<noteq> client \<Longrightarrow> nodes_of (set_items client ns st) c = nodes_of st c"
    "c \<noteq> client \<Longrightarrow> state_of h' (set_items client ns st) c = state_of h st c"
proof -
  have other: "ms \<noteq> [] \<and> run h' c 0 ms \<and> run_end h' 0 ms = run_end h 0 ms" if "c \<noteq> client" "map_of (st_items st) c = Some ms" for c ms
  proof -
    have "nodes_of st c = ms" using that(2) by (simp add: nodes_of_def)
    then have "\<forall>n \<in> set ms. same_span h h' n" using assms(4) that(1) by blast
    from same_span_run [OF this] show ?thesis
      using assms(1) map_of_SomeD [OF that(2)] store_ok_nonempty [OF assms(1) that(2)] by (auto simp: store_ok_def)
  qed
  have wf: "hm_wf (st_items st)" using assms(1) by (simp add: store_ok_def)
  show "store_ok h' (set_items client ns st)"
    using assms(1-3) other wf by (auto simp: store_ok_def set_items_def hm_insert_entries hm_wf_map_of_mem)
  show "nodes_of (set_items client ns st) client = ns"
    "c \<noteq> client \<Longrightarrow> nodes_of (set_items client ns st) c = nodes_of st c"
    "c \<noteq> client \<Longrightarrow> state_of h' (set_items client ns st) c = state_of h st c"
    using other by (auto simp: nodes_of_def set_items_def state_of_def split: option.splits)
qed

text \<open>Cutting an item of a list.\<close>

lemma list_item_cut:
  assumes "list_item h st x" "x \<noteq> a" "x \<noteq> h_next h + 1"
    and "\<And>c y. stored st y c \<Longrightarrow> stored st' y c"
  shows "list_item (split_heap h i a (h_next h + 1) d lc rc) st' x"
proof -
  let ?h = "split_heap h i a (h_next h + 1) d lc rc"
  obtain y where y: "h_items h x = Some y" "content_ok (item_content y)" "parent_sub y = None"
    "stored st x (id_client (item_id y))" "bounded h (item_left y)" "bounded h (item_right y)"
    "is_item_deleted y \<or> is_item_countable y \<and> content_countable (item_content y) \<and> plain (item_content y)"
    using assms(1) by (auto simp: list_item_def)
  have n: "h_next ?h = h_next h + 2" by (simp add: split_heap_def)
  have "h_items ?h x = Some y \<or> h_items ?h x = Some (y\<lparr>item_left := SRef (h_next h + 1)\<rparr>)"
    using y(1) assms(2,3) by (auto simp: split_heap_def split: option.splits)
  then show ?thesis using y n assms(4)
    by (auto simp: list_item_def bounded_def is_item_deleted_def is_item_countable_def)
qed

lemma splittable_length: "0 < d \<Longrightarrow> d < clock_len c \<Longrightarrow> splittable c \<or> is_deleted_content c"
  by (cases c) (auto simp: word_less_nat_alt)

lemma content_split_ok:
  assumes "content_ok c" "content_split c d = Ok (l, r)" "0 < d" "d \<le> clock_len c"
  shows "content_ok l" "content_ok r"
proof -
  have "content_ok l \<and> content_ok r"
  proof (cases c)
    case (ContentString s)
    have "0 < unat d" "unat d \<le> utf16_len s" "utf8_valid s" "utf16_len s < 2 ^ 64"
      using assms(1,3,4) ContentString by (simp_all add: word_le_nat_alt unat_of_nat word_less_nat_alt)
    then show ?thesis
      using assms(2) ContentString by (auto elim!: split_as_utf16_str_exact [where s = s and off = "unat d"])
  qed (use assms in \<open>auto simp: slice_split_at_def outcome_simps split: if_splits\<close>)
  then show "content_ok l" "content_ok r" by simp_all
qed

lemma is_item_core:
  assumes "core x = Some (k, c, fl)"
  shows "item_vlen x = (if flag_deleted fl then 0 else unat (clock_len c))"
    "shown_by f x = (if flag_deleted fl then [] else f k c)"
  using assms by (auto simp: core_def item_vlen_def shown_by_def is_item_deleted_def item_len_def)

lemma fresh_flags_live: "\<not> flag_deleted (if b then item_countable else 0)"
  by (simp add: flag_simps)

lemma cut_vlen:
  assumes "cut_at h h' a b d" "a \<notin> set xs" "b \<notin> set xs"
  shows "vlen h' xs = vlen h xs" "view f h' xs = view f h xs"
    "item_vlen (h_items h' a) = unat d" "item_vlen (h_items h' a) + item_vlen (h_items h' b) = item_vlen (h_items h a)"
proof -
  have "\<forall>x \<in> set xs. core (h_items h' x) = core (h_items h x)" using assms by (auto simp: cut_at_def)
  then show "vlen h' xs = vlen h xs" "view f h' xs = view f h xs" by (simp_all add: view_cong)
  show "item_vlen (h_items h' a) = unat d" "item_vlen (h_items h' a) + item_vlen (h_items h' b) = item_vlen (h_items h a)"
    using assms(1)
    by (auto simp: cut_at_def is_item_core fresh_flags_live is_item_deleted_def item_vlen_def [of "Some _"] item_len_def)
qed

lemma marker_ok_cut:
  assumes "marker_ok h (xs @ a # ys) m" "cut_at h h' a b d" "distinct (xs @ a # b # ys)" "\<And>r. live h r \<noteq> None \<Longrightarrow> live h' r = live h r"
  shows "marker_ok h' (xs @ a # b # ys) m"
proof -
  obtain us x ws where m: "xs @ a # ys = us @ x # ws" "live h (sm_ptr m) = Some x" "unat (sm_index m) = vlen h us"
    using assms(1) by (auto simp: marker_ok_def)
  have l: "live h' (sm_ptr m) = Some x" using assms(4) m(2) by simp
  have d: "a \<notin> set xs" "b \<notin> set xs" "a \<notin> set ys" "b \<notin> set ys" using assms(3) by auto
  consider (left) zs where "xs = us @ x # zs" | (here) "us = xs" "x = a" "ws = ys" | (right) zs where "us = xs @ a # zs" "ys = zs @ x # ws"
    using m(1) by (auto simp: append_eq_append_conv2 append_eq_Cons_conv Cons_eq_append_conv)
  then show ?thesis
  proof cases
    case left
    have "vlen h' us = vlen h us" using cut_vlen(1) [OF assms(2), of us] d left by simp
    then show ?thesis unfolding marker_ok_def using left l m(3)
      by (intro exI [of _ us] exI [of _ x] exI [of _ "zs @ a # b # ys"]) simp
  next
    case here
    have "vlen h' us = vlen h us" using cut_vlen(1) [OF assms(2), of us] d here by simp
    then show ?thesis unfolding marker_ok_def using here l m(3)
      by (intro exI [of _ us] exI [of _ x] exI [of _ "b # ys"]) simp
  next
    case right
    have "vlen h' (xs @ a # b # zs) = vlen h us"
      using cut_vlen(1) [OF assms(2), of xs] cut_vlen(1) [OF assms(2), of zs] cut_vlen(4) [OF assms(2)] d right by simp
    then show ?thesis unfolding marker_ok_def using right l m(3)
      by (intro exI [of _ "xs @ a # b # zs"] exI [of _ x] exI [of _ ws]) simp
  qed
qed

lemma split_core:
  assumes "fresh h" "h_items h a = Some i" "somr_ptr (item_right i) \<noteq> Some a" "bounded h (item_right i)"
  shows "core (h_items (split_heap h i a (h_next h + 1) d lc rc) a) = Some (item_id i, lc, item_flags i)"
    "core (h_items (split_heap h i a (h_next h + 1) d lc rc) (h_next h + 1)) =
      Some (new_id (id_client (item_id i)) (id_clock (item_id i) + d), rc, if content_countable rc then item_countable else 0)"
    "x \<noteq> a \<Longrightarrow> x \<noteq> h_next h + 1 \<Longrightarrow> core (h_items (split_heap h i a (h_next h + 1) d lc rc) x) = core (h_items h x)"
    "h_items (split_heap h i a (h_next h + 1) d lc rc) a = Some (split_left i lc (h_next h + 1))"
    "h_items (split_heap h i a (h_next h + 1) d lc rc) (h_next h + 1) = Some (split_right h i a d rc)"
    "h_items h x \<noteq> None \<Longrightarrow> h_items (split_heap h i a (h_next h + 1) d lc rc) x \<noteq> None"
proof -
  let ?b = "h_next h + 1"
  let ?h = "split_heap h i a ?b d lc rc"
  have nb: "a \<noteq> ?b" "somr_ptr (item_right i) \<noteq> Some ?b" using fresh_less [OF assms(1,2)] assms(4) by (auto simp: bounded_def)
  note cells = split_heap_cells [OF nb(1) assms(3) nb(2), where h = h and d = d and lc = lc and rc = rc]
  show "h_items ?h a = Some (split_left i lc ?b)" "h_items ?h ?b = Some (split_right h i a d rc)" using cells(1,2) by simp_all
  then show "core (h_items ?h a) = Some (item_id i, lc, item_flags i)"
    "core (h_items ?h ?b) = Some (new_id (id_client (item_id i)) (id_clock (item_id i) + d), rc, if content_countable rc then item_countable else 0)"
    by (simp_all add: core_def split_left_def split_right_def)
  show other: "core (h_items ?h x) = core (h_items h x)" if "x \<noteq> a" "x \<noteq> ?b" for x
    using cells(3,4) [OF that] by (cases "somr_ptr (item_right i) = Some x"; cases "h_items h x") (simp_all add: core_def)
  show "h_items ?h x \<noteq> None" if x: "h_items h x \<noteq> None"
  proof (cases "x = a")
    case False
    have "h_items h ?b = None" using assms(1) by (simp add: fresh_def)
    then have "x \<noteq> ?b" using x by auto
    then show ?thesis using other [OF False] x by (cases "h_items ?h x") (auto simp: core_def)
  qed (use cells(1) in simp)
qed

text \<open>The store after a split of the item of a cell.\<close>

lemma split_node_stored:
  assumes "store_ok h st" "fresh h" "h_items h a = Some i" "stored st a (id_client (item_id i))" "content_ok (item_content i)"
    and "0 < d" "d < item_len i" "split_boundary (item_content i) d" "somr_ptr (item_right i) \<noteq> Some a" "bounded h (item_right i)"
  obtains lc rc r' st' where
    "split_node (item_id i) d st h = Ok ((Item (SRef a), Item (SRef (h_next h + 1))), st', split_heap h i a (h_next h + 1) d lc rc)"
    "content_split (item_content i) d = Ok (lc, rc)" "content_merge lc rc = (Ok (Some (item_content i, r')) :: _ codec_result)"
    "unat (clock_len lc) = unat d" "unat (clock_len lc) + unat (clock_len rc) = unat (item_len i)"
    "unat (id_clock (item_id i)) + unat (item_len i) < 2 ^ 64" "store_ok (split_heap h i a (h_next h + 1) d lc rc) st'"
    "fresh (split_heap h i a (h_next h + 1) d lc rc)" "st_client st' = st_client st"
    "\<forall>c. state_of (split_heap h i a (h_next h + 1) d lc rc) st' c = state_of h st c"
    "\<forall>y c. stored st y c \<longrightarrow> stored st' y c" "stored st' (h_next h + 1) (id_client (item_id i))"
proof -
  let ?b = "h_next h + 1" and ?client = "id_client (item_id i)"
  obtain ns k r where ns: "map_of (st_items st) ?client = Some ns" "run h ?client 0 ns"
    "k < length ns" "ns ! k = Item r" "somr_ptr r = Some a" "unat (id_clock (item_id i)) + unat (item_len i) < 2 ^ 64"
    "(get_node_index h ns (id_clock (item_id i)) :: nat option codec_result) = Ok (Some k)"
    using stored_at [OF assms(1,4,3)] by metis
  let ?ns = "take (k + 1) ns @ Item (SOwned ?b) # drop (k + 1) ns"
  have spl: "splittable (item_content i) \<or> is_deleted_content (item_content i)"
    using splittable_length [OF assms(6)] assms(7) by (simp add: item_len_def)
  obtain lc rc r' where sp: "split_node_at ns k d h = Ok ((Item (SRef a), Item (SRef ?b)), ?ns, split_heap h i a ?b d lc rc)"
    "content_split (item_content i) d = Ok (lc, rc)" "content_merge lc rc = (Ok (Some (item_content i, r')) :: _ codec_result)"
    "unat (clock_len lc) = unat d" "unat (clock_len lc) + unat (clock_len rc) = unat (item_len i)"
    "run (split_heap h i a ?b d lc rc) ?client 0 ?ns" "run_end (split_heap h i a ?b d lc rc) 0 ?ns = run_end h 0 ns"
    "fresh (split_heap h i a ?b d lc rc)"
    by (rule split_node_at_run [OF ns(2-5) assms(3,2,5) spl assms(6,7,8,9)]) (use assms(10) in \<open>auto simp: bounded_def\<close>)
  let ?h = "split_heap h i a ?b d lc rc" and ?st = "set_items ?client ?ns st"
  have run: "split_node (item_id i) d st h = Ok ((Item (SRef a), Item (SRef ?b)), ?st, ?h)"
    using assms(6) ns(1,7) sp(1) by (simp add: split_node_def)
  have nodes: "nodes_of st ?client = ns" using ns(1) by (simp add: nodes_of_def)
  have spans: "\<forall>c n. c \<noteq> ?client \<and> n \<in> set (nodes_of st c) \<longrightarrow> same_span h ?h n"
  proof (intro allI impI)
    fix c n assume n: "c \<noteq> ?client \<and> n \<in> set (nodes_of st c)"
    show "same_span h ?h n"
    proof (cases n)
      case (Item s)
      obtain m where m: "m < length (nodes_of st c)" "nodes_of st c ! m = n" using n by (auto simp: in_set_conv_nth)
      have fit: "node_fits h c (Item s)" using run_at(1) [OF store_ok_run [OF assms(1), of c] m(1)] m(2) Item by simp
      then obtain x y where x: "somr_ptr s = Some x" "h_items h x = Some y" by (rule node_fits_item)
      have "x \<noteq> a" using n fit item_node_facts(5) [OF x, of c] assms(3) x(2) by auto
      moreover have "x \<noteq> ?b" using fresh_less [OF assms(2) x(2)] by simp
      ultimately have "core (h_items ?h x) = core (Some y)" using split_core(3) assms(2,3,9,10) x(2) by metis
      then have "map_option (\<lambda>i. (item_id i, item_len i)) (h_items ?h x) = map_option (\<lambda>i. (item_id i, item_len i)) (h_items h x)"
        using x(2) by (auto elim!: core_eqD simp: item_len_def)
      then show ?thesis using node_span_cell [OF x(1)] Item by simp
    qed (simp_all add: same_span_def)
  qed
  have nonempty: "?ns \<noteq> []" by simp
  note set = store_ok_set [OF assms(1) nonempty sp(6) spans]
  have states: "state_of ?h ?st c = state_of h st c" for c
    using set(4) [where c = c] set(2) sp(7) nodes by (cases "c = ?client") (simp_all add: state_of_def)
  have sub: "stored ?st y c" if "stored st y c" for y c
  proof (cases "c = ?client")
    case True
    have "set ns \<subseteq> set ?ns" using arg_cong [OF append_take_drop_id [of "k + 1" ns], of set] by (simp only: set_append list.set) blast
    then show ?thesis using that True set(2) nodes by (auto simp: stored_def)
  next
    case False
    then show ?thesis using that set(3) by (simp add: stored_def)
  qed
  have b: "stored ?st ?b ?client" using set(2) by (auto simp: stored_def)
  show thesis
    by (rule that [OF run sp(2-5) ns(6) set(1) sp(8) _ _ _ b]) (use states sub in \<open>simp_all add: set_items_def\<close>)
qed

text \<open>The list after the split of an item that counts.\<close>

lemma list_item_halves:
  assumes "list_item h st a" "h_items h a = Some i" "\<not> is_item_deleted i" "fresh h"
    and "content_split (item_content i) d = Ok (lc, rc)" "0 < d" "d < item_len i" "bounded h (item_left (split_right h i a d rc))"
    and "somr_ptr (item_right i) \<noteq> Some a" "\<forall>y c. stored st y c \<longrightarrow> stored st' y c" "stored st' (h_next h + 1) (id_client (item_id i))"
  shows "list_item (split_heap h i a (h_next h + 1) d lc rc) st' a"
    "list_item (split_heap h i a (h_next h + 1) d lc rc) st' (h_next h + 1)"
proof -
  have li: "content_ok (item_content i)" "parent_sub i = None" "stored st a (id_client (item_id i))"
    "bounded h (item_left i)" "bounded h (item_right i)" "is_item_countable i" "content_countable (item_content i)" "plain (item_content i)"
    using assms(1-3) by (auto simp: list_item_def)
  note core = split_core(4,5) [OF assms(4,2,9) li(5), where d = d and lc = lc and rc = rc]
  have dl: "d \<le> clock_len (item_content i)" using assms(7) by (simp add: item_len_def)
  note parts_ok = content_split_ok [OF li(1) assms(5,6) dl]
  have plain: "plain lc" "plain rc" using assms(5) li(8)
    by (cases "item_content i"; auto simp: outcome_simps plain_def slice_split_at_def split: prod.splits if_splits)+
  have countable: "content_countable lc" "content_countable rc" using content_split_kinds(3,4) [OF assms(5)] li(7) by simp_all
  show "list_item (split_heap h i a (h_next h + 1) d lc rc) st' a"
    using core(1) li assms(3,10) parts_ok(1) plain(1) countable(1)
    by (auto simp: list_item_def split_left_def bounded_def is_item_countable_def)
  show "list_item (split_heap h i a (h_next h + 1) d lc rc) st' (h_next h + 1)"
    using core(2) li assms(8,11) parts_ok(2) plain(2) countable(2)
    by (auto simp: list_item_def split_right_def bounded_def is_item_countable_def new_id_def flag_simps)
qed

lemma split_right_bounded:
  assumes "list_base h st self t (xs @ a # ys)" "h_items h a = Some i"
  shows "bounded h (item_left (split_right h i a d rc))" "somr_ptr (item_right i) \<noteq> Some a"
proof -
  note ok = list_baseD [OF assms(1)]
  have lk: "linked (rt h) (lf h) None (live h (yt_start t)) (xs @ a # ys)" using ok(5) by (simp add: chain_def)
  show "somr_ptr (item_right i) \<noteq> Some a"
  proof
    assume "somr_ptr (item_right i) = Some a"
    then have "rt h a = Some a" using assms(2) by (simp add: rt_def live_Some)
    then show False using linked_at(1) [OF lk] linked_distinct [OF lk] first_in [of ys a] by auto
  qed
  show "bounded h (item_left (split_right h i a d rc))"
  proof (cases "get_item h (item_right i)")
    case None
    then show ?thesis using fresh_less [OF ok(2) assms(2)] by (simp add: split_right_def bounded_def)
  next
    case (Some y)
    then obtain n where n: "somr_ptr (item_right i) = Some n" "h_items h n = Some y" by (rule get_item_ptrE)
    then have "live h (item_right i) = Some n" by (simp add: live_Some)
    then have "first ys = Some n" using linked_at(1) [OF lk] assms(2) by (simp add: rt_def)
    then show ?thesis using ok(11) [of n] first_in n(2) Some by (auto simp: list_item_def split_right_def)
  qed
qed

lemma core_flags_dead:
  assumes "\<not> parent_dead h t" "bounded h (yt_item t)"
    and "\<And>x. x < h_next h \<Longrightarrow> map_option item_flags (h_items h' x) = map_option item_flags (h_items h x)"
  shows "\<not> parent_dead h' t"
proof (cases "somr_ptr (yt_item t)")
  case None
  then show ?thesis by (simp add: parent_dead_def get_item_def somr_lookup_def)
next
  case (Some x)
  then have "x < h_next h" using assms(2) by (simp add: bounded_def)
  from assms(3) [OF this] show ?thesis using assms(1) Some
    by (cases "h_items h x"; cases "h_items h' x") (simp_all add: parent_dead_def get_item_ptr is_item_deleted_def)
qed

lemma split_in_list:
  assumes "list_base h st self t (xs @ a # ys)" "h_items h a = Some i" "\<not> is_item_deleted i"
    and "0 < d" "d < item_len i" "split_boundary (item_content i) d"
  obtains b h' st' where "split_node (item_id i) d st h = Ok ((Item (SRef a), Item (SRef b)), st', h')"
    "list_base h' st' self t (xs @ a # b # ys)" "cut_at h h' a b d" "st_client st' = st_client st"
    "\<forall>c. state_of h' st' c = state_of h st c" "h_types h' = h_types h" "h_next h' = h_next h + 2"
    "\<forall>r x. live h r = Some x \<longrightarrow> live h' r = Some x"
proof -
  note ok = list_baseD [OF assms(1)]
  have li: "content_ok (item_content i)" "stored st a (id_client (item_id i))" "bounded h (item_right i)"
    "list_item h st a"
    using ok(11) [of a] assms(2) by (auto simp: list_item_def)
  note right = split_right_bounded [OF assms(1,2)]
  let ?b = "h_next h + 1"
  obtain lc rc r' st' where sp:
    "split_node (item_id i) d st h = Ok ((Item (SRef a), Item (SRef ?b)), st', split_heap h i a ?b d lc rc)"
    "content_split (item_content i) d = Ok (lc, rc)" "content_merge lc rc = (Ok (Some (item_content i, r')) :: _ codec_result)"
    "unat (clock_len lc) = unat d" "unat (clock_len lc) + unat (clock_len rc) = unat (item_len i)"
    "unat (id_clock (item_id i)) + unat (item_len i) < 2 ^ 64" "store_ok (split_heap h i a ?b d lc rc) st'"
    "fresh (split_heap h i a ?b d lc rc)" "st_client st' = st_client st"
    "\<forall>c. state_of (split_heap h i a ?b d lc rc) st' c = state_of h st c"
    "\<forall>y c. stored st y c \<longrightarrow> stored st' y c" "stored st' ?b (id_client (item_id i))"
    by (rule split_node_stored [OF ok(1,2) assms(2) li(2,1) assms(4-6) right(2) li(3)])
  let ?h = "split_heap h i a ?b d lc rc"
  note core = split_core [OF ok(2) assms(2) right(2) li(3), where d = d and lc = lc and rc = rc]
  have dl: "d \<le> clock_len (item_content i)" using assms(5) by (simp add: item_len_def)
  note parts_ok = content_split_ok [OF li(1) sp(2) assms(4) dl]
  have cut: "cut_at h ?h a ?b d"
    using assms(2,3) li(1) sp(2-6) parts_ok core(1-3) ok(2) by (auto simp: cut_at_def fresh_def)
  have chain: "chain ?h t (xs @ a # ?b # ys)"
    by (rule split_chain [OF ok(5) assms(2) ok(2,6)]) (use ok(11) in \<open>fastforce simp: list_item_def\<close>)
  have nota: "a \<notin> set xs" "a \<notin> set ys" "?b \<notin> set xs" "?b \<notin> set ys"
    using list_distinct [OF assms(1)] chain_live [OF ok(5), of ?b] ok(2) by (auto simp: fresh_def)
  have v: "vlen ?h (xs @ a # ?b # ys) = vlen h (xs @ a # ys)"
    using cut_vlen [OF cut nota(1,3)] cut_vlen(1) [OF cut nota(2,4)] by simp
  note halves = list_item_halves [OF li(4) assms(2,3) ok(2) sp(2) assms(4,5) right(1,2) sp(11,12)]
  have items: "list_item ?h st' x" if x: "x \<in> set (xs @ a # ?b # ys)" for x
  proof -
    consider "x = a" | "x = ?b" | "x \<noteq> a" "x \<noteq> ?b" "x \<in> set (xs @ a # ys)" using x by auto
    then show ?thesis
    proof cases
      case 3
      then show ?thesis using list_item_cut [OF ok(11) 3(1,2)] sp(11) by simp
    qed (use halves in simp_all)
  qed
  have dead: "\<not> parent_dead ?h t"
  proof (rule core_flags_dead [OF ok(7,8)])
    fix x assume "x < h_next h"
    then show "map_option item_flags (h_items ?h x) = map_option item_flags (h_items h x)"
      using core(1) core(3) [of x] assms(2) by (cases "x = a"; cases "h_items h x"; cases "h_items ?h x") (auto simp: core_def)
  qed
  have base: "list_base ?h st' self t (xs @ a # ?b # ys)"
    using sp(7,8) ok(3,4,6,8-10,12) chain dead items v
    by (auto simp: list_base_def get_ty_def split_heap_def bounded_def)
  have live: "\<forall>r x. live h r = Some x \<longrightarrow> live ?h r = Some x" using core(6) by (simp add: live_Some)
  show thesis by (rule that [OF sp(1) base cut sp(9,10) _ _ live]) simp_all
qed

text \<open>The markers stand where they stood.\<close>

lemma markers_ok_cut:
  assumes "markers_ok h t (xs @ a # ys)" "cut_at h h' a b d" "distinct (xs @ a # b # ys)" "\<forall>r x. live h r = Some x \<longrightarrow> live h' r = Some x"
  shows "markers_ok h' t (xs @ a # b # ys)"
  using assms(1) marker_ok_cut [OF _ assms(2,3)] assms(4) by (fastforce simp: markers_ok_def)

end
