(* ===== verification/List_Find.thy ===== *)
theory List_Find
  imports List_Chain
begin

text \<open>
  Finding a place of a list: the walks of the search markers, the position found for an index, and
  the cutting of the item it falls in.
\<close>

section \<open>Neighbours\<close>

lemma chain_next:
  assumes "chain h t (xs @ a # ys)" "live h r = Some a"
  obtains i where "get_item h r = Some i" "h_items h a = Some i" "live h (item_right i) = first ys"
    "live h (item_left i) = last_or None xs"
proof -
  obtain i where i: "h_items h a = Some i" using chain_live [OF assms(1), of a] by auto
  have "rt h a = first ys" "lf h a = last_or None xs"
    using linked_at [of "rt h" "lf h" None "live h (yt_start t)" xs a ys] assms(1) by (simp_all add: chain_def)
  then show thesis using that [of i] i assms(2) by (auto simp: live_Some get_item_ptr rt_def lf_def)
qed

lemma bounded_clone [simp]: "bounded h (somr_clone r) = bounded h r" "bounded h SNone"
  by (simp_all add: bounded_def)

lemma live_bounded: "fresh h \<Longrightarrow> live h r = Some a \<Longrightarrow> bounded h r"
  using fresh_less by (auto simp: bounded_def live_Some)

lemma chain_length:
  assumes "chain h t cs" "fresh h"
  shows "length cs \<le> h_next h"
proof -
  have "distinct cs" using assms(1) linked_distinct unfolding chain_def by blast
  moreover have "x < h_next h" if "x \<in> set cs" for x using chain_live [OF assms(1) that] fresh_less [OF assms(2)] by auto
  then have "set cs \<subseteq> {..<h_next h}" by auto
  ultimately show ?thesis using card_mono [of "{..<h_next h}" "set cs"] by (simp add: distinct_card)
qed

lemma list_item_indexable:
  assumes "list_item h st a" "h_items h a = Some i"
  shows "indexable i \<longleftrightarrow> \<not> is_item_deleted i" "item_vlen (h_items h a) = (if indexable i then unat (item_len i) else 0)"
  using assms by (auto simp: list_item_def indexable_def item_vlen_def)

lemma list_item_bounded:
  assumes "list_item h st a" "h_items h a = Some i"
  shows "bounded h (item_left i)" "bounded h (item_right i)"
  using assms by (auto simp: list_item_def)

section \<open>The walks of a marker\<close>

text \<open>The pointer \<open>r\<close> is at an item of the list, and \<open>n\<close> is the count before it.\<close>

definition at_place :: "heap \<Rightarrow> nat list \<Rightarrow> somr \<Rightarrow> u64 \<Rightarrow> bool" where
  "at_place h cs r n \<longleftrightarrow> marker_ok h cs (new_marker r n)"

lemma at_placeI: "cs = us @ a # ws \<Longrightarrow> live h r = Some a \<Longrightarrow> unat n = vlen h us \<Longrightarrow> at_place h cs r n"
  by (auto simp: at_place_def marker_ok_def new_marker_def)

lemma at_placeE:
  assumes "at_place h cs r n"
  obtains us a ws where "cs = us @ a # ws" "live h r = Some a" "unat n = vlen h us"
  using assms by (auto simp: at_place_def marker_ok_def new_marker_def)

lemma marker_place: "marker_ok h cs m \<longleftrightarrow> at_place h cs (sm_ptr m) (sm_index m)"
  by (simp add: at_place_def marker_ok_def new_marker_def)

lemma walk_right_ok:
  "chain h t (us @ a # ws) \<Longrightarrow> \<forall>x \<in> set (us @ a # ws). list_item h st x \<Longrightarrow> vlen h (us @ a # ws) < 2 ^ 63 \<Longrightarrow>
   live h r = Some a \<Longrightarrow> unat n = vlen h us \<Longrightarrow> length ws < fuel \<Longrightarrow>
   \<exists>r' n'. walk_right fuel h index r n = (Ok (r', n') :: _ codec_result) \<and> at_place h (us @ a # ws) r' n'
     \<and> (n \<le> index \<longrightarrow> n' \<le> index)"
proof (induction ws arbitrary: us a r n fuel)
  case Nil
  obtain f where f: "fuel = Suc f" using Nil.prems(6) by (cases fuel) auto
  obtain i where "get_item h r = Some i" "live h (item_right i) = None"
    using chain_next [OF Nil.prems(1,4)] by (metis first_simps(1))
  then show ?case using f Nil.prems(4,5) by (auto simp: live_None heap_simps intro!: at_placeI)
next
  case (Cons b ws)
  obtain f where f: "fuel = Suc f" using Cons.prems(6) by (cases fuel) auto
  obtain i where i: "get_item h r = Some i" "h_items h a = Some i" "live h (item_right i) = Some b"
    using chain_next [OF Cons.prems(1,4)] by (metis first_simps(2))
  have right: "get_item h (item_right i) \<noteq> None" using i(3) by (auto simp: live_None [symmetric])
  have here: "at_place h (us @ a # b # ws) r n" using Cons.prems(4,5) by (auto intro!: at_placeI)
  note idx = list_item_indexable [OF _ i(2), of st]
  have li: "list_item h st a" using Cons.prems(2) by simp
  have go: "\<exists>r' n'. walk_right f h index (somr_clone (item_right i)) m = (Ok (r', n') :: _ codec_result)
      \<and> at_place h (us @ a # b # ws) r' n' \<and> (m \<le> index \<longrightarrow> n' \<le> index)" if m: "unat m = vlen h (us @ [a])" for m
    using Cons.IH [of "us @ [a]" b "somr_clone (item_right i)" m f] Cons.prems(1-3,6) i(3) f m by simp
  show ?case
  proof (cases "index \<le> n")
    case True
    then show ?thesis using f i(1) here by auto
  next
    case False
    show ?thesis
    proof (cases "indexable i")
      case True
      have v: "vlen h (us @ [a]) = vlen h us + unat (item_len i)" using idx(2) [OF li] True by simp
      have sum: "unat n + unat (item_len i) < 2 ^ 64" using Cons.prems(3,5) v by simp
      show ?thesis
        using f i(1) right True False here sum go [of "n + item_len i"] v Cons.prems(5)
        by (auto simp: add_u64_def heap_simps unat_plus_u64 not_less)
    next
      case ni: False
      have v: "vlen h (us @ [a]) = vlen h us" using idx(2) [OF li] ni by simp
      show ?thesis using f i(1) right ni False here go [of n] v Cons.prems(5) by (auto simp: heap_simps)
    qed
  qed
qed

text \<open>One step to the left.\<close>

lemma left_step:
  assumes "chain h t (us @ a # ws)" "\<forall>x \<in> set (us @ a # ws). list_item h st x" "live h r = Some a" "unat n = vlen h us"
    and "get_item h r = Some i" "get_item h (item_left i) = Some l"
  obtains vs b n' where "us = vs @ [b]" "live h (item_left i) = Some b" "h_items h b = Some l" "unat n' = vlen h vs" "n' \<le> n"
    "(if indexable l then sub_u64 n (item_len l) else Ok n) = Ok n'"
proof -
  obtain j where "get_item h r = Some j" "live h (item_left j) = last_or None us"
    using chain_next [OF assms(1,3)] by metis
  then have "live h (item_left i) = last_or None us" using assms(5) by simp
  then obtain b where b: "last_or None us = Some b" "h_items h b = Some l" by (rule live_getE [OF _ assms(6)])
  then obtain vs where us: "us = vs @ [b]" by (cases us rule: rev_cases) auto
  have li: "list_item h st b" using assms(2) us by simp
  note idx = list_item_indexable [OF li b(2)]
  have le: "item_len l \<le> n" if "indexable l" using assms(4) us idx(2) that by (simp add: word_le_nat_alt)
  show thesis
  proof (cases "indexable l")
    case True
    then show thesis using that [of vs b "n - item_len l"] us b assms(4) idx(2) le \<open>live h (item_left i) = _\<close>
      by (simp add: sub_u64_def unat_minus_u64 word_le_nat_alt)
  next
    case False
    then show thesis using that [of vs b n] us b assms(4) idx(2) \<open>live h (item_left i) = _\<close> by simp
  qed
qed

lemma no_left:
  assumes "chain h t (us @ a # ws)" "live h r = Some a" "get_item h r = Some i" "get_item h (item_left i) = None"
  shows "us = []"
proof -
  obtain j where "get_item h r = Some j" "live h (item_left j) = last_or None us"
    using chain_next [OF assms(1,2)] by metis
  then show ?thesis using assms(3,4) by (auto simp: live_None [symmetric] last_or_def split: if_splits)
qed

lemma walk_left_ok:
  "chain h t (us @ a # ws) \<Longrightarrow> \<forall>x \<in> set (us @ a # ws). list_item h st x \<Longrightarrow>
   live h r = Some a \<Longrightarrow> unat n = vlen h us \<Longrightarrow> length us < fuel \<Longrightarrow>
   \<exists>r' n'. walk_left fuel h index r n = (Ok (r', n') :: _ codec_result) \<and> at_place h (us @ a # ws) r' n' \<and> n' \<le> index"
proof (induction us arbitrary: a ws r n fuel rule: length_induct)
  case (1 us)
  obtain f where f: "fuel = Suc f" using "1.prems"(5) by (cases fuel) auto
  obtain i where i: "get_item h r = Some i" using chain_next [OF "1.prems"(1,3)] by metis
  have here: "at_place h (us @ a # ws) r n" using "1.prems"(3,4) by (auto intro!: at_placeI)
  show ?case
  proof (cases "n \<le> index")
    case True
    then show ?thesis using f i here by simp
  next
    case False
    show ?thesis
    proof (cases "get_item h (item_left i)")
      case None
      then have "us = []" by (rule no_left [OF "1.prems"(1,3) i])
      then have "n = 0" using "1.prems"(4) by (simp add: unat_eq_zero)
      then show ?thesis using False by simp
    next
      case (Some l)
      obtain vs b n' where s: "us = vs @ [b]" "live h (item_left i) = Some b" "h_items h b = Some l" "unat n' = vlen h vs" "n' \<le> n"
        "(if indexable l then sub_u64 n (item_len l) else Ok n) = (Ok n' :: _ codec_result)"
        by (rule left_step [OF "1.prems"(1,2,3,4) i Some])
      have "\<exists>r' n''. walk_left f h index (somr_clone (item_left i)) n' = (Ok (r', n'') :: _ codec_result)
          \<and> at_place h (vs @ b # a # ws) r' n'' \<and> n'' \<le> index"
        by (rule "1.IH" [rule_format]) (use "1.prems" s f in auto)
      then show ?thesis using f i False Some s(1,6) by (simp add: heap_simps)
    qed
  qed
qed

lemma walk_unmerged_ok:
  "chain h t (us @ a # ws) \<Longrightarrow> \<forall>x \<in> set (us @ a # ws). list_item h st x \<Longrightarrow> store_ok h st \<Longrightarrow>
   live h r = Some a \<Longrightarrow> unat n = vlen h us \<Longrightarrow> length us < fuel \<Longrightarrow>
   \<exists>r' n'. walk_unmerged fuel h r n = (Ok (r', n') :: _ codec_result) \<and> at_place h (us @ a # ws) r' n' \<and> n' \<le> n"
proof (induction us arbitrary: a ws r n fuel rule: length_induct)
  case (1 us)
  obtain f where f: "fuel = Suc f" using "1.prems"(6) by (cases fuel) auto
  obtain i where i: "get_item h r = Some i" using chain_next [OF "1.prems"(1,4)] by metis
  have here: "at_place h (us @ a # ws) r n" using "1.prems"(4,5) by (auto intro!: at_placeI)
  show ?case
  proof (cases "get_item h (item_left i)")
    case None
    then show ?thesis using f i here by (simp add: heap_simps)
  next
    case (Some l)
    obtain vs b n' where s: "us = vs @ [b]" "live h (item_left i) = Some b" "h_items h b = Some l" "unat n' = vlen h vs" "n' \<le> n"
      "(if indexable l then sub_u64 n (item_len l) else Ok n) = (Ok n' :: _ codec_result)"
      by (rule left_step [OF "1.prems"(1,2,4,5) i Some])
    have "list_item h st b" using "1.prems"(2) s(1) by simp
    then have "stored st b (id_client (item_id l))" using s(3) by (auto simp: list_item_def)
    then have sum: "unat (id_clock (item_id l)) + unat (item_len l) < 2 ^ 64"
      using stored_at [OF "1.prems"(3) _ s(3)] by metis
    have "\<exists>r' n''. walk_unmerged f h (somr_clone (item_left i)) n' = (Ok (r', n'') :: _ codec_result)
        \<and> at_place h (vs @ b # a # ws) r' n'' \<and> n'' \<le> n'"
      by (rule "1.IH" [rule_format]) (use "1.prems" s f in auto)
    then show ?thesis using f i Some s(1,5,6) sum here by (auto simp: heap_simps add_u64_def)
  qed
qed

section \<open>The closest marker\<close>

lemma sint_small:
  assumes "unat (x :: u64) < 2 ^ 63"
  shows "sint x = uint x" "uint x < 2 ^ 63"
proof -
  show u: "uint x < 2 ^ 63" using assms by (simp flip: of_nat_less_iff [where 'a = int])
  have "- (2 ^ 63) \<le> uint x" by (rule order_trans [OF _ uint_ge_0]) simp
  then have "signed_take_bit 63 (uint x) = uint x" using u by (intro signed_take_bit_int_eq_self)
  then show "sint x = uint x" by (simp add: sint_uint)
qed

lemma marker_distance_ok:
  assumes "unat index < 2 ^ 63" "unat (sm_index m) < 2 ^ 63"
  obtains d where "marker_distance index m = (Ok d :: _ codec_result)"
proof -
  note i = sint_small [OF assms(1)] and m = sint_small [OF assms(2)]
  have "uint index - uint (sm_index m) < 2 ^ 63" by (rule le_less_trans [OF _ i(2)]) simp
  moreover have "uint (sm_index m) - uint index < 2 ^ 63" by (rule le_less_trans [OF _ m(2)]) simp
  ultimately have "\<bar>sint index - sint (sm_index m)\<bar> < 2 ^ 63" using i(1) m(1) by (simp add: abs_less_iff)
  then show thesis using that by (simp add: marker_distance_def Let_def)
qed

lemma closest_marker_ok:
  "unat index < 2 ^ 63 \<Longrightarrow> \<forall>m \<in> set ms. unat (sm_index m) < 2 ^ 63 \<Longrightarrow>
   \<exists>c. closest_marker index ms = (Ok c :: _ codec_result) \<and> (case c of None \<Rightarrow> ms = [] | Some (i, d) \<Rightarrow> i < length ms)"
proof (induction ms)
  case (Cons m ms)
  obtain d where d: "marker_distance index m = (Ok d :: _ codec_result)"
    using marker_distance_ok [of index m] Cons.prems by auto
  obtain c where c: "closest_marker index ms = (Ok c :: _ codec_result)" "case c of None \<Rightarrow> ms = [] | Some (i, d) \<Rightarrow> i < length ms"
    using Cons by auto
  then show ?case using d by (cases c) auto
qed simp

declare walk_right.simps [simp del] walk_left.simps [simp del] walk_unmerged.simps [simp del]

lemma at_place_small: "at_place h cs r n \<Longrightarrow> vlen h cs < 2 ^ 63 \<Longrightarrow> unat n < 2 ^ 63"
  by (auto elim!: at_placeE)

lemma find_walks_ok:
  assumes "list_ok h st self t cs" "at_place h cs r n"
  obtains r1 n1 r2 n2 r3 n3 where
    "walk_right (h_next h + 1) h index r n = (Ok (r1, n1) :: _ codec_result)"
    "walk_left (h_next h + 1) h index r1 n1 = (Ok (r2, n2) :: _ codec_result)"
    "walk_unmerged (h_next h + 1) h r2 n2 = (Ok (r3, n3) :: _ codec_result)"
    "at_place h cs r3 n3" "n3 \<le> index"
proof -
  note ok = list_okD [OF assms(1)]
  have items: "\<forall>x \<in> set cs. list_item h st x" using ok(11) by blast
  have len: "length cs < h_next h + 1" using chain_length [OF ok(5,2)] by simp
  obtain us a ws where p: "cs = us @ a # ws" "live h r = Some a" "unat n = vlen h us"
    using assms(2) by (rule at_placeE)
  obtain r1 n1 where 1: "walk_right (h_next h + 1) h index r n = (Ok (r1, n1) :: _ codec_result)" "at_place h cs r1 n1"
    using walk_right_ok [of h t us a ws st r n "h_next h + 1" index] ok(5,12) items p len by auto
  obtain us1 a1 ws1 where p1: "cs = us1 @ a1 # ws1" "live h r1 = Some a1" "unat n1 = vlen h us1"
    using 1(2) by (rule at_placeE)
  obtain r2 n2 where 2: "walk_left (h_next h + 1) h index r1 n1 = (Ok (r2, n2) :: _ codec_result)" "at_place h cs r2 n2" "n2 \<le> index"
    using walk_left_ok [of h t us1 a1 ws1 st r1 n1 "h_next h + 1" index] ok(5) items p1 len by auto
  obtain us2 a2 ws2 where p2: "cs = us2 @ a2 # ws2" "live h r2 = Some a2" "unat n2 = vlen h us2"
    using 2(2) by (rule at_placeE)
  obtain r3 n3 where 3: "walk_unmerged (h_next h + 1) h r2 n2 = (Ok (r3, n3) :: _ codec_result)" "at_place h cs r3 n3" "n3 \<le> n2"
    using walk_unmerged_ok [of h t us2 a2 ws2 st r2 n2 "h_next h + 1"] ok(1,5) items p2 len by auto
  have "n3 \<le> index" using 3(3) 2(3) by simp
  then show thesis using that 1(1) 2(1) 3(1,2) by blast
qed

lemma at_place_clone [simp]: "at_place h cs (somr_clone r) n = at_place h cs r n"
  by (simp add: at_place_def marker_ok_def new_marker_def)

lemma marker_fields [simp]:
  "sm_ptr (overwrite_marker r n m) = r" "sm_index (overwrite_marker r n m) = n" "sm_ptr (new_marker r n) = r"
  "sm_index (new_marker r n) = n" "sm_ptr (clone_marker m) = somr_clone (sm_ptr m)" "sm_index (clone_marker m) = sm_index m"
  by (simp_all add: overwrite_marker_def new_marker_def clone_marker_def)

lemma mark_position_ok:
  assumes "\<forall>m \<in> set ms. marker_ok h cs m" "at_place h cs r n" "mark_position ms r n = (m, ms')"
  shows "marker_ok h cs m" "\<forall>m \<in> set ms'. marker_ok h cs m" "sm_index m = n"
proof -
  show "marker_ok h cs m" "sm_index m = n" using assms(2,3)
    by (auto simp: mark_position_def Let_def marker_place split: if_splits)
  show "\<forall>m \<in> set ms'. marker_ok h cs m" using assms unfolding marker_place
    by (cases ms) (auto simp: mark_position_def Let_def split: if_splits)
qed

lemma find_marker_ok:
  assumes "list_ok h st self t cs" "\<forall>m \<in> set ms. marker_ok h cs m" "unat index < 2 ^ 63"
  obtains m ms' where "find_marker h t index ms = (Ok (m, ms') :: _ codec_result)" "\<forall>m \<in> set ms'. marker_ok h cs m"
    "case m of None \<Rightarrow> True | Some m \<Rightarrow> marker_ok h cs m \<and> sm_index m \<le> index \<and> index \<noteq> 0"
proof (cases "get_item h (yt_start t) = None \<or> index = 0")
  case True
  then show thesis using that [of None ms] assms(2) by (auto simp: find_marker_def)
next
  case False
  note ok = list_okD [OF assms(1)]
  have start: "live h (yt_start t) = first cs" using ok(5) linked_first unfolding chain_def by blast
  have "\<forall>m \<in> set ms. unat (sm_index m) < 2 ^ 63" using assms(2) at_place_small [OF _ ok(12)] unfolding marker_place by blast
  then obtain c where c: "closest_marker index ms = (Ok c :: _ codec_result)" "case c of None \<Rightarrow> ms = [] | Some (i, d) \<Rightarrow> i < length ms"
    using closest_marker_ok [OF assms(3), of ms] by blast
  let ?m = "map_option (\<lambda>(i, _). ms ! i) c"
  let ?n = "case ?m of Some m \<Rightarrow> sm_index m | None \<Rightarrow> 0" and ?r = "somr_clone (case ?m of Some m \<Rightarrow> sm_ptr m | None \<Rightarrow> yt_start t)"
  have "at_place h cs ?r ?n"
  proof (cases c)
    case None
    obtain a ws where "cs = a # ws" using False start by (cases cs) (auto simp: live_None)
    then show ?thesis using None start by (intro at_placeI [of _ "[]"]) auto
  next
    case (Some p)
    then have "marker_ok h cs (ms ! fst p)" using c(2) assms(2) by (cases p) auto
    then show ?thesis using Some by (cases p) (auto simp: marker_place)
  qed
  then obtain r1 n1 r2 n2 r3 n3 where w:
    "walk_right (h_next h + 1) h index ?r ?n = (Ok (r1, n1) :: _ codec_result)"
    "walk_left (h_next h + 1) h index r1 n1 = (Ok (r2, n2) :: _ codec_result)"
    "walk_unmerged (h_next h + 1) h r2 n2 = (Ok (r3, n3) :: _ codec_result)"
    "at_place h cs r3 n3" "n3 \<le> index"
    by (rule find_walks_ok [OF assms(1)])
  obtain m ms' where new: "mark_position ms r3 n3 = (m, ms')" by (cases "mark_position ms r3 n3")
  note new_ok = mark_position_ok [OF assms(2) w(4) new]
  consider i d where "c = Some (i, d)" "marker_close (sm_index (ms ! i)) n3 (yt_len t)" |
    "c = None \<or> (\<exists>i d. c = Some (i, d) \<and> \<not> marker_close (sm_index (ms ! i)) n3 (yt_len t))"
    by (cases c) auto
  then show thesis
  proof cases
    case 1
    let ?m = "overwrite_marker r3 n3 (ms ! i)"
    have "find_marker h t index ms = (Ok (Some (clone_marker ?m), ms[i := ?m]) :: _ codec_result)"
      using False c(1) w 1 by (simp add: find_marker_def Let_def)
    moreover have "\<forall>m \<in> set (ms[i := ?m]). marker_ok h cs m"
      using assms(2) w(4) set_update_subset_insert [of ms i ?m] by (auto simp: marker_place)
    ultimately show thesis using that w(4,5) False by (simp add: marker_place)
  next
    case 2
    have "find_marker h t index ms = (Ok (Some m, ms') :: _ codec_result)"
      using False c(1) w 2 new by (auto simp: find_marker_def Let_def)
    then show thesis using that new_ok w(5) False by simp
  qed
qed

section \<open>Finding a position\<close>

text \<open>The position is at the count \<open>n\<close> of the list, between two items or inside the left one.\<close>

definition pos_at :: "heap \<Rightarrow> nat list \<Rightarrow> nat \<Rightarrow> item_position \<Rightarrow> bool" where
  "pos_at h cs n pos \<longleftrightarrow>
     bounded h (pos_left pos) \<and> bounded h (pos_right pos)
     \<and> (\<exists>xs ys. cs = xs @ ys \<and> live h (pos_left pos) = last_or None xs \<and> live h (pos_right pos) = first ys
        \<and> (pos_offset pos = 0 \<and> unat (pos_index pos) = vlen h xs \<and> n = vlen h xs \<and> (n = 0 \<longrightarrow> xs = [])
           \<or> (\<exists>zs a i. xs = zs @ [a] \<and> h_items h a = Some i \<and> \<not> is_item_deleted i \<and> 0 < pos_offset pos
                \<and> pos_offset pos < item_len i \<and> unat (pos_index pos) = vlen h zs \<and> n = vlen h zs + unat (pos_offset pos))))"

text \<open>The walk from a place whose count is not above the index.\<close>

lemma find_pos_loop_ok:
  "chain h t (xs @ ys) \<Longrightarrow> bounded h (pos_left pos) \<Longrightarrow> bounded h (pos_right pos) \<Longrightarrow>
   (\<forall>x \<in> set ys. \<forall>y. h_items h x = Some y \<longrightarrow> bounded h (item_right y)) \<Longrightarrow> live h (pos_left pos) = last_or None xs \<Longrightarrow> live h (pos_right pos) = first ys \<Longrightarrow>
   pos_offset pos = 0 \<Longrightarrow> unat (pos_index pos) = vlen h xs \<Longrightarrow> vlen h (xs @ ys) < 2 ^ 64 \<Longrightarrow> unat remain \<le> vlen h ys \<Longrightarrow>
   length ys < fuel \<Longrightarrow> (vlen h xs + unat remain = 0 \<longrightarrow> xs = []) \<Longrightarrow>
   \<exists>pos'. find_pos_loop fuel h remain pos = (Ok (Some pos') :: _ codec_result) \<and> pos_parent pos' = pos_parent pos
     \<and> pos_at h (xs @ ys) (vlen h xs + unat remain) pos'"
proof (induction ys arbitrary: xs pos remain fuel)
  case Nil
  then obtain f where "fuel = Suc f" by (cases fuel) auto
  moreover have "remain = 0" using Nil.prems(10) by (simp add: unat_eq_zero)
  moreover from this have "pos_at h xs (vlen h xs) pos"
    unfolding pos_at_def using Nil.prems(2,3,5-8,12) by (intro conjI exI [of _ xs] exI [of _ "[]"]) simp_all
  ultimately show ?case by simp
next
  case (Cons a ys)
  obtain f where f: "fuel = Suc f" using Cons.prems(11) by (cases fuel) auto
  show ?case
  proof (cases "remain = 0")
    case True
    have "pos_at h (xs @ a # ys) (vlen h xs) pos"
      unfolding pos_at_def using Cons.prems(2,3,5-8,12) True by (intro conjI exI [of _ xs] exI [of _ "a # ys"]) simp_all
    then show ?thesis using f True by simp
  next
    case False
    have br: "h_items h a = Some y \<Longrightarrow> bounded h (item_right y)" for y using Cons.prems(4) by simp
    have "live h (pos_right pos) = Some a" using Cons.prems(6) by simp
    with Cons.prems(1) obtain i where i: "get_item h (pos_right pos) = Some i" "h_items h a = Some i"
      "live h (item_right i) = first ys" by (rule chain_next)
    show ?thesis
    proof (cases "is_item_deleted i")
      case True
      let ?pos = "pos\<lparr>pos_left := somr_clone (pos_right pos), pos_right := somr_clone (item_right i)\<rparr>"
      have v: "vlen h (xs @ [a]) = vlen h xs" using i(2) True by (simp add: item_vlen_def)
      have "\<exists>pos'. find_pos_loop f h remain ?pos = (Ok (Some pos') :: _ codec_result) \<and> pos_parent pos' = pos_parent ?pos
          \<and> pos_at h ((xs @ [a]) @ ys) (vlen h (xs @ [a]) + unat remain) pos'"
        by (rule Cons.IH) (use Cons.prems(1-11) br f i True v False in \<open>simp_all add: item_vlen_def unat_eq_zero\<close>)
      then show ?thesis using f False i True v by simp
    next
      case del: False
      show ?thesis
      proof (cases "remain < item_len i")
        case True
        let ?pos = "pos\<lparr>pos_offset := remain, pos_left := somr_clone (pos_right pos), pos_right := somr_clone (item_right i)\<rparr>"
        obtain g where g: "f = Suc g" using Cons.prems(11) f by (cases f) auto
        have "pos_at h (xs @ a # ys) (vlen h xs + unat remain) ?pos"
          unfolding pos_at_def
          by (intro conjI exI [of _ "xs @ [a]"] exI [of _ ys])
            (use Cons.prems(3,6,8) br i False del True in \<open>auto simp: word_greater_zero_iff\<close>)
        then show ?thesis using f g False i del True by simp
      next
        case long: False
        let ?idx = "pos_index pos + item_len i"
        let ?pos = "pos\<lparr>pos_index := ?idx, pos_left := somr_clone (pos_right pos), pos_right := somr_clone (item_right i)\<rparr>"
        have v: "vlen h (xs @ [a]) = vlen h xs + unat (item_len i)" using i(2) del by (simp add: item_vlen_def)
        have add: "add_u64 (pos_index pos) (item_len i) = (Ok ?idx :: _ codec_result)" "unat ?idx = vlen h (xs @ [a])"
          using Cons.prems(8,9) v i(2) del by (simp_all add: add_u64_def unat_plus_u64 item_vlen_def)
        have rem: "unat (remain - item_len i) = unat remain - unat (item_len i)" "unat (item_len i) \<le> unat remain"
          using long by (simp_all add: unat_minus_u64 word_le_nat_alt not_less)
        have "\<exists>pos'. find_pos_loop f h (remain - item_len i) ?pos = (Ok (Some pos') :: _ codec_result)
            \<and> pos_parent pos' = pos_parent ?pos
            \<and> pos_at h ((xs @ [a]) @ ys) (vlen h (xs @ [a]) + unat (remain - item_len i)) pos'"
          by (rule Cons.IH)
            (use Cons.prems(1-11) br f i del v add(2) rem False in \<open>simp_all add: item_vlen_def unat_eq_zero\<close>)
        then show ?thesis using f False i del long v add(1) rem by simp
      qed
    qed
  qed
qed


declare find_pos_loop.simps [simp del]

text \<open>Writing to a type leaves the items alone.\<close>

lemma same_items_simps:
  assumes "h_items h' = h_items h" "h_next h' = h_next h"
  shows "get_item h' r = get_item h r" "live h' r = live h r" "bounded h' r = bounded h r" "fresh h' = fresh h"
    "vlen h' cs = vlen h cs" "view f h' cs = view f h cs" "marker_ok h' cs m = marker_ok h cs m" "markers_ok h' t cs = markers_ok h t cs"
    "list_item h' st a = list_item h st a" "parent_dead h' t = parent_dead h t" "store_ok h' st = store_ok h st"
    "state_of h' st client = state_of h st client" "chain h' t cs = chain h t cs"
proof -
  show g: "get_item h' r = get_item h r" for r using assms(1) by (simp add: get_item_def)
  show l: "live h' r = live h r" for r by (simp add: live_def g)
  show b: "bounded h' r = bounded h r" for r using assms(2) by (simp add: bounded_def)
  show "fresh h' = fresh h" using assms by (simp add: fresh_def)
  show v: "vlen h' cs = vlen h cs" "view f h' cs = view f h cs" for cs f using assms(1) by (simp_all add: vlen_def view_def)
  show m: "marker_ok h' cs m = marker_ok h cs m" for m by (simp add: marker_ok_def l v)
  show "markers_ok h' t cs = markers_ok h t cs" by (simp add: markers_ok_def m)
  show "list_item h' st a = list_item h st a" using assms(1) by (simp add: list_item_def b)
  show "parent_dead h' t = parent_dead h t" by (simp add: parent_dead_def g)
  have s: "\<forall>n \<in> set ns. same_span h h' n" for ns
  proof
    fix n show "same_span h h' n" by (cases n) (simp_all add: same_span_def get_item_unchecked_def g)
  qed
  show "store_ok h' st = store_ok h st" "state_of h' st client = state_of h st client"
    by (simp_all add: store_ok_def state_of_def same_span_run [OF s])
  have "rt h' = rt h" "lf h' = lf h" by (rule ext, simp add: rt_def lf_def l assms(1) split: option.split)+
  then show "chain h' t cs = chain h t cs" by (simp add: chain_def l)
qed

lemmas put_ty_simps [simp] = same_items_simps [OF h_put_ty h_next_put_ty]

text \<open>Only the markers of the type change.\<close>

definition same_but_markers :: "ytype \<Rightarrow> ytype \<Rightarrow> bool" where
  "same_but_markers t t' \<longleftrightarrow> t'\<lparr>yt_markers := yt_markers t\<rparr> = t"

lemma same_but_markersD:
  assumes "same_but_markers t t'"
  shows "yt_len t' = yt_len t" "yt_start t' = yt_start t" "yt_item t' = yt_item t" "yt_map t' = yt_map t"
proof -
  have "yt_len (t'\<lparr>yt_markers := yt_markers t\<rparr>) = yt_len t" "yt_start (t'\<lparr>yt_markers := yt_markers t\<rparr>) = yt_start t"
    "yt_item (t'\<lparr>yt_markers := yt_markers t\<rparr>) = yt_item t" "yt_map (t'\<lparr>yt_markers := yt_markers t\<rparr>) = yt_map t"
    using assms unfolding same_but_markers_def by metis+
  then show "yt_len t' = yt_len t" "yt_start t' = yt_start t" "yt_item t' = yt_item t" "yt_map t' = yt_map t" by simp_all
qed

lemma same_but_markers_refl [simp]: "same_but_markers t t" "same_but_markers t (t\<lparr>yt_markers := ms\<rparr>)"
  by (simp_all add: same_but_markers_def)

lemma list_base_markers:
  assumes "list_base h st self t cs" "same_but_markers t t'"
  shows "list_base (put_ty self t' h) st self t' cs"
proof -
  note ok = list_baseD [OF assms(1)] and eq = same_but_markersD [OF assms(2)]
  have "chain h t' cs" using ok(5) eq(2) by (simp add: chain_def)
  moreover have "\<not> parent_dead h t'" using ok(7) eq(3) by (simp add: parent_dead_def)
  ultimately show ?thesis using ok eq by (simp add: list_base_def)
qed

lemma list_ok_markers:
  assumes "list_ok h st self t cs" "same_but_markers t t'" "markers_ok h t' cs"
  shows "list_ok (put_ty self t' h) st self t' cs"
  using list_base_markers [OF list_okD(13) [OF assms(1)] assms(2)] assms(3) by (simp add: list_ok_def)

lemma pos_at_put_ty [simp]: "pos_at (put_ty p t h) cs n pos = pos_at h cs n pos"
  by (simp add: pos_at_def)

lemma find_pos_ok:
  assumes "list_ok h st self t cs" "index \<le> yt_len t"
  obtains pos t' where "find_pos self index h = (Ok (Some pos, put_ty self t' h) :: _ codec_result)" "same_but_markers t t'"
    "list_ok (put_ty self t' h) st self t' cs" "pos_at h cs (unat index) pos" "pos_parent pos = clone_ytype_ref self"
proof -
  note ok = list_okD [OF assms(1)]
  let ?pos = "\<lparr>pos_parent = clone_ytype_ref self, pos_left = SNone, pos_right = somr_clone (yt_start t), pos_index = 0, pos_offset = 0\<rparr>"
  have start: "live h (yt_start t) = first cs" using ok(5) linked_first unfolding chain_def by blast
  have le: "unat index \<le> vlen h cs" using assms(2) ok(10) by (simp add: word_le_nat_alt)
  have right: "\<forall>x \<in> set cs. \<forall>y. h_items h x = Some y \<longrightarrow> bounded h (item_right y)" using list_item_bounded [OF ok(11)] by blast
  have len: "length cs < h_next h + 1" using chain_length [OF ok(5,2)] by simp
  have big: "vlen h cs < 2 ^ 64" using ok(12) by simp
  show thesis
  proof (cases "get_item h (yt_start t)")
    case None
    then have "cs = []" using start by (cases cs) (simp_all add: live_None [symmetric])
    then have "pos_at h cs (unat index) ?pos" using le start ok(6) by (simp add: pos_at_def)
    then show thesis using that [of ?pos t] ok(4) None assms(1) by (simp add: find_pos_def heap_simps)
  next
    case (Some i)
    have start_run: "\<exists>pos'. find_pos_loop (h_next h + 1) (put_ty self t1 h) index ?pos = (Ok (Some pos') :: _ codec_result)
        \<and> pos_parent pos' = pos_parent ?pos \<and> pos_at (put_ty self t1 h) ([] @ cs) (vlen (put_ty self t1 h) [] + unat index) pos'" for t1
      by (rule find_pos_loop_ok [where t = t]) (use ok(5,6) right start le len big in simp_all)
    show thesis
    proof (cases "yt_markers t")
      case None
      then show thesis using that [of _ t] start_run [of t] ok(4) Some assms(1) by (auto simp: find_pos_def heap_simps)
    next
      case markers: (Some ms)
      have small: "unat index < 2 ^ 63" using le ok(12) by simp
      obtain m ms' where m: "find_marker h t index ms = (Ok (m, ms') :: _ codec_result)" "\<forall>m \<in> set ms'. marker_ok h cs m"
        "case m of None \<Rightarrow> True | Some m \<Rightarrow> marker_ok h cs m \<and> sm_index m \<le> index \<and> index \<noteq> 0"
        using find_marker_ok [OF assms(1) _ small, of ms] ok(9) markers by (auto simp: markers_ok_def)
      let ?t = "t\<lparr>yt_markers := Some ms'\<rparr>"
      let ?h = "put_ty self ?t h"
      have ok': "list_ok ?h st self ?t cs"
        by (rule list_ok_markers [OF assms(1)]) (use m(2) in \<open>simp_all add: markers_ok_def\<close>)
      show thesis
      proof (cases m)
        case None
        from start_run [of ?t] obtain pos' where loop: "find_pos_loop (h_next h + 1) ?h index ?pos = (Ok (Some pos') :: _ codec_result)"
          "pos_parent pos' = clone_ytype_ref self" "pos_at h cs (unat index) pos'" by auto
        have "find_pos self index h = (Ok (Some pos', ?h) :: _ codec_result)"
          using loop(1) ok(4) Some markers m(1) None by (simp add: find_pos_def heap_simps)
        from that [OF this _ ok' loop(3,2)] show thesis by simp
      next
        case (Some mk)
        have "at_place h cs (sm_ptr mk) (sm_index mk)" using m(3) Some by (simp add: marker_place)
        then obtain us a ws where p: "cs = us @ a # ws" "live h (sm_ptr mk) = Some a" "unat (sm_index mk) = vlen h us"
          by (rule at_placeE)
        obtain j where j: "get_item h (sm_ptr mk) = Some j" "h_items h a = Some j" "live h (item_left j) = last_or None us"
          using chain_next [OF ok(5) [unfolded p(1)] p(2)] by metis
        have bd: "bounded h (item_left j)" "bounded h (sm_ptr mk)"
          using ok(11) [of a] p(1) j(2) live_bounded [OF ok(2) p(2)] by (auto simp: list_item_def)
        have rem: "unat (index - sm_index mk) = unat index - vlen h us" "\<not> index < sm_index mk" "vlen h us \<le> unat index" "0 < unat index"
          using m(3) Some p(3) by (simp_all add: unat_minus_u64 word_le_nat_alt word_less_nat_alt unat_gt_0)
        let ?q = "?pos\<lparr>pos_index := sm_index mk, pos_left := somr_clone (item_left j), pos_right := sm_ptr mk\<rparr>"
        have "\<exists>pos'. find_pos_loop (h_next h + 1) ?h (index - sm_index mk) ?q = (Ok (Some pos') :: _ codec_result)
            \<and> pos_parent pos' = pos_parent ?q \<and> pos_at ?h (us @ a # ws) (vlen ?h us + unat (index - sm_index mk)) pos'"
          by (rule find_pos_loop_ok [where t = t]) (use ok(5) p right j bd le len big rem in \<open>simp_all add: ball_Un\<close>)
        then obtain pos' where loop: "find_pos_loop (h_next h + 1) ?h (index - sm_index mk) ?q = (Ok (Some pos') :: _ codec_result)"
          "pos_parent pos' = clone_ytype_ref self" "pos_at h cs (unat index) pos'"
          using rem p(1) by auto
        have "find_pos self index h = (Ok (Some pos', ?h) :: _ codec_result)"
          using loop(1) ok(4) \<open>get_item h (yt_start t) = Some i\<close> markers m(1) Some j(1) rem(2) by (simp add: find_pos_def heap_simps)
        from that [OF this _ ok' loop(3,2)] show thesis by simp
      qed
    qed
  qed
qed

section \<open>Cutting at a position\<close>

definition recut :: "heap \<Rightarrow> nat list \<Rightarrow> heap \<Rightarrow> nat list \<Rightarrow> bool" where
  "recut h cs h' cs' \<longleftrightarrow>
     cs' = cs \<and> h' = h
     \<or> (\<exists>us a ws b d. cs = us @ a # ws \<and> cs' = us @ a # b # ws \<and> distinct cs' \<and> cut_at h h' a b d)"

text \<open>The count \<open>n\<close> does not fall inside a character.\<close>

definition no_cut :: "heap \<Rightarrow> nat list \<Rightarrow> nat \<Rightarrow> bool" where
  "no_cut h cs n \<longleftrightarrow>
     (\<forall>zs a ys i d. cs = zs @ a # ys \<and> h_items h a = Some i \<and> \<not> is_item_deleted i \<and> 0 < d \<and> d < item_len i
        \<and> n = vlen h zs + unat d \<longrightarrow> split_boundary (item_content i) d)"

text \<open>A count that falls between characters still does when an item has been cut elsewhere.\<close>

lemma no_cut_cut:
  assumes "no_cut h (us @ a # ws) n" "cut_at h h' a b d" "distinct (us @ a # b # ws)"
  shows "no_cut h' (us @ a # b # ws) n"
  unfolding no_cut_def
proof (intro allI impI)
  fix zs x ys i e
  assume p: "us @ a # b # ws = zs @ x # ys \<and> h_items h' x = Some i \<and> \<not> is_item_deleted i \<and> 0 < e \<and> e < item_len i
    \<and> n = vlen h' zs + unat e"
  obtain j lc rc r' where c: "h_items h a = Some j" "\<not> is_item_deleted j" "content_ok lc" "content_ok rc"
    "content_merge lc rc = (Ok (Some (item_content j, r')) :: _ codec_result)"
    "unat (clock_len lc) = unat d" "unat (clock_len lc) + unat (clock_len rc) = unat (item_len j)"
    "core (h_items h' a) = Some (item_id j, lc, item_flags j)"
    "core (h_items h' b) = Some (new_id (id_client (item_id j)) (id_clock (item_id j) + d), rc, if content_countable rc then item_countable else 0)"
    "\<And>y. y \<noteq> a \<Longrightarrow> y \<noteq> b \<Longrightarrow> core (h_items h' y) = core (h_items h y)"
    using assms(2) unfolding cut_at_def by blast
  have nota: "a \<notin> set us" "b \<notin> set us" "a \<notin> set ws" "b \<notin> set ws" using assms(3) by auto
  note v = cut_vlen(1) [OF assms(2)] and len = cut_vlen(3,4) [OF assms(2)]
  have old: "split_boundary (item_content y) e'"
    if "us @ a # ws = zs' @ x' # ys'" "h_items h x' = Some y" "\<not> is_item_deleted y" "0 < e'" "e' < item_len y" "n = vlen h zs' + unat e'"
    for zs' x' ys' y e'
    using assms(1) that unfolding no_cut_def by blast
  note parts = split_boundary_parts [OF c(5,3,4)]
  have same: "\<exists>y. h_items h x = Some y \<and> item_content y = item_content i \<and> \<not> is_item_deleted y \<and> item_len y = item_len i"
    if "x \<noteq> a" "x \<noteq> b"
    using c(10) [OF that] p by (cases "h_items h x") (auto simp: core_def is_item_deleted_def item_len_def)
  consider (left) qs where "us = zs @ x # qs" | (a) "zs = us" "x = a" | (b) "zs = us @ [a]" "x = b" | (right) qs where "zs = us @ a # b # qs" "ws = qs @ x # ys"
    using p by (auto simp: append_eq_append_conv2 append_eq_Cons_conv Cons_eq_append_conv)
  then show "split_boundary (item_content i) e"
  proof cases
    case left
    then have x: "x \<noteq> a" "x \<noteq> b" "vlen h' zs = vlen h zs" using nota v [of zs] by auto
    from same [OF x(1,2)] old [of zs x "qs @ a # ws" _ e] left p x(3) show ?thesis by auto
  next
    case a
    have i: "item_content i = lc" using c(8) p a by (auto simp: core_def)
    have "unat e < unat (clock_len lc)" using p i by (simp add: item_len_def word_less_nat_alt)
    moreover have "e < item_len j" using calculation c(7) by (simp add: word_less_nat_alt)
    ultimately show ?thesis using old [of us a ws j e] c(1,2) p a v [of us] nota parts(1) [of e] i by simp
  next
    case b
    have i: "item_content i = rc" using c(9) p b by (auto simp: core_def)
    have e: "unat e < unat (clock_len rc)" using p i by (simp add: item_len_def word_less_nat_alt)
    then have u: "unat (d + e) = unat d + unat e" "d + e < item_len j"
      using c(6,7) unat_u64_less [of "item_len j"] by (simp_all add: unat_plus_u64 word_less_nat_alt)
    have "0 < d + e" using u(1) p by (simp add: word_less_nat_alt)
    then have "split_boundary (item_content j) (d + e)"
      using old [of us a ws j "d + e"] c(1,2) p b v [of us] nota len(1) u by simp
    then show ?thesis using parts(2) [of "d + e" e] u(1) c(6) p i by simp
  next
    case right
    then have x: "x \<noteq> a" "x \<noteq> b" "vlen h' zs = vlen h (us @ a # qs)"
      using nota v [of us] v [of qs] len(2) by auto
    from same [OF x(1,2)] old [of "us @ a # qs" x ys _ e] right p x(3) show ?thesis by auto
  qed
qed

lemma no_cut_recut: "recut h cs h' cs' \<Longrightarrow> no_cut h cs n \<Longrightarrow> no_cut h' cs' n"
  unfolding recut_def by (elim disjE exE conjE; simp only: no_cut_cut)

lemma no_cut_suffix: "no_cut h (xs @ ys) (vlen h xs + n) \<Longrightarrow> no_cut h ys n"
  unfolding no_cut_def
proof (intro allI impI, elim conjE)
  fix zs a ws i d
  assume all: "\<forall>zs a ws i d. xs @ ys = zs @ a # ws \<and> h_items h a = Some i \<and> \<not> is_item_deleted i \<and> 0 < d \<and> d < item_len i
      \<and> vlen h xs + n = vlen h zs + unat d \<longrightarrow> split_boundary (item_content i) d"
    and p: "ys = zs @ a # ws" "h_items h a = Some i" "\<not> is_item_deleted i" "0 < d" "d < item_len i" "n = vlen h zs + unat d"
  show "split_boundary (item_content i) d"
    by (rule all [rule_format, of "xs @ zs" a ws i d]) (use p in simp)
qed

lemma recut_vlen:
  assumes "recut h cs h' cs'"
  shows "vlen h' cs' = vlen h cs"
  using assms unfolding recut_def
proof (elim disjE exE conjE)
  fix us a ws b d assume c: "cs = us @ a # ws" "cs' = us @ a # b # ws" "distinct cs'" "cut_at h h' a b d"
  show "vlen h' cs' = vlen h cs"
    using cut_vlen(1) [OF c(4), of us] cut_vlen(1) [OF c(4), of ws] cut_vlen(4) [OF c(4)] c(1-3) by auto
qed simp

lemma normalize_ok:
  assumes "list_ok h st self t cs" "pos_at h cs n pos" "no_cut h cs n"
  obtains pos' st' h' xs ys where "normalize pos st h = Ok (pos', st', h')" "list_ok h' st' self t (xs @ ys)"
    "recut h cs h' (xs @ ys)" "live h' (pos_left pos') = last_or None xs" "live h' (pos_right pos') = first ys"
    "vlen h' xs = n" "unat (pos_index pos') = n" "pos_parent pos' = pos_parent pos" "st_client st' = st_client st"
    "\<forall>c. state_of h' st' c = state_of h st c" "bounded h' (pos_left pos')" "bounded h' (pos_right pos')" "n = 0 \<longrightarrow> xs = []"
proof -
  obtain xs ys where p: "cs = xs @ ys" "live h (pos_left pos) = last_or None xs" "live h (pos_right pos) = first ys"
    and at: "pos_offset pos = 0 \<and> unat (pos_index pos) = vlen h xs \<and> n = vlen h xs \<and> (n = 0 \<longrightarrow> xs = [])
           \<or> (\<exists>zs a i. xs = zs @ [a] \<and> h_items h a = Some i \<and> \<not> is_item_deleted i \<and> 0 < pos_offset pos
                \<and> pos_offset pos < item_len i \<and> unat (pos_index pos) = vlen h zs \<and> n = vlen h zs + unat (pos_offset pos))"
    and bd: "bounded h (pos_left pos)" "bounded h (pos_right pos)"
    using assms(2) unfolding pos_at_def by (elim conjE exE) (rule that, assumption+)
  from at show thesis
  proof (elim disjE exE conjE)
    assume o: "pos_offset pos = 0" "unat (pos_index pos) = vlen h xs" "n = vlen h xs" "n = 0 \<longrightarrow> xs = []"
    have run: "normalize pos st h = Ok (pos, st, h)" using o(1) by (simp add: normalize_def)
    show thesis
      by (rule that [of pos st h xs ys, OF run _ _ p(2,3) _ _ _ _ _ bd o(4)])
        (use assms(1) p(1) o(2,3) in \<open>simp_all only: recut_def simp_thms\<close>)
  next
    fix zs a i
    assume o: "xs = zs @ [a]" "h_items h a = Some i" "\<not> is_item_deleted i" "0 < pos_offset pos"
      "pos_offset pos < item_len i" "unat (pos_index pos) = vlen h zs" "n = vlen h zs + unat (pos_offset pos)"
    have cs: "cs = zs @ a # ys" using p(1) o(1) by simp
    have b: "split_boundary (item_content i) (pos_offset pos)" using assms(3) o cs unfolding no_cut_def by blast
    obtain b h' st' where sp: "split_node (item_id i) (pos_offset pos) st h = Ok ((Item (SRef a), Item (SRef b)), st', h')"
      "list_base h' st' self t (zs @ a # b # ys)" "cut_at h h' a b (pos_offset pos)" "st_client st' = st_client st"
      "\<forall>c. state_of h' st' c = state_of h st c" "\<forall>r x. live h r = Some x \<longrightarrow> live h' r = Some x"
      using split_in_list [OF list_okD(13) [OF assms(1), unfolded cs] o(2-5) b] by metis
    have d: "distinct (zs @ a # b # ys)" using list_distinct [OF sp(2)] .
    have ok': "list_ok h' st' self t (zs @ a # b # ys)"
      using sp(2) markers_ok_cut [OF list_okD(9) [OF assms(1), unfolded cs] sp(3) d sp(6)] by (simp add: list_ok_def)
    have left: "get_item h (pos_left pos) = Some i"
      using p(2) o(1,2) by (auto simp: live_Some get_item_ptr)
    have sum: "unat (pos_index pos) + unat (pos_offset pos) < 2 ^ 64"
    proof -
      have "vlen h zs + unat (item_len i) \<le> vlen h cs" using cs o(2,3) by (simp add: item_vlen_def)
      then show ?thesis
        using o(5,6) list_okD(10) [OF assms(1)] unat_u64_less [of "yt_len t"] by (simp add: word_less_nat_alt)
    qed
    let ?pos = "pos\<lparr>pos_left := SRef a, pos_right := SRef b, pos_index := pos_index pos + pos_offset pos, pos_offset := 0\<rparr>"
    have run: "normalize pos st h = Ok (?pos, st', h')"
      using o(4) left sp(1) sum by (simp add: normalize_def add_u64_def)
    have rc: "recut h cs h' (xs @ b # ys)" using cs o(1) d sp(3) unfolding recut_def by auto
    have lv: "live h' (SRef a) = Some a" "live h' (SRef b) = Some b"
      using chain_live [OF list_baseD(5) [OF sp(2)]] by (simp_all add: live_Some)
    have bb: "bounded h' (SRef a)" "bounded h' (SRef b)"
      using lv fresh_less [OF list_baseD(2) [OF sp(2)]] by (auto simp: bounded_def live_Some)
    have v: "vlen h' xs = n"
      using cut_vlen(1,3) [OF sp(3), of zs] d o(1,7) by simp
    show thesis
      by (rule that [OF run _ rc]) (use ok' sp(4,5) o(1,4,6,7) lv bb v sum in \<open>simp_all add: unat_plus_u64 word_less_nat_alt\<close>)
  qed
qed

end
