(* ===== verification/List_Insert.thy ===== *)
theory List_Insert
  imports List_Find
begin

text \<open>
  Inserting into a list: the markers move, the new item is put at the place, and the list shows what it
  showed with the new content in between.
\<close>

section \<open>The markers of an insertion\<close>

text \<open>The marker stands where it has to when content of length \<open>len\<close> comes between \<open>xs\<close> and \<open>ys\<close>.\<close>

definition marker_around :: "heap \<Rightarrow> nat list \<Rightarrow> nat list \<Rightarrow> nat \<Rightarrow> search_marker \<Rightarrow> bool" where
  "marker_around h xs ys len m \<longleftrightarrow>
     (\<exists>us a ws. xs = us @ a # ws \<and> live h (sm_ptr m) = Some a \<and> unat (sm_index m) = vlen h us)
     \<or> (\<exists>us a ws. ys = us @ a # ws \<and> live h (sm_ptr m) = Some a \<and> unat (sm_index m) = vlen h xs + len + vlen h us)"

text \<open>A marker that has been settled is at an item that counts, or at the first one.\<close>

lemma settle_marker_ok:
  "chain h t (us @ a # ws) \<Longrightarrow> \<forall>x \<in> set (us @ a # ws). list_item h st x \<Longrightarrow>
   live h (sm_ptr m) = Some a \<Longrightarrow> unat (sm_index m) = vlen h us \<Longrightarrow> length us < fuel \<Longrightarrow>
   \<exists>m' vs b zs j. settle_marker fuel h m = (Ok m' :: _ codec_result) \<and> us @ a # ws = vs @ b # zs \<and> live h (sm_ptr m') = Some b
     \<and> unat (sm_index m') = vlen h vs \<and> h_items h b = Some j \<and> (indexable j \<or> vs = [])"
proof (induction us arbitrary: a ws m fuel rule: length_induct)
  case (1 us)
  obtain f where f: "fuel = Suc f" using "1.prems"(5) by (cases fuel) auto
  obtain i where i: "get_item h (sm_ptr m) = Some i" "h_items h a = Some i" using chain_next [OF "1.prems"(1,3)] by metis
  show ?case
  proof (cases "indexable i")
    case True
    then show ?thesis using f i "1.prems"(3,4) by (intro exI [of _ m] exI [of _ us] exI [of _ a] exI [of _ ws]) auto
  next
    case False
    show ?thesis
    proof (cases "get_item h (item_left i)")
      case None
      then have "us = []" by (rule no_left [OF "1.prems"(1,3) i(1)])
      then show ?thesis using f i False None "1.prems"(3)
        by (intro exI [of _ "m\<lparr>sm_index := 0\<rparr>"] exI [of _ "[]"] exI [of _ a] exI [of _ ws]) auto
    next
      case (Some l)
      obtain vs b n' where s: "us = vs @ [b]" "live h (item_left i) = Some b" "h_items h b = Some l" "unat n' = vlen h vs" "n' \<le> sm_index m"
        "(if indexable l then sub_u64 (sm_index m) (item_len l) else Ok (sm_index m)) = (Ok n' :: _ codec_result)"
        by (rule left_step [OF "1.prems"(1,2,3,4) i(1) Some])
      let ?m = "\<lparr>sm_ptr = somr_clone (item_left i), sm_index = n'\<rparr>"
      have "\<exists>m' us' b' zs j. settle_marker f h ?m = (Ok m' :: _ codec_result) \<and> vs @ b # a # ws = us' @ b' # zs \<and> live h (sm_ptr m') = Some b'
          \<and> unat (sm_index m') = vlen h us' \<and> h_items h b' = Some j \<and> (indexable j \<or> us' = [])"
        by (rule "1.IH" [rule_format]) (use "1.prems" s f in auto)
      then show ?thesis using f i False Some s(1,6) by simp
    qed
  qed
qed

declare settle_marker.simps [simp del]

lemma sint_plus_small:
  assumes "unat (a :: u64) + unat b < 2 ^ 63"
  shows "sint (a + b) = sint a + sint b" "- (2 ^ 63) \<le> sint a + sint b" "sint a + sint b < 2 ^ 63" "unat (a + b) = unat a + unat b"
proof -
  have s: "sint a = uint a" "sint b = uint b" using assms sint_small [of a] sint_small [of b] by simp_all
  show u: "unat (a + b) = unat a + unat b" using assms by (simp add: unat_plus_u64)
  have "int (unat (a + b)) = int (unat a) + int (unat b)" by (simp only: u of_nat_add)
  then have "uint (a + b) = uint a + uint b" by simp
  moreover have "sint (a + b) = uint (a + b)" "uint (a + b) < 2 ^ 63" using assms u sint_small [of "a + b"] by simp_all
  ultimately show "sint (a + b) = sint a + sint b" "sint a + sint b < 2 ^ 63" "- (2 ^ 63) \<le> sint a + sint b"
    using s by (simp_all add: order_trans [OF _ add_nonneg_nonneg [OF uint_ge_0 uint_ge_0]])
qed

lemma shift_marker_insert:
  assumes "list_ok h st self t (xs @ ys)" "marker_ok h (xs @ ys) m" "unat index = vlen h xs" "vlen h xs = 0 \<longrightarrow> xs = []"
    and "0 < len" "vlen h (xs @ ys) + unat len < 2 ^ 63"
  obtains m' where "shift_marker h index len m = (Ok m' :: _ codec_result)" "marker_around h xs ys (unat len) m'"
proof -
  note ok = list_okD [OF assms(1)]
  have items: "\<forall>x \<in> set (xs @ ys). list_item h st x" using ok(11) by blast
  obtain us a ws where p: "xs @ ys = us @ a # ws" "live h (sm_ptr m) = Some a" "unat (sm_index m) = vlen h us"
    using assms(2) by (auto simp: marker_ok_def)
  have "length us < h_next h + 1" using chain_length [OF ok(5,2)] p(1) by simp
  then obtain m1 vs b zs j where s: "settle_marker (h_next h + 1) h m = (Ok m1 :: _ codec_result)" "us @ a # ws = vs @ b # zs"
    "live h (sm_ptr m1) = Some b" "unat (sm_index m1) = vlen h vs" "h_items h b = Some j" "indexable j \<or> vs = []"
    using settle_marker_ok [of h t us a ws st m "h_next h + 1"] ok(5) items p by metis
  have at: "xs @ ys = vs @ b # zs" using p(1) s(2) by simp
  have small: "unat (sm_index m1) + unat len < 2 ^ 63"
    using assms(6) s(4) by (simp add: at)
  note add = sint_plus_small [OF small]
  have pos: "0 < sint len" using assms(5,6) sint_small [of len] by (simp add: word_less_def)
  have some: "get_item h (sm_ptr m1) \<noteq> None" using s(3) by (auto simp: live_None [symmetric])
  have idx: "sint index \<le> sint (sm_index m1 + len)" if "index \<le> sm_index m1"
  proof -
    have "sint index = uint index" "sint (sm_index m1) = uint (sm_index m1)"
      using sint_small [of index] sint_small [of "sm_index m1"] assms(3,6) small by simp_all
    then show ?thesis using that pos add(1) by (simp add: word_le_def)
  qed
  have run: "shift_marker h index len m = (Ok (if index \<le> sm_index m1 then m1\<lparr>sm_index := sm_index m1 + len\<rparr> else m1) :: _ codec_result)"
    using s(1) pos some add(1,2,3) idx by (auto simp: shift_marker_def add_i64_def)
  consider (left) qs where "xs = vs @ b # qs" | (right) qs where "vs = xs @ qs" "ys = qs @ b # zs"
    using at by (auto simp: append_eq_append_conv2 append_eq_Cons_conv Cons_eq_append_conv)
  then have "marker_around h xs ys (unat len) (if index \<le> sm_index m1 then m1\<lparr>sm_index := sm_index m1 + len\<rparr> else m1)"
  proof cases
    case left
    have "vlen h vs < vlen h xs"
    proof (cases "indexable j")
      case True
      have li: "list_item h st b" using items at by simp
      then have "stored st b (id_client (item_id j))" using s(5) by (auto simp: list_item_def)
      then have "0 < item_len j" using stored_at [OF ok(1) _ s(5)] by metis
      then show ?thesis using left list_item_indexable(2) [OF li s(5)] True by (simp add: word_less_nat_alt)
    next
      case False
      then have "vs = []" using s(6) by blast
      then show ?thesis using left assms(4) by auto
    qed
    then have "\<not> index \<le> sm_index m1" using assms(3) s(4) by (simp add: word_le_nat_alt)
    then show ?thesis using left s(3,4) by (auto simp: marker_around_def)
  next
    case right
    then have "index \<le> sm_index m1" using assms(3) s(4) by (simp add: word_le_nat_alt)
    then show ?thesis using right s(3,4) add(4) unfolding marker_around_def by auto
  qed
  then show thesis using that run by blast
qed

lemma shift_markers_insert:
  assumes "list_ok h st self t (xs @ ys)" "unat index = vlen h xs" "vlen h xs = 0 \<longrightarrow> xs = []"
    and "0 < len" "vlen h (xs @ ys) + unat len < 2 ^ 63"
  shows "\<forall>m \<in> set ms. marker_ok h (xs @ ys) m \<Longrightarrow>
    \<exists>ms'. shift_markers h index len ms = (Ok ms' :: _ codec_result) \<and> (\<forall>m \<in> set ms'. marker_around h xs ys (unat len) m)"
proof (induction ms)
  case (Cons m ms)
  obtain m' where "shift_marker h index len m = (Ok m' :: _ codec_result)" "marker_around h xs ys (unat len) m'"
    using shift_marker_insert [OF assms(1) _ assms(2-)] Cons.prems by auto
  moreover obtain ms' where "shift_markers h index len ms = (Ok ms' :: _ codec_result)" "\<forall>m \<in> set ms'. marker_around h xs ys (unat len) m"
    using Cons by auto
  ultimately show ?case by simp
qed simp

lemma change_markers_insert:
  assumes "list_ok h st self t (xs @ ys)" "unat index = vlen h xs" "vlen h xs = 0 \<longrightarrow> xs = []"
    and "0 < len" "vlen h (xs @ ys) + unat len < 2 ^ 63"
  obtains t' where "change_markers self index len h = Ok (put_ty self t' h)" "same_but_markers t t'"
    "\<forall>ms. yt_markers t' = Some ms \<longrightarrow> (\<forall>m \<in> set ms. marker_around h xs ys (unat len) m)"
proof (cases "yt_markers t")
  case None
  then show thesis using that [of t] list_okD(4) [OF assms(1)] by (simp add: change_markers_def)
next
  case (Some ms)
  then obtain ms' where ms': "shift_markers h index len ms = (Ok ms' :: _ codec_result)" "\<forall>m \<in> set ms'. marker_around h xs ys (unat len) m"
    using shift_markers_insert [OF assms, of ms] list_okD(9) [OF assms(1)] by (auto simp: markers_ok_def)
  then show thesis
    using that [of "t\<lparr>yt_markers := Some (filter (\<lambda>m. 0 < sm_index m) ms')\<rparr>"] Some list_okD(4) [OF assms(1)]
    by (simp add: change_markers_def update_marker_changes_def)
qed

section \<open>The new item\<close>

lemma cell_span: "item_id j = item_id i \<Longrightarrow> item_len j = item_len i \<Longrightarrow> somr_ptr r = Some x \<Longrightarrow> h_items h x = Some i \<Longrightarrow>
  h_items h' x = Some j \<Longrightarrow> same_span h h' (Item r)"
  by (rule node_span_cell [of r x]) simp_all

text \<open>The nodes of the store keep their spans when no cell of theirs changes its id or its length.\<close>

lemma store_ok_grow:
  assumes "store_ok h st"
    and "\<And>x i. h_items h x = Some i \<Longrightarrow> \<exists>j. h_items h' x = Some j \<and> item_id j = item_id i \<and> item_len j = item_len i"
  shows "store_ok h' st" "state_of h' st c = state_of h st c"
proof -
  have span: "\<forall>n \<in> set (nodes_of st c). same_span h h' n" for c
  proof
    fix n assume n: "n \<in> set (nodes_of st c)"
    show "same_span h h' n"
    proof (cases n)
      case (Item s)
      obtain m where m: "m < length (nodes_of st c)" "nodes_of st c ! m = n" using n by (auto simp: in_set_conv_nth)
      have "node_fits h c (Item s)" using run_at(1) [OF store_ok_run [OF assms(1), of c] m(1)] m(2) Item by simp
      then obtain x y where x: "somr_ptr s = Some x" "h_items h x = Some y" by (rule node_fits_item)
      then show ?thesis using assms(2) [OF x(2)] Item by (auto intro: cell_span)
    qed (simp_all add: same_span_def)
  qed
  then show "state_of h' st c = state_of h st c" by (simp add: state_of_def same_span_run)
  have "run h' k 0 ms" if "(k, ms) \<in> set (st_items st)" for k ms
  proof -
    have "map_of (st_items st) k = Some ms" using assms(1) that by (simp add: store_ok_def hm_wf_map_of_mem)
    then have "nodes_of st k = ms" by (simp add: nodes_of_def)
    then show ?thesis using same_span_run(1) [OF span [of k], of k 0] store_ok_run [OF assms(1), of k] by simp
  qed
  then show "store_ok h' st" using assms(1) by (auto simp: store_ok_def)
qed

lemma bounded_grow: "bounded h r \<Longrightarrow> h_next h \<le> h_next h' \<Longrightarrow> bounded h' r"
  by (auto simp: bounded_def)

lemma list_item_grow:
  "list_item h st x \<Longrightarrow> h_items h' x = h_items h x \<Longrightarrow> h_next h \<le> h_next h' \<Longrightarrow> list_item h' st x"
  using bounded_grow by (force simp: list_item_def)

definition add_cell :: "item \<Rightarrow> heap \<Rightarrow> heap" where
  "add_cell i h = snd (new_item_ref i h)"

lemma add_cell_simps [simp]:
  "h_items (add_cell i h) = (h_items h)(h_next h \<mapsto> i)" "h_next (add_cell i h) = h_next h + 1" "get_ty (add_cell i h) p = get_ty h p"
  "new_item_ref i h = (SOwned (h_next h), add_cell i h)"
  by (simp_all add: add_cell_def new_item_ref_def get_ty_def)

lemma add_cell_live:
  assumes "bounded h r"
  shows "live (add_cell i h) r = live h r" "get_item (add_cell i h) r = get_item h r"
  using assms by (cases "somr_ptr r"; auto simp: live_def get_item_def somr_lookup_def bounded_def)+

lemma add_cell_chain:
  assumes "chain h t cs" "fresh h" "bounded h (yt_start t)" "\<forall>a \<in> set cs. list_item h st a"
  shows "chain (add_cell i h) t cs"
proof -
  have "rt (add_cell i h) x = rt h x \<and> lf (add_cell i h) x = lf h x" if x: "x \<in> set cs" for x
  proof -
    obtain j where j: "h_items h x = Some j" using chain_live [OF assms(1) x] by auto
    have "x \<noteq> h_next h" using fresh_less [OF assms(2) j] by simp
    moreover have "bounded h (item_left j)" "bounded h (item_right j)" using list_item_bounded [OF _ j] assms(4) x by blast+
    ultimately show ?thesis using j by (simp add: rt_def lf_def add_cell_live)
  qed
  then show ?thesis using assms(1) linked_cong unfolding chain_def by (metis add_cell_live(1) assms(3))
qed

lemma create_item_ok:
  assumes "store_ok h st" "fresh h" "plain content"
    and "\<And>i. get_item h left = Some i \<Longrightarrow> 0 < item_len i \<and> unat (id_clock (item_id i)) + unat (item_len i) < 2 ^ 64"
  obtains i clock where "create_item content left right parent sub st h = Ok (SOwned (h_next h), add_cell i h)"
    "unat clock = state_of h st (st_client st)" "item_id i = new_id (st_client st) clock" "item_left i = left"
    "item_right i = right" "item_parent i = parent" "parent_sub i = sub" "item_content i = content"
    "item_flags i = (if content_countable content then item_countable else 0)"
proof -
  obtain clock where c: "get_state h st (st_client st) = Ok clock" "unat clock = state_of h st (st_client st)"
    using get_state_exact [OF assms(1)] by metis
  obtain lid where lid: "opt_result last_id (get_item h left) = (Ok lid :: (codec_error, _) result)"
    using assms(4) by (cases "get_item h left") (auto simp: opt_result_def last_id_ok)
  let ?i = "\<lparr>item_id = new_id (st_client st) clock, origin_left_id = lid, origin_right_id = map_option item_id (get_item h right),
         item_left = left, item_right = right, item_parent = parent, parent_sub = sub, item_content = content,
         item_flags = (if content_countable content then item_countable else 0)\<rparr>"
  have "link_type ?i r k = k" for r k using assms(3) by (cases content) (simp_all add: link_type_def plain_def)
  then have "create_item content left right parent sub st h = Ok (SOwned (h_next h), add_cell ?i h)"
    using c(1) lid by (simp add: create_item_def new_item_def)
  then show thesis by (rule that [where i = ?i]) (use c(2) in simp_all)
qed

text \<open>The pointers of the cells stay below the next address.\<close>

lemma linked_heap_bounded:
  assumes "bounded h (yt_start t)" "\<forall>x \<in> set (xs @ ys). list_item h st x"
    and "chain h t (xs @ ys)" "fresh h" "a < h_next h" "x \<in> set (xs @ a # ys)"
    "h_items (linked_heap a this pr t xs h) x = Some y"
  shows "bounded h (item_left y)" "bounded h (item_right y)" "bounded h (yt_start (started a (last_or None xs) t))"
proof -
  have lo: "bounded h (SRef l)" if "last_or None xs = Some l" for l
  proof -
    have "l \<in> set (xs @ ys)" using last_or_in [OF that] by simp
    from chain_live [OF assms(3) this] show ?thesis using fresh_less [OF assms(4)] by (auto simp: bounded_def)
  qed
  have cells: "bounded h (item_left z) \<and> bounded h (item_right z)" if "z' \<in> set (xs @ ys)" "h_items h z' = Some z" for z' z
    using list_item_bounded [OF _ that(2)] assms(2) that(1) by blast
  have right: "bounded h (right_of h t (last_or None xs))"
    using assms(1) cells last_or_in [of xs] by (auto simp: right_of_def split: option.splits)
  have a: "bounded h (SRef a)" using assms(5) by (simp add: bounded_def)
  show "bounded h (item_left y)" "bounded h (item_right y)"
  proof -
    have "bounded h (item_left y) \<and> bounded h (item_right y)"
    proof (cases "x = a")
      case True
      then show ?thesis using assms(7) lo right by (auto simp: linked_heap_def relink_def Let_def split: option.splits)
    next
      case False
      then obtain z where "h_items h x = Some z" "x \<in> set (xs @ ys)" using assms(6,7) by (auto simp: linked_heap_def relink_def Let_def)
      then show ?thesis using cells [of x z] assms(7) False a by (auto simp: linked_heap_def relink_def Let_def)
    qed
    then show "bounded h (item_left y)" "bounded h (item_right y)" by simp_all
  qed
  show "bounded h (yt_start (started a (last_or None xs) t))" using assms(1) a by (simp add: started_def)
qed

section \<open>Inserting at a place\<close>

text \<open>
  A heap \<open>h3\<close> in which the new cell \<open>a\<close> stands between \<open>xs\<close> and \<open>ys\<close>, and in which the other cells have kept
  what they hold.
\<close>

definition put_between :: "heap \<Rightarrow> nat list \<Rightarrow> nat \<Rightarrow> nat list \<Rightarrow> item \<Rightarrow> heap \<Rightarrow> bool" where
  "put_between h xs a ys i h' \<longleftrightarrow>
     a \<notin> set (xs @ ys) \<and> core (h_items h' a) = core (Some i) \<and> (\<forall>x. x \<noteq> a \<longrightarrow> core (h_items h' x) = core (h_items h x))"

lemma put_between_view:
  assumes "put_between h xs a ys i h'"
  shows "view f h' (xs @ a # ys) = view f h xs @ shown_by f (Some i) @ view f h ys"
    "vlen h' (xs @ a # ys) = vlen h xs + item_vlen (Some i) + vlen h ys" "vlen h' xs = vlen h xs" "us @ b # ws = ys \<Longrightarrow> vlen h' us = vlen h us"
    "xs = us @ b # ws \<Longrightarrow> vlen h' us = vlen h us"
proof -
  have eq: "\<forall>x \<in> set zs. core (h_items h' x) = core (h_items h x)" if "set zs \<subseteq> set (xs @ ys)" for zs
    using assms that by (auto simp: put_between_def)
  have a: "core (h_items h' a) = core (Some i)" using assms by (simp add: put_between_def)
  have v: "view f h' zs = view f h zs" "vlen h' zs = vlen h zs" if "set zs \<subseteq> set (xs @ ys)" for zs
    using view_cong [OF eq [OF that]] by blast+
  show "view f h' (xs @ a # ys) = view f h xs @ shown_by f (Some i) @ view f h ys"
    "vlen h' (xs @ a # ys) = vlen h xs + item_vlen (Some i) + vlen h ys" "vlen h' xs = vlen h xs"
    using v [of xs] v [of ys] core_shown [OF a] by simp_all
  show "us @ b # ws = ys \<Longrightarrow> vlen h' us = vlen h us" "xs = us @ b # ws \<Longrightarrow> vlen h' us = vlen h us"
    by (rule v(2); fastforce)+
qed

lemma marker_around_ok:
  assumes "marker_around h xs ys (item_vlen (Some i)) m" "put_between h xs a ys i h'" "\<And>r b. live h r = Some b \<Longrightarrow> live h' r = Some b"
  shows "marker_ok h' (xs @ a # ys) m"
  using assms(1) unfolding marker_around_def
proof (elim disjE exE conjE)
  fix us b ws assume p: "xs = us @ b # ws" "live h (sm_ptr m) = Some b" "unat (sm_index m) = vlen h us"
  then show ?thesis unfolding marker_ok_def using put_between_view(5) [OF assms(2) p(1)] assms(3)
    by (intro exI [of _ us] exI [of _ b] exI [of _ "ws @ a # ys"]) simp
next
  fix us b ws assume p: "ys = us @ b # ws" "live h (sm_ptr m) = Some b" "unat (sm_index m) = vlen h xs + item_vlen (Some i) + vlen h us"
  have "vlen h' (xs @ [a]) = vlen h xs + item_vlen (Some i)"
    using put_between_view(3) [OF assms(2)] core_shown(2) [of "h_items h' a" "Some i"] assms(2) by (simp add: put_between_def)
  then show ?thesis unfolding marker_ok_def using put_between_view(4) [OF assms(2) p(1) [symmetric]] assms(3) p
    by (intro exI [of _ "xs @ a # us"] exI [of _ b] exI [of _ ws]) simp
qed

text \<open>The item \<open>i\<close> can be put between \<open>xs\<close> and \<open>ys\<close>; \<open>t\<close> is the type with the markers moved already.\<close>

definition insertable :: "heap \<Rightarrow> store \<Rightarrow> ytype_ref \<Rightarrow> ytype \<Rightarrow> ytype \<Rightarrow> nat list \<Rightarrow> nat list \<Rightarrow> item \<Rightarrow> bool" where
  "insertable h st self t0 t xs ys i \<longleftrightarrow>
     list_ok (put_ty self t0 h) st self t0 (xs @ ys) \<and> get_ty h self = Some t \<and> same_but_markers t0 t
     \<and> (\<forall>ms. yt_markers t = Some ms \<longrightarrow> (\<forall>m \<in> set ms. marker_around h xs ys (unat (item_len i)) m))
     \<and> id_client (item_id i) = st_client st \<and> unat (id_clock (item_id i)) = state_of h st (st_client st)
     \<and> parent_sub i = None \<and> live h (item_left i) = last_or None xs \<and> live h (item_right i) = first ys
     \<and> bounded h (item_left i) \<and> bounded h (item_right i) \<and> content_ok (item_content i) \<and> plain (item_content i)
     \<and> content_countable (item_content i) \<and> item_flags i = item_countable \<and> 0 < item_len i
     \<and> vlen h (xs @ ys) + unat (item_len i) < 2 ^ 63 \<and> state_of h st (st_client st) + unat (item_len i) < 2 ^ 64"

definition inserted_type :: "heap \<Rightarrow> nat list \<Rightarrow> item \<Rightarrow> ytype \<Rightarrow> ytype" where
  "inserted_type h xs i t = (started (h_next h) (last_or None xs) t)\<lparr>yt_len := yt_len t + item_len i\<rparr>"

definition inserted_heap :: "heap \<Rightarrow> nat list \<Rightarrow> item \<Rightarrow> ytype_ref \<Rightarrow> ytype \<Rightarrow> heap" where
  "inserted_heap h xs i self t =
     put_ty self (inserted_type h xs i t) (linked_heap (h_next h) i self t xs (add_cell i h))"

lemma insertable_ok:
  assumes "insertable h st self t0 t xs ys i"
  shows "store_ok h st" "fresh h" "yr_store self" "chain h t (xs @ ys)" "bounded h (yt_start t)" "\<not> parent_dead h t"
    "bounded h (yt_item t)" "unat (yt_len t) = vlen h (xs @ ys)" "\<forall>a \<in> set (xs @ ys). list_item h st a"
    "h_next h \<notin> set (xs @ ys)" "somr_ptr (yt_item t) \<notin> Some ` set (xs @ ys)"
proof -
  have l: "list_ok (put_ty self t0 h) st self t0 (xs @ ys)" and e: "same_but_markers t0 t"
    using assms by (simp_all add: insertable_def)
  note ok = list_okD [OF l] and eq = same_but_markersD [OF e]
  show "store_ok h st" "fresh h" "yr_store self" "bounded h (yt_start t)" "bounded h (yt_item t)"
    "unat (yt_len t) = vlen h (xs @ ys)" "somr_ptr (yt_item t) \<notin> Some ` set (xs @ ys)"
    using ok eq list_baseD(12) [OF ok(13)] by simp_all
  show "\<forall>a \<in> set (xs @ ys). list_item h st a" using ok(11) by simp
  show "\<not> parent_dead h t" using ok(7) eq(3) by (simp add: parent_dead_def)
  have "chain h t0 (xs @ ys)" using ok(5) by simp
  then show c: "chain h t (xs @ ys)" using eq(2) by (simp add: chain_def)
  show "h_next h \<notin> set (xs @ ys)" using chain_live [OF c, of "h_next h"] ok(2) by (auto simp: fresh_def)
qed

lemma insertable_grown:
  assumes "insertable h st self t0 t xs ys i"
  shows "chain (add_cell i h) t (xs @ ys)" "get_ty (add_cell i h) self = Some t" "h_items (add_cell i h) (h_next h) = Some i"
    "\<not> parent_dead (add_cell i h) t" "live (add_cell i h) (item_left i) = last_or None xs" "live (add_cell i h) (item_right i) = first ys"
    "parent_sub i = None"
proof -
  note ok = insertable_ok [OF assms]
  show "chain (add_cell i h) t (xs @ ys)" using add_cell_chain [OF ok(4,2,5,9)] .
  show "\<not> parent_dead (add_cell i h) t" using ok(6,7) by (simp add: parent_dead_def add_cell_live)
  show "get_ty (add_cell i h) self = Some t" "h_items (add_cell i h) (h_next h) = Some i"
    "live (add_cell i h) (item_left i) = last_or None xs" "live (add_cell i h) (item_right i) = first ys" "parent_sub i = None"
    using assms by (simp_all add: insertable_def add_cell_live)
qed

lemma insertable_runs:
  assumes "insertable h st self t0 t xs ys i"
  shows "insert_item (SOwned (h_next h)) self st (add_cell i h) = Ok (st, inserted_heap h xs i self t)"
proof -
  note ok = insertable_ok [OF assms] and g = insertable_grown [OF assms]
  have r: "somr_ptr (SOwned (h_next h)) = Some (h_next h)" by simp
  obtain left where left: "find_left (SOwned (h_next h)) self (add_cell i h) = Ok left" "live (add_cell i h) left = last_or None xs"
    by (rule find_left_adjacent [OF r g(3,7,2,1,5,6)])
  have "unat (yt_len t) + unat (item_len i) < 2 ^ 64" using assms ok(8) by (simp add: insertable_def)
  from insert_item_exact [OF r g(3,7,2,1) ok(10) left g(4) this] show ?thesis
    by (simp add: inserted_heap_def inserted_type_def)
qed

lemma inserted_cells:
  assumes "insertable h st self t0 t xs ys i"
  shows "same_fields (h_items (add_cell i h) x) (h_items (inserted_heap h xs i self t) x)"
    "live (inserted_heap h xs i self t) r = live (add_cell i h) r" "h_next (inserted_heap h xs i self t) = h_next h + 1"
    "chain (inserted_heap h xs i self t) (inserted_type h xs i t) (xs @ h_next h # ys)"
    "get_ty (inserted_heap h xs i self t) self = Some (inserted_type h xs i t)"
    "put_between h xs (h_next h) ys i (inserted_heap h xs i self t)"
    "h_items h x = Some y \<Longrightarrow> \<exists>z. h_items (inserted_heap h xs i self t) x = Some z \<and> item_id z = item_id y \<and> item_len z = item_len y"
proof -
  note ok = insertable_ok [OF assms] and g = insertable_grown [OF assms]
  note facts = linked_heap_facts [OF g(3,2,1) ok(10)] and frame = linked_heap_frame [OF g(3,1)]
  let ?h = "inserted_heap h xs i self t"
  show same: "same_fields (h_items (add_cell i h) x) (h_items ?h x)" for x
    using frame(1) by (simp add: inserted_heap_def)
  show "live ?h r = live (add_cell i h) r" "h_next ?h = h_next h + 1"
    using facts(1) frame(3) by (simp_all add: inserted_heap_def)
  show "chain ?h (inserted_type h xs i t) (xs @ h_next h # ys)" "get_ty ?h self = Some (inserted_type h xs i t)"
    using facts(2,3) by (simp_all add: inserted_heap_def inserted_type_def)
  show "put_between h xs (h_next h) ys i ?h"
    using same_fields_core [OF same] ok(10) by (simp add: put_between_def)
  show "\<exists>z. h_items ?h x = Some z \<and> item_id z = item_id y \<and> item_len z = item_len y" if y: "h_items h x = Some y"
  proof -
    have "x \<noteq> h_next h" using fresh_less [OF ok(2) y] by simp
    then have "same_fields (Some y) (h_items ?h x)" using same [of x] y by simp
    then show ?thesis by (rule same_fieldsD) (simp add: item_len_def)
  qed
qed

definition inserted_store :: "heap \<Rightarrow> store \<Rightarrow> store" where
  "inserted_store h st =
     st\<lparr>st_items := hm_insert (st_client st) (nodes_of st (st_client st) @ [Item (SOwned (h_next h))]) (st_items st)\<rparr>"

lemma inserted_store_ok:
  assumes "insertable h st self t0 t xs ys i"
  shows "add_node (inserted_heap h xs i self t) (Item (SOwned (h_next h))) st = Ok (inserted_store h st)"
    "store_ok (inserted_heap h xs i self t) (inserted_store h st)"
    "stored (inserted_store h st) (h_next h) (st_client st)" "stored st x c \<Longrightarrow> stored (inserted_store h st) x c"
    "state_of (inserted_heap h xs i self t) (inserted_store h st) (st_client st) = state_of h st (st_client st) + unat (item_len i)"
proof -
  let ?h = "inserted_heap h xs i self t" and ?n = "Item (SOwned (h_next h))"
  note ok = insertable_ok [OF assms] and cells = inserted_cells [OF assms] and g = insertable_grown [OF assms]
  note grow = store_ok_grow [OF ok(1) cells(7)]
  obtain z where z: "h_items ?h (h_next h) = Some z" "item_id z = item_id i" "item_len z = item_len i"
    using cells(1) [of "h_next h"] unfolding g(3) by (rule same_fieldsD) (simp add: item_len_def)
  have r: "somr_ptr (SOwned (h_next h)) = Some (h_next h)" by simp
  note f = item_node_facts [OF r z(1)]
  have fit: "node_fits ?h (st_client st) ?n" "clock_of ?h ?n = state_of ?h st (st_client st)"
    using f(3,5) z(2,3) assms grow(2) by (simp_all add: insertable_def)
  note app = appended_node [OF grow(1) fit]
  show "add_node ?h ?n st = Ok (inserted_store h st)" using add_node_continues [OF grow(1) fit] by (simp add: inserted_store_def)
  show "store_ok ?h (inserted_store h st)" using app(1) by (simp add: inserted_store_def)
  show "stored (inserted_store h st) (h_next h) (st_client st)" using app(3) by (auto simp: inserted_store_def stored_def)
  show "stored (inserted_store h st) x c" if "stored st x c"
    using that app(3) app(4) [of c] by (cases "c = st_client st") (auto simp: inserted_store_def stored_def)
  show "state_of ?h (inserted_store h st) (st_client st) = state_of h st (st_client st) + unat (item_len i)"
    using app(2) f(4) z(2,3) assms by (simp add: inserted_store_def insertable_def)
qed

lemma inserted_items:
  assumes "insertable h st self t0 t xs ys i" "x \<in> set (xs @ h_next h # ys)"
  shows "list_item (inserted_heap h xs i self t) (inserted_store h st) x"
proof -
  let ?h = "inserted_heap h xs i self t"
  note ok = insertable_ok [OF assms(1)] and cells = inserted_cells [OF assms(1)] and g = insertable_grown [OF assms(1)]
  note store = inserted_store_ok [OF assms(1)]
  have grown: "\<forall>y \<in> set (xs @ ys). list_item (add_cell i h) st y"
  proof
    fix y assume y: "y \<in> set (xs @ ys)"
    then have "y \<noteq> h_next h" using ok(10) by auto
    then show "list_item (add_cell i h) st y" using list_item_grow [of h st y "add_cell i h"] ok(9) y by simp
  qed
  have fresh: "fresh (add_cell i h)" using ok(2) by (simp add: fresh_def)
  have start: "bounded (add_cell i h) (yt_start t)" using ok(5) by (rule bounded_grow) simp
  obtain j where j: "h_items ?h x = Some j" using chain_live [OF cells(4) assms(2)] by auto
  have "h_items (linked_heap (h_next h) i self t xs (add_cell i h)) x = Some j" using j by (simp add: inserted_heap_def)
  note bd = linked_heap_bounded(1,2) [OF start grown g(1) fresh _ assms(2) this]
  have bounded: "bounded ?h (item_left j)" "bounded ?h (item_right j)" using bd cells(3) by (simp_all add: bounded_def)
  show ?thesis
  proof (cases "x = h_next h")
    case True
    have "same_fields (Some i) (Some j)" using cells(1) [of x] j True by simp
    then have "item_id j = item_id i \<and> item_content j = item_content i \<and> item_flags j = item_flags i \<and> parent_sub j = parent_sub i"
      by (rule same_fieldsD) simp
    then show ?thesis using j bounded True store(3) assms(1)
      by (simp add: list_item_def insertable_def is_item_countable_def flag_simps)
  next
    case False
    then have x: "list_item h st x" using ok(9) assms(2) by auto
    then obtain y where y: "h_items h x = Some y" by (auto simp: list_item_def)
    have "same_fields (Some y) (Some j)" using cells(1) [of x] j y False by simp
    then have "item_id j = item_id y \<and> item_content j = item_content y \<and> item_flags j = item_flags y \<and> parent_sub j = parent_sub y"
      by (rule same_fieldsD) simp
    then show ?thesis using j y x bounded store(4)
      by (auto simp: list_item_def is_item_countable_def is_item_deleted_def)
  qed
qed

lemma inserted_list:
  assumes "insertable h st self t0 t xs ys i"
  shows "list_ok (inserted_heap h xs i self t) (inserted_store h st) self (inserted_type h xs i t) (xs @ h_next h # ys)"
proof -
  let ?h = "inserted_heap h xs i self t" and ?t = "inserted_type h xs i t"
  note ok = insertable_ok [OF assms] and cells = inserted_cells [OF assms] and g = insertable_grown [OF assms]
  have len: "item_vlen (Some i) = unat (item_len i)"
    using assms by (auto simp: item_vlen_def insertable_def is_item_deleted_def flag_simps)
  have v: "vlen ?h (xs @ h_next h # ys) = vlen h (xs @ ys) + unat (item_len i)"
    using put_between_view(2) [OF cells(6)] len by simp
  have small: "vlen h (xs @ ys) + unat (item_len i) < 2 ^ 63" using assms by (simp add: insertable_def)
  have "fresh ?h"
  proof -
    have "h_items ?h a = None" if a: "h_next h + 1 \<le> a" for a
    proof -
      have "h_items (add_cell i h) a = None" using ok(2) a by (simp add: fresh_def)
      then show ?thesis using cells(1) [of a] by (simp add: same_fields_def)
    qed
    then show ?thesis using cells(3) by (simp add: fresh_def)
  qed
  moreover have live: "live ?h r = Some b" if "live h r = Some b" for r b
    using cells(2) add_cell_live(1) [OF live_bounded [OF ok(2) that]] that by simp
  have "markers_ok ?h ?t (xs @ h_next h # ys)"
    using assms marker_around_ok [OF _ cells(6) live] len by (auto simp: markers_ok_def insertable_def inserted_type_def started_def)
  moreover have "bounded ?h (yt_start ?t)" "bounded ?h (yt_item ?t)"
    using ok(5,7) cells(3) by (auto simp: inserted_type_def started_def bounded_def)
  moreover have "somr_ptr (yt_item ?t) \<notin> Some ` set (xs @ h_next h # ys)"
    using ok(7,11) by (auto simp: inserted_type_def started_def bounded_def)
  moreover have "\<not> parent_dead ?h ?t"
  proof -
    have "yt_item ?t = yt_item t" by (simp add: inserted_type_def started_def)
    then show ?thesis using same_fields_dead [OF _ cells(1)] g(4) by blast
  qed
  moreover have "unat (yt_len ?t) = vlen ?h (xs @ h_next h # ys)"
    unfolding v using ok(8) small by (simp add: inserted_type_def started_def unat_plus_u64)
  moreover have "vlen ?h (xs @ h_next h # ys) < 2 ^ 63" unfolding v by (rule small)
  ultimately show ?thesis
    using ok(3) cells(4,5) inserted_store_ok(2) [OF assms] inserted_items [OF assms] unfolding list_ok_def list_base_def by blast
qed

text \<open>The whole insertion at a place.\<close>

lemma insert_after_ok:
  assumes "list_ok h st self t (xs @ ys)" "live h (pos_left pos) = last_or None xs" "live h (pos_right pos) = first ys"
    and "bounded h (pos_left pos)" "bounded h (pos_right pos)" "unat (pos_index pos) = vlen h xs" "vlen h xs = 0 \<longrightarrow> xs = []"
    and "content_ok content" "plain content" "content_countable content" "0 < clock_len content"
    and "vlen h (xs @ ys) + unat (clock_len content) < 2 ^ 63" "state_of h st (st_client st) + unat (clock_len content) < 2 ^ 64"
  obtains a i st' h' t' where "insert_after self pos content st h = Ok (st', h')" "list_ok h' st' self t' (xs @ a # ys)"
    "put_between h xs a ys i h'" "item_content i = content" "item_flags i = item_countable" "id_client (item_id i) = st_client st"
    "unat (id_clock (item_id i)) = state_of h st (st_client st)" "st_client st' = st_client st"
proof -
  note ok = list_okD [OF assms(1)]
  obtain t1 where t1: "change_markers self (pos_index pos) (clock_len content) h = Ok (put_ty self t1 h)" "same_but_markers t t1"
    "\<forall>ms. yt_markers t1 = Some ms \<longrightarrow> (\<forall>m \<in> set ms. marker_around h xs ys (unat (clock_len content)) m)"
    using change_markers_insert [OF assms(1,6,7,11,12)] by metis
  let ?h = "put_ty self t1 h"
  have around: "marker_around ?h xs ys n m = marker_around h xs ys n m" for n m by (simp add: marker_around_def)
  have left: "0 < item_len i \<and> unat (id_clock (item_id i)) + unat (item_len i) < 2 ^ 64"
    if i: "get_item ?h (somr_clone (pos_left pos)) = Some i" for i
  proof -
    have "get_item h (pos_left pos) = Some i" using i by (simp add: heap_simps)
    then obtain l where l: "last_or None xs = Some l" "h_items h l = Some i" using live_getE [OF assms(2)] by metis
    then have "stored st l (id_client (item_id i))" using ok(11) [of l] last_or_in [OF l(1)] by (auto simp: list_item_def)
    from stored_at [OF ok(1) this l(2)] show ?thesis by metis
  qed
  obtain i clock where i: "create_item content (somr_clone (pos_left pos)) (somr_clone (pos_right pos))
      (Some (ParentType (pos_parent pos))) None st ?h = Ok (SOwned (h_next ?h), add_cell i ?h)"
    "unat clock = state_of ?h st (st_client st)" "item_id i = new_id (st_client st) clock" "item_left i = somr_clone (pos_left pos)"
    "item_right i = somr_clone (pos_right pos)" "item_parent i = Some (ParentType (pos_parent pos))" "parent_sub i = None"
    "item_content i = content" "item_flags i = (if content_countable content then item_countable else 0)"
    using create_item_ok [of ?h st content "somr_clone (pos_left pos)"] ok(1,2) assms(9) left by simp metis
  have len: "item_len i = clock_len content" using i(8) by (simp add: item_len_def)
  have ready: "insertable ?h st self t t1 xs ys i"
    unfolding insertable_def around
    using assms i t1 len ok(4) by (simp add: new_id_def)
  note store = inserted_store_ok [OF ready] and cells = inserted_cells [OF ready]
  have run: "insert_after self pos content st h = Ok (inserted_store ?h st, inserted_heap ?h xs i self t1)"
    using t1(1) i(1,6) insertable_runs [OF ready] store(1)
    by (simp add: insert_after_def integrate_def cut_item_def get_item_unchecked_def get_item_ptr)
  have "put_between h xs (h_next ?h) ys i (inserted_heap ?h xs i self t1)" using cells(6) by (simp add: put_between_def)
  from that [OF run inserted_list [OF ready] this] show thesis using assms(10) i by (simp add: inserted_store_def new_id_def)
qed

end
