(* ===== verification/List_View.thy ===== *)
theory List_View
  imports List_Insert
begin

text \<open>
  What a list shows, for any reading of its contents: the interface a reading has to meet, the effect
  of an insertion on it, and the reading of a list as the sequence of the ids of its elements.
\<close>

section \<open>Readings of a list\<close>

definition readable :: "(content \<Rightarrow> bool) \<Rightarrow> item option \<Rightarrow> bool" where
  "readable shown x = (case x of Some i \<Rightarrow> is_item_deleted i \<or> shown (item_content i) | None \<Rightarrow> True)"

definition reads :: "(content \<Rightarrow> bool) \<Rightarrow> heap \<Rightarrow> nat list \<Rightarrow> bool" where
  "reads shown h cs \<longleftrightarrow> (\<forall>a \<in> set cs. readable shown (h_items h a))"

lemma reads_simps [simp]:
  "reads shown h []" "reads shown h (a # cs) \<longleftrightarrow> readable shown (h_items h a) \<and> reads shown h cs"
  "reads shown h (xs @ ys) \<longleftrightarrow> reads shown h xs \<and> reads shown h ys" "reads shown (put_ty p t h) cs = reads shown h cs"
  by (auto simp: reads_def)

lemma readable_core:
  "core x = core y \<Longrightarrow> readable shown x = readable shown y"
  "core x = Some (k, c, fl) \<Longrightarrow> readable shown x \<longleftrightarrow> flag_deleted fl \<or> shown c"
  by (auto simp: readable_def core_def is_item_deleted_def split: option.splits)

lemma reads_cong: "\<forall>a \<in> set cs. core (h_items h' a) = core (h_items h a) \<Longrightarrow> reads shown h' cs = reads shown h cs"
  unfolding reads_def by (intro ball_cong refl readable_core(1)) blast

text \<open>
  A reading gives the elements of a content.  Its weight is what the source counts as the length, and
  cutting a content cuts its elements.
\<close>

locale list_reading =
  fixes elements :: "id \<Rightarrow> content \<Rightarrow> 'a list" and weight :: "'a list \<Rightarrow> nat" and shown :: "content \<Rightarrow> bool"
  assumes weight_append: "weight (xs @ ys) = weight xs + weight ys"
    and weight_elements: "shown c \<Longrightarrow> content_ok c \<Longrightarrow> weight (elements k c) = unat (clock_len c)"
    and elements_cut: "shown c \<Longrightarrow> content_split c d = Ok (l, r) \<Longrightarrow> content_merge l r = (Ok (Some (c, r')) :: _ codec_result) \<Longrightarrow>
      unat (clock_len l) = unat d \<Longrightarrow> unat (clock_len l) + unat (clock_len r) = unat (clock_len c) \<Longrightarrow>
      elements k c = elements k l @ elements (new_id (id_client k) (id_clock k + d)) r"
    and shown_cut: "shown c \<Longrightarrow> content_split c d = Ok (l, r) \<Longrightarrow> shown l \<and> shown r"
begin

lemma weight_Nil: "weight [] = 0"
  using weight_append [of "[]" "[]"] by simp

lemma weight_view:
  "\<forall>a \<in> set cs. list_item h st a \<Longrightarrow> reads shown h cs \<Longrightarrow> weight (view elements h cs) = vlen h cs"
proof (induction cs)
  case (Cons a cs)
  obtain i where i: "h_items h a = Some i" "content_ok (item_content i)" using Cons.prems(1) by (auto simp: list_item_def)
  have "weight (shown_by elements (h_items h a)) = item_vlen (h_items h a)"
  proof (cases "is_item_deleted i")
    case False
    then have "shown (item_content i)" using Cons.prems(2) i(1) by (simp add: readable_def)
    then show ?thesis using i False weight_elements by (simp add: shown_by_def item_vlen_def item_len_def)
  qed (simp add: i weight_Nil shown_by_def item_vlen_def)
  moreover have "weight (view elements h cs) = vlen h cs" using Cons by simp
  ultimately show ?case by (simp add: weight_append)
qed (simp add: weight_Nil)

lemma view_cut:
  assumes "cut_at h h' a b d" "reads shown h (us @ a # ws)" "distinct (us @ a # b # ws)"
  shows "view elements h' (us @ a # b # ws) = view elements h (us @ a # ws)" "reads shown h' (us @ a # b # ws)"
proof -
  obtain i lc rc r' where c: "h_items h a = Some i" "\<not> is_item_deleted i" "content_split (item_content i) d = Ok (lc, rc)"
    "content_merge lc rc = (Ok (Some (item_content i, r')) :: _ codec_result)"
    "unat (clock_len lc) = unat d" "unat (clock_len lc) + unat (clock_len rc) = unat (item_len i)"
    "core (h_items h' a) = Some (item_id i, lc, item_flags i)"
    "core (h_items h' b) = Some (new_id (id_client (item_id i)) (id_clock (item_id i) + d), rc,
                                       if content_countable rc then item_countable else 0)"
    using assms(1) unfolding cut_at_def by blast
  have s: "shown (item_content i)" using assms(2) c(1,2) by (simp add: readable_def)
  have nota: "a \<notin> set us" "b \<notin> set us" "a \<notin> set ws" "b \<notin> set ws" using assms(3) by auto
  have "shown_by elements (h_items h' a) @ shown_by elements (h_items h' b) = shown_by elements (h_items h a)"
    using is_item_core(2) [OF c(7), of elements] is_item_core(2) [OF c(8), of elements] fresh_flags_live
      elements_cut [OF s c(3,4,5)] c(1,2,6) by (simp add: shown_by_def item_len_def is_item_deleted_def)
  then show "view elements h' (us @ a # b # ws) = view elements h (us @ a # ws)"
    using cut_vlen(2) [OF assms(1) nota(1,2)] cut_vlen(2) [OF assms(1) nota(3,4)] by (metis append.assoc view_simps(2,3))
  have same: "reads shown h' zs = reads shown h zs" if "a \<notin> set zs" "b \<notin> set zs" for zs
    by (rule reads_cong) (use assms(1) that in \<open>auto simp: cut_at_def\<close>)
  show "reads shown h' (us @ a # b # ws)"
    using same [OF nota(1,2)] same [OF nota(3,4)] assms(2) shown_cut [OF s c(3)] readable_core(2) [OF c(7)] readable_core(2) [OF c(8)]
    by simp
qed

lemma view_recut:
  assumes "recut h cs h' cs'" "reads shown h cs"
  shows "view elements h' cs' = view elements h cs" "reads shown h' cs'"
  using assms unfolding recut_def by (elim disjE exE conjE; simp only: view_cut)+

lemma view_put:
  assumes "put_between h xs a ys i h'" "reads shown h (xs @ ys)" "shown (item_content i)" "item_flags i = item_countable"
  shows "view elements h' (xs @ a # ys) = view elements h xs @ elements (item_id i) (item_content i) @ view elements h ys"
    "reads shown h' (xs @ a # ys)"
proof -
  have "shown_by elements (Some i) = elements (item_id i) (item_content i)"
    using assms(4) by (simp add: shown_by_def is_item_deleted_def flag_simps)
  then show "view elements h' (xs @ a # ys) = view elements h xs @ elements (item_id i) (item_content i) @ view elements h ys"
    using put_between_view(1) [OF assms(1), of elements] by simp
  have "reads shown h' zs = reads shown h zs" if "set zs \<subseteq> set (xs @ ys)" for zs
    by (rule reads_cong) (use assms(1) that in \<open>auto simp: put_between_def\<close>)
  from this [of xs] this [of ys] show "reads shown h' (xs @ a # ys)"
    using assms readable_core(1) [of "h_items h' a" "Some i"] by (simp add: put_between_def readable_def [of _ "Some i"])
qed

lemma insert_at_view:
  assumes "list_ok h st self t cs" "reads shown h cs" "index \<le> yt_len t" "no_cut h cs (unat index)"
    and "content_ok content" "plain content" "content_countable content" "shown content" "0 < clock_len content"
    and "vlen h cs + unat (clock_len content) < 2 ^ 63" "state_of h st (st_client st) + unat (clock_len content) < 2 ^ 64"
  obtains k st' h' t' cs' p q where "insert_at self index content st h = Ok (st', h')" "list_ok h' st' self t' cs'"
    "reads shown h' cs'" "view elements h cs = p @ q" "weight p = unat index" "view elements h' cs' = p @ elements k content @ q"
    "id_client k = st_client st" "unat (id_clock k) = state_of h st (st_client st)" "st_client st' = st_client st"
proof -
  obtain pos t1 where f: "find_pos self index h = (Ok (Some pos, put_ty self t1 h) :: _ codec_result)" "same_but_markers t t1"
    "list_ok (put_ty self t1 h) st self t1 cs" "pos_at h cs (unat index) pos"
    using find_pos_ok [OF assms(1,3)] by metis
  let ?h = "put_ty self t1 h"
  have at: "pos_at ?h cs (unat index) pos" "no_cut ?h cs (unat index)"
    using f(4) assms(4) by (simp_all add: no_cut_def)
  obtain pos1 st1 h1 xs ys where n: "normalize pos st ?h = Ok (pos1, st1, h1)" "list_ok h1 st1 self t1 (xs @ ys)"
    "recut ?h cs h1 (xs @ ys)" "live h1 (pos_left pos1) = last_or None xs" "live h1 (pos_right pos1) = first ys"
    "vlen h1 xs = unat index" "unat (pos_index pos1) = unat index" "pos_parent pos1 = pos_parent pos" "st_client st1 = st_client st"
    "\<forall>c. state_of h1 st1 c = state_of ?h st c" "bounded h1 (pos_left pos1)" "bounded h1 (pos_right pos1)" "unat index = 0 \<longrightarrow> xs = []"
    by (rule normalize_ok [OF f(3) at])
  have v: "vlen h1 (xs @ ys) = vlen h cs" using recut_vlen [OF n(3)] by simp
  note rd = view_recut [OF n(3)]
  have reads1: "reads shown h1 (xs @ ys)" and view1: "view elements h1 (xs @ ys) = view elements h cs"
    using rd assms(2) by simp_all
  have zero: "vlen h1 xs = 0 \<longrightarrow> xs = []" using n(6,13) by simp
  have index: "unat (pos_index pos1) = vlen h1 xs" using n(6,7) by simp
  have room: "vlen h1 (xs @ ys) + unat (clock_len content) < 2 ^ 63"
    "state_of h1 st1 (st_client st1) + unat (clock_len content) < 2 ^ 64"
    using assms(10,11) v n(9,10) by simp_all
  obtain a i st2 h2 t2 where ins: "insert_after self pos1 content st1 h1 = Ok (st2, h2)" "list_ok h2 st2 self t2 (xs @ a # ys)"
    "put_between h1 xs a ys i h2" "item_content i = content" "item_flags i = item_countable" "id_client (item_id i) = st_client st1"
    "unat (id_clock (item_id i)) = state_of h1 st1 (st_client st1)" "st_client st2 = st_client st1"
    by (rule insert_after_ok [OF n(2,4,5,11,12) index zero assms(5,6,7,9) room])
  have run: "insert_at self index content st h = Ok (st2, h2)"
    using list_okD(3,4) [OF assms(1)] assms(3) f(1) n(1) ins(1)
    by (simp add: insert_at_def content_len_def writable_def)
  have w: "weight (view elements h1 xs) = unat index"
    using weight_view [of xs h1 st1] list_okD(11) [OF n(2)] reads1 n(6) by simp
  have i: "shown (item_content i)" using ins(4) assms(8) by simp
  note put = view_put [OF ins(3) reads1 i ins(5)]
  show thesis
    by (rule that [OF run ins(2) put(2) _ w]) (use view1 put(1) ins(4,6,7,8) n(9,10) in simp_all)
qed

end

end
