(* ===== verification/List_Remove.thy ===== *)
theory List_Remove
  imports List_View
begin

text \<open>
  Removing from a list: the items in the range are cut and marked as deleted, the markers are moved
  back, and the list shows what is outside the range.
\<close>

section \<open>Deleting the item of a cell\<close>

definition killed :: "heap \<Rightarrow> ytype_ref \<Rightarrow> ytype \<Rightarrow> nat \<Rightarrow> item \<Rightarrow> heap" where
  "killed h self t a i =
     put_ty self (t\<lparr>yt_len := yt_len t - item_len i\<rparr>) (h\<lparr>h_items := (h_items h)(a \<mapsto> mark i)\<rparr>)"

lemma killed_simps [simp]:
  "h_items (killed h self t a i) = (h_items h)(a \<mapsto> mark i)" "h_next (killed h self t a i) = h_next h"
  by (simp_all add: killed_def)

lemma killed_live: "h_items h a = Some i \<Longrightarrow> live (killed h self t a i) r = live h r"
  by (rule live_cong) simp

lemma killed_chain:
  assumes "h_items h a = Some i"
  shows "chain (killed h self t a i) t' cs = chain h t' cs"
proof -
  have "rt (killed h self t a i) = rt h" "lf (killed h self t a i) = lf h"
    by (rule ext, simp add: rt_def lf_def killed_live [where i = i] assms split: option.split)+
  then show ?thesis by (simp add: chain_def killed_live [OF assms])
qed

lemma delete_in_list:
  assumes "list_base h st self t (xs @ a # ys)" "h_items h a = Some i" "\<not> is_item_deleted i" "somr_ptr r = Some a"
  obtains ds where "store_delete_item r (Some self) st h = Ok (st\<lparr>st_delete_set := ds\<rparr>, killed h self t a i)"
proof -
  note ok = list_baseD [OF assms(1)]
  have li: "parent_sub i = None" "is_item_countable i" "plain (item_content i)" "stored st a (id_client (item_id i))"
    using ok(11) [of a] assms(2,3) by (auto simp: list_item_def)
  have len: "0 < item_len i" "unat (id_clock (item_id i)) + unat (item_len i) < 2 ^ 64"
    using stored_at [OF ok(1) li(4) assms(2)] by metis+
  have le: "unat (item_len i) \<le> unat (yt_len t)" using ok(9) assms(2,3) by (simp add: item_vlen_def)
  have nz: "yt_len t \<noteq> 0" using le len(1) by (auto simp: word_less_nat_alt)
  let ?h = "h\<lparr>h_items := (h_items h)(a \<mapsto> mark i)\<rparr>"
  have m: "delete_item i = (True, mark i)" using assms(3) by (simp add: delete_item_def mark_def)
  have "delete_self [] r (mark i) (Some self) h = Ok (push_delete (id_client (item_id i))
      (mk_range (id_clock (item_id i)) (id_clock (item_id i) + item_len i)) [], killed h self t a i)"
    using len(2) li(1,2) nz le ok(4) get_ty_items [where h = h and p = self]
    by (simp add: delete_self_def put_item_ptr [OF assms(4)] add_u64_def adjust_parent_def shrink_type_def sub_u64_def
        word_le_nat_alt killed_def Let_def)
  then have "\<exists>pending. delete_item_inner (delete_fuel h) [] r (Some self) h = Ok (pending, killed h self t a i)"
    using assms(2,4) m li(3)
    by (cases "item_content i") (simp_all add: delete_fuel_def get_item_unchecked_def get_item_ptr plain_def)
  then show thesis using that by (auto simp: store_delete_item_def)
qed

lemma killed_base:
  assumes "list_base h st self t (xs @ a # ys)" "h_items h a = Some i" "\<not> is_item_deleted i"
  shows "list_base (killed h self t a i) (st\<lparr>st_delete_set := ds\<rparr>) self (t\<lparr>yt_len := yt_len t - item_len i\<rparr>) (xs @ a # ys)"
    "state_of (killed h self t a i) (st\<lparr>st_delete_set := ds\<rparr>) c = state_of h st c"
proof -
  let ?h = "killed h self t a i"
  note ok = list_baseD [OF assms(1)]
  have "\<exists>j. h_items ?h x = Some j \<and> item_id j = item_id y \<and> item_len j = item_len y" if "h_items h x = Some y" for x y
    using that assms(2) by (cases "x = a") (simp_all add: item_len_def)
  note grow = store_ok_grow [OF ok(1) this]
  have set: "store_ok ?h (st\<lparr>st_delete_set := ds\<rparr>) = store_ok ?h st" "state_of ?h (st\<lparr>st_delete_set := ds\<rparr>) c = state_of ?h st c" for c
    by (simp_all add: store_ok_def state_of_def nodes_of_def)
  show "state_of ?h (st\<lparr>st_delete_set := ds\<rparr>) c = state_of h st c" using set(2) grow(2) by simp
  have v: "vlen ?h zs = vlen h zs" if "a \<notin> set zs" for zs
    by (rule view_cong) (use that in auto)
  have nota: "a \<notin> set xs" "a \<notin> set ys" using list_distinct [OF assms(1)] by auto
  have va: "item_vlen (h_items ?h a) = 0" "item_vlen (h_items h a) = unat (item_len i)"
    using assms(2,3) by (simp_all add: item_vlen_def)
  have vl: "vlen ?h (xs @ a # ys) + unat (item_len i) = vlen h (xs @ a # ys)"
    using v [OF nota(1)] v [OF nota(2)] va by simp
  have le: "item_len i \<le> yt_len t" using ok(9) vl by (simp add: word_le_nat_alt)
  have ty: "get_ty ?h self = Some (t\<lparr>yt_len := yt_len t - item_len i\<rparr>)" using ok(4) by (simp add: killed_def)
  have fresh: "fresh ?h" using ok(2) fresh_less [OF ok(2) assms(2)] by (auto simp: fresh_def)
  have chain: "chain ?h (t\<lparr>yt_len := yt_len t - item_len i\<rparr>) (xs @ a # ys)"
    using ok(5) killed_chain [OF assms(2)] by simp
  have dead: "\<not> parent_dead ?h (t\<lparr>yt_len := yt_len t - item_len i\<rparr>)"
  proof (cases "somr_ptr (yt_item t)")
    case (Some n)
    then have "n \<noteq> a" using ok(12) by auto
    then show ?thesis using ok(7) Some by (simp add: parent_dead_def get_item_ptr)
  qed (simp add: parent_dead_def get_item_def somr_lookup_def)
  have items: "\<forall>x \<in> set (xs @ a # ys). list_item ?h (st\<lparr>st_delete_set := ds\<rparr>) x"
  proof
    fix x assume x: "x \<in> set (xs @ a # ys)"
    show "list_item ?h (st\<lparr>st_delete_set := ds\<rparr>) x"
      using ok(11) [OF x] assms(2) by (cases "x = a") (auto simp: list_item_def stored_def nodes_of_def bounded_def)
  qed
  have len: "unat (yt_len t - item_len i) = vlen ?h (xs @ a # ys)" using unat_minus_u64 [OF le] ok(9) vl by simp
  show "list_base ?h (st\<lparr>st_delete_set := ds\<rparr>) self (t\<lparr>yt_len := yt_len t - item_len i\<rparr>) (xs @ a # ys)"
    unfolding list_base_def
    using set(1) grow(1) fresh ok(3,6,8,10,12) ty chain dead items len vl by (simp add: bounded_def)
qed

section \<open>The markers of a removal\<close>

text \<open>
  Where a marker stands while the items \<open>ds\<close> after \<open>xs\<close> are gone already and \<open>r\<close> has been taken off.
\<close>

definition marker_gone :: "heap \<Rightarrow> nat list \<Rightarrow> nat list \<Rightarrow> nat list \<Rightarrow> nat \<Rightarrow> search_marker \<Rightarrow> bool" where
  "marker_gone h xs ds ys r m \<longleftrightarrow>
     (\<exists>us a ws. xs = us @ a # ws \<and> live h (sm_ptr m) = Some a \<and> unat (sm_index m) = vlen h us)
     \<or> (\<exists>a \<in> set ds. live h (sm_ptr m) = Some a \<and> vlen h xs \<le> unat (sm_index m) \<and> unat (sm_index m) \<le> vlen h xs + r)
     \<or> (\<exists>us a ws. ys = us @ a # ws \<and> live h (sm_ptr m) = Some a \<and> unat (sm_index m) = vlen h xs + r + vlen h us)"

text \<open>The cell \<open>a\<close> may have been changed, the others hold what they held.\<close>

definition all_but :: "nat set \<Rightarrow> heap \<Rightarrow> heap \<Rightarrow> bool" where
  "all_but A h h' \<longleftrightarrow> (\<forall>x. x \<notin> A \<longrightarrow> core (h_items h' x) = core (h_items h x)) \<and> (\<forall>r x. live h r = Some x \<longrightarrow> live h' r = Some x)"

lemma all_but_vlen: "all_but A h h' \<Longrightarrow> A \<inter> set zs = {} \<Longrightarrow> vlen h' zs = vlen h zs" "all_but A h h' \<Longrightarrow> A \<inter> set zs = {} \<Longrightarrow> view f h' zs = view f h zs"
  "all_but A h h' \<Longrightarrow> A \<inter> set zs = {} \<Longrightarrow> reads shown h' zs = reads shown h zs"
  by (rule view_cong reads_cong; auto simp: all_but_def)+

lemma marker_gone_step:
  assumes "marker_gone h xs ds (a # ys) r m" "all_but {a} h h'" "a \<notin> set xs" "a \<notin> set ys"
  shows "marker_gone h' xs (ds @ [a]) ys (r + item_vlen (h_items h a)) m"
proof -
  have v: "vlen h' zs = vlen h zs" if "a \<notin> set zs" for zs using all_but_vlen(1) [OF assms(2)] that by simp
  have l: "live h q = Some x \<Longrightarrow> live h' q = Some x" for q x using assms(2) by (simp add: all_but_def)
  from assms(1) consider
    (left) us b ws where "xs = us @ b # ws" "live h (sm_ptr m) = Some b" "unat (sm_index m) = vlen h us"
    | (gone) b where "b \<in> set ds" "live h (sm_ptr m) = Some b" "vlen h xs \<le> unat (sm_index m)" "unat (sm_index m) \<le> vlen h xs + r"
    | (here) "live h (sm_ptr m) = Some a" "unat (sm_index m) = vlen h xs + r"
    | (right) us b ws where "ys = us @ b # ws" "live h (sm_ptr m) = Some b" "unat (sm_index m) = vlen h xs + r + (item_vlen (h_items h a) + vlen h us)"
    by (fastforce simp: marker_gone_def Cons_eq_append_conv)
  then show ?thesis
  proof cases
    case left
    then show ?thesis unfolding marker_gone_def using v [of us] assms(3) l by auto
  next
    case gone
    then show ?thesis unfolding marker_gone_def using v [OF assms(3)] l by auto
  next
    case here
    then show ?thesis unfolding marker_gone_def using v [OF assms(3)] l by auto
  next
    case right
    then show ?thesis unfolding marker_gone_def using v [OF assms(3)] v [of us] assms(4) l
      by (intro disjI2 exI [of _ us] exI [of _ b] exI [of _ ws]) auto
  qed
qed

lemma marker_gone_cut:
  assumes "marker_gone h xs ds (a # ys) r m" "cut_at h h' a b d" "distinct (xs @ ds @ a # b # ys)"
    and "\<forall>r x. live h r = Some x \<longrightarrow> live h' r = Some x"
  shows "marker_gone h' xs ds (a # b # ys) r m"
proof -
  have nota: "a \<notin> set xs" "b \<notin> set xs" "a \<notin> set ys" "b \<notin> set ys" using assms(3) by auto
  have v: "vlen h' zs = vlen h zs" if "a \<notin> set zs" "b \<notin> set zs" for zs using cut_vlen(1) [OF assms(2) that] .
  from assms(1) consider
    (left) us x ws where "xs = us @ x # ws" "live h (sm_ptr m) = Some x" "unat (sm_index m) = vlen h us"
    | (gone) x where "x \<in> set ds" "live h (sm_ptr m) = Some x" "vlen h xs \<le> unat (sm_index m)" "unat (sm_index m) \<le> vlen h xs + r"
    | (here) "live h (sm_ptr m) = Some a" "unat (sm_index m) = vlen h xs + r"
    | (right) us x ws where "ys = us @ x # ws" "live h (sm_ptr m) = Some x" "unat (sm_index m) = vlen h xs + r + (item_vlen (h_items h a) + vlen h us)"
    by (fastforce simp: marker_gone_def Cons_eq_append_conv)
  then show ?thesis
  proof cases
    case left
    then show ?thesis unfolding marker_gone_def using v [of us] nota(1,2) assms(4) by auto
  next
    case gone
    then show ?thesis unfolding marker_gone_def using v [OF nota(1,2)] assms(4) by auto
  next
    case here
    then show ?thesis unfolding marker_gone_def using v [OF nota(1,2)] assms(4)
      by (intro disjI2 exI [of _ "[]"] exI [of _ a] exI [of _ "b # ys"]) auto
  next
    case right
    then show ?thesis unfolding marker_gone_def using v [OF nota(1,2)] v [of us] cut_vlen(4) [OF assms(2)] nota(3,4) assms(4)
      by (intro disjI2 exI [of _ "a # b # us"] exI [of _ x] exI [of _ ws]) auto
  qed
qed

section \<open>The loop\<close>

text \<open>
  A part of a removal: the elements \<open>p\<close>, of weight \<open>k\<close>, are taken from the front of \<open>ys\<close>; the items they came
  from are dead and stand after \<open>xs\<close> and \<open>ds\<close>.
\<close>

type_synonym list_state = "heap \<times> store \<times> ytype \<times> nat list \<times> nat list"

definition shrinks ::
    "(id \<Rightarrow> content \<Rightarrow> 'a list) \<Rightarrow> ('a list \<Rightarrow> nat) \<Rightarrow> (content \<Rightarrow> bool) \<Rightarrow> ytype_ref \<Rightarrow> nat list \<Rightarrow> list_state \<Rightarrow> 'a list \<Rightarrow> list_state \<Rightarrow> bool" where
  "shrinks elements weight shown self xs s p s' \<longleftrightarrow>
     (case s of (h, st, t, ds, ys) \<Rightarrow> case s' of (h', st', t', ds', ys') \<Rightarrow>
        list_base h' st' self t' (xs @ ds' @ ys') \<and> vlen h' ds' = 0 \<and> reads shown h' ys'
        \<and> view elements h ys = p @ view elements h' ys' \<and> yt_markers t' = yt_markers t
        \<and> st_client st' = st_client st \<and> (\<forall>c. state_of h' st' c = state_of h st c)
        \<and> view elements h' xs = view elements h xs \<and> vlen h' xs = vlen h xs \<and> reads shown h' xs = reads shown h xs
        \<and> (\<forall>r m. marker_gone h xs ds ys r m \<longrightarrow> marker_gone h' xs ds' ys' (r + weight p) m))"

lemma shrinks_kill:
  assumes "list_base h st self t (xs @ ds @ a # ys)" "vlen h ds = 0" "reads shown h (a # ys)" "h_items h a = Some i" "\<not> is_item_deleted i"
    and "weight (elements (item_id i) (item_content i)) = unat (item_len i)"
  shows "shrinks elements weight shown self xs (h, st, t, ds, a # ys) (elements (item_id i) (item_content i))
    (killed h self t a i, st\<lparr>st_delete_set := dl\<rparr>, t\<lparr>yt_len := yt_len t - item_len i\<rparr>, ds @ [a], ys)"
proof -
  let ?h = "killed h self t a i"
  have b: "list_base h st self t ((xs @ ds) @ a # ys)" using assms(1) by simp
  note base = killed_base [OF b assms(4,5)]
  have d: "a \<notin> set xs" "a \<notin> set ds" "a \<notin> set ys" using list_distinct [OF assms(1)] by auto
  have all: "all_but {a} h ?h" using killed_live [OF assms(4)] by (simp add: all_but_def)
  note same = all_but_vlen(1,3) [OF all] all_but_vlen(2) [OF all, where f = elements]
  have dead: "item_vlen (h_items ?h a) = 0" by (simp add: item_vlen_def)
  have here: "item_vlen (h_items h a) = unat (item_len i)" "shown_by elements (h_items h a) = elements (item_id i) (item_content i)"
    using assms(4,5) by (simp_all add: item_vlen_def shown_by_def)
  have gone: "marker_gone ?h xs (ds @ [a]) ys (r + unat (item_len i)) m" if "marker_gone h xs ds (a # ys) r m" for r m
    using marker_gone_step [OF that all d(1,3)] here(1) by simp
  show ?thesis
    unfolding shrinks_def using base(1) assms(2,3,6) base(2) same [of xs] same [of ds] same [of ys] d dead here(2) gone by simp
qed

lemma shrinks_skip:
  assumes "list_base h st self t (xs @ ds @ a # ys)" "vlen h ds = 0" "reads shown h (a # ys)" "h_items h a = Some i" "is_item_deleted i"
    and "weight [] = 0"
  shows "shrinks elements weight shown self xs (h, st, t, ds, a # ys) [] (h, st, t, ds @ [a], ys)"
proof -
  have d: "a \<notin> set xs" "a \<notin> set ys" using list_distinct [OF assms(1)] by auto
  have here: "item_vlen (h_items h a) = 0" "shown_by elements (h_items h a) = []" using assms(4,5) by (simp_all add: item_vlen_def shown_by_def)
  have "marker_gone h xs (ds @ [a]) ys r m" if "marker_gone h xs ds (a # ys) r m" for r m
    using marker_gone_step [OF that _ d] here(1) by (simp add: all_but_def)
  then show ?thesis unfolding shrinks_def using assms here by simp
qed

context list_reading
begin

lemma shrinks_refl:
  "list_base h st self t (xs @ ds @ ys) \<Longrightarrow> vlen h ds = 0 \<Longrightarrow> reads shown h ys \<Longrightarrow>
   shrinks elements weight shown self xs (h, st, t, ds, ys) [] (h, st, t, ds, ys)"
  by (simp add: shrinks_def weight_Nil)

lemma shrinks_trans:
  "shrinks elements weight shown self xs s p s' \<Longrightarrow> shrinks elements weight shown self xs s' q s'' \<Longrightarrow>
   shrinks elements weight shown self xs s (p @ q) s''"
  by (cases s; cases s'; cases s'') (auto simp: shrinks_def weight_append add.assoc [symmetric])

text \<open>The last item is cut first.\<close>

lemma shrinks_cut:
  assumes "list_base h st self t (xs @ ds @ a # ys)" "vlen h ds = 0" "reads shown h (a # ys)" "h_items h a = Some i" "\<not> is_item_deleted i"
    and "0 < d" "d < item_len i" "split_boundary (item_content i) d" "somr_ptr r = Some a"
  obtains lr b h1 st1 i1 st2 h2 t2 p where "split_node (item_id i) d st h = Ok (lr, st1, h1)" "h_items h1 a = Some i1"
    "store_delete_item r (Some self) st1 h1 = Ok (st2, h2)" "weight p = unat d" "h_items h2 a = Some (mark i1)"
    "shrinks elements weight shown self xs (h, st, t, ds, a # ys) p (h2, st2, t2, ds @ [a], b # ys)"
proof -
  have b: "list_base h st self t ((xs @ ds) @ a # ys)" using assms(1) by simp
  obtain b h1 st1 where sp: "split_node (item_id i) d st h = Ok ((Item (SRef a), Item (SRef b)), st1, h1)"
    "list_base h1 st1 self t ((xs @ ds) @ a # b # ys)" "cut_at h h1 a b d" "st_client st1 = st_client st"
    "\<forall>c. state_of h1 st1 c = state_of h st c" "h_types h1 = h_types h" "h_next h1 = h_next h + 2"
    "\<forall>r x. live h r = Some x \<longrightarrow> live h1 r = Some x"
    by (rule split_in_list [OF b assms(4-8)])
  have b1: "list_base h1 st1 self t (xs @ ds @ a # b # ys)" using sp(2) by simp
  have dist: "distinct (xs @ ds @ a # b # ys)" using list_distinct [OF b1] .
  then have nota: "a \<notin> set xs" "b \<notin> set xs" "a \<notin> set ds" "b \<notin> set ds" "distinct ([] @ a # b # ys)" by auto
  note same = cut_vlen(1) [OF sp(3)] cut_vlen(2) [OF sp(3), where f = elements]
  have reads_xs: "reads shown h1 xs = reads shown h xs"
    by (rule reads_cong) (use sp(3) nota in \<open>auto simp: cut_at_def\<close>)
  have "reads shown h ([] @ a # ys)" using assms(3) by simp
  from view_cut [OF sp(3) this nota(5)] have view: "view elements h1 (a # b # ys) = view elements h (a # ys)" "reads shown h1 (a # b # ys)"
    by simp_all
  have cut: "shrinks elements weight shown self xs (h, st, t, ds, a # ys) [] (h1, st1, t, ds, a # b # ys)"
    unfolding shrinks_def
    using b1 same [OF nota(1,2)] same [OF nota(3,4)] assms(2) view sp(4,5) reads_xs marker_gone_cut [OF _ sp(3) dist sp(8)]
    by (simp add: weight_Nil)
  obtain i1 where i1: "h_items h1 a = Some i1" "\<not> is_item_deleted i1" "unat (item_len i1) = unat d"
    using sp(3) assms(4,5) by (auto simp: cut_at_def core_def is_item_deleted_def item_len_def)
  obtain dl where del: "store_delete_item r (Some self) st1 h1 = Ok (st1\<lparr>st_delete_set := dl\<rparr>, killed h1 self t a i1)"
    by (rule delete_in_list [OF sp(2) i1(1,2) assms(9)])
  have li: "list_item h1 st1 a" using list_baseD(11) [OF b1] by simp
  have "shown (item_content i1)" "content_ok (item_content i1)"
    using view(2) i1(1,2) li by (auto simp: readable_def list_item_def)
  then have w: "weight (elements (item_id i1) (item_content i1)) = unat (item_len i1)"
    using weight_elements by (simp add: item_len_def)
  have "vlen h1 ds = 0" using same(1) [OF nota(3,4)] assms(2) by simp
  from shrinks_kill [where weight = weight and elements = elements, OF b1 this view(2) i1(1,2) w] have
    kill: "shrinks elements weight shown self xs (h1, st1, t, ds, a # b # ys) (elements (item_id i1) (item_content i1))
      (killed h1 self t a i1, st1\<lparr>st_delete_set := dl\<rparr>, t\<lparr>yt_len := yt_len t - item_len i1\<rparr>, ds @ [a], b # ys)" .
  show thesis
    by (rule that [OF sp(1) i1(1) del _ _ shrinks_trans [OF cut kill]]) (use w i1(3) in \<open>simp_all\<close>)
qed

end

text \<open>The whole loop takes \<open>remain\<close> off, or all there is.\<close>

lemma no_cut_later:
  assumes "no_cut h (a # ys) n" "item_vlen (h_items h a) \<le> n" "\<forall>x \<in> set ys. h_items h' x = h_items h x"
  shows "no_cut h' ys (n - item_vlen (h_items h a))"
  unfolding no_cut_def
proof (intro allI impI)
  fix zs b ws i d
  assume p: "ys = zs @ b # ws \<and> h_items h' b = Some i \<and> \<not> is_item_deleted i \<and> 0 < d \<and> d < item_len i
    \<and> n - item_vlen (h_items h a) = vlen h' zs + unat d"
  have "vlen h' zs = vlen h zs" by (rule view_cong) (use p assms(3) in simp)
  then have "a # ys = (a # zs) @ b # ws" "n = vlen h (a # zs) + unat d" "h_items h b = Some i" using p assms(2,3) by auto
  then show "split_boundary (item_content i) d" using assms(1) p unfolding no_cut_def by blast
qed

lemma no_cut_first:
  assumes "no_cut h (a # ys) (unat d)" "h_items h a = Some i" "\<not> is_item_deleted i" "0 < d" "d < item_len i"
  shows "split_boundary (item_content i) d"
  by (rule assms(1) [unfolded no_cut_def, rule_format, of "[]" a ys i d]) (use assms(2-) in simp)

context list_reading
begin

lemma remove_loop_ok:
  "list_base h st self t (xs @ ds @ ys) \<Longrightarrow> vlen h ds = 0 \<Longrightarrow> reads shown h ys \<Longrightarrow> live h (pos_right pos) = first ys \<Longrightarrow>
   no_cut h ys (unat remain) \<Longrightarrow> length ys + 1 < fuel \<Longrightarrow>
   \<exists>remain' pos' st' h' t' ds' ys' p. remove_loop fuel self remain pos st h = Ok (remain', pos', st', h')
     \<and> shrinks elements weight shown self xs (h, st, t, ds, ys) p (h', st', t', ds', ys')
     \<and> pos_index pos' = pos_index pos \<and> unat remain = unat remain' + weight p \<and> weight p = min (unat remain) (vlen h ys)"
proof (induction ys arbitrary: h st t ds pos remain fuel)
  case Nil
  obtain f where f: "fuel = Suc f" using Nil.prems(6) by (cases fuel) auto
  have "get_item h (pos_right pos) = None" using Nil.prems(4) by (simp add: live_None)
  then have "remove_loop fuel self remain pos st h = Ok (remain, pos, st, h)" using f by simp
  then show ?case using shrinks_refl [OF Nil.prems(1-3)] weight_Nil by fastforce
next
  case (Cons a ys)
  obtain f where f: "fuel = Suc f" using Cons.prems(6) by (cases fuel) auto
  show ?case
  proof (cases "remain = 0")
    case True
    then have "remove_loop fuel self remain pos st h = Ok (0, pos, st, h)" using f by simp
    then show ?thesis using shrinks_refl [OF Cons.prems(1-3)] weight_Nil True by fastforce
  next
    case rem: False
    have live: "live h (pos_right pos) = Some a" using Cons.prems(4) by simp
    have ch: "chain h t ((xs @ ds) @ a # ys)" using list_baseD(5) [OF Cons.prems(1)] by simp
    obtain i where i: "get_item h (pos_right pos) = Some i" "h_items h a = Some i" "live h (item_right i) = first ys"
      using chain_next [OF ch live] by metis
    have ptr: "somr_ptr (pos_right pos) = Some a" using live by (simp add: live_Some)
    have li: "list_item h st a" using list_baseD(11) [OF Cons.prems(1)] by simp
    let ?next = "pos\<lparr>pos_left := somr_clone (pos_right pos), pos_right := somr_clone (item_right i)\<rparr>"
    have base: "list_base h st self t ((xs @ ds) @ a # ys)" using Cons.prems(1) by simp
    show ?thesis
    proof (cases "is_item_deleted i")
      case True
      have run: "remove_loop fuel self remain pos st h = remove_loop f self remain ?next st h"
        using f rem i(1) True by (simp add: pos_forward_def)
      have v: "item_vlen (h_items h a) = 0" using i(2) True by (simp add: item_vlen_def)
      note skip = shrinks_skip [where weight = weight and elements = elements, OF Cons.prems(1-3) i(2) True weight_Nil]
      have nc: "no_cut h ys (unat remain)" using no_cut_later [OF Cons.prems(5), of h] v by simp
      have after: "list_base h st self t (xs @ (ds @ [a]) @ ys)" "vlen h (ds @ [a]) = 0" "reads shown h ys"
        using skip by (simp_all add: shrinks_def)
      have right: "live h (pos_right ?next) = first ys" using i(3) by simp
      have fuel: "length ys + 1 < f" using Cons.prems(6) f by simp
      from Cons.IH [OF after right nc fuel] obtain remain' pos' st' h' t' ds' ys' p where
        go: "remove_loop f self remain ?next st h = Ok (remain', pos', st', h')"
        "shrinks elements weight shown self xs (h, st, t, ds @ [a], ys) p (h', st', t', ds', ys')"
        "pos_index pos' = pos_index ?next" "unat remain = unat remain' + weight p" "weight p = min (unat remain) (vlen h ys)"
        by (elim exE conjE) (rule that)
      show ?thesis
        by (intro exI conjI, rule trans [OF run go(1)], rule shrinks_trans [OF skip go(2)]) (use go(3-5) v in simp_all)
    next
      case del: False
      have c: "shown (item_content i)" "content_ok (item_content i)" using Cons.prems(3) i(2) del li by (auto simp: readable_def list_item_def)
      have v: "item_vlen (h_items h a) = unat (item_len i)" using i(2) del by (simp add: item_vlen_def)
      show ?thesis
      proof (cases "remain < item_len i")
        case True
        have b: "split_boundary (item_content i) remain" "0 < remain"
          using no_cut_first [OF Cons.prems(5) i(2) del] True rem by (simp_all add: word_greater_zero_iff)
        obtain lr b h1 st1 i1 st2 h2 t2 p where cut: "split_node (item_id i) remain st h = Ok (lr, st1, h1)" "h_items h1 a = Some i1"
          "store_delete_item (pos_right pos) (Some self) st1 h1 = Ok (st2, h2)" "weight p = unat remain" "h_items h2 a = Some (mark i1)"
          "shrinks elements weight shown self xs (h, st, t, ds, a # ys) p (h2, st2, t2, ds @ [a], b # ys)"
          by (rule shrinks_cut [OF Cons.prems(1-3) i(2) del b(2) True b(1) ptr])
        obtain g where g: "f = Suc g" using Cons.prems(6) f by (cases f) auto
        have "\<exists>pos'. remove_loop fuel self remain pos st h = Ok (0, pos', st2, h2) \<and> pos_index pos' = pos_index pos"
          using f g rem i(1) del True cut(1,3,5) ptr by (simp add: pos_forward_def get_item_ptr)
        then show ?thesis using cut(4,6) v True by (fastforce simp: word_less_nat_alt)
      next
        case False
        have le: "unat (remain - item_len i) = unat remain - unat (item_len i)" "unat (item_len i) \<le> unat remain"
          using False by (simp_all add: unat_minus_u64 word_le_nat_alt not_less)
        obtain dl where kill: "store_delete_item (pos_right pos) (Some self) st h = Ok (st\<lparr>st_delete_set := dl\<rparr>, killed h self t a i)"
          by (rule delete_in_list [OF base i(2) del ptr])
        let ?h = "killed h self t a i" and ?st = "st\<lparr>st_delete_set := dl\<rparr>" and ?t = "t\<lparr>yt_len := yt_len t - item_len i\<rparr>"
        have w: "weight (elements (item_id i) (item_content i)) = unat (item_len i)"
          using weight_elements c by (simp add: item_len_def)
        note part = shrinks_kill [where weight = weight and elements = elements and dl = dl, OF Cons.prems(1-3) i(2) del w]
        have "get_item ?h (pos_right pos) = Some (mark i)" using ptr by (simp add: get_item_ptr)
        then have run: "remove_loop fuel self remain pos st h = remove_loop f self (remain - item_len i) ?next ?st ?h"
          using f rem i(1) del False kill by (simp add: pos_forward_def)
        have "a \<notin> set ys" using list_distinct [OF base] by simp
        then have nc: "no_cut ?h ys (unat (remain - item_len i))"
          using no_cut_later [OF Cons.prems(5), of ?h] v le by auto
        have after: "list_base ?h ?st self ?t (xs @ (ds @ [a]) @ ys)" "vlen ?h (ds @ [a]) = 0" "reads shown ?h ys"
          using part by (simp_all add: shrinks_def)
        have right: "live ?h (pos_right ?next) = first ys" using i(3) killed_live [OF i(2)] by simp
        have fuel: "length ys + 1 < f" using Cons.prems(6) f by simp
        have vys: "vlen ?h ys = vlen h ys" by (rule view_cong) (use \<open>a \<notin> set ys\<close> in auto)
        obtain remain' pos' st' h' t' ds' ys' p where
          go: "remove_loop f self (remain - item_len i) ?next ?st ?h = Ok (remain', pos', st', h')"
          "shrinks elements weight shown self xs (?h, ?st, ?t, ds @ [a], ys) p (h', st', t', ds', ys')"
          "pos_index pos' = pos_index ?next" "unat (remain - item_len i) = unat remain' + weight p"
          "weight p = min (unat (remain - item_len i)) (vlen ?h ys)"
          using Cons.IH [OF after right nc fuel] by (elim exE conjE) (rule that)
        show ?thesis
          by (intro exI conjI, rule trans [OF run go(1)], rule shrinks_trans [OF part go(2)])
            (use go(3-5) le w v vys in \<open>simp_all add: weight_append\<close>)
      qed
    qed
  qed
qed

end

section \<open>The whole removal\<close>

lemma sint_minus_small:
  assumes "unat (a :: u64) < 2 ^ 63" "unat b < 2 ^ 63"
  shows "sint (- b) = - uint b" "sint (a + - b) = uint a - uint b" "- (2 ^ 63) \<le> uint a - uint b" "uint a - uint b < 2 ^ 63"
proof -
  note a = sint_small [OF assms(1)] and b = sint_small [OF assms(2)]
  have "- (2 ^ 63) \<le> - uint b" "- uint b < 2 ^ 63" using b(2) by (simp_all add: order_le_less_trans [of _ 0])
  then show "sint (- b) = - uint b" using b(1) sint_word_minus [of b] by (simp add: signed_take_bit_int_eq_self)
  show lo: "- (2 ^ 63) \<le> uint a - uint b" using b(2) uint_ge_0 [of a] by (simp add: algebra_simps order_trans [of _ "2 ^ 63"])
  show hi: "uint a - uint b < 2 ^ 63" by (rule le_less_trans [OF _ a(2)]) simp
  have "sint (a - b) = uint a - uint b"
    using sint_word_diff [of a b] a(1) b(1) lo hi by (simp add: signed_take_bit_int_eq_self)
  then show "sint (a + - b) = uint a - uint b" by simp
qed

lemma shift_marker_remove:
  assumes "marker_gone h xs ds ys (unat removed) m" "vlen h ds = 0" "unat index = vlen h xs"
    and "vlen h xs + unat removed + vlen h ys < 2 ^ 63"
  obtains m' where "shift_marker h index (- removed) m = (Ok m' :: _ codec_result)" "marker_ok h (xs @ ds @ ys) m'"
proof -
  have small: "unat index < 2 ^ 63" "unat removed < 2 ^ 63" using assms(3,4) by simp_all
  have neg: "\<not> 0 < sint (- removed)" using sint_minus_small(1) [OF small] by (simp add: not_less)
  have live: "get_item h (sm_ptr m) \<noteq> None" using assms(1) by (auto simp: marker_gone_def live_None [symmetric])
  have idx: "unat (sm_index m) < 2 ^ 63" using assms(1,4) by (auto simp: marker_gone_def)
  note s = sint_minus_small [OF idx small(2)] and i = sint_small [OF small(1)]
  let ?n = "if index < sm_index m then (if uint index \<le> uint (sm_index m) - uint removed then sm_index m + - removed else index) else sm_index m"
  have run: "shift_marker h index (- removed) m = (Ok (m\<lparr>sm_index := ?n\<rparr>) :: _ codec_result)"
    using neg live s i sint_small(1) [OF idx] by (simp add: shift_marker_def add_i64_def)
  have cond: "uint index \<le> uint (sm_index m) - uint removed \<longleftrightarrow> unat index + unat removed \<le> unat (sm_index m)"
    by (simp add: le_diff_eq flip: of_nat_le_iff [where 'a = int])
  have n: "unat ?n = (if unat index < unat (sm_index m) then max (unat index) (unat (sm_index m) - unat removed) else unat (sm_index m))"
    unfolding cond by (auto simp: word_less_nat_alt unat_minus_u64 word_le_nat_alt max_def)
  from assms(1) consider
    (left) us a ws where "xs = us @ a # ws" "live h (sm_ptr m) = Some a" "unat (sm_index m) = vlen h us"
    | (gone) a us ws where "ds = us @ a # ws" "live h (sm_ptr m) = Some a" "vlen h xs \<le> unat (sm_index m)" "unat (sm_index m) \<le> vlen h xs + unat removed"
    | (right) us a ws where "ys = us @ a # ws" "live h (sm_ptr m) = Some a" "unat (sm_index m) = vlen h xs + unat removed + vlen h us"
    unfolding marker_gone_def by (metis split_list)
  then have "at_place h (xs @ ds @ ys) (sm_ptr m) ?n"
  proof cases
    case left
    have "unat ?n = vlen h us" unfolding n using left(1,3) assms(3) by simp
    then show ?thesis using left by (intro at_placeI [of _ us a "ws @ ds @ ys"]) simp_all
  next
    case gone
    have "unat ?n = vlen h (xs @ us)" unfolding n using gone(1,3,4) assms(2,3) by auto
    then show ?thesis using gone by (intro at_placeI [of _ "xs @ us" a "ws @ ys"]) simp_all
  next
    case right
    have "unat ?n = vlen h (xs @ ds @ us)" unfolding n using right(3) assms(2,3) by auto
    then show ?thesis using right by (intro at_placeI [of _ "xs @ ds @ us" a ws]) simp_all
  qed
  then show thesis using that [OF run] by (simp add: marker_place)
qed

lemma change_markers_remove:
  assumes "list_base h st self t (xs @ ds @ ys)" "vlen h ds = 0" "unat index = vlen h xs"
    and "vlen h xs + unat removed + vlen h ys < 2 ^ 63"
    and "\<forall>ms. yt_markers t = Some ms \<longrightarrow> (\<forall>m \<in> set ms. marker_gone h xs ds ys (unat removed) m)"
  obtains t' where "change_markers self index (- removed) h = Ok (put_ty self t' h)" "same_but_markers t t'"
    "list_ok (put_ty self t' h) st self t' (xs @ ds @ ys)"
proof -
  have ty: "get_ty h self = Some t" using list_baseD(4) [OF assms(1)] .
  have set: "list_ok (put_ty self t' h) st self t' (xs @ ds @ ys)" if "same_but_markers t t'" "markers_ok h t' (xs @ ds @ ys)" for t'
    using list_base_markers [OF assms(1) that(1)] that(2) by (simp add: list_ok_def)
  show thesis
  proof (cases "yt_markers t")
    case None
    then show thesis using that [of t] ty set [of t] by (simp add: change_markers_def markers_ok_def)
  next
    case (Some ms)
    have "\<forall>m \<in> set ls. marker_gone h xs ds ys (unat removed) m \<Longrightarrow>
        \<exists>ls'. shift_markers h index (- removed) ls = (Ok ls' :: _ codec_result) \<and> (\<forall>m \<in> set ls'. marker_ok h (xs @ ds @ ys) m)" for ls
    proof (induction ls)
      case (Cons m ls)
      obtain m' where "shift_marker h index (- removed) m = (Ok m' :: _ codec_result)" "marker_ok h (xs @ ds @ ys) m'"
        using shift_marker_remove [OF _ assms(2-4), of m] Cons.prems by auto
      then show ?case using Cons by auto
    qed simp
    then obtain ms' where ms': "shift_markers h index (- removed) ms = (Ok ms' :: _ codec_result)" "\<forall>m \<in> set ms'. marker_ok h (xs @ ds @ ys) m"
      using assms(5) Some by blast
    then show thesis
      using that [of "t\<lparr>yt_markers := Some (filter (\<lambda>m. 0 < sm_index m) ms')\<rparr>"] Some ty set
      by (simp add: change_markers_def update_marker_changes_def markers_ok_def)
  qed
qed

lemma dead_cells:
  assumes "store_ok h st"
  shows "\<forall>a \<in> set ds. list_item h st a \<Longrightarrow> vlen h ds = 0 \<Longrightarrow> view f h ds = [] \<and> reads shown h ds"
proof (induction ds)
  case (Cons a ds)
  obtain i where i: "h_items h a = Some i" "stored st a (id_client (item_id i))" using Cons.prems(1) by (auto simp: list_item_def)
  have "0 < item_len i" using stored_at [OF assms i(2,1)] by metis
  then have "is_item_deleted i" using Cons.prems(2) i(1) by (auto simp: item_vlen_def word_less_nat_alt split: if_splits)
  then show ?case using Cons i(1) by (simp add: shown_by_def readable_def)
qed simp

lemma marker_gone_start: "marker_ok h (xs @ ys) m \<Longrightarrow> marker_gone h xs [] ys 0 m"
  unfolding marker_ok_def
proof (elim exE conjE)
  fix us a ws assume p: "xs @ ys = us @ a # ws" "live h (sm_ptr m) = Some a" "unat (sm_index m) = vlen h us"
  consider (left) qs where "xs = us @ a # qs" | (right) qs where "us = xs @ qs" "ys = qs @ a # ws"
    using p(1) by (auto simp: append_eq_append_conv2 append_eq_Cons_conv Cons_eq_append_conv)
  then show "marker_gone h xs [] ys 0 m"
  proof cases
    case left
    then show ?thesis using p(2,3) by (auto simp: marker_gone_def)
  next
    case right
    then show ?thesis unfolding marker_gone_def using p(2,3) by (intro disjI2 exI [of _ qs] exI [of _ a] exI [of _ ws]) simp
  qed
qed

context list_reading
begin

lemma remove_after_ok:
  assumes "list_ok h st self t (xs @ ys)" "reads shown h (xs @ ys)" "live h (pos_right pos) = first ys" "unat (pos_index pos) = vlen h xs"
    and "pos_offset pos = 0" "no_cut h ys (unat len)"
  obtains st' h' t' ds ys' d where "remove_after self pos len st h = Ok (st', h')" "list_ok h' st' self t' (xs @ ds @ ys')"
    "reads shown h' (xs @ ds @ ys')" "view elements h ys = d @ view elements h' ys'" "weight d = min (unat len) (vlen h ys)"
    "view elements h' (xs @ ds @ ys') = view elements h xs @ view elements h' ys'" "st_client st' = st_client st"
    "\<forall>c. state_of h' st' c = state_of h st c"
proof -
  note ok = list_okD [OF assms(1)]
  have base: "list_base h st self t (xs @ [] @ ys)" using ok(13) by simp
  have rd: "reads shown h ys" using assms(2) by simp
  have fuel: "length ys + 1 < h_next h + 2" using chain_length [OF ok(5,2)] by simp
  from remove_loop_ok [OF base _ rd assms(3,6) fuel] obtain remain' pos' st' h' t' ds ys' d where
    loop: "remove_loop (h_next h + 2) self len pos st h = Ok (remain', pos', st', h')"
    "shrinks elements weight shown self xs (h, st, t, [], ys) d (h', st', t', ds, ys')"
    "pos_index pos' = pos_index pos" "unat len = unat remain' + weight d" "weight d = min (unat len) (vlen h ys)"
    by (elim exE conjE meta_impE) (simp, rule that)
  have sh: "list_base h' st' self t' (xs @ ds @ ys')" "vlen h' ds = 0" "reads shown h' ys'" "view elements h ys = d @ view elements h' ys'"
    "yt_markers t' = yt_markers t" "st_client st' = st_client st" "\<forall>c. state_of h' st' c = state_of h st c"
    "view elements h' xs = view elements h xs" "vlen h' xs = vlen h xs" "reads shown h' xs"
    "\<And>m. marker_gone h xs [] ys 0 m \<Longrightarrow> marker_gone h' xs ds ys' (weight d) m"
    using loop(2) assms(2) by (auto simp: shrinks_def dest: spec [of _ 0])
  have removed: "unat (len - remain') = weight d" "remain' \<le> len" using loop(4) by (simp_all add: unat_minus_u64 word_le_nat_alt)
  have "weight (view elements h ys) = vlen h ys" "weight (view elements h' ys') = vlen h' ys'"
    using weight_view [of ys h st] weight_view [of ys' h' st'] ok(11) list_baseD(11) [OF sh(1)] rd sh(3) by simp_all
  then have total: "weight d + vlen h' ys' = vlen h ys" using sh(4) by (simp add: weight_append)
  have small: "vlen h xs + vlen h ys < 2 ^ 63" using ok(12) by simp
  have room: "vlen h' xs + unat (len - remain') + vlen h' ys' < 2 ^ 63" using small total removed(1) sh(9) by simp
  have idx: "unat (pos_index pos') = vlen h' xs" using loop(3) assms(4) sh(9) by simp
  have gone: "\<forall>ms. yt_markers t' = Some ms \<longrightarrow> (\<forall>m \<in> set ms. marker_gone h' xs ds ys' (unat (len - remain')) m)"
    using ok(9) sh(5,11) marker_gone_start removed(1) by (simp add: markers_ok_def)
  obtain t2 where mk: "change_markers self (pos_index pos') (- (len - remain')) h' = Ok (put_ty self t2 h')" "same_but_markers t' t2"
    "list_ok (put_ty self t2 h') st' self t2 (xs @ ds @ ys')"
    by (rule change_markers_remove [OF sh(1,2) idx room gone])
  have "len - remain' \<noteq> push_bit 63 1"
  proof
    assume "len - remain' = push_bit 63 1"
    then have "weight d = 2 ^ 63" using removed(1) by simp
    then show False using total small by simp
  qed
  then have run: "remove_after self pos len st h = Ok (st', put_ty self t2 h')"
    using assms(5) loop(1) mk(1) removed(2) by (simp add: remove_after_def normalize_def sub_u64_def neg_i64_def)
  have dead: "view elements h' ds = [] \<and> reads shown h' ds"
    using list_baseD(11) [OF sh(1)] sh(2) by (intro dead_cells [OF list_baseD(1) [OF sh(1)]]) simp_all
  show thesis
    by (rule that [OF run mk(3)]) (use sh(3,4,6,7,8,10) dead loop(5) in simp_all)
qed

lemma remove_at_view:
  assumes "list_ok h st self t cs" "reads shown h cs" "index < yt_len t" "0 < len"
    and "no_cut h cs (unat index)" "no_cut h cs (unat index + unat len)"
  obtains st' h' t' cs' p d q where "remove_at self index len st h = Ok (st', h')" "list_ok h' st' self t' cs'"
    "reads shown h' cs'" "view elements h cs = p @ d @ q" "weight p = unat index" "weight d = min (unat len) (vlen h cs - unat index)"
    "view elements h' cs' = p @ q" "st_client st' = st_client st" "\<forall>c. state_of h' st' c = state_of h st c"
proof -
  have le: "index \<le> yt_len t" using assms(3) by simp
  obtain pos t1 where f: "find_pos self index h = (Ok (Some pos, put_ty self t1 h) :: _ codec_result)" "same_but_markers t t1"
    "list_ok (put_ty self t1 h) st self t1 cs" "pos_at h cs (unat index) pos"
    using find_pos_ok [OF assms(1) le] by metis
  let ?h = "put_ty self t1 h"
  have at: "pos_at ?h cs (unat index) pos" "no_cut ?h cs (unat index)" "no_cut ?h cs (unat index + unat len)"
    using f(4) assms(5,6) by (simp_all add: no_cut_def)
  obtain pos1 st1 h1 xs ys where n: "normalize pos st ?h = Ok (pos1, st1, h1)" "list_ok h1 st1 self t1 (xs @ ys)"
    "recut ?h cs h1 (xs @ ys)" "live h1 (pos_left pos1) = last_or None xs" "live h1 (pos_right pos1) = first ys"
    "vlen h1 xs = unat index" "unat (pos_index pos1) = unat index" "pos_parent pos1 = pos_parent pos" "st_client st1 = st_client st"
    "\<forall>c. state_of h1 st1 c = state_of ?h st c" "bounded h1 (pos_left pos1)" "bounded h1 (pos_right pos1)" "unat index = 0 \<longrightarrow> xs = []"
    by (rule normalize_ok [OF f(3) at(1,2)])
  have v: "vlen h1 (xs @ ys) = vlen h cs" using recut_vlen [OF n(3)] by simp
  note rd = view_recut [OF n(3)]
  have reads1: "reads shown h1 (xs @ ys)" and view1: "view elements h1 (xs @ ys) = view elements h cs"
    using rd assms(2) by simp_all
  have nc: "no_cut h1 ys (unat len)" using no_cut_recut [OF n(3) at(3)] n(6) no_cut_suffix [of h1 xs ys "unat len"] by simp
  have off: "pos_offset pos1 = 0"
    using n(1) by (auto simp: normalize_def outcome_simps word_greater_zero_iff split: if_splits option.splits)
  have idx: "unat (pos_index pos1) = vlen h1 xs" using n(6,7) by simp
  obtain st2 h2 t2 ds ys' d where rm: "remove_after self pos1 len st1 h1 = Ok (st2, h2)" "list_ok h2 st2 self t2 (xs @ ds @ ys')"
    "reads shown h2 (xs @ ds @ ys')" "view elements h1 ys = d @ view elements h2 ys'" "weight d = min (unat len) (vlen h1 ys)"
    "view elements h2 (xs @ ds @ ys') = view elements h1 xs @ view elements h2 ys'" "st_client st2 = st_client st1"
    "\<forall>c. state_of h2 st2 c = state_of h1 st1 c"
    by (rule remove_after_ok [OF n(2) reads1 n(5) idx off nc])
  have "normalize pos1 st1 h1 = Ok (pos1, st1, h1)" using off by (simp add: normalize_def)
  then have "remove_after self pos len st ?h = remove_after self pos1 len st1 h1" using n(1) by (simp add: remove_after_def)
  then have run: "remove_at self index len st h = Ok (st2, h2)"
    using list_okD(3,4) [OF assms(1)] assms(3,4) f(1) rm(1)
    by (auto simp: remove_at_def content_len_def writable_def)
  have w: "weight (view elements h1 xs) = unat index"
    using weight_view [of xs h1 st1] list_okD(11) [OF n(2)] reads1 n(6) by simp
  show thesis
    by (rule that [of st2 h2 t2 _ "view elements h1 xs" d "view elements h2 ys'", OF run rm(2,3) _ w _ rm(6)]) (use view1 rm(4,5,7,8) n(6,9,10) v in simp_all)
qed

end

end
