(* ===== verification/Text_Type.thy ===== *)
theory Text_Type
  imports List_Remove
begin

text \<open>
  Lists as sequences of ids, and texts: \<open>libs/jwst-codec/src/doc/types/text.rs\<close>.  A string is its UTF-8
  bytes, and an index of a text counts UTF-16 units.
\<close>

section \<open>The elements of a list\<close>

text \<open>Every unit of length of a content has an id.\<close>

definition id_seq :: "id \<Rightarrow> content \<Rightarrow> id list" where
  "id_seq k c = map (\<lambda>j. new_id (id_client k) (id_clock k + of_nat j)) [0..<unat (clock_len c)]"

lemma id_seq_split:
  assumes "unat (n :: u64) = unat (d :: u64) + m"
  shows "map (\<lambda>j. new_id c (k + of_nat j)) [0..<unat n]
    = map (\<lambda>j. new_id c (k + of_nat j)) [0..<unat d] @ map (\<lambda>j. new_id c (k + d + of_nat j)) [0..<m]"
proof -
  have "[0..<unat n] = [0..<unat d] @ [unat d..<unat d + m]" unfolding assms by (rule upt_add_eq_append) simp
  moreover have "[unat d..<unat d + m] = map (\<lambda>j. j + unat d) [0..<m]" by (simp only: map_add_upt add.commute)
  moreover have "map (\<lambda>j. new_id c (k + of_nat j)) (map (\<lambda>j. j + unat d) [0..<m]) = map (\<lambda>j. new_id c (k + d + of_nat j)) [0..<m]"
    by (simp add: comp_def ac_simps)
  ultimately show ?thesis by simp
qed

interpretation ids: list_reading id_seq length "\<lambda>_. True"
proof unfold_locales
  fix c l r r' k and d :: u64
  assume "unat (clock_len l) = unat d" "unat (clock_len l) + unat (clock_len r) = unat (clock_len c)"
  then show "id_seq k c = id_seq k l @ id_seq (new_id (id_client k) (id_clock k + d)) r"
    using id_seq_split [of "clock_len c" d "unat (clock_len r)" "id_client k" "id_clock k"] by (simp add: id_seq_def new_id_def)
qed (simp_all add: id_seq_def)

lemma reads_all [simp]: "reads (\<lambda>_. True) h cs"
  by (simp add: reads_def readable_def split: option.split)

section \<open>Texts\<close>

definition text_len :: "ytype_ref \<Rightarrow> heap \<Rightarrow> ('e, u64) result" where
  "text_len self h = content_len self h"

definition text_is_empty :: "ytype_ref \<Rightarrow> heap \<Rightarrow> ('e, bool) result" where
  "text_is_empty self h = rbind (text_len self h) (\<lambda>n. Ok (n = 0))"

definition text_insert :: "ytype_ref \<Rightarrow> u64 \<Rightarrow> bytes \<Rightarrow> store \<Rightarrow> heap \<Rightarrow> (codec_error, store \<times> heap) result" where
  "text_insert self char_index str st h = insert_at self char_index (ContentString str) st h"

definition text_remove :: "ytype_ref \<Rightarrow> u64 \<Rightarrow> u64 \<Rightarrow> store \<Rightarrow> heap \<Rightarrow> (codec_error, store \<times> heap) result" where
  "text_remove self char_index len st h = remove_at self char_index len st h"

text \<open>\<open>Display\<close>: the strings of the items, one after the other.\<close>

fun write_items :: "heap \<Rightarrow> somr list \<Rightarrow> ('e, bytes) result" where
  "write_items h [] = Ok []"
| "write_items h (item # items) =
     rbind (unwrap (get_item h item)) (\<lambda>i.
     rbind (write_items h items) (\<lambda>rest.
     Ok ((case item_content i of ContentString str \<Rightarrow> str | _ \<Rightarrow> []) @ rest)))"

definition text_display :: "ytype_ref \<Rightarrow> heap \<Rightarrow> ('e, bytes) result" where
  "text_display self h = rbind (iter_item self h) (write_items h)"

section \<open>Iterating\<close>

text \<open>The iterator gives the items that are not deleted, in their order.\<close>

definition counts :: "heap \<Rightarrow> nat \<Rightarrow> bool" where
  "counts h a \<longleftrightarrow> (\<exists>i. h_items h a = Some i \<and> \<not> is_item_deleted i)"

lemma list_next_ok:
  "chain h t (xs @ ys) \<Longrightarrow> live h cur = first ys \<Longrightarrow> length ys < fuel \<Longrightarrow>
   (\<forall>a \<in> set ys. \<not> counts h a) \<and> (\<exists>cur'. list_next fuel h cur = (Ok (None, cur') :: _ codec_result))
   \<or> (\<exists>us a ws r cur'. ys = us @ a # ws \<and> (\<forall>b \<in> set us. \<not> counts h b) \<and> counts h a
       \<and> list_next fuel h cur = (Ok (Some r, cur') :: _ codec_result) \<and> live h r = Some a \<and> live h cur' = first ws)"
proof (induction ys arbitrary: xs cur fuel)
  case Nil
  then obtain f where "fuel = Suc f" by (cases fuel) auto
  then show ?case using Nil by (simp add: live_None)
next
  case (Cons a ys)
  obtain f where f: "fuel = Suc f" using Cons.prems(3) by (cases fuel) auto
  have live: "live h cur = Some a" using Cons.prems(2) by simp
  obtain i where i: "get_item h cur = Some i" "h_items h a = Some i" "live h (item_right i) = first ys"
    using chain_next [OF Cons.prems(1) live] by metis
  show ?case
  proof (cases "is_item_deleted i")
    case True
    have no: "\<not> counts h a" using i(2) True by (simp add: counts_def)
    have step: "list_next fuel h cur = list_next f h (somr_clone (item_right i))" using f i(1) True by simp
    have pre: "chain h t ((xs @ [a]) @ ys)" "live h (somr_clone (item_right i)) = first ys" "length ys < f"
      using Cons.prems i(3) f by simp_all
    from Cons.IH [OF pre] show ?thesis unfolding step
    proof (elim disjE exE conjE)
      fix us b ws r cur'
      assume r: "ys = us @ b # ws" "\<forall>b \<in> set us. \<not> counts h b" "counts h b"
        "list_next f h (somr_clone (item_right i)) = (Ok (Some r, cur') :: _ codec_result)" "live h r = Some b" "live h cur' = first ws"
      then show "(\<forall>x \<in> set (a # ys). \<not> counts h x) \<and> (\<exists>cur'. list_next f h (somr_clone (item_right i)) = (Ok (None, cur') :: _ codec_result))
          \<or> (\<exists>us x ws r cur'. a # ys = us @ x # ws \<and> (\<forall>b \<in> set us. \<not> counts h b) \<and> counts h x
            \<and> list_next f h (somr_clone (item_right i)) = (Ok (Some r, cur') :: _ codec_result) \<and> live h r = Some x \<and> live h cur' = first ws)"
        using no by (intro disjI2 exI [of _ "a # us"] exI [of _ b] exI [of _ ws] exI [of _ r] exI [of _ cur']) simp
    qed (use no in auto)
  next
    case False
    then have "counts h a" using i(2) by (simp add: counts_def)
    then show ?thesis using f i(1,3) False live
      by (intro disjI2 exI [of _ "[]"] exI [of _ a] exI [of _ ys] exI [of _ cur] exI [of _ "somr_clone (item_right i)"]) simp
  qed
qed

declare list_next.simps [simp del]

lemma list_items_ok:
  "chain h t (xs @ ys) \<Longrightarrow> live h cur = first ys \<Longrightarrow> length (xs @ ys) \<le> h_next h \<Longrightarrow> length ys < fuel \<Longrightarrow>
   \<exists>rs. list_items fuel h cur = (Ok rs :: _ codec_result) \<and> map (live h) rs = map Some (filter (counts h) ys)"
proof (induction fuel arbitrary: xs ys cur)
  case (Suc fuel)
  have n: "length ys < h_next h + 1" using Suc.prems(3) by simp
  from list_next_ok [OF Suc.prems(1,2) n] show ?case
  proof (elim disjE exE conjE)
    fix cur' assume "\<forall>a \<in> set ys. \<not> counts h a" "list_next (h_next h + 1) h cur = (Ok (None, cur') :: _ codec_result)"
    then show ?thesis by simp
  next
    fix us a ws r cur'
    assume p: "ys = us @ a # ws" "\<forall>b \<in> set us. \<not> counts h b" "counts h a"
      "list_next (h_next h + 1) h cur = (Ok (Some r, cur') :: _ codec_result)" "live h r = Some a" "live h cur' = first ws"
    have pre: "chain h t ((xs @ us @ [a]) @ ws)" "length ((xs @ us @ [a]) @ ws) \<le> h_next h" "length ws < fuel"
      using Suc.prems p(1) by simp_all
    obtain rs where "list_items fuel h cur' = (Ok rs :: _ codec_result)" "map (live h) rs = map Some (filter (counts h) ws)"
      using Suc.IH [OF pre(1) p(6) pre(2,3)] by blast
    then show ?thesis using p by simp
  qed
qed simp

lemma iter_item_ok:
  assumes "list_base h st self t cs"
  obtains rs where "iter_item self h = (Ok rs :: _ codec_result)" "map (live h) rs = map Some (filter (counts h) cs)"
proof -
  note ok = list_baseD [OF assms]
  have start: "live h (somr_clone (yt_start t)) = first cs" using ok(5) linked_first unfolding chain_def by fastforce
  have "chain h t ([] @ cs)" "length ([] @ cs) \<le> h_next h" "length cs < h_next h + 1"
    using ok(5) chain_length [OF ok(5,2)] by simp_all
  from list_items_ok [OF this(1) start this(2,3)] show thesis using that ok(4) by (auto simp: iter_item_def)
qed

section \<open>Units of UTF-16\<close>

text \<open>The units of a string, counted at the first byte of each character; on UTF-8 it is \<open>utf16_len\<close>.\<close>

definition byte_units :: "8 word \<Rightarrow> nat" where
  "byte_units b = (if utf8_cont b then 0 else if 0xF0 \<le> b then 2 else 1)"

definition utf16_units :: "bytes \<Rightarrow> nat" where
  "utf16_units s = sum_list (map byte_units s)"

lemma utf16_units_append: "utf16_units (l @ r) = utf16_units l + utf16_units r"
  by (simp add: utf16_units_def)

lemma utf8_char_units:
  assumes "utf8_char s = Some (c, w)"
  shows "utf16_units (take w s) = len_utf16 c"
proof (cases s)
  case b0: (Cons b0 r0)
  show ?thesis
  proof (cases "b0 < 0x80")
    case True
    have "unat b0 < 128" using True by (simp add: word_less_nat_alt)
    then show ?thesis using assms b0 True
      by (auto simp: utf8_char_def utf16_units_def byte_units_def utf8_cont_def len_utf16_def word_le_nat_alt)
  next
    case ge: False
    then obtain b1 r1 where b1: "r0 = b1 # r1" using assms b0 by (auto simp: utf8_char_def split: list.splits)
    have l1: "low6 b < 64" for b by (simp add: low6_def)
    show ?thesis
    proof (cases "0xC2 \<le> b0 \<and> b0 \<le> 0xDF")
      case True
      then show ?thesis using assms b0 b1 ge l1 [of b1]
        by (auto simp: utf8_char_def utf16_units_def byte_units_def utf8_cont_def len_utf16_def word_le_nat_alt split: if_splits)
    next
      case ge2: False
      then obtain b2 r2 where b2: "r1 = b2 # r2"
        using assms b0 b1 ge by (cases r1) (simp_all add: utf8_char_def del: de_Morgan_conj)
      show ?thesis
      proof (cases "0xE0 \<le> b0 \<and> b0 \<le> 0xEF")
        case True
        then show ?thesis using assms b0 b1 b2 ge ge2 l1 [of b1] l1 [of b2]
          by (auto simp: utf8_char_def utf16_units_def byte_units_def utf8_cont_def len_utf16_def word_le_nat_alt simp del: de_Morgan_conj split: if_splits)
      next
        case ge3: False
        then obtain b3 r3 where b3: "r2 = b3 # r3"
          using assms b0 b1 b2 ge ge2 by (cases r2) (simp_all add: utf8_char_def del: de_Morgan_conj)
        have c: "0xF0 \<le> b0 \<and> b0 \<le> 0xF4 \<and> utf8_cont b1 \<and> utf8_cont b2 \<and> utf8_cont b3 \<and> (b0 = 0xF0 \<longrightarrow> 0x90 \<le> b1)"
          "c = unat b0 mod 8 * 262144 + low6 b1 * 4096 + low6 b2 * 64 + low6 b3" "w = 4"
          using assms b0 b1 b2 b3 ge ge2 ge3 by (simp_all add: utf8_char_def del: de_Morgan_conj split: if_splits)
        have "0x10000 \<le> c"
        proof (cases "b0 = 0xF0")
          case True
          then have "144 \<le> unat b1" "unat b1 \<le> 191" using c(1) by (auto simp: utf8_cont_def word_le_nat_alt)
          then have "16 \<le> low6 b1" unfolding low6_def by presburger
          then show ?thesis using c(2) by simp
        next
          case False
          then have "unat b0 \<noteq> unat (0xF0 :: u8)" by (simp only: word_unat_eq_iff not_False_eq_True)
          then have "unat b0 \<noteq> 240" by simp
          moreover have "240 \<le> unat b0" "unat b0 \<le> 244" using c(1) by (simp_all add: word_le_nat_alt)
          ultimately have "0xF0 < unat b0" "unat b0 \<le> 0xF4" by simp_all
          then have "1 \<le> unat b0 mod 8" by presburger
          then show ?thesis using c(2) by simp
        qed
        then show ?thesis using b0 b1 b2 b3 c
          by (auto simp: utf16_units_def byte_units_def utf8_cont_def len_utf16_def word_le_nat_alt)
      qed
    qed
  qed
qed (use assms in \<open>simp add: utf8_char_def\<close>)

lemma utf16_units_valid: "utf8_chars s = Some cs \<Longrightarrow> utf16_units s = widths16 cs"
proof (induction cs arbitrary: s)
  case Nil
  then show ?case by (auto dest!: utf8_chars_Nil simp: utf16_units_def)
next
  case (Cons x cs)
  note u = utf8_chars_Cons [OF Cons.prems]
  have "utf16_units s = utf16_units (take (snd x) s) + utf16_units (drop (snd x) s)"
    by (simp flip: utf16_units_append)
  then show ?case using utf8_char_units [of s "fst x" "snd x"] u Cons.IH [OF u(3)] by simp
qed

lemma utf16_units_len:
  assumes "utf8_valid s"
  shows "utf16_units s = utf16_len s" "0 < utf16_len s \<longleftrightarrow> s \<noteq> []"
proof -
  obtain cs where cs: "utf8_chars s = Some cs" using assms by (auto simp: utf8_valid_def)
  then show "utf16_units s = utf16_len s" using utf16_units_valid [OF cs] by (simp add: utf16_len_widths str_chars_def)
  show "0 < utf16_len s \<longleftrightarrow> s \<noteq> []" using cs
    by (cases cs) (auto simp: utf16_len_widths str_chars_def len_utf16_def widths16_def dest: utf8_chars_Nil)
qed

fun text_of :: "id \<Rightarrow> content \<Rightarrow> bytes" where
  "text_of k (ContentString s) = s"
| "text_of k _ = []"

fun is_string :: "content \<Rightarrow> bool" where
  "is_string (ContentString s) = True"
| "is_string _ = False"

lemma is_stringE: "is_string c \<Longrightarrow> (\<And>s. c = ContentString s \<Longrightarrow> P) \<Longrightarrow> P"
  by (cases c) auto

interpretation texts: list_reading text_of utf16_units is_string
proof unfold_locales
  show "utf16_units (text_of k c) = unat (clock_len c)" if c: "is_string c" "content_ok c" for k c
  proof -
    obtain s where s: "c = ContentString s" using c(1) by (rule is_stringE)
    then have "utf16_units s = utf16_len s" using c(2) utf16_units_len(1) by simp
    then show ?thesis using s c(2) by (simp add: unat_of_nat)
  qed
  fix c d l r r' k
  assume c: "is_string c" "content_split c d = Ok (l, r)"
  then obtain s where "c = ContentString s" by (auto elim: is_stringE)
  then have lr: "is_string l \<and> is_string r" using c(2) by (auto simp: outcome_simps split: prod.splits if_splits)
  then show "is_string l \<and> is_string r" .
  assume m: "content_merge l r = (Ok (Some (c, r')) :: _ codec_result)"
  show "text_of k c = text_of k l @ text_of (new_id (id_client k) (id_clock k + d)) r"
    by (cases rule: content_mergeE [OF m]) (use lr in auto)
qed (simp add: utf16_units_append)

section \<open>Editing a text\<close>

lemma write_items_ok:
  "map (live h) rs = map Some (filter (counts h) cs) \<Longrightarrow> reads is_string h cs \<Longrightarrow> \<forall>a \<in> set cs. h_items h a \<noteq> None \<Longrightarrow>
   write_items h rs = (Ok (view text_of h cs) :: _ codec_result)"
proof (induction cs arbitrary: rs)
  case (Cons a cs)
  show ?case
  proof (cases "counts h a")
    case True
    then obtain i where i: "h_items h a = Some i" "\<not> is_item_deleted i" by (auto simp: counts_def)
    obtain s where s: "item_content i = ContentString s" using Cons.prems(2) i by (auto simp: readable_def elim: is_stringE)
    obtain r rest where r: "rs = r # rest" "live h r = Some a" "map (live h) rest = map Some (filter (counts h) cs)"
      using Cons.prems(1) True by (cases rs) auto
    have "get_item h r = Some i" using r(2) i(1) by (simp add: live_Some get_item_ptr)
    then show ?thesis using r i s Cons.IH [OF r(3)] Cons.prems by (simp add: shown_by_def)
  next
    case False
    then have "shown_by text_of (h_items h a) = []" by (auto simp: counts_def shown_by_def split: option.split)
    then show ?thesis using Cons False by simp
  qed
qed simp

lemma text_display_ok:
  assumes "list_base h st self t cs" "reads is_string h cs"
  shows "text_display self h = (Ok (view text_of h cs) :: _ codec_result)"
proof -
  obtain rs where rs: "iter_item self h = (Ok rs :: _ codec_result)" "map (live h) rs = map Some (filter (counts h) cs)"
    by (rule iter_item_ok [OF assms(1)])
  have "\<forall>a \<in> set cs. h_items h a \<noteq> None" using chain_live [OF list_baseD(5) [OF assms(1)]] by blast
  then show ?thesis using rs write_items_ok [OF rs(2) assms(2)] by (simp add: text_display_def)
qed

text \<open>A text: a list of strings that meets the invariant.\<close>

definition text_ok :: "heap \<Rightarrow> store \<Rightarrow> ytype_ref \<Rightarrow> ytype \<Rightarrow> nat list \<Rightarrow> bool" where
  "text_ok h st self t cs \<longleftrightarrow> list_ok h st self t cs \<and> reads is_string h cs"

lemma text_okD:
  assumes "text_ok h st self t cs"
  shows "list_ok h st self t cs" "reads is_string h cs" "list_base h st self t cs"
    "text_display self h = (Ok (view text_of h cs) :: _ codec_result)" "text_len self h = (Ok (yt_len t) :: _ codec_result)"
    "unat (yt_len t) = vlen h cs" "utf16_units (view text_of h cs) = vlen h cs"
proof -
  show ok: "list_ok h st self t cs" "reads is_string h cs" using assms by (simp_all add: text_ok_def)
  note l = list_okD [OF ok(1)]
  show "list_base h st self t cs" "unat (yt_len t) = vlen h cs" by (rule l)+
  show "text_display self h = (Ok (view text_of h cs) :: _ codec_result)" by (rule text_display_ok [OF l(13) ok(2)])
  show "text_len self h = (Ok (yt_len t) :: _ codec_result)" using l(4) by (simp add: text_len_def content_len_def)
  show "utf16_units (view text_of h cs) = vlen h cs" by (rule texts.weight_view [OF _ ok(2)]) (use l(11) in blast)
qed

text \<open>A string that can be put into a text.\<close>

definition text_fits :: "bytes \<Rightarrow> store \<Rightarrow> heap \<Rightarrow> nat list \<Rightarrow> bool" where
  "text_fits s st h cs \<longleftrightarrow> utf8_valid s \<and> s \<noteq> [] \<and> vlen h cs + utf16_len s < 2 ^ 63
     \<and> state_of h st (st_client st) + utf16_len s < 2 ^ 64"




section \<open>A concrete list\<close>

text \<open>Cell 0 is a list of one item of client 1, in cell 1.\<close>

definition single_ref :: ytype_ref where "single_ref = \<lparr>yr_store = True, yr_inner = SRef 0\<rparr>"

definition single_item :: "content \<Rightarrow> item" where
  "single_item c =
     \<lparr>item_id = new_id 1 0, origin_left_id = None, origin_right_id = None, item_left = SNone, item_right = SNone,
      item_parent = Some (ParentType single_ref), parent_sub = None, item_content = c, item_flags = item_countable\<rparr>"

definition single_type :: "ytype_kind \<Rightarrow> content \<Rightarrow> ytype" where
  "single_type kind c = (new_ytype kind None)\<lparr>yt_start := SRef 1, yt_len := clock_len c, yt_markers := Some []\<rparr>"

definition single_heap :: "ytype_kind \<Rightarrow> content \<Rightarrow> heap" where
  "single_heap kind c = \<lparr>h_items = [1 \<mapsto> single_item c], h_types = [0 \<mapsto> single_type kind c], h_next = 2\<rparr>"

definition single_store :: store where
  "single_store = (with_client 1)\<lparr>st_items := [(1, [Item (SOwned 1)])]\<rparr>"

lemma single_item_live: "\<not> is_item_deleted (single_item c)" "is_item_countable (single_item c)"
  by (simp_all add: single_item_def is_item_deleted_def is_item_countable_def flag_simps)

lemma single_cells: "h_items (single_heap kind c) 1 = Some (single_item c)" "get_item (single_heap kind c) (SOwned 1) = Some (single_item c)"
  "get_item (single_heap kind c) (SRef 1) = Some (single_item c)" "get_ty (single_heap kind c) single_ref = Some (single_type kind c)"
  by (simp_all add: single_heap_def heap_simps get_ty_def somr_lookup_def single_ref_def)

lemma single_node: "0 < clock_len c \<Longrightarrow> node_fits (single_heap kind c) 1 (Item (SOwned 1))"
  "clock_of (single_heap kind c) (Item (SOwned 1)) = 0" "end_of (single_heap kind c) (Item (SOwned 1)) = unat (clock_len c)"
  using item_node_facts [OF _ single_cells(1), of "SOwned 1" kind c] unsigned_less [of "clock_len c"]
  by (simp_all add: single_item_def new_id_def item_len_def)

lemma single_counts: "vlen (single_heap kind c) [1] = unat (clock_len c)" "state_of (single_heap kind c) single_store 1 = unat (clock_len c)"
  "st_client single_store = 1"
  using single_item_live(1) single_cells(1) single_node(3)
  by (simp_all add: item_vlen_def single_item_def item_len_def state_of_def single_store_def nodes_of_def with_client_def)

lemma single_list_ok:
  assumes "content_ok c" "0 < clock_len c" "unat (clock_len c) < 2 ^ 63" "plain c" "content_countable c"
  shows "list_ok (single_heap kind c) single_store single_ref (single_type kind c) [1]"
proof -
  let ?h = "single_heap kind c"
  have st: "store_ok ?h single_store"
    using single_node assms(2) by (simp add: store_ok_def hm_wf_def single_store_def)
  have "stored single_store 1 1" by (simp add: stored_def single_store_def nodes_of_def)
  then have li: "list_item ?h single_store 1" using single_cells(1) [of kind c] single_item_live(2) [of c] assms
    by (simp add: list_item_def single_item_def new_id_def bounded_def)
  have ch: "chain ?h (single_type kind c) [1]"
    using single_cells [of kind c] by (simp add: chain_def live_def rt_def lf_def single_type_def single_item_def heap_simps)
  show ?thesis using st li ch single_cells(4) single_counts(1) [of kind c] assms(3)
    by (simp add: list_ok_def list_base_def markers_ok_def fresh_def single_heap_def bounded_def parent_dead_def
      single_type_def new_ytype_def single_ref_def heap_simps)
qed

section \<open>A concrete text\<close>

definition hello :: bytes where "hello = [104, 101, 108, 108, 111]"
definition world :: bytes where "world = [32, 119, 111, 114, 108, 100]"

lemma hello_chars: "utf8_chars hello = Some [(104, 1), (101, 1), (108, 1), (108, 1), (111, 1)]"
  "utf8_chars world = Some [(32, 1), (119, 1), (111, 1), (114, 1), (108, 1), (100, 1)]"
  by (simp_all add: hello_def world_def utf8_chars.simps utf8_char_def)

lemma hello_units: "utf8_valid hello" "utf16_len hello = 5" "utf8_valid world" "utf16_len world = 6" "utf16_units world = 6"
  using utf16_units_len(1) [of world] hello_chars
  by (simp_all add: utf8_valid_def utf16_len_widths str_chars_def widths16_def len_utf16_def)

lemma hello_boundary:
  assumes "n \<le> 5"
  shows "utf16_boundary hello n"
proof -
  have "n = 0 \<or> n = 1 \<or> n = 2 \<or> n = 3 \<or> n = 4 \<or> n = 5" using assms by linarith
  then have "n \<le> length (str_chars hello) \<and> widths16 (take n (str_chars hello)) = n"
    unfolding str_chars_def hello_chars by (elim disjE) (simp_all add: widths16_def len_utf16_def)
  then show ?thesis unfolding utf16_boundary_def by blast
qed

abbreviation "hello_heap \<equiv> single_heap KText (ContentString hello)"
abbreviation "hello_type \<equiv> single_type KText (ContentString hello)"

lemma hello_text_ok: "text_ok hello_heap single_store single_ref hello_type [1]"
  using single_list_ok [of "ContentString hello" KText] hello_units single_cells(1) [of KText "ContentString hello"]
  by (simp add: text_ok_def plain_def readable_def single_item_def)

lemma hello_no_cut: "n \<le> 5 \<Longrightarrow> no_cut hello_heap [1] n"
  unfolding no_cut_def using hello_boundary single_cells(1) [of KText "ContentString hello"]
  by (auto simp: Cons_eq_append_conv single_item_def)



end
