(* ===== verification/Document.thy ===== *)
theory Document
  imports Store_Sync
begin

text \<open>
  Applying updates to a document: \<open>Doc\<close> of \<open>libs/jwst-codec/src/doc/document.rs\<close>.  The store a document
  shares with its types is passed along with the heap.
\<close>

section \<open>Documents\<close>

record doc_options =
  opt_guid :: bytes
  opt_client_id :: client
  opt_gc :: bool

text \<open>The default: the client and the guid are random outside tests, so they are given.\<close>

definition default_options :: "client \<Rightarrow> bytes \<Rightarrow> doc_options" where
  "default_options client_id guid = \<lparr>opt_guid = guid, opt_client_id = client_id, opt_gc = True\<rparr>"

definition with_client_id :: "client \<Rightarrow> doc_options \<Rightarrow> doc_options" where
  "with_client_id client_id opts = opts\<lparr>opt_client_id := client_id\<rparr>"

definition with_guid :: "bytes \<Rightarrow> doc_options \<Rightarrow> doc_options" where
  "with_guid guid opts = opts\<lparr>opt_guid := guid\<rparr>"

definition auto_gc :: "bool \<Rightarrow> doc_options \<Rightarrow> doc_options" where
  "auto_gc gc opts = opts\<lparr>opt_gc := gc\<rparr>"

record doc =
  doc_client_id :: client
  doc_opts :: doc_options

definition with_options :: "doc_options \<Rightarrow> doc \<times> store" where
  "with_options options =
     (\<lparr>doc_client_id = opt_client_id options, doc_opts = options\<rparr>, with_client (opt_client_id options))"

definition doc_eq :: "doc \<Rightarrow> doc \<Rightarrow> bool" where
  "doc_eq a b \<longleftrightarrow> doc_client_id a = doc_client_id b"

definition doc_guid :: "doc \<Rightarrow> bytes" where
  "doc_guid d = opt_guid (doc_opts d)"

section \<open>Applying an update\<close>

text \<open>The iterator and the store take turns: a node is repaired and integrated before the next is fetched.\<close>

definition repair_node :: "node \<Rightarrow> store \<Rightarrow> heap \<Rightarrow> (codec_error, store \<times> heap) result" where
  "repair_node n st h =
     (case n of
        Item r \<Rightarrow> rbind (debug_assert (somr_is_owned r)) (\<lambda>_. repair r st h)
      | _ \<Rightarrow> Ok (st, h))"

function integrate_nodes :: "iter \<Rightarrow> store \<Rightarrow> heap \<Rightarrow> (codec_error, update \<times> store \<times> heap) result" where
  "integrate_nodes it st h =
     rbind (iter_next h it) (\<lambda>r.
     case fst r of
       None \<Rightarrow> Ok (it_update (snd r), st, h)
     | Some (s, offset) \<Rightarrow>
         rbind (repair_node s st h) (\<lambda>(st, h).
         rbind (integrate s offset None st h) (\<lambda>(st, h).
         integrate_nodes (snd r) st h)))"
  by pat_completeness auto
termination
proof (relation "measure (\<lambda>(it, st, h). work it)")
  fix it and st :: store and h r y s and offset :: u64 and p q :: "store \<times> heap" and st1 h1 st2 h2
  assume "iter_next h it = Ok r" "fst r = Some y"
  then show "((snd r, st2, h2), (it, st, h)) \<in> measure (\<lambda>(it, st, h). work it)"
    using iter_next_work [of h it y "snd r"] by (cases r) auto
qed simp

declare integrate_nodes.simps [simp del]

function delete_ranges :: "state_vector \<Rightarrow> update \<Rightarrow> store \<Rightarrow> heap \<Rightarrow> (codec_error, update \<times> store \<times> heap) result" where
  "delete_ranges state u st h =
     (case u_delete_set u of
        [] \<Rightarrow> Ok (u, st, h)
      | (client, _) # _ \<Rightarrow>
          rbind (delete_turn state client u) (\<lambda>r.
          case fst r of
            None \<Rightarrow> delete_ranges state (snd r) st h
          | Some (c, rng) \<Rightarrow>
              rbind (delete_range c rng st h) (\<lambda>(st, h).
              delete_ranges state (snd r) st h)))"
  by pat_completeness auto
termination
  by (relation "measure (\<lambda>(state, u, st, h). delete_work (u_delete_set u))") (auto dest!: delete_turn_work)

declare delete_ranges.simps [simp del]

fun any_reached :: "heap \<Rightarrow> store \<Rightarrow> (client \<times> clock) list \<Rightarrow> bool codec_result" where
  "any_reached h st [] = Ok False"
| "any_reached h st ((client, clock) # missing) =
     rbind (get_state h st client) (\<lambda>s. if clock < s then Ok True else any_reached h st missing)"

text \<open>The nodes and the deletions of an update, as far as they can be applied.\<close>

definition apply_part :: "update \<Rightarrow> store \<Rightarrow> heap \<Rightarrow> (codec_error, update \<times> store \<times> heap) result" where
  "apply_part u st h =
     rbind (get_state_vector h st) (\<lambda>state.
     rbind (integrate_nodes (update_iter u state) st h) (\<lambda>(u, st, h).
     rbind (get_state_vector h st) (\<lambda>state.
     delete_ranges state u st h)))"

text \<open>What is left of the update joins the pending update of the store.\<close>

definition join_pending :: "update \<Rightarrow> update \<Rightarrow> heap \<Rightarrow> (codec_error, update) result" where
  "join_pending u pending h =
     (if is_pending_empty u then Ok pending
      else rbind (drain_pending_state u) (\<lambda>u. merge_into h u [pending]))"

definition save_pending :: "update \<Rightarrow> store \<Rightarrow> store" where
  "save_pending u st = (if update_is_empty u then st else st\<lparr>st_pending := Some u\<rparr>)"

fun apply_loop :: "nat \<Rightarrow> update \<Rightarrow> bool \<Rightarrow> store \<Rightarrow> heap \<Rightarrow> (codec_error, store \<times> heap) result" where
  "apply_loop 0 u retry st h = Panic"
| "apply_loop (Suc fuel) u retry st h =
     rbind (apply_part u st h) (\<lambda>(u, st, h).
     case st_pending st of
       Some pending \<Rightarrow>
         let st = st\<lparr>st_pending := None\<rparr>
         in rbind (any_reached h st (u_missing_state pending)) (\<lambda>reached.
            let retry = (retry \<or> reached)
            in rbind (get_state_vector h st) (\<lambda>state.
               rbind (delete_ranges state pending st h) (\<lambda>(pending, st, h).
               rbind (join_pending u pending h) (\<lambda>u.
               if \<not> retry then Ok (save_pending u st, h) else apply_loop fuel u retry st h))))
     | None \<Rightarrow>
         if is_pending_empty u then Ok (st, h)
         else rbind (drain_pending_state u) (\<lambda>u. Ok (save_pending u st, h)))"

text \<open>The store has no pending update in the second round, so it is the last one.\<close>

definition doc_apply_update :: "update \<Rightarrow> store \<Rightarrow> heap \<Rightarrow> (codec_error, store \<times> heap) result" where
  "doc_apply_update u st h = apply_loop 2 u False st h"

definition apply_update_from_binary_v1 ::
    "serde_env \<Rightarrow> bytes \<Rightarrow> store \<Rightarrow> heap \<Rightarrow> (codec_error, store \<times> heap) result" where
  "apply_update_from_binary_v1 env binary st h =
     rbind (decode_v1 env h binary) (\<lambda>(u, h). doc_apply_update u st h)"

definition try_from_binary_v1_with_options ::
    "serde_env \<Rightarrow> bytes \<Rightarrow> doc_options \<Rightarrow> heap \<Rightarrow> (codec_error, doc \<times> store \<times> heap) result" where
  "try_from_binary_v1_with_options env binary options h =
     (case with_options options of (d, st) \<Rightarrow>
        rbind (apply_update_from_binary_v1 env binary st h) (\<lambda>(st, h). Ok (d, st, h)))"

section \<open>Reading a document\<close>

definition doc_keys :: "store \<Rightarrow> bytes list" where
  "doc_keys st = map fst (st_types st)"

definition encode_state_as_update :: "state_vector \<Rightarrow> store \<Rightarrow> heap \<Rightarrow> (codec_error, update \<times> heap) result" where
  "encode_state_as_update sv st h = diff_state_vector sv True st h"

definition encode_update :: "store \<Rightarrow> heap \<Rightarrow> (codec_error, update \<times> heap) result" where
  "encode_update st h = encode_state_as_update [] st h"

definition encode_state_as_update_v1 ::
    "serde_env \<Rightarrow> state_vector \<Rightarrow> store \<Rightarrow> heap \<Rightarrow> (codec_error, bytes \<times> heap) result" where
  "encode_state_as_update_v1 env sv st h =
     rbind (encode_state_as_update sv st h) (\<lambda>(u, h).
     rbind (encode_v1 env h u) (\<lambda>bytes. Ok (bytes, h)))"

definition encode_update_v1 :: "serde_env \<Rightarrow> store \<Rightarrow> heap \<Rightarrow> (codec_error, bytes \<times> heap) result" where
  "encode_update_v1 env st h = encode_state_as_update_v1 env [] st h"

definition doc_gc :: "store \<Rightarrow> heap \<Rightarrow> (codec_error, store \<times> heap) result" where
  "doc_gc st h = optimize st h"


section \<open>The pending update\<close>

text \<open>Only \<open>doc_apply_update\<close> itself touches the pending update of the store.\<close>

definition ensures :: "('a \<Rightarrow> bool) \<Rightarrow> ('e, 'a) result \<Rightarrow> bool" where
  "ensures P m \<longleftrightarrow> (\<forall>x. m = Ok x \<longrightarrow> P x)"

lemma ensures_simps [simp]: "ensures P (Ok x) \<longleftrightarrow> P x" "ensures P (Err e)" "ensures P Panic"
  by (simp_all add: ensures_def)

lemma ensures_rbind [intro!]: "(\<And>x. m = Ok x \<Longrightarrow> ensures P (f x)) \<Longrightarrow> ensures P (rbind m f)"
  by (auto simp: ensures_def outcome_simps)

abbreviation keeps_pending :: "store \<Rightarrow> ('e, store \<times> 'b) result \<Rightarrow> bool" where
  "keeps_pending st \<equiv> ensures (\<lambda>(st', _). st_pending st' = st_pending st)"

lemma keeps_pendingD: "keeps_pending st m \<Longrightarrow> m = Ok (st', h') \<Longrightarrow> st_pending st' = st_pending st"
  by (simp add: ensures_def)

lemma split_pending:
  "split_at_and_get_left i st h = Ok (n, st', h') \<Longrightarrow> st_pending st' = st_pending st"
  "split_at_and_get_right i st h = Ok (n, st', h') \<Longrightarrow> st_pending st' = st_pending st"
  by (auto simp: split_at_and_get_left_def split_at_and_get_right_def outcome_simps Let_def set_items_def
      split: option.splits if_splits prod.splits)

lemma delete_pending: "store_delete_item r p st h = Ok (st', h') \<Longrightarrow> st_pending st' = st_pending st"
  "delete_node n p st h = Ok (st', h') \<Longrightarrow> st_pending st' = st_pending st"
  by (auto simp: store_delete_item_def delete_node_def outcome_simps split: option.splits)

lemma delete_range_pending: "delete_range c r st h = Ok (st', h') \<Longrightarrow> st_pending st' = st_pending st"
  by (auto simp: delete_range_def set_items_def outcome_simps split: option.splits)

lemma repair_pending:
  assumes "repair r st h = Ok (st', h')"
  shows "st_pending st' = st_pending st"
proof -
  have left: "keeps_pending st (repair_left r st h)" for st h
    unfolding repair_left_def by (auto dest!: split_pending split: option.split node.split)
  have right: "keeps_pending st (repair_right r st h)" for st h
    unfolding repair_right_def by (auto dest!: split_pending split: option.split node.split)
  have ty: "st_pending st' = st_pending st" if "get_or_create_type s st h = (ty, st', h')" for s st h ty st' h'
    using that by (auto simp: get_or_create_type_def Let_def split: option.splits prod.splits)
  have parent: "keeps_pending st (repair_parent r st h)" for st h
    unfolding repair_parent_def by (auto dest!: ty split: option.split node.split parent.split prod.split)
  have content: "keeps_pending st (repair_content r st h)" for st h
    unfolding repair_content_def by (auto split: content.split somr.split)
  show ?thesis using assms
    by (auto simp: repair_def outcome_simps dest!: keeps_pendingD [OF left] keeps_pendingD [OF right]
        keeps_pendingD [OF parent] keeps_pendingD [OF content])
qed

lemma integrate_pending:
  assumes "integrate n offset p st h = Ok (st', h')"
  shows "st_pending st' = st_pending st"
proof -
  have cut: "keeps_pending st (cut_item r k st h)" for r k st h
    unfolding cut_item_def by (auto dest: split_pending split: node.split)
  have right: "keeps_pending st (connect_right r pr x st h)" for r pr x st h
    unfolding connect_right_def by (auto simp: Let_def outcome_simps dest: delete_pending split: option.splits)
  have settle: "keeps_pending st (settle r pr st h)" for r pr st h
    unfolding settle_def by (auto simp: Let_def ensures_def [of _ "delete_node _ _ _ _"] dest: delete_pending split: option.split)
  have add: "st_pending st' = st_pending st" if "add_node h m st = Ok st'" for m st h st'
    using that by (auto simp: add_node_def outcome_simps split: option.splits if_splits)
  have insert: "keeps_pending st (insert_item r pr st h)" for r pr st h
    unfolding insert_item_def
    by (auto simp: ensures_def [of _ "settle _ _ _ _"] dest!: keeps_pendingD [OF right] keeps_pendingD [OF settle])
  have "keeps_pending st (integrate n offset p st h)"
    unfolding integrate_def
    by (auto simp: Let_def dest!: keeps_pendingD [OF cut] keeps_pendingD [OF insert] add split: node.split option.split parent.split)
  then show ?thesis using assms by (rule keeps_pendingD)
qed

lemma integrate_nodes_pending: "integrate_nodes it st h = Ok (u, st', h') \<Longrightarrow> st_pending st' = st_pending st"
proof (induction it st h rule: integrate_nodes.induct)
  case (1 it st h)
  obtain r where r: "iter_next h it = Ok r" using "1.prems" by (subst (asm) integrate_nodes.simps) (auto simp: outcome_simps)
  show ?case
  proof (cases "fst r")
    case None
    then show ?thesis using "1.prems" r by (subst (asm) integrate_nodes.simps) auto
  next
    case (Some y)
    obtain s offset where y: "y = (s, offset)" by (cases y)
    obtain st1 h1 st2 h2 where run: "repair_node s st h = Ok (st1, h1)" "integrate s offset None st1 h1 = Ok (st2, h2)"
      "integrate_nodes (snd r) st2 h2 = Ok (u, st', h')"
      using "1.prems" r Some y by (subst (asm) integrate_nodes.simps) (auto simp: outcome_simps)
    have "st_pending st1 = st_pending st"
      using run(1) by (auto simp: repair_node_def outcome_simps dest!: repair_pending split: node.splits)
    moreover have "st_pending st' = st_pending st2"
      using "1.IH" [OF r Some y [symmetric] run(1) refl run(2) refl run(3)] by simp
    ultimately show ?thesis using integrate_pending [OF run(2)] by simp
  qed
qed

lemma delete_ranges_pending: "delete_ranges state u st h = Ok (u', st', h') \<Longrightarrow> st_pending st' = st_pending st"
proof (induction state u st h rule: delete_ranges.induct)
  case (1 state u st h)
  show ?case
  proof (cases "u_delete_set u")
    case Nil
    then show ?thesis using "1.prems" by (subst (asm) delete_ranges.simps) simp
  next
    case (Cons e ds)
    obtain c r where e: "e = (c, r)" by (cases e)
    obtain t where t: "delete_turn state c u = Ok t"
      using "1.prems" Cons e by (subst (asm) delete_ranges.simps) (auto simp: outcome_simps)
    show ?thesis
    proof (cases "fst t")
      case None
      then show ?thesis using "1.IH"(1) [OF Cons e [symmetric] t None] "1.prems" Cons e t
        by (subst (asm) (2) delete_ranges.simps) simp
    next
      case (Some y)
      obtain c' rng where y: "y = (c', rng)" by (cases y)
      obtain st1 h1 where run: "delete_range c' rng st h = Ok (st1, h1)" "delete_ranges state (snd t) st1 h1 = Ok (u', st', h')"
        using "1.prems" Cons e t Some y by (subst (asm) delete_ranges.simps) (auto simp: outcome_simps)
      then show ?thesis using "1.IH"(2) [OF Cons e [symmetric] t Some y [symmetric] run(1) refl run(2)] delete_range_pending [OF run(1)] by simp
    qed
  qed
qed

lemma apply_part_pending: "apply_part u st h = Ok (u', st', h') \<Longrightarrow> st_pending st' = st_pending st"
  by (auto simp: apply_part_def outcome_simps dest!: integrate_nodes_pending delete_ranges_pending)

declare apply_loop.simps(2) [simp del]

text \<open>Once the store has no pending update, a round is the last one.\<close>

lemma last_round:
  assumes "st_pending st = None"
  shows "apply_loop (Suc n) u retry st h = apply_loop (Suc 0) u False st h"
proof (cases "apply_part u st h")
  case (Ok r)
  obtain u1 st1 h1 where r: "r = (u1, st1, h1)" by (cases r)
  have "st_pending st1 = None" using apply_part_pending [of u st h] assms Ok r by simp
  then show ?thesis using Ok r by (simp add: apply_loop.simps(2))
qed (simp_all add: apply_loop.simps(2))



text \<open>
  When both updates have something pending they are merged, but not their missing states: what the older one waits
  for is forgotten, and its nodes are not tried again when it comes.
\<close>

lemma join_forgets_missing_state:
  assumes "join_pending u p h = Ok w" "\<not> is_pending_empty u"
  shows "u_missing_state w = u_missing_state u"
proof -
  have collect: "u_missing_state (collect_updates a us) = u_missing_state a" for a us
    by (induction us arbitrary: a) simp_all
  show ?thesis using assms collect
    by (auto simp: join_pending_def merge_into_def drain_pending_state_def outcome_simps Let_def)
qed

section \<open>No deletion is lost\<close>

text \<open>Integrating the nodes leaves the deletions of the update alone.\<close>

definition deletes_of :: "update \<Rightarrow> delete_set \<times> delete_set" where
  "deletes_of u = (u_delete_set u, u_pending_delete_set u)"

lemma next_client_deletes: "next_client it = (r, it') \<Longrightarrow> deletes_of (it_update it') = deletes_of (it_update it)"
proof (induction it rule: next_client.induct)
  case (1 it)
  have turn: "deletes_of (it_update (next_turn c it)) = deletes_of (it_update it)" for c
    by (simp add: next_turn_def set_structs_def deletes_of_def split: prod.split)
  show ?case using 1 turn by (subst (asm) (3) next_client.simps) (auto split: option.splits list.splits)
qed

lemma next_candidate_deletes:
  assumes "next_candidate it = Ok (r, it')"
  shows "deletes_of (it_update it') = deletes_of (it_update it)"
proof -
  have "ensures (\<lambda>(r, it'). deletes_of (it_update it') = deletes_of (it_update it)) (next_candidate it)"
    unfolding next_candidate_def
    by (auto simp: set_structs_def dest!: next_client_deletes split: prod.split option.split list.split)
      (simp_all add: deletes_of_def)
  then show ?thesis using assms by (simp add: ensures_def)
qed

lemma rest_loop_deletes: "rest_loop h ns it = Ok it' \<Longrightarrow> deletes_of (it_update it') = deletes_of (it_update it)"
proof (induction ns arbitrary: it)
  case (Cons n ns)
  have "deletes_of (set_aside c n u) = deletes_of u" for c u by (simp add: set_aside_def deletes_of_def split: option.split)
  then show ?case using Cons by (auto simp: outcome_simps)
qed simp

lemma iter_turn_deletes:
  assumes "iter_turn h cur it = Ok (t, it')"
  shows "deletes_of (it_update it') = deletes_of (it_update it)"
proof -
  have cont: "deletes_of (it_update it') = deletes_of (it_update it)"
    if "continue_with r = Ok (t, it')" "\<And>it1. r = Ok it1 \<Longrightarrow> deletes_of (it_update it1) = deletes_of (it_update it)" for r t it'
    using that(1) by (rule continue_with_work) (use that(2) next_candidate_deletes in auto)
  have rest: "deletes_of (it_update it1) = deletes_of (it_update it)"
    if "add_stack_to_rest h (update_missing_state c k (push_stack n it)) = Ok it1" for c k n it1
    using rest_loop_deletes [OF that [unfolded add_stack_to_rest_def]]
    by (simp add: update_missing_state_def push_stack_def deletes_of_def)
  have pop: "deletes_of (it_update (push_stack n (set_structs m it))) = deletes_of (it_update it)" for n m
    by (simp add: push_stack_def set_structs_def deletes_of_def)
  show ?thesis
    using assms by (auto simp: iter_turn_def apply_turn_def outcome_simps pop split: if_splits option.splits list.splits intro: cont rest)
qed

lemma iter_loop_deletes: "iter_loop h cur it = Ok (r, it') \<Longrightarrow> deletes_of (it_update it') = deletes_of (it_update it)"
proof (induction h cur it rule: iter_loop.induct)
  case (2 h cur it)
  then obtain t it1 where t: "iter_turn h cur it = Ok (t, it1)" by (auto simp: outcome_simps)
  note same = iter_turn_deletes [OF t]
  show ?case
  proof (cases t)
    case (Continue c)
    have "deletes_of (it_update it') = deletes_of (it_update it1)" using "2.IH" [OF t, of c] "2.prems" t Continue by simp
    then show ?thesis using same by simp
  qed (use 2 t same in simp)
qed simp

lemma iter_next_deletes: "iter_next h it = Ok (r, it') \<Longrightarrow> deletes_of (it_update it') = deletes_of (it_update it)"
  by (auto simp: iter_next_def outcome_simps dest!: next_candidate_deletes iter_loop_deletes)

lemma integrate_nodes_deletes: "integrate_nodes it st h = Ok (u, st', h') \<Longrightarrow> deletes_of u = deletes_of (it_update it)"
proof (induction it st h rule: integrate_nodes.induct)
  case (1 it st h)
  obtain r where r: "iter_next h it = Ok r" using "1.prems" by (subst (asm) integrate_nodes.simps) (auto simp: outcome_simps)
  have same: "deletes_of (it_update (snd r)) = deletes_of (it_update it)" using iter_next_deletes [of h it "fst r" "snd r"] r by simp
  show ?case
  proof (cases "fst r")
    case None
    then show ?thesis using "1.prems" r same by (subst (asm) integrate_nodes.simps) auto
  next
    case (Some y)
    obtain s offset where y: "y = (s, offset)" by (cases y)
    obtain st1 h1 st2 h2 where run: "repair_node s st h = Ok (st1, h1)" "integrate s offset None st1 h1 = Ok (st2, h2)"
      "integrate_nodes (snd r) st2 h2 = Ok (u, st', h')"
      using "1.prems" r Some y by (subst (asm) integrate_nodes.simps) (auto simp: outcome_simps)
    show ?thesis using "1.IH" [OF r Some y [symmetric] run(1) refl run(2) refl run(3)] same by simp
  qed
qed

lemma delete_ranges_moves:
  "delete_ranges state u st h = Ok (u', st', h') \<Longrightarrow> delete_state_ok u \<Longrightarrow> (\<exists>ys. moves state u ys u') \<and> u_delete_set u' = []"
proof (induction state u st h rule: delete_ranges.induct)
  case (1 state u st h)
  show ?case
  proof (cases "u_delete_set u")
    case Nil
    have "moves state u [] u" using "1.prems"(2) by (auto simp: moves_def intro!: exI [of _ "{}"])
    then show ?thesis using "1.prems"(1) Nil by (subst (asm) delete_ranges.simps) auto
  next
    case (Cons e ds)
    obtain c r where e: "e = (c, r)" by (cases e)
    then have "map_of (u_delete_set u) c = Some r" using Cons by simp
    from delete_turn_moves [OF "1.prems"(2) this] obtain y u1 where
      t: "delete_turn state c u = Ok (y, u1)" "moves state u (turn_given y) u1" by blast
    have ok: "delete_state_ok u1" using t(2) by (simp add: moves_def)
    obtain st1 h1 where "delete_ranges state u1 st1 h1 = Ok (u', st', h')"
      "(\<exists>ys. moves state u1 ys u') \<and> u_delete_set u' = []"
    proof (cases y)
      case None
      have run: "delete_ranges state u1 st h = Ok (u', st', h')"
        using "1.prems"(1) Cons e t(1) None by (subst (asm) delete_ranges.simps) simp
      then show thesis using "1.IH"(1) [OF Cons e [symmetric] t(1)] None ok that by simp
    next
      case (Some x)
      obtain c' rng where x: "x = (c', rng)" by (cases x)
      obtain st1 h1 where run: "delete_range c' rng st h = Ok (st1, h1)" "delete_ranges state u1 st1 h1 = Ok (u', st', h')"
        using "1.prems"(1) Cons e t(1) Some x by (subst (asm) delete_ranges.simps) (auto simp: outcome_simps)
      then show thesis using "1.IH"(2) [OF Cons e [symmetric] t(1) _ x [symmetric] run(1) refl] Some ok that by simp
    qed
    then show ?thesis using moves_trans [OF t(2)] by blast
  qed
qed

text \<open>The deletions a store holds back.\<close>

definition held_back :: "store \<Rightarrow> client \<Rightarrow> clock set" where
  "held_back st c = (case st_pending st of None \<Rightarrow> {} | Some p \<Rightarrow> ds_clocks (u_delete_set p) c)"


section \<open>Deletions that wait\<close>

text \<open>An update with one range of deletions.\<close>

definition delete_only :: "client \<Rightarrow> clock \<Rightarrow> clock \<Rightarrow> update" where
  "delete_only c s e = default_update\<lparr>u_delete_set := [(c, Range (mk_range s e))]\<rparr>"

lemma delete_only_sel: "u_structs (delete_only c s e) = []" "u_delete_set (delete_only c s e) = [(c, Range (mk_range s e))]"
  "u_pending_structs (delete_only c s e) = []" "u_missing_state (delete_only c s e) = []" "u_pending_delete_set (delete_only c s e) = []"
  by (simp_all add: delete_only_def default_update_def)

lemma apply_part_no_nodes: "u_structs u = [] \<Longrightarrow> st_items st = [] \<Longrightarrow> apply_part u st h = delete_ranges [] u st h"
  by (simp add: apply_part_def get_state_vector_def integrate_nodes.simps iter_next_def next_candidate_def next_client.simps
      update_iter_def pop_last_def)

lemma delete_only_waits:
  assumes "s < e"
  shows "delete_ranges [] (delete_only c s e) st h
    = Ok ((delete_only c s e)\<lparr>u_delete_set := [], u_pending_delete_set := [(c, Range (mk_range s e))]\<rparr>, st, h)"
proof -
  have "unat s + unat (e - s) = unat e" using assms by (simp add: unat_sub word_le_nat_alt word_less_nat_alt)
  then have "add_u64 s (e - s) = (Ok e :: _ codec_result)" using unsigned_less [of e] by (simp add: add_u64_def)
  moreover have "sub_u64 e s = (Ok (e - s) :: _ codec_result)" using assms by (simp add: sub_u64_def)
  ultimately show ?thesis
    using assms
    by (simp add: delete_ranges.simps delete_turn_def pop_range_def add_pending_def add_def add_range_def delete_only_sel
        range_is_empty_def Let_def hm_remove_def sv_get_def)
qed

lemma delete_only_pending:
  assumes "s < e"
  shows "doc_apply_update (delete_only c s e) (with_client k) h = Ok ((with_client k)\<lparr>st_pending := Some (delete_only c s e)\<rparr>, h)"
    "doc_apply_update default_update ((with_client k)\<lparr>st_pending := Some (delete_only c s e)\<rparr>) h = Ok (with_client k, h)"
proof -
  have none: "delete_ranges [] u st h = Ok (u, st, h)" if "u_delete_set u = []" for u st h
    using that by (simp add: delete_ranges.simps)
  have new: "st_items (with_client k) = []" "st_pending (with_client k) = None" by (simp_all add: with_client_def)
  have drained: "(delete_only c s e)\<lparr>u_delete_set := [(c, Range (mk_range s e))], u_pending_delete_set := []\<rparr> = delete_only c s e"
    by (simp add: delete_only_def default_update_def)
  show "doc_apply_update (delete_only c s e) (with_client k) h = Ok ((with_client k)\<lparr>st_pending := Some (delete_only c s e)\<rparr>, h)"
    using delete_only_waits [OF assms] drained
    by (simp add: doc_apply_update_def numeral_2_eq_2 apply_loop.simps(2) apply_part_no_nodes delete_only_sel new
        is_pending_empty_def drain_pending_state_def save_pending_def update_is_empty_def debug_assert_def)
  have empty: "u_structs default_update = []" "u_delete_set default_update = []" "is_pending_empty default_update"
    by (simp_all add: default_update_def is_pending_empty_def)
  have "st\<lparr>st_pending := Some p, st_pending := None\<rparr> = st" if "st_pending st = None" for st p using that by simp
  from this [OF new(2)] show "doc_apply_update default_update ((with_client k)\<lparr>st_pending := Some (delete_only c s e)\<rparr>) h = Ok (with_client k, h)"
    using delete_only_waits [OF assms]
    by (simp add: doc_apply_update_def numeral_2_eq_2 apply_loop.simps(2) apply_part_no_nodes none empty new get_state_vector_def
        delete_only_sel join_pending_def save_pending_def update_is_empty_def)
qed




end
