(* ===== verification/Value_Type.thy ===== *)
theory Value_Type
  imports Document
begin

text \<open>
  Values, the types by name and their conversions: \<open>libs/jwst-codec/src/doc/types/value.rs\<close>, the options of a
  document and \<open>YTypeBuilder\<close> with \<open>impl_type\<close> of \<open>libs/jwst-codec/src/doc/types/mod.rs\<close>.
\<close>

section \<open>The options of a document as a value\<close>

definition gc_key :: bytes where "gc_key = str_bytes ''gc''"
definition guid_key :: bytes where "guid_key = str_bytes ''guid''"

definition any_from_options :: "doc_options \<Rightarrow> any" where
  "any_from_options value =
     any_from_entries [(gc_key, any_from_bool (opt_gc value)), (guid_key, AnyString (opt_guid value))]"

fun options_loop :: "(bytes \<times> any) list \<Rightarrow> doc_options \<Rightarrow> doc_options codec_result" where
  "options_loop [] options = Ok options"
| "options_loop ((key, value) # entries) options =
     (if key = gc_key then rbind (any_try_bool value) (\<lambda>gc. options_loop entries (options\<lparr>opt_gc := gc\<rparr>))
      else if key = guid_key then rbind (any_try_string value) (\<lambda>guid. options_loop entries (options\<lparr>opt_guid := guid\<rparr>))
      else options_loop entries options)"

definition options_try_from :: "doc_options \<Rightarrow> any \<Rightarrow> doc_options codec_result" where
  "options_try_from dflt value =
     (case value of AnyObject entries \<Rightarrow> options_loop entries dflt | _ \<Rightarrow> Err (UnexpectedType ''Object''))"

lemma doc_keys_differ: "gc_key \<noteq> guid_key"
  by (simp add: gc_key_def guid_key_def str_bytes_def)

lemma options_roundtrip:
  "options_try_from dflt (any_from_options opts) = Ok (opts\<lparr>opt_client_id := opt_client_id dflt\<rparr>)"
  using doc_keys_differ
  by (cases opts) (simp add: options_try_from_def any_from_options_def any_from_entries_def hm_collect_def any_from_bool_def)

section \<open>Values\<close>

datatype doc_value =
    ValueAny any
  | ValueDoc doc
  | ValueArray ytype_ref
  | ValueMap ytype_ref
  | ValueText ytype_ref
  | ValueXMLElement ytype_ref
  | ValueXMLFragment ytype_ref
  | ValueXMLHook ytype_ref
  | ValueXMLText ytype_ref

fun to_any :: "doc_value \<Rightarrow> any option" where
  "to_any (ValueAny any) = Some any"
| "to_any _ = None"

fun to_array :: "doc_value \<Rightarrow> ytype_ref option" where
  "to_array (ValueArray array) = Some (clone_ytype_ref array)"
| "to_array _ = None"

fun to_map :: "doc_value \<Rightarrow> ytype_ref option" where
  "to_map (ValueMap ty) = Some (clone_ytype_ref ty)"
| "to_map _ = None"

fun to_text :: "doc_value \<Rightarrow> ytype_ref option" where
  "to_text (ValueText str) = Some (clone_ytype_ref str)"
| "to_text _ = None"

definition value_from_vec :: "('a \<Rightarrow> any) \<Rightarrow> 'a list \<Rightarrow> doc_value" where
  "value_from_vec into el = ValueAny (AnyArray (map into el))"

text \<open>The wrapper a type is given by its kind.\<close>

fun value_of_type :: "ytype_kind \<Rightarrow> ytype_ref \<Rightarrow> doc_value" where
  "value_of_type KArray ty = ValueArray (clone_ytype_ref ty)"
| "value_of_type KMap ty = ValueMap (clone_ytype_ref ty)"
| "value_of_type KText ty = ValueText (clone_ytype_ref ty)"
| "value_of_type KXMLElement ty = ValueXMLElement (clone_ytype_ref ty)"
| "value_of_type KXMLFragment ty = ValueXMLFragment (clone_ytype_ref ty)"
| "value_of_type KXMLHook ty = ValueXMLHook (clone_ytype_ref ty)"
| "value_of_type KXMLText ty = ValueXMLText (clone_ytype_ref ty)"
| "value_of_type KUnknown ty = ValueAny AnyUndefined"

text \<open>\<open>dflt\<close> holds the random client and guid of \<open>DocOptions::default\<close>.\<close>

fun value_from_content :: "doc_options \<Rightarrow> heap \<Rightarrow> content \<Rightarrow> ('e, doc_value) result" where
  "value_from_content dflt h (ContentAny any) =
     Ok (ValueAny (case any of [x] \<Rightarrow> x | _ \<Rightarrow> AnyArray any))"
| "value_from_content dflt h (ContentString s) = Ok (ValueAny (AnyString s))"
| "value_from_content dflt h (ContentJson json) =
     Ok (ValueAny (AnyArray (map (\<lambda>item. case item of Some s \<Rightarrow> AnyString s | None \<Rightarrow> AnyUndefined) json)))"
| "value_from_content dflt h (ContentBinary buf) = Ok (ValueAny (AnyBinary buf))"
| "value_from_content dflt h (ContentEmbed v) = Ok (ValueAny v)"
| "value_from_content dflt h (ContentType ty) =
     rbind (unwrap (get_ty h ty)) (\<lambda>t. Ok (value_of_type (yt_kind t) ty))"
| "value_from_content dflt h (ContentDoc guid opts) =
     (case options_try_from dflt opts of
        Ok options \<Rightarrow> Ok (ValueDoc (fst (with_options options)))
      | _ \<Rightarrow> Panic)"
| "value_from_content dflt h (ContentFormat key value) = Panic"
| "value_from_content dflt h (ContentDeleted len) = Ok (ValueAny AnyUndefined)"

fun content_from_value :: "doc_value \<Rightarrow> content" where
  "content_from_value (ValueAny any) = content_from_any any"
| "content_from_value (ValueDoc doc) = ContentDoc (doc_guid doc) (any_from_options (doc_opts doc))"
| "content_from_value (ValueArray v) = ContentType v"
| "content_from_value (ValueMap v) = ContentType v"
| "content_from_value (ValueText v) = ContentType v"
| "content_from_value (ValueXMLElement v) = ContentType v"
| "content_from_value (ValueXMLFragment v) = ContentType v"
| "content_from_value (ValueXMLHook v) = ContentType v"
| "content_from_value (ValueXMLText v) = ContentType v"

section \<open>Types by name\<close>

text \<open>\<open>TryFrom<YTypeRef>\<close> of \<open>impl_type!\<close>; \<open>write\<close> needs the store and the type.\<close>

definition cast_type :: "ytype_kind \<Rightarrow> ytype_ref \<Rightarrow> heap \<Rightarrow> (codec_error, ytype_ref \<times> heap) result" where
  "cast_type kind value h =
     (case (if yr_store value then get_ty h value else None) of
        Some inner \<Rightarrow>
          if yt_kind inner = kind then Ok (clone_ytype_ref value, h)
          else if yt_kind inner = KUnknown then
            rbind (set_kind kind inner) (\<lambda>inner. Ok (clone_ytype_ref value, put_ty value inner h))
          else Err (TypeCastError (kind_name kind))
      | None \<Rightarrow> Err (TypeCastError (kind_name kind)))"

record type_builder =
  tb_name :: "bytes option"
  tb_root_name :: "bytes option"
  tb_kind :: ytype_kind

definition new_builder :: type_builder where
  "new_builder = \<lparr>tb_name = None, tb_root_name = None, tb_kind = KUnknown\<rparr>"

definition with_kind :: "ytype_kind \<Rightarrow> type_builder \<Rightarrow> type_builder" where
  "with_kind kind b = b\<lparr>tb_kind := kind\<rparr>"

definition set_name :: "bytes \<Rightarrow> type_builder \<Rightarrow> type_builder" where
  "set_name name b = b\<lparr>tb_root_name := Some name\<rparr>"

definition set_tag_name :: "bytes \<Rightarrow> type_builder \<Rightarrow> type_builder" where
  "set_tag_name tag_name b = b\<lparr>tb_name := Some tag_name\<rparr>"

definition new_markers :: "ytype_kind \<Rightarrow> search_marker list option" where
  "new_markers kind = (if kind = KMap then None else Some [])"

text \<open>The cell a builder makes.\<close>

definition built_type :: "type_builder \<Rightarrow> ytype" where
  "built_type b = (new_ytype (tb_kind b) (tb_name b))\<lparr>yt_root_name := tb_root_name b, yt_markers := new_markers (tb_kind b)\<rparr>"

definition build_exists :: "ytype_kind \<Rightarrow> type_builder \<Rightarrow> store \<Rightarrow> heap \<Rightarrow> (codec_error, ytype_ref \<times> heap) result" where
  "build_exists target b st h =
     (case tb_root_name b of
        Some root_name \<Rightarrow>
          (case map_of (st_types st) root_name of
             Some ty \<Rightarrow> cast_type target (clone_ytype_ref ty) h
           | None \<Rightarrow> Err (RootStructNotFound root_name))
      | None \<Rightarrow> Err (TypeCastError ''root_name is not set''))"

text \<open>A named type goes into the types of the store, a type without a name into its dangling types.\<close>

definition build :: "ytype_kind \<Rightarrow> type_builder \<Rightarrow> store \<Rightarrow> heap \<Rightarrow> (codec_error, ytype_ref \<times> store \<times> heap) result" where
  "build target b st h =
     (let (ty, st, h) =
        (case tb_root_name b of
           Some root_name \<Rightarrow>
             (case map_of (st_types st) root_name of
                Some ty \<Rightarrow> (clone_ytype_ref ty, st, h)
              | None \<Rightarrow>
                  (case new_type_cell (built_type b) h of (inner, h) \<Rightarrow>
                     let ty = \<lparr>yr_store = True, yr_inner = inner\<rparr>
                     in (clone_ytype_ref ty, st\<lparr>st_types := hm_insert root_name ty (st_types st)\<rparr>, h)))
         | None \<Rightarrow>
             (case new_type_cell (built_type b) h of (inner, h) \<Rightarrow>
                let ty = \<lparr>yr_store = True, yr_inner = inner\<rparr>
                in (clone_ytype_ref ty, st\<lparr>st_dangling_types := hm_insert (h_next h - 1) ty (st_dangling_types st)\<rparr>, h)))
      in rbind (cast_type target ty h) (\<lambda>(ty, h). Ok (ty, st, h)))"

definition get_or_create :: "ytype_kind \<Rightarrow> bytes \<Rightarrow> store \<Rightarrow> heap \<Rightarrow> (codec_error, ytype_ref \<times> store \<times> heap) result" where
  "get_or_create kind name st h = build kind (set_name name (with_kind kind new_builder)) st h"

definition create_type :: "ytype_kind \<Rightarrow> store \<Rightarrow> heap \<Rightarrow> (codec_error, ytype_ref \<times> store \<times> heap) result" where
  "create_type kind st h = build kind (with_kind kind new_builder) st h"

definition get_or_create_text where "get_or_create_text = get_or_create KText"
definition create_text where "create_text = create_type KText"
definition get_or_create_array where "get_or_create_array = get_or_create KArray"
definition create_array where "create_array = create_type KArray"
definition get_or_create_map where "get_or_create_map = get_or_create KMap"
definition create_map where "create_map = create_type KMap"

definition get_map :: "bytes \<Rightarrow> store \<Rightarrow> heap \<Rightarrow> (codec_error, ytype_ref \<times> heap) result" where
  "get_map str st h = build_exists KMap (set_name str (with_kind KMap new_builder)) st h"

section \<open>Properties\<close>

text \<open>
  What reading a stored value gives.  A plain value comes back as it was, except that an array with one
  element comes back as the element; a subdocument comes back with its guid and options but with the client
  of the reader; a type comes back as the wrapper of its kind.
\<close>

lemma value_content_roundtrip:
  "value_from_content dflt h (content_from_value (ValueAny a)) = Ok (ValueAny (case a of AnyArray [x] \<Rightarrow> x | _ \<Rightarrow> a))
   \<and> value_from_content dflt h (content_from_value (ValueDoc d))
       = Ok (ValueDoc \<lparr>doc_client_id = opt_client_id dflt, doc_opts = (doc_opts d)\<lparr>opt_client_id := opt_client_id dflt\<rparr>\<rparr>)
   \<and> (\<forall>t. get_ty h v = Some t \<longrightarrow>
        value_from_content dflt h (content_from_value (value_of_type (yt_kind t) v))
          = Ok (if yt_kind t = KUnknown then ValueAny AnyUndefined else value_of_type (yt_kind t) v))"
proof (intro conjI allI impI)
  show "value_from_content dflt h (content_from_value (ValueAny a)) = Ok (ValueAny (case a of AnyArray [x] \<Rightarrow> x | _ \<Rightarrow> a))"
    by (cases a) (simp_all add: content_from_any_def split: list.split)
  show "value_from_content dflt h (content_from_value (ValueDoc d))
      = Ok (ValueDoc \<lparr>doc_client_id = opt_client_id dflt, doc_opts = (doc_opts d)\<lparr>opt_client_id := opt_client_id dflt\<rparr>\<rparr>)"
    by (simp add: options_roundtrip with_options_def)
  fix t assume t: "get_ty h v = Some t"
  then have "get_ty h (clone_ytype_ref v) = Some t" "clone_ytype_ref (clone_ytype_ref v) = clone_ytype_ref v"
    by (cases "yr_inner v"; simp add: clone_ytype_ref_def get_ty_def somr_lookup_def)+
  then show "value_from_content dflt h (content_from_value (value_of_type (yt_kind t) v))
      = Ok (if yt_kind t = KUnknown then ValueAny AnyUndefined else value_of_type (yt_kind t) v)"
    by (cases "yt_kind t") (simp_all add: content_from_any_def)
qed

lemma value_content_roundtrip_witness:
  "value_from_content (default_options 1 []) empty_heap (content_from_value (ValueAny (AnyArray [AnyTrue]))) = Ok (ValueAny AnyTrue)"
  using value_content_roundtrip [of "default_options 1 []" empty_heap "AnyArray [AnyTrue]", THEN conjunct1] by (simp only: any.case list.case)

lemma clone_type_ref: "get_ty h (clone_ytype_ref ty) = get_ty h ty" "yr_store (clone_ytype_ref ty) = yr_store ty"
  "clone_ytype_ref (clone_ytype_ref ty) = clone_ytype_ref ty" "put_ty (clone_ytype_ref ty) t h = put_ty ty t h"
  by (cases "yr_inner ty"; simp add: clone_ytype_ref_def get_ty_def somr_lookup_def put_ty_def)+

text \<open>A cast that succeeds leaves the type with its kind; the cast again does nothing, to another kind it fails.\<close>

lemma cast_again:
  assumes "cast_type kind ty h = Ok (ty', h')" "kind \<noteq> KUnknown"
  shows "ty' = clone_ytype_ref ty" "cast_type kind ty h' = Ok (clone_ytype_ref ty, h')"
    "kind' \<noteq> kind \<Longrightarrow> cast_type kind' ty h' = Err (TypeCastError (kind_name kind'))"
proof -
  obtain t where t: "yr_store ty" "get_ty h ty = Some t" using assms(1) by (auto simp: cast_type_def split: if_splits option.splits)
  have "ty' = clone_ytype_ref ty \<and> (\<exists>t'. get_ty h' ty = Some t' \<and> yt_kind t' = kind)"
  proof (cases "yt_kind t = kind")
    case True
    then show ?thesis using assms t by (auto simp: cast_type_def)
  next
    case False
    then have "yt_kind t = KUnknown" "ty' = clone_ytype_ref ty" "h' = put_ty ty (t\<lparr>yt_kind := kind\<rparr>) h"
      using assms t by (auto simp: cast_type_def set_kind_def outcome_simps split: if_splits)
    then show ?thesis using t(2) by (auto simp: get_ty_def put_ty_def somr_lookup_def split: option.splits)
  qed
  then show "ty' = clone_ytype_ref ty" "cast_type kind ty h' = Ok (clone_ytype_ref ty, h')"
    "kind' \<noteq> kind \<Longrightarrow> cast_type kind' ty h' = Err (TypeCastError (kind_name kind'))"
    using t(1) assms(2) by (auto simp: cast_type_def)
qed

text \<open>
  C32: A name stands for one type.  Once get_or_create has given the type of a name, asking again for the same
  kind gives the same pointer and changes neither the store nor the heap, asking for another kind is an error,
  get_map finds it exactly when it is a map, and the other names keep their types.
\<close>

theorem named_type_unique:
  assumes "get_or_create kind name st h = Ok (ty, st', h')" "kind \<noteq> KUnknown"
  shows "get_or_create kind name st' h' = Ok (ty, st', h')
    \<and> (\<forall>kind'. kind' \<noteq> kind \<longrightarrow> get_or_create kind' name st' h' = Err (TypeCastError (kind_name kind')))
    \<and> get_map name st' h' = (if kind = KMap then Ok (ty, h') else Err (TypeCastError ''Map''))
    \<and> (\<forall>other. other \<noteq> name \<longrightarrow> map_of (st_types st') other = map_of (st_types st) other)"
proof -
  have b: "tb_root_name (set_name name (with_kind k new_builder)) = Some name" for k by (simp add: set_name_def)
  obtain r h1 where r: "map_of (st_types st') name = Some r" "cast_type kind (clone_ytype_ref r) h1 = Ok (ty, h')"
    "\<forall>other. other \<noteq> name \<longrightarrow> map_of (st_types st') other = map_of (st_types st) other"
  proof (cases "map_of (st_types st) name")
    case None
    then show ?thesis using assms(1) that
      by (auto simp: get_or_create_def build_def b Let_def outcome_simps split: prod.splits)
  next
    case (Some r)
    then show ?thesis using assms(1) that by (auto simp: get_or_create_def build_def b outcome_simps)
  qed
  note again = cast_again [OF r(2) assms(2)]
  have "get_or_create k name st' h' = rbind (cast_type k (clone_ytype_ref r) h') (\<lambda>(ty, h). Ok (ty, st', h))" for k
    by (simp add: get_or_create_def build_def b r(1))
  moreover have "get_map name st' h' = cast_type KMap (clone_ytype_ref r) h'"
    by (simp add: get_map_def build_exists_def b r(1))
  ultimately show ?thesis using again r(3) by (auto simp: clone_type_ref)
qed

lemma named_type_unique_witness:
  "\<exists>ty st h. get_or_create KText [116] (with_client 1) empty_heap = Ok (ty, st, h) \<and> get_or_create KText [116] st h = Ok (ty, st, h)
     \<and> get_or_create KArray [116] st h = Err (TypeCastError ''Array'')"
proof -
  obtain ty st h where r: "get_or_create KText [116] (with_client 1) empty_heap = Ok (ty, st, h)"
    by (simp add: get_or_create_def build_def set_name_def with_kind_def new_builder_def built_type_def new_type_cell_def new_ytype_def
        with_client_def empty_heap_def cast_type_def get_ty_def somr_lookup_def clone_ytype_ref_def)
  from named_type_unique [OF r] show ?thesis using r by fastforce
qed

end
