(* ===== verification/Array_Type.thy ===== *)
theory Array_Type
  imports Text_Type Value_Type
begin

text \<open>
  Arrays: \<open>libs/jwst-codec/src/doc/types/array.rs\<close>.
\<close>

section \<open>Operations\<close>

definition array_len :: "ytype_ref \<Rightarrow> heap \<Rightarrow> ('e, u64) result" where
  "array_len self h = content_len self h"

definition array_is_empty :: "ytype_ref \<Rightarrow> heap \<Rightarrow> ('e, bool) result" where
  "array_is_empty self h = rbind (array_len self h) (\<lambda>n. Ok (n = 0))"

text \<open>\<open>any.get(offset)\<close> gives nothing when the offset is out of range.\<close>

definition array_get :: "doc_options \<Rightarrow> ytype_ref \<Rightarrow> u64 \<Rightarrow> heap \<Rightarrow> ('e, doc_value option \<times> heap) result" where
  "array_get dflt self index h =
     rbind (get_item_at self index h) (\<lambda>(r, h).
     case r of
       None \<Rightarrow> Ok (None, h)
     | Some (item, offset) \<Rightarrow>
         (case get_item h item of
            Some i \<Rightarrow>
              (case item_content i of
                 ContentAny any \<Rightarrow> Ok (if unat offset < length any then Some (ValueAny (any ! unat offset)) else None, h)
               | c \<Rightarrow> rbind (value_from_content dflt h c) (\<lambda>v. Ok (Some v, h)))
          | None \<Rightarrow> Ok (None, h)))"

text \<open>The iterator: the cursor of the list iterator, and the elements of an item that are still to come.\<close>

record array_iter =
  ai_inner :: somr
  ai_current_any :: "(any list \<times> nat) option"

definition new_array_iter :: "ytype_ref \<Rightarrow> heap \<Rightarrow> ('e, array_iter) result" where
  "new_array_iter self h =
     rbind (unwrap (get_ty h self)) (\<lambda>inner. Ok \<lparr>ai_inner = somr_clone (yt_start inner), ai_current_any = None\<rparr>)"

fun array_search :: "nat \<Rightarrow> doc_options \<Rightarrow> heap \<Rightarrow> somr \<Rightarrow> ('e, doc_value option \<times> array_iter) result" where
  "array_search 0 dflt h cur = Panic"
| "array_search (Suc fuel) dflt h cur =
     rbind (list_next (h_next h + 1) h cur) (\<lambda>(r, cur).
     case r of
       None \<Rightarrow> Ok (None, \<lparr>ai_inner = cur, ai_current_any = None\<rparr>)
     | Some item \<Rightarrow>
         (case get_item h item of
            Some i \<Rightarrow>
              if is_item_countable i then
                (case item_content i of
                   ContentAny (x # y # any) \<Rightarrow> Ok (Some (ValueAny x), \<lparr>ai_inner = cur, ai_current_any = Some (x # y # any, 1)\<rparr>)
                 | c \<Rightarrow> rbind (value_from_content dflt h c) (\<lambda>v. Ok (Some v, \<lparr>ai_inner = cur, ai_current_any = None\<rparr>)))
              else array_search fuel dflt h cur
          | None \<Rightarrow> array_search fuel dflt h cur))"

definition array_next :: "doc_options \<Rightarrow> heap \<Rightarrow> array_iter \<Rightarrow> ('e, doc_value option \<times> array_iter) result" where
  "array_next dflt h it =
     (case ai_current_any it of
        Some (any_vec, idx) \<Rightarrow>
          if idx < length any_vec then
            Ok (Some (ValueAny (any_vec ! idx)),
                it\<lparr>ai_current_any := if length any_vec \<le> idx + 1 then None else Some (any_vec, idx + 1)\<rparr>)
          else Panic
      | None \<Rightarrow> array_search (h_next h + 1) dflt h (ai_inner it))"

text \<open>The first \<open>n\<close> values it gives.\<close>

fun array_take :: "nat \<Rightarrow> doc_options \<Rightarrow> heap \<Rightarrow> array_iter \<Rightarrow> ('e, doc_value list) result" where
  "array_take 0 dflt h it = Ok []"
| "array_take (Suc n) dflt h it =
     rbind (array_next dflt h it) (\<lambda>(r, it).
     case r of
       None \<Rightarrow> Ok []
     | Some v \<Rightarrow> rbind (array_take n dflt h it) (\<lambda>vs. Ok (v # vs)))"

definition array_insert :: "ytype_ref \<Rightarrow> u64 \<Rightarrow> doc_value \<Rightarrow> store \<Rightarrow> heap \<Rightarrow> (codec_error, store \<times> heap) result" where
  "array_insert self idx val st h = insert_at self idx (content_from_value val) st h"

definition array_push :: "ytype_ref \<Rightarrow> doc_value \<Rightarrow> store \<Rightarrow> heap \<Rightarrow> (codec_error, store \<times> heap) result" where
  "array_push self val st h = rbind (array_len self h) (\<lambda>n. array_insert self n val st h)"

definition array_remove :: "ytype_ref \<Rightarrow> u64 \<Rightarrow> u64 \<Rightarrow> store \<Rightarrow> heap \<Rightarrow> (codec_error, store \<times> heap) result" where
  "array_remove self idx len st h = remove_at self idx len st h"

section \<open>Arrays of plain values\<close>

text \<open>The contents that hold one value for every unit of their length.\<close>

fun any_content :: "content \<Rightarrow> bool" where
  "any_content (ContentAny _) = True"
| "any_content (ContentBinary _) = True"
| "any_content (ContentEmbed _) = True"
| "any_content _ = False"

fun values_of :: "id \<Rightarrow> content \<Rightarrow> doc_value list" where
  "values_of k (ContentAny any) = map ValueAny any"
| "values_of k (ContentBinary buf) = [ValueAny (AnyBinary buf)]"
| "values_of k (ContentEmbed v) = [ValueAny v]"
| "values_of k _ = []"

interpretation arrays: list_reading values_of length any_content
proof unfold_locales
  show "length (values_of k c) = unat (clock_len c)" if "any_content c" "content_ok c" for k c
    using that by (cases c) (simp_all add: unat_of_nat)
  fix c d l r r' k
  assume c: "any_content c" "content_split c d = Ok (l, r)"
  then have lr: "any_content l \<and> any_content r" by (cases c) (auto simp: outcome_simps split: prod.splits if_splits)
  then show "any_content l \<and> any_content r" .
  assume m: "content_merge l r = (Ok (Some (c, r')) :: _ codec_result)"
  show "values_of k c = values_of k l @ values_of (new_id (id_client k) (id_clock k + d)) r"
    by (cases rule: content_mergeE [OF m]) (use lr in auto)
qed simp


section \<open>Iterating\<close>

definition array_ok :: "heap \<Rightarrow> store \<Rightarrow> ytype_ref \<Rightarrow> ytype \<Rightarrow> nat list \<Rightarrow> bool" where
  "array_ok h st self t cs \<longleftrightarrow> list_ok h st self t cs \<and> reads any_content h cs"

text \<open>An iterator that still has to give the values \<open>vs\<close>.\<close>

definition still_gives :: "heap \<Rightarrow> nat list \<Rightarrow> array_iter \<Rightarrow> doc_value list \<Rightarrow> bool" where
  "still_gives h cs it vs \<longleftrightarrow>
     (\<exists>xs ys. cs = xs @ ys \<and> live h (ai_inner it) = first ys
        \<and> (case ai_current_any it of
             None \<Rightarrow> vs = view values_of h ys
           | Some (any_vec, idx) \<Rightarrow> idx < length any_vec \<and> vs = map ValueAny (drop idx any_vec) @ view values_of h ys))"

lemma list_base_nonempty:
  assumes "list_base h st self t cs" "a \<in> set cs" "h_items h a = Some i"
  shows "0 < item_len i"
proof -
  have "stored st a (id_client (item_id i))" using list_baseD(11) [OF assms(1,2)] assms(3) by (auto simp: list_item_def)
  then show ?thesis using stored_at [OF list_baseD(1) [OF assms(1)] _ assms(3)] by metis
qed

lemma view_uncounted: "\<forall>a \<in> set us. \<not> counts h a \<Longrightarrow> view f h us = []"
  by (induction us) (auto simp: counts_def shown_by_def split: option.split)

text \<open>What an item gives: its first value, and the rest from the buffer.\<close>

definition array_give :: "doc_options \<Rightarrow> heap \<Rightarrow> item \<Rightarrow> somr \<Rightarrow> ('e, doc_value option \<times> array_iter) result" where
  "array_give dflt h i cur =
     (case item_content i of
        ContentAny (x # y # any) \<Rightarrow> Ok (Some (ValueAny x), \<lparr>ai_inner = cur, ai_current_any = Some (x # y # any, 1)\<rparr>)
      | c \<Rightarrow> rbind (value_from_content dflt h c) (\<lambda>v. Ok (Some v, \<lparr>ai_inner = cur, ai_current_any = None\<rparr>)))"

lemma array_give_ok:
  assumes "any_content (item_content i)" "content_ok (item_content i)" "0 < item_len i" "cs = xs @ ys" "live h cur = first ys"
  shows "\<exists>v vs it. array_give dflt h i cur = (Ok (Some v, it) :: _ codec_result)
    \<and> values_of k (item_content i) @ view values_of h ys = v # vs \<and> still_gives h cs it vs"
proof (cases "item_content i")
  case (ContentAny any)
  then obtain x r where any: "any = x # r" using assms(3) by (cases any) (auto simp: item_len_def)
  show ?thesis
  proof (cases r)
    case Nil
    then show ?thesis using ContentAny any assms(4,5) by (auto simp: array_give_def still_gives_def)
  next
    case (Cons y r')
    have "still_gives h cs \<lparr>ai_inner = cur, ai_current_any = Some (x # y # r', 1)\<rparr> (map ValueAny (y # r') @ view values_of h ys)"
      unfolding still_gives_def using assms(4,5) by (intro exI [of _ xs] exI [of _ ys]) simp
    then show ?thesis using ContentAny any Cons by (auto simp: array_give_def)
  qed
qed (use assms in \<open>auto simp: array_give_def still_gives_def\<close>)

lemma array_search_ok:
  assumes "list_base h st self t cs" "reads any_content h cs" "cs = xs @ ys" "live h cur = first ys"
  shows "\<exists>r it. array_search (Suc fuel) dflt h cur = (Ok (r, it) :: _ codec_result)
    \<and> (case view values_of h ys of [] \<Rightarrow> r = None | v # vs \<Rightarrow> r = Some v \<and> still_gives h cs it vs)"
proof -
  note ok = list_baseD [OF assms(1)]
  have ch: "chain h t (xs @ ys)" "length ys < h_next h + 1"
    using ok(5) chain_length [OF ok(5,2)] assms(3) by simp_all
  from list_next_ok [OF ch(1) assms(4) ch(2)] show ?thesis
  proof (elim disjE exE conjE)
    fix cur' assume n: "\<forall>a \<in> set ys. \<not> counts h a" "list_next (h_next h + 1) h cur = (Ok (None, cur') :: _ codec_result)"
    then show ?thesis using view_uncounted [OF n(1), of values_of] by simp
  next
    fix us a ws r cur'
    assume p: "ys = us @ a # ws" "\<forall>b \<in> set us. \<not> counts h b" "counts h a"
      "list_next (h_next h + 1) h cur = (Ok (Some r, cur') :: _ codec_result)" "live h r = Some a" "live h cur' = first ws"
    obtain i where i: "h_items h a = Some i" "\<not> is_item_deleted i" using p(3) by (auto simp: counts_def)
    have a: "a \<in> set cs" using assms(3) p(1) by simp
    have li: "is_item_countable i" "content_ok (item_content i)" using ok(11) [OF a] i by (auto simp: list_item_def)
    have shown: "any_content (item_content i)" using assms(2) a i by (auto simp: reads_def readable_def)
    have get: "get_item h r = Some i" using p(5) i(1) by (simp add: live_Some get_item_ptr)
    have "array_search (Suc fuel) dflt h cur = (array_give dflt h i cur' :: _ codec_result)"
      using p(4) get li(1) by (simp add: array_give_def cong: content.case_cong)
    moreover have "view values_of h ys = values_of (item_id i) (item_content i) @ view values_of h ws"
      using p(1) view_uncounted [OF p(2), of values_of] i by (simp add: shown_by_def)
    moreover obtain v vs it where "array_give dflt h i cur' = (Ok (Some v, it) :: _ codec_result)"
      "values_of (item_id i) (item_content i) @ view values_of h ws = v # vs" "still_gives h cs it vs"
      using array_give_ok [OF shown li(2) list_base_nonempty [OF assms(1) a i(1)], of cs "xs @ us @ [a]" ws h cur' dflt "item_id i"]
        assms(3) p(1,6) by auto
    ultimately show ?thesis by simp
  qed
qed

lemma array_next_ok:
  assumes "list_base h st self t cs" "reads any_content h cs" "still_gives h cs it vs"
  shows "\<exists>r it'. array_next dflt h it = (Ok (r, it') :: _ codec_result)
    \<and> (case vs of [] \<Rightarrow> r = None | v # vs \<Rightarrow> r = Some v \<and> still_gives h cs it' vs)"
proof -
  obtain xs ys where s: "cs = xs @ ys" "live h (ai_inner it) = first ys"
    "case ai_current_any it of None \<Rightarrow> vs = view values_of h ys
      | Some (any_vec, idx) \<Rightarrow> idx < length any_vec \<and> vs = map ValueAny (drop idx any_vec) @ view values_of h ys"
    using assms(3) unfolding still_gives_def by blast
  show ?thesis
  proof (cases "ai_current_any it")
    case None
    then show ?thesis using s array_search_ok [OF assms(1,2) s(1,2), of "h_next h" dflt] by (simp add: array_next_def)
  next
    case (Some p)
    obtain any_vec idx where p: "p = (any_vec, idx)" by (cases p)
    have i: "idx < length any_vec" "vs = map ValueAny (drop idx any_vec) @ view values_of h ys" using s(3) Some p by simp_all
    then have vs: "vs = ValueAny (any_vec ! idx) # map ValueAny (drop (Suc idx) any_vec) @ view values_of h ys"
      using Cons_nth_drop_Suc [OF i(1)] by (metis append_Cons list.simps(9))
    show ?thesis using Some p i(1) s(1,2) vs by (auto simp: array_next_def still_gives_def)
  qed
qed

lemma array_take_ok:
  "list_base h st self t cs \<Longrightarrow> reads any_content h cs \<Longrightarrow> still_gives h cs it vs \<Longrightarrow>
   array_take n dflt h it = (Ok (take n vs) :: _ codec_result)"
proof (induction n arbitrary: it vs)
  case (Suc n)
  obtain r it' where "array_next dflt h it = (Ok (r, it') :: _ codec_result)"
    "case vs of [] \<Rightarrow> r = None | v # vs \<Rightarrow> r = Some v \<and> still_gives h cs it' vs"
    using array_next_ok [OF Suc.prems] by blast
  then show ?case using Suc.IH [OF Suc.prems(1,2)] by (cases vs) auto
qed simp

lemma no_cut_any: "reads any_content h cs \<Longrightarrow> no_cut h cs n"
  unfolding no_cut_def
proof (intro allI impI, elim conjE)
  fix zs a ys i d
  assume r: "reads any_content h cs" "cs = zs @ a # ys" "h_items h a = Some i" "\<not> is_item_deleted i"
  then have "any_content (item_content i)" by (simp add: readable_def)
  then show "split_boundary (item_content i) d" by (cases "item_content i") simp_all
qed

text \<open>All the values of an array.\<close>

definition array_values :: "nat \<Rightarrow> doc_options \<Rightarrow> ytype_ref \<Rightarrow> heap \<Rightarrow> ('e, doc_value list) result" where
  "array_values n dflt self h = rbind (new_array_iter self h) (array_take n dflt h)"

lemma array_okD:
  assumes "array_ok h st self t cs"
  shows "list_ok h st self t cs" "reads any_content h cs" "unat (yt_len t) = length (view values_of h cs)"
    "array_values n dflt self h = (Ok (take n (view values_of h cs)) :: _ codec_result)"
proof -
  show ok: "list_ok h st self t cs" "reads any_content h cs" using assms by (simp_all add: array_ok_def)
  note l = list_okD [OF ok(1)]
  have li: "\<forall>a \<in> set cs. list_item h st a" using l(11) by blast
  show "unat (yt_len t) = length (view values_of h cs)" using arrays.weight_view [OF li ok(2)] l(10) by simp
  have "live h (somr_clone (yt_start t)) = first cs" using l(5) linked_first unfolding chain_def by fastforce
  then have "still_gives h cs \<lparr>ai_inner = somr_clone (yt_start t), ai_current_any = None\<rparr> (view values_of h cs)"
    by (auto simp: still_gives_def)
  then show "array_values n dflt self h = (Ok (take n (view values_of h cs)) :: _ codec_result)"
    using array_take_ok [OF l(13) ok(2)] l(4) by (simp add: array_values_def new_array_iter_def)
qed


section \<open>Editing an array\<close>

text \<open>What a value puts into an array: the elements of an array, one value otherwise.\<close>

definition spread :: "any \<Rightarrow> doc_value list" where
  "spread a = (case a of AnyArray xs \<Rightarrow> map ValueAny xs | _ \<Rightarrow> [ValueAny a])"

lemma values_of_any: "values_of k (content_from_any a) = spread a"
  by (cases a) (simp_all add: content_from_any_def spread_def)




section \<open>Reading by index\<close>

lemma array_get_at:
  assumes "find_pos self index h = (Ok (Some pos, h') :: _ codec_result)" "get_ty h self = Some t" "index < yt_len t"
    and "get_item h' (if pos_offset pos = 0 then pos_right pos else pos_left pos) = Some i"
    and "any_content (item_content i)" "unat (pos_offset pos) < length (values_of k (item_content i))"
    "\<forall>any. item_content i \<noteq> ContentAny any \<Longrightarrow> pos_offset pos = 0"
  shows "array_get dflt self index h = (Ok (Some (values_of k (item_content i) ! unat (pos_offset pos)), h') :: _ codec_result)"
proof -
  have "array_get dflt self index h = ((case item_content i of
      ContentAny any \<Rightarrow> Ok (if unat (pos_offset pos) < length any then Some (ValueAny (any ! unat (pos_offset pos))) else None, h')
    | c \<Rightarrow> rbind (value_from_content dflt h' c) (\<lambda>v. Ok (Some v, h'))) :: _ codec_result)"
    using assms(1-4) by (simp add: array_get_def get_item_at_def content_len_def not_le [symmetric] split: if_splits content.split)
  also have "\<dots> = Ok (Some (values_of k (item_content i) ! unat (pos_offset pos)), h')"
    using assms(5-7) by (cases "item_content i") simp_all
  finally show ?thesis .
qed

text \<open>
  Array::get gives the value the iterator gives at that index, as long as no item of the array is deleted.
\<close>

lemma array_get_exact:
  assumes "array_ok h st self t cs" "\<forall>a \<in> set cs. counts h a" "index < yt_len t"
  shows "\<exists>h' vs. array_get dflt self index h = (Ok (Some (vs ! unat index), h') :: _ codec_result)
    \<and> (\<forall>n. array_values n dflt self h = (Ok (take n vs) :: _ codec_result)) \<and> unat index < length vs"
proof -
  note ok = array_okD [OF assms(1)] and l = list_okD [OF array_okD(1) [OF assms(1)]]
  have li: "\<forall>a \<in> set cs. list_item h st a" using l(11) by blast
  have index: "unat index < length (view values_of h cs)" using assms(3) ok(3) by (simp add: word_less_nat_alt)
  obtain pos t' where f: "find_pos self index h = (Ok (Some pos, put_ty self t' h) :: _ codec_result)" "pos_at h cs (unat index) pos"
    using find_pos_ok [OF ok(1) less_imp_le [OF assms(3)]] by metis
  let ?h = "put_ty self t' h" and ?d = "unat (pos_offset pos)"
  have live_item: "\<exists>i. get_item h r = Some i \<and> h_items h a = Some i \<and> \<not> is_item_deleted i \<and> any_content (item_content i)
      \<and> content_ok (item_content i) \<and> 0 < item_len i \<and> length (values_of (item_id i) (item_content i)) = unat (item_len i)"
    if r: "live h r = Some a" and mem: "a \<in> set cs" for r a
  proof -
    obtain i where i: "h_items h a = Some i" "\<not> is_item_deleted i" using assms(2) mem by (auto simp: counts_def)
    moreover have c: "any_content (item_content i)" using ok(2) mem i by (auto simp: reads_def readable_def)
    moreover have k: "content_ok (item_content i)" using li mem i(1) by (auto simp: list_item_def)
    moreover have "get_item h r = Some i" using r i(1) by (simp add: live_Some get_item_ptr)
    moreover have "0 < item_len i" by (rule list_base_nonempty [OF l(13) mem i(1)])
    moreover have "length (values_of (item_id i) (item_content i)) = unat (item_len i)"
      using arrays.weight_elements [OF c k] by (simp add: item_len_def)
    ultimately show ?thesis by blast
  qed
  have weight: "length (view values_of h zs) = vlen h zs" if "set zs \<subseteq> set cs" for zs
    using arrays.weight_view [of zs h st] li ok(2) that by (auto simp: reads_def)
  have "\<exists>h'. array_get dflt self index h = (Ok (Some (view values_of h cs ! unat index), h') :: _ codec_result)"
    using f(2) unfolding pos_at_def
  proof (elim conjE exE disjE)
    fix xs ys assume p: "cs = xs @ ys" "live h (pos_right pos) = first ys" "pos_offset pos = 0" "unat index = vlen h xs"
    obtain a ws where ys: "ys = a # ws" using index weight [of cs] p(1,4) by (cases ys) auto
    obtain i where i: "get_item h (pos_right pos) = Some i" "h_items h a = Some i" "\<not> is_item_deleted i" "any_content (item_content i)"
      "0 < item_len i" "length (values_of (item_id i) (item_content i)) = unat (item_len i)"
      using live_item [of "pos_right pos" a] p(1,2) ys by auto
    have pos: "0 < unat (item_len i)" using i(5) by (simp add: word_less_nat_alt)
    have "array_get dflt self index h = (Ok (Some (values_of (item_id i) (item_content i) ! ?d), ?h) :: _ codec_result)"
      by (rule array_get_at [OF f(1) l(4) assms(3) _ i(4)]) (use i(1,6) p(3) pos in simp_all)
    moreover have "view values_of h cs ! unat index = values_of (item_id i) (item_content i) ! 0"
    proof -
      have "length (view values_of h xs) = unat index" using p(1,4) weight [of xs] by simp
      moreover have "view values_of h cs = view values_of h xs @ values_of (item_id i) (item_content i) @ view values_of h ws"
        using p(1) ys i(2,3) by (simp add: shown_by_def)
      ultimately show ?thesis using i(6) pos by (simp add: nth_append)
    qed
    ultimately show ?thesis using p(3) by auto
  next
    fix xs ys zs a i
    assume p: "cs = xs @ ys" "live h (pos_left pos) = last_or None xs" "xs = zs @ [a]" "h_items h a = Some i"
      "pos_offset pos < item_len i" "unat index = vlen h zs + ?d" "0 < pos_offset pos"
    have "live h (pos_left pos) = Some a" using p(2,3) by (simp add: last_or_def)
    then obtain "get_item h (pos_left pos) = Some i" and c: "\<not> is_item_deleted i" "any_content (item_content i)"
      "length (values_of (item_id i) (item_content i)) = unat (item_len i)"
      using live_item [of "pos_left pos" a] p(1,3,4) by auto
    have d: "?d < length (values_of (item_id i) (item_content i))" using p(5) c(3) by (simp add: word_less_nat_alt)
    have any: "\<exists>any. item_content i = ContentAny any"
    proof -
      have "0 < ?d" using p(7) by (simp add: word_less_nat_alt)
      then show ?thesis using d c(2) by (cases "item_content i") simp_all
    qed
    have "array_get dflt self index h = (Ok (Some (values_of (item_id i) (item_content i) ! ?d), ?h) :: _ codec_result)"
      by (rule array_get_at [OF f(1) l(4) assms(3) _ c(2) d]) (use \<open>get_item h (pos_left pos) = Some i\<close> p(7) any in auto)
    moreover have "view values_of h cs ! unat index = values_of (item_id i) (item_content i) ! ?d"
    proof -
      have "length (view values_of h zs) = vlen h zs" using p(1,3) weight [of zs] by auto
      moreover have "view values_of h cs = view values_of h zs @ values_of (item_id i) (item_content i) @ view values_of h ys"
        using p(1,3,4) c(1) by (simp add: shown_by_def)
      ultimately show ?thesis using p(6) d by (simp add: nth_append)
    qed
    ultimately show ?thesis by auto
  qed
  then show ?thesis using ok(4) index by blast
qed

text \<open>
  Array::get does not skip deleted items: when the first item of an array has been deleted, get(0) gives
  the value that was removed, while the iterator starts with the first value that is left.
\<close>

lemma array_get_returns_deleted:
  assumes "array_ok h st self t (a # cs)" "h_items h a = Some i" "is_item_deleted i" "item_content i = ContentAny (x # any)" "0 < yt_len t"
  shows "(\<exists>h'. array_get dflt self 0 h = (Ok (Some (ValueAny x), h') :: _ codec_result))
    \<and> array_values 1 dflt self h = (Ok [hd (view values_of h cs)] :: _ codec_result)"
proof -
  note ok = array_okD [OF assms(1)] and l = list_okD [OF array_okD(1) [OF assms(1)]]
  have "live h (yt_start t) = Some a" using l(5) by (simp add: chain_def)
  then have start: "get_item h (yt_start t) = Some i" using assms(2) by (simp add: live_Some get_item_ptr)
  obtain pos h' where f: "find_pos self 0 h = (Ok (Some pos, h') :: _ codec_result)" "pos_offset pos = 0" "get_item h' (pos_right pos) = Some i"
    using start l(4) by (cases "yt_markers t") (auto simp: find_pos_def find_marker_def find_pos_loop.simps(2) heap_simps)
  have "array_get dflt self 0 h = (Ok (Some (values_of (item_id i) (item_content i) ! unat (pos_offset pos)), h') :: _ codec_result)"
    by (rule array_get_at [OF f(1) l(4) assms(5)]) (use f(2,3) assms(4) in simp_all)
  moreover have "view values_of h (a # cs) = view values_of h cs" using assms(2,3) by (simp add: shown_by_def)
  moreover have "0 < length (view values_of h (a # cs))" using ok(3) assms(5) by (simp add: word_less_nat_alt)
  ultimately show ?thesis using ok(4) [of 1 dflt] assms(4) f(2) by (cases "view values_of h cs") auto
qed


section \<open>A concrete array\<close>

abbreviation "two_content \<equiv> ContentAny [AnyTrue, AnyFalse]"

lemma two_array_ok: "array_ok (single_heap KArray two_content) single_store single_ref (single_type KArray two_content) [1]"
  using single_list_ok [of two_content KArray] single_cells(1) [of KArray two_content]
  by (simp add: array_ok_def plain_def readable_def single_item_def)



lemma array_get_exact_witness:
  "\<exists>h vs. array_get (default_options 1 []) single_ref 1 (single_heap KArray two_content) = (Ok (Some (vs ! 1), h) :: _ codec_result)
     \<and> array_values 2 (default_options 1 []) single_ref (single_heap KArray two_content) = (Ok (take 2 vs) :: _ codec_result) \<and> 1 < length vs"
proof -
  have "\<forall>a \<in> set [1]. counts (single_heap KArray two_content) a"
    using single_cells(1) [of KArray two_content] single_item_live(1) by (simp add: counts_def)
  from array_get_exact [OF two_array_ok this, of 1 "default_options 1 []"] show ?thesis by (auto simp: single_type_def)
qed

text \<open>Two items, the first of them deleted.\<close>

definition gone_item :: item where
  "gone_item = (single_item (ContentAny [AnyTrue]))\<lparr>item_right := SRef 2, item_flags := flag_set_deleted item_countable\<rparr>"

definition kept_item :: item where
  "kept_item = (single_item (ContentAny [AnyFalse]))\<lparr>item_id := new_id 1 1, item_left := SRef 1\<rparr>"

definition gone_type :: ytype where
  "gone_type = (new_ytype KArray None)\<lparr>yt_start := SRef 1, yt_len := 1, yt_markers := Some []\<rparr>"

definition gone_heap :: heap where
  "gone_heap = \<lparr>h_items = [1 \<mapsto> gone_item, 2 \<mapsto> kept_item], h_types = [0 \<mapsto> gone_type], h_next = 3\<rparr>"

definition gone_store :: store where
  "gone_store = (with_client 1)\<lparr>st_items := [(1, [Item (SOwned 1), Item (SOwned 2)])]\<rparr>"

lemma gone_cells: "h_items gone_heap 1 = Some gone_item" "h_items gone_heap 2 = Some kept_item" "get_ty gone_heap single_ref = Some gone_type"
  "is_item_deleted gone_item" "\<not> is_item_deleted kept_item" "is_item_countable kept_item"
  by (simp_all add: gone_heap_def get_ty_def single_ref_def somr_lookup_def gone_item_def kept_item_def is_item_deleted_def
      is_item_countable_def single_item_def flag_simps)

lemma gone_array_ok: "array_ok gone_heap gone_store single_ref gone_type [1, 2]"
proof -
  note n = item_node_facts [OF _ gone_cells(1), of "SOwned 1"] item_node_facts [OF _ gone_cells(2), of "SOwned 2"]
  have fields: "item_id gone_item = new_id 1 0" "item_id kept_item = new_id 1 1" "item_len gone_item = 1" "item_len kept_item = 1"
    "item_content gone_item = ContentAny [AnyTrue]" "item_content kept_item = ContentAny [AnyFalse]"
    "item_left gone_item = SNone" "item_right gone_item = SRef 2" "item_left kept_item = SRef 1" "item_right kept_item = SNone"
    "parent_sub gone_item = None" "parent_sub kept_item = None"
    by (simp_all add: gone_item_def kept_item_def single_item_def item_len_def)
  have st: "store_ok gone_heap gone_store" using n fields by (simp add: store_ok_def hm_wf_def gone_store_def new_id_def)
  have "stored gone_store 1 1" "stored gone_store 2 1" by (auto simp: stored_def gone_store_def nodes_of_def)
  then have li: "list_item gone_heap gone_store 1" "list_item gone_heap gone_store 2"
    using gone_cells fields by (auto simp: list_item_def bounded_def gone_heap_def new_id_def plain_def)
  have ch: "chain gone_heap gone_type [1, 2]"
    using gone_cells fields by (simp add: chain_def live_def rt_def lf_def gone_type_def get_item_ptr)
  have v: "vlen gone_heap [1, 2] = 1" using gone_cells fields by (simp add: item_vlen_def)
  show ?thesis using st li ch v gone_cells fields
    by (simp add: array_ok_def list_ok_def list_base_def markers_ok_def readable_def fresh_def bounded_def parent_dead_def)
      (simp add: gone_heap_def gone_type_def new_ytype_def single_ref_def heap_simps)
qed

lemma array_get_returns_deleted_witness:
  "(\<exists>h. array_get (default_options 1 []) single_ref 0 gone_heap = (Ok (Some (ValueAny AnyTrue), h) :: _ codec_result))
   \<and> array_values 1 (default_options 1 []) single_ref gone_heap = (Ok [ValueAny AnyFalse] :: _ codec_result)"
  using array_get_returns_deleted [OF gone_array_ok gone_cells(1,4), of AnyTrue "[]" "default_options 1 []"] gone_cells(2,5)
  by (simp add: gone_item_def kept_item_def single_item_def gone_type_def shown_by_def)

end
