(* ===== verification/Map_Type.thy ===== *)
theory Map_Type
  imports Array_Type
begin

text \<open>
  Maps: \<open>libs/jwst-codec/src/doc/types/map.rs\<close>.  A value is an item with the key as its \<open>parent_sub\<close>; setting
  a key again puts the new item behind the old one and deletes that.
\<close>

section \<open>Operations\<close>

definition map_insert :: "ytype_ref \<Rightarrow> bytes \<Rightarrow> doc_value \<Rightarrow> store \<Rightarrow> heap \<Rightarrow> (codec_error, store \<times> heap) result" where
  "map_insert self key val st h =
     (case (if writable self h then get_ty h self else None) of
        Some ty \<Rightarrow>
          let left = map_option somr_clone (map_of (yt_map ty) key)
          in rbind (create_item (content_from_value val) (case left of Some l \<Rightarrow> l | None \<Rightarrow> SNone) SNone
                      (Some (ParentType (clone_ytype_ref self))) (Some key) st h) (\<lambda>(item, h).
             integrate (Item item) 0 (Some self) st h)
      | None \<Rightarrow> Ok (st, h))"

definition map_get :: "doc_options \<Rightarrow> ytype_ref \<Rightarrow> bytes \<Rightarrow> heap \<Rightarrow> ('e, doc_value option) result" where
  "map_get dflt self key h =
     (case get_ty h self of
        None \<Rightarrow> Ok None
      | Some ty \<Rightarrow>
          (case map_of (yt_map ty) key of
             None \<Rightarrow> Ok None
           | Some r \<Rightarrow>
               (case get_item h r of
                  Some item \<Rightarrow>
                    if is_item_deleted item then Ok None
                    else rbind (value_from_content dflt h (item_content item)) (\<lambda>v. Ok (Some v))
                | None \<Rightarrow> Ok None)))"

definition map_contains_key :: "ytype_ref \<Rightarrow> bytes \<Rightarrow> heap \<Rightarrow> bool" where
  "map_contains_key self key h =
     (case get_ty h self of
        Some ty \<Rightarrow>
          (case map_of (yt_map ty) key of
             Some r \<Rightarrow> (case get_item h r of Some item \<Rightarrow> \<not> is_item_deleted item | None \<Rightarrow> False)
           | None \<Rightarrow> False)
      | None \<Rightarrow> False)"

definition map_remove :: "ytype_ref \<Rightarrow> bytes \<Rightarrow> store \<Rightarrow> heap \<Rightarrow> (codec_error, store \<times> heap) result" where
  "map_remove self key st h =
     (case (if writable self h then get_ty h self else None) of
        Some ty \<Rightarrow>
          (case map_of (yt_map ty) key of
             Some r \<Rightarrow> if get_item h r \<noteq> None then store_delete_item (somr_clone r) (Some self) st h else Ok (st, h)
           | None \<Rightarrow> Ok (st, h))
      | None \<Rightarrow> Ok (st, h))"

text \<open>The entries: the keys whose item is there and not deleted, in the order of the hash map.\<close>

fun map_entries_of :: "heap \<Rightarrow> (bytes \<times> somr) list \<Rightarrow> (bytes \<times> item) list" where
  "map_entries_of h [] = []"
| "map_entries_of h ((k, v) # entries) =
     (case get_item h v of
        Some item \<Rightarrow> if \<not> is_item_deleted item then (k, item) # map_entries_of h entries else map_entries_of h entries
      | None \<Rightarrow> map_entries_of h entries)"

definition map_iter :: "ytype_ref \<Rightarrow> heap \<Rightarrow> (bytes \<times> item) list" where
  "map_iter self h = (case get_ty h self of Some ty \<Rightarrow> map_entries_of h (yt_map ty) | None \<Rightarrow> [])"

definition map_keys :: "ytype_ref \<Rightarrow> heap \<Rightarrow> bytes list" where
  "map_keys self h = map fst (map_iter self h)"

fun each_value :: "doc_options \<Rightarrow> heap \<Rightarrow> (bytes \<times> item) list \<Rightarrow> ('e, (bytes \<times> doc_value) list) result" where
  "each_value dflt h [] = Ok []"
| "each_value dflt h ((k, v) # entries) =
     rbind (value_from_content dflt h (item_content v)) (\<lambda>val.
     rbind (each_value dflt h entries) (\<lambda>rest. Ok ((k, val) # rest)))"

definition map_entries :: "doc_options \<Rightarrow> ytype_ref \<Rightarrow> heap \<Rightarrow> ('e, (bytes \<times> doc_value) list) result" where
  "map_entries dflt self h = each_value dflt h (map_iter self h)"

definition map_values :: "doc_options \<Rightarrow> ytype_ref \<Rightarrow> heap \<Rightarrow> ('e, doc_value list) result" where
  "map_values dflt self h = rbind (map_entries dflt self h) (\<lambda>es. Ok (map snd es))"

definition map_len :: "ytype_ref \<Rightarrow> heap \<Rightarrow> u64" where
  "map_len self h = of_nat (length (map_keys self h))"

definition map_is_empty :: "ytype_ref \<Rightarrow> heap \<Rightarrow> bool" where
  "map_is_empty self h = (map_len self h = 0)"

section \<open>The invariant\<close>

definition same_type :: "ytype_ref \<Rightarrow> ytype_ref \<Rightarrow> bool" where
  "same_type r self \<longleftrightarrow> somr_ptr (yr_inner r) = somr_ptr (yr_inner self)"

lemma same_type_refl [simp]: "same_type r r"
  by (simp add: same_type_def)

lemma get_ty_put: "get_ty h self = Some t \<Longrightarrow> get_ty (put_ty self u h) r = (if same_type r self then Some u else get_ty h r)"
  by (auto simp: get_ty_def put_ty_def somr_lookup_def same_type_def split: option.splits)

lemma get_ty_same: "same_type r self \<Longrightarrow> get_ty h r = get_ty h self"
  by (simp add: get_ty_def somr_lookup_def same_type_def)

text \<open>The item of a key is the last one of its chain, and belongs to the map.\<close>

definition in_type :: "ytype_ref \<Rightarrow> item \<Rightarrow> bool" where
  "in_type self i \<longleftrightarrow> (\<exists>p. item_parent i = Some (ParentType p) \<and> same_type p self)"

definition map_entry :: "heap \<Rightarrow> ytype_ref \<Rightarrow> bytes \<Rightarrow> somr \<Rightarrow> bool" where
  "map_entry h self key r \<longleftrightarrow>
     (\<exists>a i. somr_ptr r = Some a \<and> h_items h a = Some i \<and> parent_sub i = Some key \<and> in_type self i
        \<and> get_item h (item_right i) = None \<and> bounded h (item_right i)
        \<and> 0 < item_len i \<and> unat (id_clock (item_id i)) + unat (item_len i) < 2 ^ 64)"

text \<open>The item a nested type belongs to has the type as its content.\<close>

definition holds_type :: "heap \<Rightarrow> somr \<Rightarrow> bool" where
  "holds_type h r \<longleftrightarrow> (\<forall>i. get_item h r = Some i \<longrightarrow> \<not> plain (item_content i))"

text \<open>The value of a key is not a type.\<close>

definition plain_key :: "heap \<Rightarrow> ytype \<Rightarrow> bytes \<Rightarrow> bool" where
  "plain_key h t key \<longleftrightarrow>
     (\<forall>r i. map_of (yt_map t) key = Some r \<longrightarrow> get_item h r = Some i \<longrightarrow> plain (item_content i))"

definition map_ok :: "heap \<Rightarrow> store \<Rightarrow> ytype_ref \<Rightarrow> ytype \<Rightarrow> bool" where
  "map_ok h st self t \<longleftrightarrow>
     store_ok h st \<and> fresh h \<and> yr_store self \<and> get_ty h self = Some t \<and> \<not> parent_dead h t \<and> bounded h (yt_item t)
     \<and> holds_type h (yt_item t) \<and> hm_wf (yt_map t) \<and> (\<forall>key r. map_of (yt_map t) key = Some r \<longrightarrow> map_entry h self key r)"

lemma map_okD:
  assumes "map_ok h st self t"
  shows "store_ok h st" "fresh h" "yr_store self" "get_ty h self = Some t" "\<not> parent_dead h t" "bounded h (yt_item t)"
    "hm_wf (yt_map t)" "\<And>key r. map_of (yt_map t) key = Some r \<Longrightarrow> map_entry h self key r" "holds_type h (yt_item t)"
  using assms by (simp_all add: map_ok_def)

section \<open>Deleting one item\<close>

lemma delete_plain_item:
  assumes "somr_ptr r = Some a" "h_items h a = Some i" "plain (item_content i)" "parent_sub i = Some key"
    and "unat (id_clock (item_id i)) + unat (item_len i) < 2 ^ 64"
  obtains dl where "store_delete_item r p st h = Ok (st\<lparr>st_delete_set := dl\<rparr>,
    h\<lparr>h_items := (h_items h)(a \<mapsto> if is_item_deleted i then i else mark i)\<rparr>)"
proof (cases "is_item_deleted i")
  case True
  then have "store_delete_item r p st h = Ok (st\<lparr>st_delete_set := add_pending_deletes [] (st_delete_set st)\<rparr>, h)"
    using assms(1,2) by (simp add: store_delete_item_def delete_fuel_def get_item_unchecked_def get_item_ptr Item_Model.delete_item_def)
  moreover have "h\<lparr>h_items := (h_items h)(a \<mapsto> i)\<rparr> = h" using assms(2) by (simp add: fun_upd_idem)
  ultimately show thesis using that [of "add_pending_deletes [] (st_delete_set st)"] True by simp
next
  case False
  then have m: "delete_item i = (True, mark i)" by (simp add: delete_item_def mark_def)
  have "delete_self [] r (mark i) p h = Ok (push_delete (id_client (item_id i))
      (mk_range (id_clock (item_id i)) (id_clock (item_id i) + item_len i)) [], h\<lparr>h_items := (h_items h)(a \<mapsto> mark i)\<rparr>)"
    using assms(4,5) by (simp add: delete_self_def put_item_ptr [OF assms(1)] add_u64_def adjust_parent_def Let_def)
  then have "\<exists>pending. delete_item_inner (delete_fuel h) [] r p h = Ok (pending, h\<lparr>h_items := (h_items h)(a \<mapsto> mark i)\<rparr>)"
    using assms(1-3) m
    by (cases "item_content i") (simp_all add: delete_fuel_def get_item_unchecked_def get_item_ptr plain_def)
  then show thesis using that False by (auto simp: store_delete_item_def)
qed

section \<open>Setting a key\<close>

text \<open>The heap after the new item of a key is in: \<open>old\<close> is the cell of its last value, if there is one.\<close>

definition retired :: "nat \<Rightarrow> item \<Rightarrow> item" where
  "retired n j = (let j = j\<lparr>item_right := SRef n\<rparr> in if is_item_deleted j then j else mark j)"

definition keyed_heap :: "heap \<Rightarrow> ytype_ref \<Rightarrow> ytype \<Rightarrow> bytes \<Rightarrow> nat option \<Rightarrow> item \<Rightarrow> heap \<Rightarrow> bool" where
  "keyed_heap h self t key old i h' \<longleftrightarrow>
     (let n = h_next h in
      (\<forall>r. get_ty h' r = (if same_type r self then Some (t\<lparr>yt_map := hm_insert key (SRef n) (yt_map t)\<rparr>) else get_ty h r))
      \<and> h_next h' = n + 1
      \<and> (\<exists>i'. h_items h' n = Some i' \<and> item_id i' = item_id i \<and> item_content i' = item_content i \<and> item_flags i' = item_flags i
           \<and> item_parent i' = item_parent i \<and> parent_sub i' = Some key \<and> get_item h' (item_right i') = None \<and> bounded h' (item_right i'))
      \<and> (\<forall>x. x \<noteq> n \<longrightarrow> h_items h' x = (if old = Some x then map_option (retired n) (h_items h x) else h_items h x)))"

lemma somr_clone_twice [simp]: "somr_clone (somr_clone r) = somr_clone r"
  by (cases r) simp_all

lemma keyed_settle:
  assumes "keyed_heap h self t key old i h'" "\<not> parent_dead h t" "bounded h (yt_item t)"
    and "\<And>a. old = Some a \<Longrightarrow> somr_ptr (yt_item t) \<noteq> Some a"
  shows "settle (SOwned (h_next h)) self st h' = Ok (st, h')"
proof -
  let ?n = "h_next h"
  obtain i' where i': "h_items h' ?n = Some i'" "parent_sub i' = Some key" "get_item h' (item_right i') = None"
    and types: "\<And>r. get_ty h' r = (if same_type r self then Some (t\<lparr>yt_map := hm_insert key (SRef ?n) (yt_map t)\<rparr>) else get_ty h r)"
    and other: "\<And>x. x \<noteq> ?n \<Longrightarrow> h_items h' x = (if old = Some x then map_option (retired ?n) (h_items h x) else h_items h x)"
    using assms(1) unfolding keyed_heap_def Let_def by blast
  have "get_item h' (yt_item t) = get_item h (yt_item t)"
  proof (cases "somr_ptr (yt_item t)")
    case (Some a)
    then have "a \<noteq> ?n" "old \<noteq> Some a" using assms(3,4) by (auto simp: bounded_def)
    then show ?thesis using other [of a] Some by (simp add: get_item_ptr)
  qed (simp add: get_item_def somr_lookup_def)
  then have "\<not> (case get_item h' (yt_item t) of Some i \<Rightarrow> is_item_deleted i | None \<Rightarrow> False)"
    using assms(2) by (simp add: parent_dead_def)
  then show ?thesis using types [of self] i' by (simp add: settle_def get_item_unchecked_def get_item_ptr Let_def)
qed

lemma insert_key_new:
  assumes "map_ok h st self t" "map_of (yt_map t) key = None" "item_left i = SNone" "item_right i = SNone" "parent_sub i = Some key"
  shows "\<exists>h'. insert_item (SOwned (h_next h)) self st (add_cell i h) = Ok (st, h') \<and> keyed_heap h self t key None i h'"
proof -
  note ok = map_okD [OF assms(1)]
  let ?n = "h_next h" and ?h = "add_cell i h"
  have g: "get_ty ?h self = Some t" "get_item ?h (SOwned ?n) = Some i" "get_item ?h SNone = None" using ok(4) by (simp_all add: heap_simps)
  have left: "find_left (SOwned ?n) self ?h = (Ok SNone :: _ codec_result)"
    using g assms by (simp add: find_left_def get_item_unchecked_def Let_def scan_conflicts.simps(2) heap_simps)
  let ?i1 = "i\<lparr>item_left := SNone\<rparr>" let ?i2 = "i\<lparr>item_left := SNone, item_right := SNone\<rparr>"
  let ?h1 = "?h\<lparr>h_items := (h_items ?h)(?n \<mapsto> ?i1)\<rparr>"
  have cl: "connect_left (SOwned ?n) self SNone ?h = Ok (SNone, ?h1)"
    using g assms by (simp add: connect_left_def get_item_unchecked_def as_item_option_def upd_item_def heap_simps)
  let ?t = "t\<lparr>yt_map := hm_insert key (SRef ?n) (yt_map t)\<rparr>"
  let ?h2 = "(put_ty self ?t ?h1)\<lparr>h_items := (h_items ?h1)(?n \<mapsto> ?i2)\<rparr>"
  have cr: "connect_right (SOwned ?n) self SNone st ?h1 = Ok (st, ?h2)"
    using g(1) assms(5) by (simp add: connect_right_def get_item_unchecked_def upd_item_def heap_simps Let_def)
  have k: "keyed_heap h self t key None i ?h2"
    using g(1) assms(5) ok(4) by (auto simp: keyed_heap_def Let_def heap_simps bounded_def get_ty_put)
  have "settle (SOwned ?n) self st ?h2 = Ok (st, ?h2)" using keyed_settle [OF k ok(5,6)] by simp
  then show ?thesis using left cl cr k by (simp add: insert_item_def)
qed

lemma apart_from_parent:
  assumes "map_ok h st self t" "h_items h a = Some j" "plain (item_content j)"
  shows "somr_ptr (yt_item t) \<noteq> Some a"
  using map_okD(9) [OF assms(1)] assms(2,3) by (auto simp: holds_type_def get_item_ptr)

lemma insert_key_old:
  assumes "map_ok h st self t" "plain_key h t key" "map_of (yt_map t) key = Some l" "somr_ptr l = Some a" "h_items h a = Some j"
    and "item_left i = somr_clone l" "item_right i = SNone" "parent_sub i = Some key"
  shows "\<exists>dl h'. insert_item (SOwned (h_next h)) self st (add_cell i h) = Ok (st\<lparr>st_delete_set := dl\<rparr>, h')
    \<and> keyed_heap h self t key (Some a) i h'"
proof -
  note ok = map_okD [OF assms(1)]
  have pl: "plain (item_content j)" using assms(2-5) by (simp add: plain_key_def get_item_ptr)
  have j: "parent_sub j = Some key" "plain (item_content j)" "get_item h (item_right j) = None" "bounded h (item_right j)"
    "somr_ptr (yt_item t) \<noteq> Some a" "unat (id_clock (item_id j)) + unat (item_len j) < 2 ^ 64"
    using ok(8) [OF assms(3)] assms(4,5) pl apart_from_parent [OF assms(1,5) pl] by (auto simp: map_entry_def)
  let ?n = "h_next h" and ?h = "add_cell i h"
  have an: "a \<noteq> ?n" using fresh_less [OF ok(2) assms(5)] by simp
  have lc: "somr_clone l = SRef a" using assms(4) by (rule somr_clone_eq)
  have g: "get_ty ?h self = Some t" "get_item ?h (SOwned ?n) = Some i" "get_item ?h (SRef a) = Some j" "get_item ?h SNone = None"
    "get_item ?h (item_right j) = None"
    using ok(4) assms(5) an j(3,4) by (simp_all add: heap_simps add_cell_live)
  have left: "find_left (SOwned ?n) self ?h = (Ok (SRef a) :: _ codec_result)"
    using g assms(6-8) lc by (simp add: find_left_def get_item_unchecked_def Let_def scan_conflicts.simps(2) heap_simps)
  let ?j1 = "j\<lparr>item_right := SRef ?n\<rparr>" and ?i1 = "i\<lparr>item_left := SRef a\<rparr>"
  let ?h1 = "?h\<lparr>h_items := (h_items ?h)(a \<mapsto> ?j1, ?n \<mapsto> ?i1)\<rparr>"
  have cl: "connect_left (SOwned ?n) self (SRef a) ?h = Ok (somr_clone (item_right j), ?h1)"
    using g an by (simp add: connect_left_def get_item_unchecked_def upd_item_def heap_simps)
  let ?t = "t\<lparr>yt_map := hm_insert key (SRef ?n) (yt_map t)\<rparr>"
  let ?h2 = "put_ty self ?t ?h1"
  have r: "get_item ?h2 (item_right j) = None"
  proof (cases "somr_ptr (item_right j)")
    case (Some b)
    then have "h_items h b = None" "b \<noteq> ?n" "b \<noteq> a" using j(3,4) assms(5) by (auto simp: get_item_ptr bounded_def)
    then show ?thesis using Some by (simp add: get_item_ptr)
  qed (simp add: get_item_def somr_lookup_def)
  obtain dl where del: "store_delete_item (SRef a) (Some self) st ?h2
      = Ok (st\<lparr>st_delete_set := dl\<rparr>, ?h2\<lparr>h_items := (h_items ?h2)(a \<mapsto> if is_item_deleted ?j1 then ?j1 else mark ?j1)\<rparr>)"
    using delete_plain_item [of "SRef a" a ?h2 ?j1 key "Some self" st] an j(1,2,6) by (auto simp: item_len_def)
  let ?i2 = "i\<lparr>item_left := SRef a, item_right := somr_clone (item_right j)\<rparr>"
  let ?h3 = "?h2\<lparr>h_items := (h_items ?h2)(a \<mapsto> retired ?n j, ?n \<mapsto> ?i2)\<rparr>"
  have cr: "connect_right (SOwned ?n) self (somr_clone (item_right j)) st ?h1 = Ok (st\<lparr>st_delete_set := dl\<rparr>, ?h3)"
    using g(1) assms(8) an r del
    by (simp add: connect_right_def get_item_unchecked_def upd_item_def heap_simps Let_def retired_def fun_upd_twist)
  have "get_item ?h3 (item_right j) = None"
  proof (cases "somr_ptr (item_right j)")
    case (Some b)
    then have "h_items h b = None" "b \<noteq> ?n" "b \<noteq> a" using j(3,4) assms(5) by (auto simp: get_item_ptr bounded_def)
    then show ?thesis using Some by (simp add: get_item_ptr)
  qed (simp add: get_item_def somr_lookup_def)
  then have k: "keyed_heap h self t key (Some a) i ?h3"
    using g(1) assms(5,8) an j(4) ok(4) by (auto simp: keyed_heap_def Let_def heap_simps bounded_def less_SucI get_ty_put)
  have "settle (SOwned ?n) self (st\<lparr>st_delete_set := dl\<rparr>) ?h3 = Ok (st\<lparr>st_delete_set := dl\<rparr>, ?h3)"
    using keyed_settle [OF k ok(5,6)] j(5) by simp
  then show ?thesis using left cl cr k by (auto simp: insert_item_def)
qed


text \<open>What the new heap means for the entries.\<close>

lemma keyed_facts:
  assumes "keyed_heap h self t key old i h'" "map_ok h st self t" "in_type self i" "plain_key h t key" "0 < item_len i"
    and "unat (id_clock (item_id i)) + unat (item_len i) < 2 ^ 64" "parent_sub i = Some key"
    and old: "\<forall>a. old = Some a \<longrightarrow> (\<exists>l. map_of (yt_map t) key = Some l \<and> somr_ptr l = Some a)"
  defines "t' \<equiv> t\<lparr>yt_map := hm_insert key (SRef (h_next h)) (yt_map t)\<rparr>"
  shows "store_ok h' st" "fresh h'" "\<not> parent_dead h' t'" "bounded h' (yt_item t')" "state_of h' st c = state_of h st c"
    "map_of (yt_map t') k = Some r \<Longrightarrow> map_entry h' self k r" "holds_type h' (yt_item t')"
    "k \<noteq> key \<Longrightarrow> map_of (yt_map t) k = Some r \<Longrightarrow> get_item h' r = get_item h r"
proof -
  note ok = map_okD [OF assms(2)]
  let ?n = "h_next h"
  obtain i' where i': "h_items h' ?n = Some i'" "item_id i' = item_id i" "item_content i' = item_content i" "item_flags i' = item_flags i"
      "item_parent i' = item_parent i" "parent_sub i' = Some key" "get_item h' (item_right i') = None" "bounded h' (item_right i')"
    and next': "h_next h' = ?n + 1"
    and other: "\<And>x. x \<noteq> ?n \<Longrightarrow> h_items h' x = (if old = Some x then map_option (retired ?n) (h_items h x) else h_items h x)"
    using assms(1) unfolding keyed_heap_def Let_def by blast
  have retired: "item_id (retired ?n y) = item_id y" "item_len (retired ?n y) = item_len y" "parent_sub (retired ?n y) = parent_sub y" for y
    by (simp_all add: retired_def Let_def item_len_def)
  have grow: "\<exists>z. h_items h' x = Some z \<and> item_id z = item_id y \<and> item_len z = item_len y" if y: "h_items h x = Some y" for x y
    using other [of x] fresh_less [OF ok(2) y] y retired by auto
  show "store_ok h' st" "state_of h' st c = state_of h st c" using store_ok_grow [OF ok(1) grow] by blast+
  show "fresh h'"
    unfolding fresh_def using next' other ok(2) by (auto simp: fresh_def)
  show "bounded h' (yt_item t')" using ok(6) next' by (auto simp: t'_def bounded_def)
  have unold: "old \<noteq> Some x" if "somr_ptr (yt_item t) = Some x" for x
  proof
    assume "old = Some x"
    then obtain l where l: "map_of (yt_map t) key = Some l" "somr_ptr l = Some x" using old by blast
    obtain j where "h_items h x = Some j" using ok(8) [OF l(1)] l(2) by (auto simp: map_entry_def)
    then show False using apart_from_parent [OF assms(2)] that l assms(4) by (fastforce simp: plain_key_def get_item_ptr)
  qed
  have parent: "get_item h' (yt_item t) = get_item h (yt_item t)"
  proof (cases "somr_ptr (yt_item t)")
    case (Some x)
    then have "x \<noteq> ?n" using ok(6) by (auto simp: bounded_def)
    then show ?thesis using other [of x] unold [OF Some] Some by (simp add: get_item_ptr)
  qed (simp add: get_item_def somr_lookup_def)
  then show "\<not> parent_dead h' t'" "holds_type h' (yt_item t')" using ok(5,9) by (simp_all add: t'_def parent_dead_def holds_type_def)
  have same: "h_items h' x = h_items h x \<and> x \<noteq> ?n" if ne: "k \<noteq> key" and m: "map_of (yt_map t) k = Some r" and x: "somr_ptr r = Some x" for k r x
  proof -
    obtain y where y: "h_items h x = Some y" "parent_sub y = Some k" using ok(8) [OF m] x by (auto simp: map_entry_def)
    have "old \<noteq> Some x"
    proof
      assume "old = Some x"
      then obtain l where "map_of (yt_map t) key = Some l" "somr_ptr l = Some x" using old by blast
      then show False using ok(8) [of key l] y ne by (auto simp: map_entry_def)
    qed
    then show ?thesis using other [of x] fresh_less [OF ok(2) y(1)] by simp
  qed
  show "get_item h' r = get_item h r" if ne: "k \<noteq> key" and m: "map_of (yt_map t) k = Some r"
  proof -
    obtain x where x: "somr_ptr r = Some x" using ok(8) [OF m] by (auto simp: map_entry_def)
    then show ?thesis using same [OF ne m x] by (simp add: get_item_ptr)
  qed
  show "map_entry h' self k r" if m: "map_of (yt_map t') k = Some r"
  proof (cases "k = key")
    case True
    then show ?thesis using m i' assms(3,5-7) by (auto simp: t'_def map_entry_def item_len_def in_type_def)
  next
    case False
    then have m': "map_of (yt_map t) k = Some r" using m by (simp add: t'_def)
    obtain x y where y: "somr_ptr r = Some x" "h_items h x = Some y" "parent_sub y = Some k" "in_type self y"
      "get_item h (item_right y) = None" "bounded h (item_right y)"
      "0 < item_len y" "unat (id_clock (item_id y)) + unat (item_len y) < 2 ^ 64"
      using ok(8) [OF m'] by (auto simp: map_entry_def)
    have right: "get_item h' (item_right y) = None"
    proof (cases "somr_ptr (item_right y)")
      case (Some b)
      then have "h_items h b = None" "b \<noteq> ?n" using y(5,6) by (auto simp: get_item_ptr bounded_def)
      then show ?thesis using other [of b] Some by (simp add: get_item_ptr)
    qed (simp add: get_item_def somr_lookup_def)
    show ?thesis using y same [OF False m' y(1)] right next' by (auto simp: t'_def map_entry_def bounded_def)
  qed
qed

text \<open>What a key of a map holds.\<close>

definition key_item :: "heap \<Rightarrow> ytype_ref \<Rightarrow> bytes \<Rightarrow> content option" where
  "key_item h self key =
     (case get_ty h self of
        Some ty \<Rightarrow>
          (case map_of (yt_map ty) key of
             Some r \<Rightarrow> (case get_item h r of Some i \<Rightarrow> if is_item_deleted i then None else Some (item_content i) | None \<Rightarrow> None)
           | None \<Rightarrow> None)
      | None \<Rightarrow> None)"

lemma map_get_item:
  "map_get dflt self key h = (case key_item h self key of None \<Rightarrow> Ok None | Some c \<Rightarrow> rbind (value_from_content dflt h c) (\<lambda>v. Ok (Some v)))"
  "map_contains_key self key h \<longleftrightarrow> key_item h self key \<noteq> None"
  by (simp_all add: map_get_def map_contains_key_def key_item_def split: option.split)

text \<open>How a content is read depends on the heap only through the kinds of its types.\<close>

definition same_kinds :: "heap \<Rightarrow> heap \<Rightarrow> bool" where
  "same_kinds h h' \<longleftrightarrow> (\<forall>r. map_option yt_kind (get_ty h' r) = map_option yt_kind (get_ty h r))"

lemma value_of_kinds: "same_kinds h h' \<Longrightarrow> value_from_content dflt h' c = value_from_content dflt h c"
proof (cases c)
  case (ContentType ty)
  assume "same_kinds h h'"
  then have "map_option yt_kind (get_ty h' ty) = map_option yt_kind (get_ty h ty)" by (simp add: same_kinds_def)
  then show ?thesis using ContentType by (cases "get_ty h ty"; cases "get_ty h' ty") simp_all
qed simp_all

lemma same_kinds_refl [simp]: "same_kinds h h"
  by (simp add: same_kinds_def)

lemma keyed_kinds: "keyed_heap h self t key old i h' \<Longrightarrow> get_ty h self = Some t \<Longrightarrow> same_kinds h h'"
  by (auto simp: keyed_heap_def Let_def same_kinds_def get_ty_same)

text \<open>What happens to one map leaves every other map as it is.\<close>

definition elsewhere :: "heap \<Rightarrow> ytype_ref \<Rightarrow> heap \<Rightarrow> bool" where
  "elsewhere h self h' \<longleftrightarrow> same_kinds h h' \<and>
     (\<forall>other u st st'. map_ok h st other u \<longrightarrow> \<not> same_type other self \<longrightarrow> store_ok h' st' \<longrightarrow>
        map_ok h' st' other u \<and> (\<forall>k. key_item h' other k = key_item h other k) \<and> (\<forall>k. plain_key h u k \<longrightarrow> plain_key h' u k))"

lemma elsewhereD:
  assumes "elsewhere h self h'"
  shows "same_kinds h h'"
    and "map_ok h st other u \<Longrightarrow> \<not> same_type other self \<Longrightarrow> store_ok h' st' \<Longrightarrow> map_ok h' st' other u"
    and "map_ok h st other u \<Longrightarrow> \<not> same_type other self \<Longrightarrow> store_ok h' st' \<Longrightarrow> key_item h' other k = key_item h other k"
    and "map_ok h st other u \<Longrightarrow> \<not> same_type other self \<Longrightarrow> store_ok h' st' \<Longrightarrow> plain_key h u k \<Longrightarrow> plain_key h' u k"
  using assms unfolding elsewhere_def by blast+

lemma elsewhereI:
  assumes kinds: "same_kinds h h'" and fresh: "fresh h'" and "h_next h \<le> h_next h'"
    and types: "\<And>r. \<not> same_type r self \<Longrightarrow> get_ty h' r = get_ty h r"
    and cells: "\<And>x y. h_items h x = Some y \<Longrightarrow> \<not> (in_type self y \<and> plain (item_content y)) \<Longrightarrow> h_items h' x = Some y"
    and dead: "\<And>x. h_items h x = None \<Longrightarrow> x < h_next h \<Longrightarrow> h_items h' x = None"
  shows "elsewhere h self h'"
  unfolding elsewhere_def
proof (intro conjI allI impI kinds)
  fix other u st st'
  assume m: "map_ok h st other u" and apart: "\<not> same_type other self" and store: "store_ok h' st'"
  note ok = map_okD [OF m]
  have dead_item: "get_item h' r = None" if "get_item h r = None" "bounded h r" for r
    using that dead by (cases "somr_ptr r") (auto simp: get_item_def somr_lookup_def bounded_def)
  have item: "get_item h' (yt_item u) = get_item h (yt_item u)"
  proof (cases "get_item h (yt_item u)")
    case None
    then show ?thesis using dead_item ok(6) by simp
  next
    case (Some i)
    then have "\<not> plain (item_content i)" using ok(9) by (simp add: holds_type_def)
    then show ?thesis using Some cells by (cases "somr_ptr (yt_item u)") (auto simp: get_item_def somr_lookup_def)
  qed
  have entry: "map_entry h' other k r \<and> get_item h' r = get_item h r" if e: "map_of (yt_map u) k = Some r" for k r
  proof -
    obtain x y where y: "somr_ptr r = Some x" "h_items h x = Some y" "parent_sub y = Some k" "in_type other y"
      "get_item h (item_right y) = None" "bounded h (item_right y)"
      "0 < item_len y" "unat (id_clock (item_id y)) + unat (item_len y) < 2 ^ 64"
      using ok(8) [OF e] by (auto simp: map_entry_def)
    have "\<not> in_type self y" using y(4) apart by (auto simp: in_type_def same_type_def)
    then have same: "h_items h' x = Some y" using cells y(2) by blast
    have "bounded h' (item_right y)" using y(6) assms(3) by (auto simp: bounded_def)
    then show ?thesis using y same dead_item [OF y(5,6)] by (auto simp: map_entry_def get_item_ptr)
  qed
  show "map_ok h' st' other u"
    using ok(3-7,9) store fresh types [OF apart] item entry assms(3)
    by (fastforce simp: map_ok_def parent_dead_def holds_type_def bounded_def)
  show "key_item h' other k = key_item h other k" for k
    using types [OF apart] ok(4) entry by (auto simp: key_item_def split: option.split)
  show "plain_key h' u k" if "plain_key h u k" for k
    using that entry by (auto simp: plain_key_def)
qed

lemma map_insert_keyed:
  assumes "map_ok h st self t" "plain_key h t key" "plain (content_from_value v)" "content_countable (content_from_value v)"
    and "0 < clock_len (content_from_value v)" "state_of h st (st_client st) + unat (clock_len (content_from_value v)) < 2 ^ 64"
  obtains st' h' t' where "map_insert self key v st h = Ok (st', h')" "map_ok h' st' self t'" "key_item h' self key = Some (content_from_value v)"
    "\<And>k. k \<noteq> key \<Longrightarrow> key_item h' self k = key_item h self k" "elsewhere h self h'"
    "\<And>k. k = key \<or> plain_key h t k \<Longrightarrow> plain_key h' t' k" "st_client st' = st_client st"
    "state_of h' st' (st_client st) = state_of h st (st_client st) + unat (clock_len (content_from_value v))"
proof -
  note ok = map_okD [OF assms(1)]
  let ?c = "content_from_value v" and ?n = "h_next h" and ?p = "Some (ParentType (clone_ytype_ref self))"
  let ?left = "case map_option somr_clone (map_of (yt_map t) key) of Some l \<Rightarrow> l | None \<Rightarrow> SNone"
  have wr: "writable self h" using ok(3,4) by (simp add: writable_def)
  have last: "0 < item_len j \<and> unat (id_clock (item_id j)) + unat (item_len j) < 2 ^ 64" if "get_item h ?left = Some j" for j
  proof (cases "map_of (yt_map t) key")
    case (Some l)
    then show ?thesis using that ok(8) [OF Some] by (auto simp: map_entry_def get_item_ptr)
  qed (use that in \<open>simp add: heap_simps\<close>)
  obtain i clock where i: "create_item ?c ?left SNone ?p (Some key) st h = Ok (SOwned ?n, add_cell i h)"
    "unat clock = state_of h st (st_client st)" "item_id i = new_id (st_client st) clock" "item_left i = ?left"
    "item_right i = SNone" "item_parent i = ?p" "parent_sub i = Some key" "item_content i = ?c"
    "item_flags i = (if content_countable ?c then item_countable else 0)"
    by (rule create_item_ok [OF ok(1,2) assms(3) last])
  have len: "item_len i = clock_len ?c" "unat (id_clock (item_id i)) + unat (item_len i) < 2 ^ 64"
    using i(2,3,8) assms(6) by (simp_all add: item_len_def new_id_def)
  obtain dl old h' where ins: "insert_item (SOwned ?n) self st (add_cell i h) = Ok (st\<lparr>st_delete_set := dl\<rparr>, h')" "keyed_heap h self t key old i h'"
    "\<forall>a. old = Some a \<longrightarrow> (\<exists>l. map_of (yt_map t) key = Some l \<and> somr_ptr l = Some a)"
  proof (cases "map_of (yt_map t) key")
    case None
    then have "item_left i = SNone" using i(4) by simp
    from insert_key_new [OF assms(1) None this i(5,7)] obtain h' where
      "insert_item (SOwned ?n) self st (add_cell i h) = Ok (st, h')" "keyed_heap h self t key None i h'" by blast
    then show thesis using that [of "st_delete_set st" h' None] by simp
  next
    case (Some l)
    then obtain a j where a: "somr_ptr l = Some a" "h_items h a = Some j" using ok(8) [OF Some] by (auto simp: map_entry_def)
    have "item_left i = somr_clone l" using i(4) Some by simp
    from insert_key_old [OF assms(1,2) Some a this i(5,7)] obtain dl h' where
      "insert_item (SOwned ?n) self st (add_cell i h) = Ok (st\<lparr>st_delete_set := dl\<rparr>, h')" "keyed_heap h self t key (Some a) i h'" by blast
    then show thesis using that [of dl h' "Some a"] Some a(1) by simp
  qed
  let ?t = "t\<lparr>yt_map := hm_insert key (SRef ?n) (yt_map t)\<rparr>" and ?st = "st\<lparr>st_delete_set := dl\<rparr>"
  have inn: "in_type self i" using i(6) by (simp add: in_type_def same_type_def clone_ytype_ref_def)
  have pl: "0 < item_len i" using assms(5) len(1) by simp
  note f = keyed_facts [OF ins(2) assms(1) inn assms(2) pl len(2) i(7) ins(3)]
  obtain i' where i': "h_items h' ?n = Some i'" "item_id i' = item_id i" "item_content i' = item_content i" "item_flags i' = item_flags i"
    using ins(2) unfolding keyed_heap_def Let_def by blast
  have ty: "get_ty h' self = Some ?t" using ins(2) by (simp add: keyed_heap_def Let_def)
  have st: "store_ok h' ?st" "state_of h' ?st c = state_of h st c" for c
    using f(1,5) by (simp_all add: store_ok_def state_of_def nodes_of_def)
  note nf = item_node_facts [OF _ i'(1), of "SOwned ?n"]
  have fit: "node_fits h' (st_client st) (Item (SOwned ?n))" "clock_of h' (Item (SOwned ?n)) = state_of h' ?st (st_client st)"
    using nf(3,5) i'(2,3) i(2,3) pl len(2) st(2) by (simp_all add: new_id_def item_len_def)
  note app = appended_node [OF st(1) fit] and add = add_node_continues [OF st(1) fit]
  let ?st' = "?st\<lparr>st_items := hm_insert (st_client st) (nodes_of ?st (st_client st) @ [Item (SOwned ?n)]) (st_items ?st)\<rparr>"
  have "integrate (Item (SOwned ?n)) 0 (Some self) st (add_cell i h) = Ok (?st', h')"
    using ins(1) add i(6) by (simp add: integrate_def cut_item_def get_item_unchecked_def heap_simps)
  then have run: "map_insert self key v st h = Ok (?st', h')"
    using wr ok(4) i(1) by (simp add: map_insert_def Let_def)
  have mok: "map_ok h' ?st' self ?t"
    using app(1) f(2-4,6,7) ok(3,7) ty by (auto simp: map_ok_def)
  have live: "\<not> is_item_deleted i'" using i'(4) i(9) by (simp add: is_item_deleted_def flag_simps)
  have new: "key_item h' self key = Some ?c" using ty i'(1,3) i(8) live by (simp add: key_item_def get_item_ptr)
  have others: "key_item h' self k = key_item h self k" if "k \<noteq> key" for k
    using ty ok(4) f(8) [OF that] that by (auto simp: key_item_def split: option.split)
  have apart: "elsewhere h self h'"
  proof (rule elsewhereI [OF keyed_kinds [OF ins(2) ok(4)] f(2)])
    show "h_next h \<le> h_next h'" "\<not> same_type r self \<Longrightarrow> get_ty h' r = get_ty h r" for r
      using ins(2) by (simp_all add: keyed_heap_def Let_def)
    have cell: "h_items h' x = (if old = Some x then map_option (retired ?n) (h_items h x) else h_items h x)" if "x < h_next h" for x
      using ins(2) that by (simp add: keyed_heap_def Let_def)
    show "h_items h' x = Some y" if y: "h_items h x = Some y" "\<not> (in_type self y \<and> plain (item_content y))" for x y
    proof -
      have "old \<noteq> Some x"
        using ins(3) ok(8) [of key] y assms(2) by (fastforce simp: map_entry_def plain_key_def get_item_ptr)
      then show ?thesis using cell [OF fresh_less [OF ok(2) y(1)]] y(1) by simp
    qed
    show "h_items h' x = None" if "h_items h x = None" "x < h_next h" for x using cell that by simp
  qed
  have plains: "plain_key h' ?t k" if "k = key \<or> plain_key h t k" for k
    using that f(8) [of k] i'(1,3) i(8) assms(3) by (cases "k = key") (auto simp: plain_key_def get_item_ptr)
  show thesis
    by (rule that [OF run mok new others apart plains]) (use app(2) nf(4) i' i(2,3) len(1) st(2) in \<open>simp_all add: new_id_def item_len_def\<close>)
qed


section \<open>Removing a key\<close>

lemma elsewhere_refl [simp]: "elsewhere h self h" if "fresh h"
  by (rule elsewhereI) (use that in simp_all)

lemma map_remove_keyed:
  assumes "map_ok h st self t" "plain_key h t key"
  obtains st' h' where "map_remove self key st h = Ok (st', h')" "map_ok h' st' self t" "key_item h' self key = None"
    "\<And>k. k \<noteq> key \<Longrightarrow> key_item h' self k = key_item h self k" "elsewhere h self h'"
    "\<And>k. plain_key h t k \<Longrightarrow> plain_key h' t k" "st_client st' = st_client st"
    "\<And>c. state_of h' st' c = state_of h st c"
proof -
  note ok = map_okD [OF assms(1)]
  have wr: "writable self h" using ok(3,4) by (simp add: writable_def)
  show thesis
  proof (cases "map_of (yt_map t) key")
    case None
    then have "map_remove self key st h = Ok (st, h)" "key_item h self key = None" using wr ok(4) by (simp_all add: map_remove_def key_item_def)
    then show thesis using that [of st h] assms(1) elsewhere_refl [OF ok(2)] by simp
  next
    case (Some l)
    obtain a j where a: "somr_ptr l = Some a" "h_items h a = Some j" "parent_sub j = Some key" "plain (item_content j)"
      "unat (id_clock (item_id j)) + unat (item_len j) < 2 ^ 64" "somr_ptr (yt_item t) \<noteq> Some a"
    proof -
      obtain a j where a: "somr_ptr l = Some a" "h_items h a = Some j" "parent_sub j = Some key"
        "unat (id_clock (item_id j)) + unat (item_len j) < 2 ^ 64" using ok(8) [OF Some] by (auto simp: map_entry_def)
      then have pj: "plain (item_content j)" using assms(2) Some by (simp add: plain_key_def get_item_ptr)
      show thesis by (rule that [OF a(1-3) pj a(4) apart_from_parent [OF assms(1) a(2) pj]])
    qed
    have pl: "somr_ptr (somr_clone l) = Some a" using a(1) by simp
    let ?j = "if is_item_deleted j then j else mark j"
    let ?h = "h\<lparr>h_items := (h_items h)(a \<mapsto> ?j)\<rparr>"
    obtain dl where del: "store_delete_item (somr_clone l) (Some self) st h = Ok (st\<lparr>st_delete_set := dl\<rparr>, ?h)"
      by (rule delete_plain_item [OF pl a(2,4,3,5)])
    have run: "map_remove self key st h = Ok (st\<lparr>st_delete_set := dl\<rparr>, ?h)"
      using wr ok(4) Some del a(1,2) by (simp add: map_remove_def get_item_ptr)
    have j: "item_id ?j = item_id j" "item_len ?j = item_len j" "parent_sub ?j = parent_sub j" "item_content ?j = item_content j"
      "item_right ?j = item_right j" "is_item_deleted ?j" by simp_all
    have "\<exists>z. h_items ?h x = Some z \<and> item_id z = item_id y \<and> item_len z = item_len y" if "h_items h x = Some y" for x y
      using that a(2) j(1,2) by auto
    note grow = store_ok_grow [OF ok(1) this]
    have live: "get_item ?h r = None \<longleftrightarrow> get_item h r = None" for r
      using a(2) by (cases "somr_ptr r") (auto simp: get_item_def somr_lookup_def)
    have entry: "map_entry ?h self k r" if "map_entry h self k r" for k r
      using that j live a(2) unfolding map_entry_def by (auto simp: bounded_def in_type_def)
    have dead: "\<not> parent_dead ?h t" using ok(5) a(6) by (cases "somr_ptr (yt_item t)") (auto simp: parent_dead_def get_item_def somr_lookup_def)
    have holds: "holds_type ?h (yt_item t)"
      using ok(9) a(6) by (cases "somr_ptr (yt_item t)") (auto simp: holds_type_def get_item_def somr_lookup_def)
    have "store_ok ?h (st\<lparr>st_delete_set := dl\<rparr>)" using grow(1) by (simp add: store_ok_def)
    moreover have "fresh ?h" using ok(2) fresh_less [OF ok(2) a(2)] by (auto simp: fresh_def)
    moreover have "bounded ?h (yt_item t)" using ok(6) by (simp add: bounded_def)
    ultimately have mok: "map_ok ?h (st\<lparr>st_delete_set := dl\<rparr>) self t"
      using ok(3,4,7) entry [OF ok(8)] dead holds by (auto simp: map_ok_def)
    have gone: "key_item ?h self key = None" using ok(4) Some a(1) by (simp add: key_item_def get_item_ptr)
    have others: "key_item ?h self k = key_item h self k" if "k \<noteq> key" for k
    proof (cases "map_of (yt_map t) k")
      case (Some r)
      obtain b y where "somr_ptr r = Some b" "h_items h b = Some y" "parent_sub y = Some k" using ok(8) [OF Some] by (auto simp: map_entry_def)
      then show ?thesis using ok(4) Some a(2,3) \<open>k \<noteq> key\<close> by (auto simp: key_item_def get_item_ptr)
    qed (use ok(4) in \<open>simp add: key_item_def\<close>)
    have apart: "elsewhere h self ?h"
    proof (rule elsewhereI)
      show "same_kinds h ?h" by (simp add: same_kinds_def)
      show "fresh ?h" using ok(2) fresh_less [OF ok(2) a(2)] by (auto simp: fresh_def)
      show "h_items ?h x = Some y" if "h_items h x = Some y" "\<not> (in_type self y \<and> plain (item_content y))" for x y
        using that ok(8) [OF Some] a(1,2,4) by (auto simp: map_entry_def)
    qed (use a(2) in auto)
    have plains: "plain_key ?h t k" if "plain_key h t k" for k
      using that a(2,4) by (force simp: plain_key_def get_item_def somr_lookup_def split: option.splits if_splits)
      have "state_of ?h (st\<lparr>st_delete_set := dl\<rparr>) c = state_of h st c" for c
      using grow(2) by (simp add: state_of_def nodes_of_def)
    then show thesis by (intro that [OF run mok gone others apart plains]) simp_all
  qed
qed

section \<open>Properties\<close>

lemma value_of_plain: "plain c \<Longrightarrow> value_from_content dflt h' c = value_from_content dflt h c"
  by (cases c) (simp_all add: plain_def)

lemma map_get_cong:
  assumes "same_kinds h h'" "key_item h' self key = key_item h self key"
  shows "map_get dflt self key h' = map_get dflt self key h"
  using assms(2) by (simp add: map_get_item value_of_kinds [OF assms(1)] split: option.split)

text \<open>A value that can be set: not a type, and not without length.\<close>

definition settable :: "doc_value \<Rightarrow> store \<Rightarrow> heap \<Rightarrow> bool" where
  "settable v st h \<longleftrightarrow> plain (content_from_value v) \<and> 0 < clock_len (content_from_value v)
     \<and> state_of h st (st_client st) + unat (clock_len (content_from_value v)) < 2 ^ 64"



text \<open>An empty map in an empty store.\<close>

definition empty_map_heap :: heap where
  "empty_map_heap = \<lparr>h_items = Map.empty, h_types = [0 \<mapsto> new_ytype KMap None], h_next = 1\<rparr>"

lemma empty_map_ok: "map_ok empty_map_heap (with_client 1) single_ref (new_ytype KMap None)"
  by (simp add: map_ok_def empty_map_heap_def single_ref_def with_client_def store_ok_def fresh_def get_ty_def somr_lookup_def
      parent_dead_def bounded_def hm_wf_def new_ytype_def get_item_def holds_type_def)

lemma empty_map_plain: "plain_key h (new_ytype KMap None) key"
  by (simp add: plain_key_def new_ytype_def)

lemma empty_map_settable: "settable (ValueAny AnyTrue) (with_client 1) empty_map_heap"
  by (simp add: settable_def plain_def content_from_any_def state_of_def nodes_of_def with_client_def)



text \<open>The iterators give every key once, exactly those that are there.\<close>

lemma map_keys_exact:
  assumes "map_ok h st self t"
  shows "distinct (map_keys self h)" "set (map_keys self h) = {k. map_contains_key self k h}"
proof -
  note ok = map_okD [OF assms]
  have sub: "(k, i) \<in> set (map_entries_of h m) \<Longrightarrow> k \<in> fst ` set m" for m k i
    by (induction m) (auto split: option.splits if_splits)
  have d: "distinct (map fst (map_entries_of h m))" if "distinct (map fst m)" for m
    using that
  proof (induction m)
    case (Cons a m)
    moreover have "fst a \<notin> fst ` set (map_entries_of h m)" using Cons.prems sub by force
    ultimately show ?case by (cases a) (simp split: option.split)
  qed simp
  have s: "k \<in> fst ` set (map_entries_of h m) \<longleftrightarrow>
      (case map_of m k of Some r \<Rightarrow> (case get_item h r of Some i \<Rightarrow> \<not> is_item_deleted i | None \<Rightarrow> False) | None \<Rightarrow> False)"
    if "distinct (map fst m)" for m k
    using that
  proof (induction m)
    case (Cons a m)
    show ?case
    proof (cases "fst a = k")
      case True
      then have "k \<notin> fst ` set (map_entries_of h m)" using Cons.prems sub by force
      then show ?thesis using True by (cases a) (auto  split: option.split)
    next
      case False
      then show ?thesis using Cons by (cases a) (auto  split: option.split)
    qed
  qed simp
  show "distinct (map_keys self h)" "set (map_keys self h) = {k. map_contains_key self k h}"
    using d s ok(4,7) by (auto simp: map_keys_def map_iter_def map_contains_key_def hm_wf_def )
qed

end
