(* ===== verification/Value_Display.thy ===== *)
theory Value_Display
  imports Map_Type
begin

text \<open>
  The \<open>Display\<close> implementations, which turn identifiers and values into text:
  \<open>libs/jwst-codec/src/doc/codec/id.rs\<close>, \<open>doc/codec/any.rs\<close> and \<open>doc/types/value.rs\<close>.  How the
  standard library writes a floating-point number is a parameter, \<open>float_env\<close>.
\<close>

section \<open>Numbers\<close>

text \<open>\<open>Display\<close> of the integer types.\<close>

fun digits :: "nat \<Rightarrow> bytes" where
  "digits n = (if n < 10 then [of_nat (48 + n)] else digits (n div 10) @ [of_nat (48 + n mod 10)])"

declare digits.simps [simp del]

definition show_u64 :: "u64 \<Rightarrow> bytes" where
  "show_u64 n = digits (unat n)"

definition show_int :: "int \<Rightarrow> bytes" where
  "show_int n = (if n < 0 then [45] else []) @ digits (nat \<bar>n\<bar>)"

definition show_id :: "id \<Rightarrow> bytes" where
  "show_id i = str_bytes ''('' @ show_u64 (id_client i) @ str_bytes '', '' @ show_u64 (id_clock i) @ str_bytes '')''"

section \<open>Values\<close>

record float_env =
  show_f32 :: "u32 \<Rightarrow> bytes"
  show_f64 :: "u64 \<Rightarrow> bytes"

text \<open>The elements with a comma and a space between them.\<close>

fun separated_by :: "bytes list \<Rightarrow> bytes" where
  "separated_by [] = []"
| "separated_by [x] = x"
| "separated_by (x # y # ys) = x @ str_bytes '', '' @ separated_by (y # ys)"

fun any_display :: "float_env \<Rightarrow> any \<Rightarrow> bytes" where
  "any_display env AnyTrue = str_bytes ''true''"
| "any_display env AnyFalse = str_bytes ''false''"
| "any_display env (AnyString s) = s"
| "any_display env (AnyInteger i) = show_int (sint i)"
| "any_display env (AnyFloat32 v) = show_f32 env v"
| "any_display env (AnyFloat64 v) = show_f64 env v"
| "any_display env (AnyBigInt64 v) = show_int (sint v)"
| "any_display env (AnyObject entries) =
     str_bytes ''{'' @ separated_by (map (\<lambda>kv. case kv of (key, v) \<Rightarrow> key @ str_bytes '': '' @ any_display env v) entries) @ str_bytes ''}''"
| "any_display env (AnyArray vec) = str_bytes ''['' @ separated_by (map (\<lambda>v. any_display env v) vec) @ str_bytes '']''"
| "any_display env (AnyBinary buf) = str_bytes ''['' @ separated_by (map (\<lambda>b. digits (unat b)) buf) @ str_bytes '']''"
| "any_display env AnyUndefined = str_bytes ''undefined''"
| "any_display env AnyNull = str_bytes ''null''"

text \<open>Only plain values and texts have a text; the read lock of a text is why it can panic.\<close>

definition value_display :: "float_env \<Rightarrow> doc_value \<Rightarrow> heap \<Rightarrow> ('e, bytes) result" where
  "value_display env v h =
     (case v of
        ValueAny any \<Rightarrow> Ok (any_display env any)
      | ValueText txt \<Rightarrow> text_display txt h
      | _ \<Rightarrow> Ok [])"

section \<open>Numbers are written in one way\<close>

fun number :: "bytes \<Rightarrow> nat" where
  "number ds = foldl (\<lambda>n d. 10 * n + (unat d - 48)) 0 ds"

lemma digit_back: "n < 10 \<Longrightarrow> unat (of_nat (48 + n) :: u8) = 48 + n"
  by (simp add: unat_of_nat del: of_nat_add)

lemma number_digits: "number (digits n) = n"
proof (induction n rule: digits.induct)
  case (1 n)
  show ?case
  proof (cases "n < 10")
    case True
    then show ?thesis using digit_back [OF True] by (simp add: digits.simps [of n])
  next
    case False
    then have "number (digits (n div 10)) = n div 10" by (rule 1)
    moreover have "n mod 10 < 10" by simp
    ultimately show ?thesis using False digit_back [of "n mod 10"] by (simp add: digits.simps [of n])
  qed
qed

lemma digits_inject: "digits m = digits n \<longleftrightarrow> m = n"
  by (metis number_digits)

lemma digits_range: "d \<in> set (digits n) \<Longrightarrow> 48 \<le> unat d \<and> unat d < 58"
proof (induction n arbitrary: d rule: digits.induct)
  case (1 n)
  have "unat (of_nat (48 + k) :: u8) = 48 + k" if "k < 10" for k using that by (rule digit_back)
  from this [of n] this [of "n mod 10"] show ?case
    using 1 by (auto simp: digits.simps [of n] split: if_splits)
qed

lemma show_u64_inject: "show_u64 a = show_u64 b \<longleftrightarrow> a = b"
  by (simp add: show_u64_def digits_inject word_unat_eq_iff)

text \<open>An identifier can be read off its text, so two items of a history never have the same one.\<close>

lemma split_at_comma:
  assumes "xs @ 44 # us = ys @ 44 # vs" "44 \<notin> set xs" "44 \<notin> set ys"
  shows "xs = ys \<and> us = vs"
  using assms
proof (induction xs arbitrary: ys)
  case Nil then show ?case by (cases ys) auto
next
  case (Cons x xs) then show ?case by (cases ys) auto
qed

lemma no_comma: "44 \<notin> set (digits n)"
  using digits_range [of 44 n] by auto

lemma show_id_inject: "show_id i = show_id j \<longleftrightarrow> i = j"
proof
  assume "show_id i = show_id j"
  then have "show_u64 (id_client i) @ 44 # 32 # show_u64 (id_clock i) = show_u64 (id_client j) @ 44 # 32 # show_u64 (id_clock j)"
    by (simp add: show_id_def str_bytes_def)
  from split_at_comma [OF this] no_comma show "i = j"
    by (simp add: show_u64_def digits_inject word_unat_eq_iff)
qed simp

end
