(* ===== verification/History.thy ===== *)
theory History
  imports Value_Display
begin

text \<open>
  The history of a document, \<open>libs/jwst-codec/src/doc/history.rs\<close>: the items of the store or of an
  update as entries with the path from the root to the item, its content as text and what
  happened to it.  The walk towards the root is a loop that follows ids through a map, so it is a
  \<open>partial_function\<close> into \<open>option\<close>, where \<open>None\<close> says that it never returns.
\<close>

section \<open>Data\<close>

datatype parent_node = ParentRoot bytes | ParentNode somr | ParentUnknown

record history_options =
  ho_client :: "client option"
  ho_skip :: "nat option"
  ho_limit :: "nat option"

datatype history_action = HistoryInsert | HistoryUpdate | HistoryDelete

fun action_name :: "history_action \<Rightarrow> bytes" where
  "action_name HistoryInsert = str_bytes ''insert''"
| "action_name HistoryUpdate = str_bytes ''update''"
| "action_name HistoryDelete = str_bytes ''delete''"

record history =
  hist_id :: bytes
  hist_field :: "bytes option"
  hist_parent :: "bytes list"
  hist_content :: bytes
  hist_action :: history_action

type_synonym parents = "(id, somr) hashmap"

text \<open>What the entries depend on besides the heap: the map of items, and the parameters of reading a value.\<close>

record history_env =
  he_parents :: parents
  he_dflt :: doc_options
  he_float :: float_env

section \<open>Resolving the items of a store\<close>

fun note_nodes :: "heap \<Rightarrow> node list \<Rightarrow> parents \<Rightarrow> parents" where
  "note_nodes h [] parents = parents"
| "note_nodes h (n # ns) parents =
     (let node = as_item n in
      case get_item h node of
        Some item \<Rightarrow>
          note_nodes h ns
            (hm_insert (item_id item)
              (case map_of parents (item_id item) of
                 Some e \<Rightarrow> if item_ref_eq h e node then e else somr_clone node
               | None \<Rightarrow> somr_clone node) parents)
      | None \<Rightarrow> note_nodes h ns parents)"

definition resolve_with_store :: "store \<Rightarrow> heap \<Rightarrow> parents \<Rightarrow> parents" where
  "resolve_with_store st h parents = note_nodes h (concat (map snd (st_items st))) parents"

section \<open>Nodes by client\<close>

record sorted_nodes =
  sn_nodes :: "(client \<times> node list) list"
  sn_current :: "node list option"

text \<open>The sort is stable and descending; the lists are taken from the back.\<close>

definition new_sorted_nodes :: "(client \<times> node list) list \<Rightarrow> sorted_nodes" where
  "new_sorted_nodes nodes =
     (let nodes = rev (sort_key fst (rev nodes)) in
      if nodes = [] then \<lparr>sn_nodes = [], sn_current = None\<rparr>
      else \<lparr>sn_nodes = butlast nodes, sn_current = Some (snd (last nodes))\<rparr>)"

definition pop_current :: "sorted_nodes \<Rightarrow> (node \<times> sorted_nodes) option" where
  "pop_current s =
     (case sn_current s of
        Some current \<Rightarrow> if current = [] then None else Some (last current, s\<lparr>sn_current := Some (butlast current)\<rparr>)
      | None \<Rightarrow> None)"

function sorted_next :: "sorted_nodes \<Rightarrow> node option \<times> sorted_nodes" where
  "sorted_next s =
     (case pop_current s of
        Some (node, s) \<Rightarrow> (Some node, s)
      | None \<Rightarrow>
          if sn_nodes s = [] then (None, s)
          else sorted_next (s\<lparr>sn_nodes := butlast (sn_nodes s), sn_current := Some (snd (last (sn_nodes s)))\<rparr>))"
  by pat_completeness auto
termination by (relation "measure (\<lambda>s. length (sn_nodes s))") (auto simp: length_greater_0_conv)

declare sorted_next.simps [simp del]

definition nodes_left :: "sorted_nodes \<Rightarrow> node list" where
  "nodes_left s = rev (concat (map snd (sn_nodes s)) @ (case sn_current s of Some current \<Rightarrow> current | None \<Rightarrow> []))"

lemma concat_butlast: "xs \<noteq> [] \<Longrightarrow> concat (map snd (butlast xs)) @ snd (last xs) = concat (map snd xs)"
  by (induction xs rule: rev_induct) auto

lemma sorted_next_left:
  "nodes_left s = (case sorted_next s of (Some node, s') \<Rightarrow> node # nodes_left s' | (None, s') \<Rightarrow> [])"
proof (induction s rule: sorted_next.induct)
  case (1 s)
  show ?case
  proof (cases "pop_current s")
    case (Some p)
    obtain current where c: "sn_current s = Some current" "current \<noteq> []" "p = (last current, s\<lparr>sn_current := Some (butlast current)\<rparr>)"
      using Some by (auto simp: pop_current_def split: option.splits if_splits)
    have "rev current = last current # rev (butlast current)"
      using c(2) by (metis append_butlast_last_id rev.simps(2) rev_rev_ident rev_swap)
    then show ?thesis using Some c(1,3) by (simp add: sorted_next.simps [of s] nodes_left_def)
  next
    case None
    show ?thesis
    proof (cases "sn_nodes s = []")
      case True
      then show ?thesis using None by (auto simp: sorted_next.simps [of s] nodes_left_def pop_current_def split: option.splits if_splits)
    next
      case False
      let ?s = "s\<lparr>sn_nodes := butlast (sn_nodes s), sn_current := Some (snd (last (sn_nodes s)))\<rparr>"
      note concat_butlast [OF False]
      then have "nodes_left ?s = nodes_left s" using None
        by (auto simp: nodes_left_def pop_current_def split: option.splits if_splits)
      then show ?thesis using 1 None False by (simp add: sorted_next.simps [of s])
    qed
  qed
qed

text \<open>The iterator as the list of what it gives.\<close>

function sorted_collect :: "sorted_nodes \<Rightarrow> node list" where
  "sorted_collect s = (case sorted_next s of (Some node, s) \<Rightarrow> node # sorted_collect s | (None, s) \<Rightarrow> [])"
  by pat_completeness auto
termination
proof (relation "measure (\<lambda>s. length (nodes_left s))", goal_cases)
  case (2 s p r node)
  then show ?case using sorted_next_left [of s] by (cases "sorted_next s") auto
qed simp

declare sorted_collect.simps [simp del]

lemma sorted_collect_left: "sorted_collect s = nodes_left s"
proof (induction s rule: sorted_collect.induct)
  case (1 s)
  then show ?case using sorted_next_left [of s]
    by (cases "sorted_next s") (auto simp: sorted_collect.simps [of s] split: option.split)
qed

lemma sorted_collect_new:
  "sorted_collect (new_sorted_nodes nodes) = concat (map (\<lambda>e. rev (snd e)) (sort_key fst (rev nodes)))"
proof -
  let ?ns = "rev (sort_key fst (rev nodes))"
  have r: "rev (concat (map snd xs)) = concat (map (\<lambda>e. rev (snd e)) (rev xs))" for xs :: "(client \<times> node list) list"
    by (induction xs) auto
  have "nodes_left (new_sorted_nodes nodes) = rev (concat (map snd ?ns))"
    using concat_butlast [of ?ns] by (cases "?ns = []") (simp_all only: nodes_left_def new_sorted_nodes_def Let_def, simp_all)
  then show ?thesis unfolding sorted_collect_left r by simp
qed


section \<open>Paths\<close>

fun count_left :: "nat \<Rightarrow> heap \<Rightarrow> item \<Rightarrow> nat \<Rightarrow> ('e, nat) result" where
  "count_left 0 h cur idx = Panic"
| "count_left (Suc fuel) h cur idx =
     (case get_item h (item_left cur) of
        Some item \<Rightarrow> if idx + 1 < 2 ^ 31 then count_left fuel h (clone_item item) (idx + 1) else Panic
      | None \<Rightarrow> Ok idx)"

definition get_node_name :: "heap \<Rightarrow> item \<Rightarrow> ('e, bytes) result" where
  "get_node_name h item =
     (case parent_sub item of
        Some name \<Rightarrow> Ok name
      | None \<Rightarrow> rbind (count_left (h_next h + 1) h (clone_item item) 0) (\<lambda>idx. Ok (digits idx)))"

definition get_parent :: "heap \<Rightarrow> parents \<Rightarrow> parent option \<Rightarrow> parent_node" where
  "get_parent h parents parent =
     (case parent of
        None \<Rightarrow> ParentUnknown
      | Some (ParentType ptr) \<Rightarrow>
          (case get_ty h ptr of
             None \<Rightarrow> ParentUnknown
           | Some ty \<Rightarrow>
               (case (case get_item h (yt_item ty) of Some i \<Rightarrow> map_of parents (item_id i) | None \<Rightarrow> None) of
                  Some p \<Rightarrow> ParentNode (somr_clone p)
                | None \<Rightarrow> (case yt_root_name ty of Some name \<Rightarrow> ParentRoot name | None \<Rightarrow> ParentUnknown)))
      | Some (ParentString name) \<Rightarrow> ParentRoot name
      | Some (ParentId i) \<Rightarrow> (case map_of parents i of Some p \<Rightarrow> ParentNode (somr_clone p) | None \<Rightarrow> ParentUnknown))"

text \<open>One turn of the loop: stop with a path, or go on from the parent.\<close>

definition path_turn :: "heap \<Rightarrow> parents \<Rightarrow> item \<Rightarrow> bytes list \<Rightarrow> ('e, bytes list + item \<times> bytes list) result" where
  "path_turn h parents cur path =
     (case find_node_with_parent_info h cur of
        None \<Rightarrow> Ok (Inl path)
      | Some node \<Rightarrow>
          rbind (get_node_name h node) (\<lambda>name.
          case get_parent h parents (item_parent node) of
            ParentRoot root \<Rightarrow> Ok (Inl (path @ [name, root]))
          | ParentNode parent \<Rightarrow>
              (case get_item h parent of
                 Some parent \<Rightarrow> Ok (Inr (clone_item parent, path @ [name]))
               | None \<Rightarrow> Ok (Inl (path @ [name])))
          | ParentUnknown \<Rightarrow> Ok (Inl (path @ [name]))))"

partial_function (option) path_loop :: "heap \<Rightarrow> parents \<Rightarrow> item \<Rightarrow> bytes list \<Rightarrow> ('e, bytes list) result option" where
  "path_loop h parents cur path =
     (case path_turn h parents cur path of
        Ok (Inl path) \<Rightarrow> Some (Ok path)
      | Ok (Inr (cur, path)) \<Rightarrow> path_loop h parents cur path
      | Err e \<Rightarrow> Some (Err e)
      | Panic \<Rightarrow> Some Panic)"

definition parse_path :: "heap \<Rightarrow> parents \<Rightarrow> item \<Rightarrow> ('e, bytes list) result option" where
  "parse_path h parents item =
     map_option (\<lambda>r. rbind r (\<lambda>path. Ok (rev path))) (path_loop h parents (clone_item item) [])"

section \<open>Entries\<close>

text \<open>A computation that may not return, followed by one that uses its outcome.\<close>

definition obind :: "('e, 'a) result option \<Rightarrow> ('a \<Rightarrow> ('e, 'b) result option) \<Rightarrow> ('e, 'b) result option" where
  "obind m f = (case m of None \<Rightarrow> None | Some (Ok x) \<Rightarrow> f x | Some (Err e) \<Rightarrow> Some (Err e) | Some Panic \<Rightarrow> Some Panic)"

lemma obind_eq [outcome_simps]: "obind m f = Some (Ok y) \<longleftrightarrow> (\<exists>x. m = Some (Ok x) \<and> f x = Some (Ok y))"
  by (auto simp: obind_def split: option.splits result.splits)

lemma obind_simps [simp]: "obind (Some (Ok x)) f = f x" "obind (Some Panic) f = Some Panic" "obind None f = None"
  by (simp_all add: obind_def)

definition parse_entry :: "history_env \<Rightarrow> heap \<Rightarrow> history_action \<Rightarrow> item \<Rightarrow> ('e, history) result option" where
  "parse_entry env h action item =
     obind (parse_path h (he_parents env) item) (\<lambda>path.
     Some (rbind (value_from_content (he_dflt env) h (item_content item)) (\<lambda>v.
           rbind (value_display (he_float env) v h) (\<lambda>content.
           Ok \<lparr>hist_id = show_id (item_id item), hist_field = parent_sub item, hist_parent = path,
               hist_content = content, hist_action = action\<rparr>))))"

fun parse_items :: "history_env \<Rightarrow> heap \<Rightarrow> item list \<Rightarrow> ('e, history list) result option" where
  "parse_items env h [] = Some (Ok [])"
| "parse_items env h (item # items) =
     (if is_item_deleted item then parse_items env h items
      else obind (parse_entry env h HistoryUpdate item) (\<lambda>entry.
           obind (parse_items env h items) (\<lambda>rest. Some (Ok (entry # rest)))))"

fun parse_deleted_items :: "history_env \<Rightarrow> heap \<Rightarrow> item list \<Rightarrow> ('e, history list) result option" where
  "parse_deleted_items env h [] = Some (Ok [])"
| "parse_deleted_items env h (item # items) =
     obind (parse_entry env h HistoryDelete item) (\<lambda>entry.
     obind (parse_deleted_items env h items) (\<lambda>rest. Some (Ok (entry # rest))))"

text \<open>\<open>filter_map (as_item().get().cloned())\<close>.\<close>

definition items_of :: "heap \<Rightarrow> node list \<Rightarrow> item list" where
  "items_of h ns = List.map_filter (\<lambda>n. map_option clone_item (get_item h (as_item n))) ns"

definition by_clock :: "item list \<Rightarrow> item list" where
  "by_clock = sort_key (\<lambda>i. id_clock (item_id i))"

definition parse_update :: "history_env \<Rightarrow> heap \<Rightarrow> update \<Rightarrow> ('e, history list) result option" where
  "parse_update env h u =
     parse_items env h (by_clock (items_of h (sorted_collect (new_sorted_nodes (u_structs u)))))"

definition parse_store :: "history_env \<Rightarrow> store \<Rightarrow> heap \<Rightarrow> history_options \<Rightarrow> ('e, history list) result option" where
  "parse_store env st h options =
     (let client = (case ho_client options of Some c \<Rightarrow> if c \<noteq> 0 then Some c else None | None \<Rightarrow> None);
          nodes = (case client of
                     Some c \<Rightarrow> (case map_of (st_items st) c of Some i \<Rightarrow> [(c, i)] | None \<Rightarrow> [])
                   | None \<Rightarrow> st_items st);
          items = items_of h (sorted_collect (new_sorted_nodes nodes));
          items = (if client \<noteq> None then (case ho_skip options of Some n \<Rightarrow> drop n items | None \<Rightarrow> items) else items);
          items = (if client \<noteq> None then (case ho_limit options of Some n \<Rightarrow> take n items | None \<Rightarrow> items) else items)
      in parse_items env h (by_clock items))"

text \<open>The ranges that are deleted now and were not before.\<close>

definition new_deletions :: "delete_set \<Rightarrow> delete_set \<Rightarrow> (client \<times> order_range) list" where
  "new_deletions old_sets new_sets =
     List.map_filter (\<lambda>(i, new_range).
       let rng = (case map_of old_sets i of Some r \<Rightarrow> Fragment (diff_range r new_range) | None \<Rightarrow> new_range)
       in if is_empty rng then None else Some (i, rng)) new_sets"

fun within_range :: "heap \<Rightarrow> order_range \<Rightarrow> node list \<Rightarrow> ('e, node list) result" where
  "within_range h rng [] = Ok []"
| "within_range h rng (n # ns) =
     rbind (node_clock h n) (\<lambda>clock.
     rbind (within_range h rng ns) (\<lambda>rest. Ok (if contains rng clock then n # rest else rest)))"

fun deleted_items :: "store \<Rightarrow> heap \<Rightarrow> (client \<times> order_range) list \<Rightarrow> ('e, item list) result" where
  "deleted_items st h [] = Ok []"
| "deleted_items st h ((client, rng) # ranges) =
     rbind (case map_of (st_items st) client of
              Some items \<Rightarrow> rbind (within_range h rng items) (\<lambda>ns. Ok (items_of h ns))
            | None \<Rightarrow> Ok []) (\<lambda>items.
     rbind (deleted_items st h ranges) (\<lambda>rest. Ok (items @ rest)))"

definition parse_delete_sets :: "history_env \<Rightarrow> store \<Rightarrow> heap \<Rightarrow> delete_set \<Rightarrow> delete_set \<Rightarrow> ('e, history list) result option" where
  "parse_delete_sets env st h old_sets new_sets =
     obind (Some (deleted_items st h (new_deletions old_sets new_sets))) (\<lambda>items. parse_deleted_items env h items)"

text \<open>\<open>Doc::history\<close>: a history with the items of the store resolved.\<close>

definition doc_history :: "store \<Rightarrow> heap \<Rightarrow> parents" where
  "doc_history st h = resolve_with_store st h []"


section \<open>Properties\<close>

text \<open>
  The walk towards the root as a derivation: it stops at a root, or goes on from the parent.  A derivation
  is finite, so where there is one the loop returns.
\<close>

inductive located :: "heap \<Rightarrow> parents \<Rightarrow> item \<Rightarrow> bytes list \<Rightarrow> bool" for h parents where
  at_root: "find_node_with_parent_info h cur = Some node \<Longrightarrow> get_node_name h node = (Ok name :: _ codec_result)
     \<Longrightarrow> get_parent h parents (item_parent node) = ParentRoot root \<Longrightarrow> located h parents cur [root, name]"
| inside: "find_node_with_parent_info h cur = Some node \<Longrightarrow> get_node_name h node = (Ok name :: _ codec_result)
     \<Longrightarrow> get_parent h parents (item_parent node) = ParentNode p \<Longrightarrow> get_item h p = Some parent
     \<Longrightarrow> located h parents (clone_item parent) path \<Longrightarrow> located h parents cur (path @ [name])"

inductive_cases locatedE: "located h parents cur path"

lemma path_loop_located:
  "located h parents cur path \<Longrightarrow> path_loop h parents cur acc = Some (Ok (acc @ rev path) :: _ codec_result)"
proof (induction arbitrary: acc rule: located.induct)
  case (at_root cur node name root)
  then show ?case by (simp add: path_loop.simps [of h parents cur] path_turn_def)
next
  case (inside cur node name p parent path)
  from inside.IH [of "acc @ [name]"] inside.hyps show ?case
    by (simp add: path_loop.simps [of h parents cur] path_turn_def)
qed

lemma located_unique: "located h parents cur path \<Longrightarrow> located h parents cur path' \<Longrightarrow> path = path'"
  using path_loop_located [of h parents cur path "[]"] path_loop_located [of h parents cur path' "[]"] by simp

text \<open>The ids of the items among the nodes of a client are all different, and so are those of all clients.\<close>

lemma items_of_Cons:
  "items_of h (n # ns) = (case get_item h (as_item n) of Some i \<Rightarrow> clone_item i # items_of h ns | None \<Rightarrow> items_of h ns)"
  by (simp add: items_of_def List.map_filter_simps split: option.split)

lemma items_of_Nil: "items_of h [] = []"
  by (simp add: items_of_def List.map_filter_simps)

lemma items_of_append: "items_of h (as @ bs) = items_of h as @ items_of h bs"
  by (induction as) (simp_all add: items_of_Cons items_of_Nil split: option.split)

lemma items_of_rev: "items_of h (rev ns) = rev (items_of h ns)"
  by (induction ns) (simp_all add: items_of_Cons items_of_Nil items_of_append split: option.split)

lemma items_of_set: "set (items_of h ns) = {clone_item i |i r. r \<in> set ns \<and> get_item h (as_item r) = Some i}"
  by (induction ns) (auto simp: items_of_Cons items_of_Nil split: option.split)

lemma clone_facts: "item_id (clone_item i) = item_id i" "is_item_deleted (clone_item i) = is_item_deleted i"
  "parent_sub (clone_item i) = parent_sub i"
  by (simp_all add: clone_item_def is_item_deleted_def)

lemma run_ids:
  assumes "run h client c ns"
  shows "distinct (map item_id (items_of h ns)) \<and> (\<forall>i \<in> set (items_of h ns). id_client (item_id i) = client \<and> c \<le> unat (id_clock (item_id i)))"
  using assms
proof (induction ns arbitrary: c)
  case (Cons n ns)
  then have n: "node_fits h client n" "clock_of h n = c" "run h client (end_of h n) ns" by simp_all
  note IH = Cons.IH [OF n(3)] and span = node_fits_span [OF n(1)]
  show ?case
  proof (cases "get_item h (as_item n)")
    case (Some i)
    then obtain r where "n = Item r" by (cases n) (auto simp: get_item_def somr_lookup_def)
    then have "n = Item r" "get_item h r = Some i" using Some by (simp_all add: heap_simps)
    then have "id_client (item_id i) = client" "unat (id_clock (item_id i)) = c"
      using n(1,2) by (auto simp: clock_of_def get_item_unchecked_def new_id_def elim!: node_fitsD)
    moreover from this(2) IH span n(2) have "item_id i \<notin> item_id ` set (items_of h ns)" by fastforce
    ultimately show ?thesis using IH span n(2) Some by (auto simp: items_of_Cons clone_item_def)
  next
    case None
    then show ?thesis using IH span n(2) by (auto simp: items_of_Cons)
  qed
qed (simp add: items_of_def)

lemma store_ids:
  assumes "distinct (map fst es)" "\<forall>(client, ns) \<in> set es. run h client 0 ns"
  shows "distinct (map item_id (items_of h (concat (map (\<lambda>e. rev (snd e)) es))))
    \<and> (\<forall>i \<in> set (items_of h (concat (map (\<lambda>e. rev (snd e)) es))). id_client (item_id i) \<in> fst ` set es)"
  using assms
proof (induction es)
  case (Cons e es)
  obtain client ns where e: "e = (client, ns)" by (cases e)
  have r: "run h client 0 ns" using Cons.prems(2) e by simp
  have IH: "distinct (map item_id (items_of h (concat (map (\<lambda>e. rev (snd e)) es))))"
    "\<forall>i \<in> set (items_of h (concat (map (\<lambda>e. rev (snd e)) es))). id_client (item_id i) \<in> fst ` set es"
    using Cons by auto
  have "client \<notin> fst ` set es" using Cons.prems(1) e by simp
  then show ?case using IH run_ids [OF r] by (auto simp: e items_of_append items_of_rev rev_map [symmetric])
qed (simp add: items_of_def)


lemma parse_items_entries:
  assumes "parse_items env h items = Some (Ok hs :: _ codec_result)"
  shows "list_all2 (\<lambda>e i. hist_id e = show_id (item_id i) \<and> hist_field e = parent_sub i \<and> hist_action e = HistoryUpdate
      \<and> parse_path h (he_parents env) i = Some (Ok (hist_parent e) :: _ codec_result)) hs (filter (\<lambda>i. \<not> is_item_deleted i) items)"
  using assms
  by (induction items arbitrary: hs) (auto simp: outcome_simps parse_entry_def split: if_splits)


definition hello_env :: history_env where
  "hello_env = \<lparr>he_parents = [], he_dflt = default_options 1 [], he_float = \<lparr>show_f32 = \<lambda>_. [], show_f64 = \<lambda>_. []\<rparr>\<rparr>"

lemma hello_history:
  "parse_store hello_env single_store hello_heap \<lparr>ho_client = None, ho_skip = None, ho_limit = None\<rparr>
     = Some (Ok [\<lparr>hist_id = show_id (new_id 1 0), hist_field = None, hist_parent = [digits 0], hist_content = hello, hist_action = HistoryUpdate\<rparr>]
         :: _ codec_result)"
proof -
  let ?i = "single_item (ContentString hello)"
  have i: "items_of hello_heap (sorted_collect (new_sorted_nodes (st_items single_store))) = [clone_item ?i]"
    using single_cells(2,3) [of KText "ContentString hello"]
    by (simp add: sorted_collect_new single_store_def items_of_Cons items_of_Nil)
  have "item_left (clone_item (clone_item (clone_item ?i))) = SNone" by (simp add: single_item_def clone_item_def)
  then have "path_turn hello_heap [] (clone_item (clone_item ?i)) [] = (Ok (Inl [digits 0]) :: _ codec_result)"
    using single_cells(4) [of KText "ContentString hello"]
    by (simp add: path_turn_def find_node_with_parent_info_def single_item_def clone_item_def get_node_name_def heap_simps
        get_parent_def single_type_def new_ytype_def clone_ytype_ref_def single_ref_def numeral_2_eq_2)
  then have "parse_path hello_heap [] (clone_item ?i) = (Some (Ok [digits 0]) :: _ codec_result option)"
    by (simp add: parse_path_def path_loop.simps)
  moreover have "item_id ?i = new_id 1 0" "parent_sub ?i = None" "item_content (clone_item ?i) = ContentString hello"
    by (simp_all add: single_item_def clone_item_def)
  ultimately show ?thesis using i single_item_live(1) [of "ContentString hello"]
    by (simp add: parse_store_def by_clock_def clone_facts parse_entry_def hello_env_def value_display_def)
qed




text \<open>An item under the key \<open>[2]\<close> of a type that sits under the key \<open>[1]\<close> of the root \<open>[0]\<close>.\<close>

definition outer_item :: item where
  "outer_item = (single_item (ContentAny []))\<lparr>item_parent := Some (ParentString [0]), parent_sub := Some [1]\<rparr>"

definition inner_item :: item where
  "inner_item = (single_item (ContentAny []))\<lparr>item_id := new_id 1 1, item_parent := Some (ParentId (new_id 1 0)), parent_sub := Some [2]\<rparr>"


end
