(* ===== verification/Publisher.thy ===== *)
theory Publisher
  imports History
begin

text \<open>
  The publisher of a document, \<open>libs/jwst-codec/src/doc/publisher.rs\<close>: a thread that looks at the
  store every hundred milliseconds and tells the subscribers what has changed since it last told
  them.  A turn of its loop is an operation on the publisher, the store and the heap; starting and
  stopping the thread only say whether there are turns.  What a callback does with its arguments
  is not modelled: a turn gives the calls.
\<close>

section \<open>State\<close>

text \<open>\<open>pub_observer\<close>: the thread, with its \<open>last_update\<close> and \<open>last_deletes\<close>.\<close>

record 's publisher =
  pub_parents :: parents
  pub_subscribers :: "'s list"
  pub_observing :: bool
  pub_observer :: "(state_vector \<times> delete_set) option"

text \<open>Equality of hash maps.\<close>

definition hm_eq :: "('k, 'v) hashmap \<Rightarrow> ('k, 'v) hashmap \<Rightarrow> bool" where
  "hm_eq a b \<longleftrightarrow> length a = length b \<and> list_all (\<lambda>(k, v). map_of b k = Some v) a"

section \<open>Operations\<close>

definition start_publisher :: "store \<Rightarrow> heap \<Rightarrow> 's publisher \<Rightarrow> (codec_error, 's publisher) result" where
  "start_publisher st h p =
     (case pub_observer p of
        None \<Rightarrow>
          rbind (get_state_vector h st) (\<lambda>last_update.
          Ok (p\<lparr>pub_observing := True, pub_observer := Some (last_update, st_delete_set st)\<rparr>))
      | Some _ \<Rightarrow> Ok p)"

definition new_publisher :: "store \<Rightarrow> heap \<Rightarrow> (codec_error, 's publisher) result" where
  "new_publisher st h =
     start_publisher st h
       \<lparr>pub_parents = resolve_with_store st h [], pub_subscribers = [], pub_observing = False, pub_observer = None\<rparr>"

definition stop_publisher :: "'s publisher \<Rightarrow> 's publisher" where
  "stop_publisher p =
     (case pub_observer p of Some _ \<Rightarrow> p\<lparr>pub_observing := False, pub_observer := None\<rparr> | None \<Rightarrow> p)"

definition subscriber_count :: "'s publisher \<Rightarrow> nat" where
  "subscriber_count p = length (pub_subscribers p)"

definition subscribe :: "'s \<Rightarrow> 's publisher \<Rightarrow> 's publisher" where
  "subscribe s p = p\<lparr>pub_subscribers := pub_subscribers p @ [s]\<rparr>"

definition unsubscribe_all :: "'s publisher \<Rightarrow> 's publisher" where
  "unsubscribe_all p = p\<lparr>pub_subscribers := []\<rparr>"

definition drop_publisher :: "'s publisher \<Rightarrow> 's publisher" where
  "drop_publisher p = unsubscribe_all (stop_publisher p)"

text \<open>
  What is sent: the update since \<open>last_update\<close> as bytes, and the entries of its items and of the
  deletions since \<open>last_deletes\<close>.  \<open>Ok None\<close> is one of the two \<open>continue\<close>s after an error.
\<close>

definition publication ::
    "serde_env \<Rightarrow> history_env \<Rightarrow> state_vector \<Rightarrow> delete_set \<Rightarrow> store \<Rightarrow> heap
       \<Rightarrow> (codec_error, (bytes \<times> history list \<times> heap) option) result option" where
  "publication senv env last_update last_deletes st h =
     (case diff_state_vector last_update False st h of
        Err e \<Rightarrow> Some (Ok None)
      | Panic \<Rightarrow> Some Panic
      | Ok (u, h) \<Rightarrow>
          obind (parse_update env h u) (\<lambda>updates.
          obind (parse_delete_sets env st h last_deletes (st_delete_set st)) (\<lambda>deletions.
          case encode_v1 senv h u of
            Err e \<Rightarrow> Some (Ok None)
          | Panic \<Rightarrow> Some Panic
          | Ok binary \<Rightarrow> Some (Ok (Some (binary, updates @ deletions, h))))))"

definition observe_turn ::
    "serde_env \<Rightarrow> history_env \<Rightarrow> store \<Rightarrow> heap \<Rightarrow> 's publisher
       \<Rightarrow> (codec_error, 's publisher \<times> ('s \<times> bytes \<times> history list) list \<times> heap) result option" where
  "observe_turn senv env st h p =
     (case pub_observer p of
        None \<Rightarrow> Some (Ok (p, [], h))
      | Some (last_update, last_deletes) \<Rightarrow>
          if \<not> pub_observing p \<or> pub_subscribers p = [] then Some (Ok (p, [], h))
          else
            obind (Some (get_state_vector h st)) (\<lambda>update.
            let deletes = st_delete_set st in
            if \<not> hm_eq update last_update \<or> \<not> hm_eq deletes last_deletes then
              let p = p\<lparr>pub_parents := resolve_with_store st h (pub_parents p)\<rparr> in
              obind (publication senv (env\<lparr>he_parents := pub_parents p\<rparr>) last_update last_deletes st h) (\<lambda>r.
              case r of
                None \<Rightarrow> Some (Ok (p, [], h))
              | Some (binary, history, h) \<Rightarrow>
                  Some (Ok (p\<lparr>pub_observer := Some (update, deletes)\<rparr>,
                            map (\<lambda>cb. (cb, binary, history)) (pub_subscribers p), h)))
            else Some (Ok (p, [], h))))"

section \<open>Properties\<close>

lemma hm_eq_refl: "hm_wf m \<Longrightarrow> hm_eq m m"
  by (auto simp: hm_eq_def hm_wf_def list_all_iff)

lemma hm_eq_map_of:
  assumes "hm_eq a b" "hm_wf a" "hm_wf b"
  shows "map_of a = map_of b"
proof -
  have sub: "set a \<subseteq> set b" using assms(1) by (auto simp: hm_eq_def list_all_iff dest: map_of_SomeD)
  have "distinct a" "distinct b" using assms(2,3) by (auto simp: hm_wf_def distinct_map)
  then have "card (set a) = card (set b)" using assms(1) by (simp add: hm_eq_def distinct_card)
  with sub have "set a = set b" by (simp add: card_subset_eq)
  then show ?thesis using assms(2,3) by (simp add: hm_wf_def map_of_inject_set)
qed


text \<open>A second turn on the same store stays silent.\<close>

lemma observe_turn_again:
  assumes "pub_observer p = Some (sv, st_delete_set st)" "get_state_vector h st = Ok sv" "hm_wf sv" "hm_wf (st_delete_set st)"
  shows "observe_turn senv env st h p = Some (Ok (p, [], h))"
  using assms by (simp add: observe_turn_def hm_eq_refl)


text \<open>A subscriber of a document without items that is told of a deletion.\<close>

definition no_env :: serde_env where "no_env = \<lparr>to_json = \<lambda>_. None, from_json = \<lambda>_. None, size_of_any = 1\<rparr>"

definition told_store :: store where "told_store = (with_client 1)\<lparr>st_delete_set := [(7, Range (mk_range 2 5))]\<rparr>"

definition told_publisher :: "string publisher" where
  "told_publisher = \<lparr>pub_parents = [], pub_subscribers = [''a'', ''b''], pub_observing = True, pub_observer = Some ([], [])\<rparr>"

lemma told_publication:
  "publication no_env (hello_env\<lparr>he_parents := []\<rparr>) [] [] told_store empty_heap = Some (Ok (Some ([0, 0], [], empty_heap)))"
proof -
  have diff: "diff_state_vector [] False told_store empty_heap = Ok (default_update, empty_heap)"
    by (simp add: diff_state_vector_def diff_structs_def told_store_def with_client_def diff_state_vectors_def generate_delete_set_def
        default_update_def)
  have upd: "parse_update (hello_env\<lparr>he_parents := []\<rparr>) empty_heap default_update = (Some (Ok []) :: _ codec_result option)"
    by (simp add: parse_update_def default_update_def sorted_collect_new items_of_Nil by_clock_def)
  have "deleted_items told_store empty_heap rs = (Ok [] :: _ codec_result)" for rs
    by (induction rs) (auto simp: told_store_def with_client_def)
  then have del: "parse_delete_sets (hello_env\<lparr>he_parents := []\<rparr>) told_store empty_heap [] ds = (Some (Ok []) :: _ codec_result option)" for ds
    by (simp add: parse_delete_sets_def)
  have enc: "encode_v1 no_env empty_heap default_update = Ok [0, 0]"
    by (simp add: encode_v1_def write_update_def default_update_def write_delete_set_def enc_write_var_u64_def new_encoder_def write_var_u64.simps [of _ 0])
  show ?thesis using diff upd del enc by (simp add: publication_def)
qed


end
