(* ===== verification/Page_Tree.thy ===== *)
theory Page_Tree
  imports Publisher
begin

text \<open>
  The page tree of a workspace, \<open>libs/jwst-core/src/workspaces/metadata/pages.rs\<close>: the metadata of
  the pages read from an array of maps, and the question whether a page is shared, which searches
  the tree below the shared root pinboard.  Iterating an array is a \<open>partial_function\<close>: on a heap
  with a cyclic list it would not end.  Conversions from floating point are parameters.
\<close>

section \<open>Reading every value of an array\<close>

lemma obind_as_bind:
  "obind m f = Option.bind m (\<lambda>r. case r of Ok x \<Rightarrow> f x | Err e \<Rightarrow> Some (Err e) | Panic \<Rightarrow> Some Panic)"
  by (simp add: obind_def split: option.split result.split)

lemma obind_mono [partial_function_mono]:
  assumes "mono_option B" "\<And>y. mono_option (\<lambda>f. C y f)"
  shows "mono_option (\<lambda>f. obind (B f) (\<lambda>y. C y f))"
  unfolding obind_as_bind
proof (intro bind_mono assms(1))
  fix r
  show "mono_option (\<lambda>f. case r of Ok x \<Rightarrow> C x f | Err e \<Rightarrow> Some (Err e) | Panic \<Rightarrow> Some Panic)"
    using assms(2) by (cases r) (simp_all add: monotone_def flat_ord_def fun_ord_def)
qed

partial_function (option) array_collect :: "doc_options \<Rightarrow> heap \<Rightarrow> array_iter \<Rightarrow> ('e, doc_value list) result option" where
  "array_collect dflt h it =
     obind (Some (array_next dflt h it)) (\<lambda>(r, it).
     case r of
       None \<Rightarrow> Some (Ok [])
     | Some v \<Rightarrow> obind (array_collect dflt h it) (\<lambda>vs. Some (Ok (v # vs))))"

definition array_all :: "doc_options \<Rightarrow> ytype_ref \<Rightarrow> heap \<Rightarrow> ('e, doc_value list) result option" where
  "array_all dflt self h = obind (Some (new_array_iter self h)) (array_collect dflt h)"

lemma array_collect_take:
  assumes "\<And>n. array_take n dflt h it = (Ok (take n vs) :: ('e, doc_value list) result)"
  shows "array_collect dflt h it = (Some (Ok vs) :: ('e, doc_value list) result option)"
  using assms
proof (induction vs arbitrary: it)
  case Nil
  from Nil [of 1] obtain it' where "array_next dflt h it = (Ok (None, it') :: ('e, _) result)"
    by (cases "array_next dflt h it :: ('e, _) result") (auto split: option.splits prod.splits)
  then show ?case by (simp add: array_collect.simps [of dflt h it])
next
  case (Cons v vs)
  from Cons.prems [of 1] obtain it' where it': "array_next dflt h it = (Ok (Some v, it') :: ('e, _) result)"
    by (cases "array_next dflt h it :: ('e, _) result") (auto split: option.splits prod.splits)
  have "array_take n dflt h it' = (Ok (take n vs) :: ('e, _) result)" for n
    using Cons.prems [of "Suc n"] it' by (cases "array_take n dflt h it' :: ('e, _) result") simp_all
  from Cons.IH [OF this] it' show ?case by (simp add: array_collect.simps [of dflt h it])
qed

lemma array_all_values:
  assumes "array_ok h st self t cs"
  shows "array_all dflt self h = Some (Ok (view values_of h cs) :: _ codec_result)"
proof -
  obtain it where it: "new_array_iter self h = (Ok it :: _ codec_result)"
    using list_okD(4) [OF array_okD(1) [OF assms]] by (simp add: new_array_iter_def)
  have "array_take n dflt h it = (Ok (take n (view values_of h cs)) :: _ codec_result)" for n
    using array_okD(4) [OF assms, of n dflt] it by (simp add: array_values_def)
  from array_collect_take [OF this] it show ?thesis by (simp add: array_all_def)
qed

section \<open>Metadata of a page\<close>

record page_meta =
  pm_id :: bytes
  pm_favorite :: "bool option"
  pm_is_pinboard :: "bool option"
  pm_is_shared :: "bool option"
  pm_init :: "bool option"
  pm_sub_page_ids :: "bytes list"
  pm_title :: "bytes option"
  pm_trash :: "bool option"
  pm_trash_date :: "u64 option"

text \<open>What reading needs besides the heap: \<open>as\<close> conversions to and from \<open>f64\<close>, and the time.\<close>

record core_env =
  ce_dflt :: doc_options
  ce_float :: float_env
  ce_f64_of_i32 :: "i32 \<Rightarrow> u64"
  ce_i64_of_f64 :: "u64 \<Rightarrow> i64"
  ce_usize_of_f64 :: "u64 \<Rightarrow> u64"
  ce_now_secs :: i64
  ce_f64_of_i64 :: "i64 \<Rightarrow> u64"
  ce_now_millis :: i64

fun string_values :: "any list \<Rightarrow> bytes list" where
  "string_values [] = []"
| "string_values (AnyString s # vs) = s # string_values vs"
| "string_values (_ # vs) = string_values vs"

definition get_string_array :: "core_env \<Rightarrow> ytype_ref \<Rightarrow> bytes \<Rightarrow> heap \<Rightarrow> ('e, bytes list) result" where
  "get_string_array env m key h =
     rbind (map_get (ce_dflt env) m key h) (\<lambda>v.
     Ok (case v of Some (ValueAny (AnyArray a)) \<Rightarrow> string_values a | _ \<Rightarrow> []))"

fun bool_value :: "doc_value \<Rightarrow> bool option" where
  "bool_value (ValueAny AnyTrue) = Some True"
| "bool_value (ValueAny AnyFalse) = Some False"
| "bool_value _ = None"

definition get_bool :: "core_env \<Rightarrow> ytype_ref \<Rightarrow> bytes \<Rightarrow> heap \<Rightarrow> ('e, bool option) result" where
  "get_bool env m key h =
     rbind (map_get (ce_dflt env) m key h) (\<lambda>v. Ok (Option.bind v bool_value))"

fun number_value :: "core_env \<Rightarrow> doc_value \<Rightarrow> u64 option" where
  "number_value env (ValueAny (AnyFloat64 n)) = Some n"
| "number_value env (ValueAny (AnyInteger n)) = Some (ce_f64_of_i32 env n)"
| "number_value env _ = None"

definition get_number :: "core_env \<Rightarrow> ytype_ref \<Rightarrow> bytes \<Rightarrow> heap \<Rightarrow> ('e, u64 option) result" where
  "get_number env m key h =
     rbind (map_get (ce_dflt env) m key h) (\<lambda>v. Ok (Option.bind v (number_value env)))"

text \<open>\<open>map.get(key).map(to_string)\<close>.\<close>

definition get_text :: "core_env \<Rightarrow> ytype_ref \<Rightarrow> bytes \<Rightarrow> heap \<Rightarrow> ('e, bytes option) result" where
  "get_text env m key h =
     rbind (map_get (ce_dflt env) m key h) (\<lambda>v.
     case v of
       None \<Rightarrow> Ok None
     | Some v \<Rightarrow> rbind (value_display (ce_float env) v h) (\<lambda>s. Ok (Some s)))"

definition page_meta_from :: "core_env \<Rightarrow> ytype_ref \<Rightarrow> heap \<Rightarrow> ('e, page_meta) result" where
  "page_meta_from env m h =
     rbind (get_text env m (str_bytes ''id'') h) (\<lambda>i.
     rbind (get_bool env m (str_bytes ''favorite'') h) (\<lambda>favorite.
     rbind (get_bool env m (str_bytes ''isRootPinboard'') h) (\<lambda>is_pinboard.
     rbind (get_bool env m (str_bytes ''isPublic'') h) (\<lambda>is_public.
     rbind (case is_public of
              Some b \<Rightarrow> Ok (Some b)
            | None \<Rightarrow>
                rbind (get_number env m (str_bytes ''isPublic'') h) (\<lambda>exp.
                Ok (map_option (\<lambda>exp. sint (ce_now_secs env) < sint (ce_i64_of_f64 env exp)) exp))) (\<lambda>is_shared.
     rbind (get_bool env m (str_bytes ''init'') h) (\<lambda>ini.
     rbind (get_string_array env m (str_bytes ''subpageIds'') h) (\<lambda>sub_page_ids.
     rbind (get_text env m (str_bytes ''title'') h) (\<lambda>title.
     rbind (get_bool env m (str_bytes ''trash'') h) (\<lambda>trash.
     rbind (get_number env m (str_bytes ''trashDate'') h) (\<lambda>trash_date.
     Ok \<lparr>pm_id = (case i of Some i \<Rightarrow> i | None \<Rightarrow> []), pm_favorite = favorite, pm_is_pinboard = is_pinboard,
         pm_is_shared = is_shared, pm_init = ini, pm_sub_page_ids = sub_page_ids, pm_title = title, pm_trash = trash,
         pm_trash_date = (case map_option (ce_usize_of_f64 env) trash_date of
                            Some v \<Rightarrow> if 0 < v then Some v else None
                          | None \<Rightarrow> None)\<rparr>))))))))))"

section \<open>The pages\<close>

type_synonym page_map = "(bytes, page_meta) hashmap"

fun pages_from :: "core_env \<Rightarrow> heap \<Rightarrow> doc_value list \<Rightarrow> ('e, (bytes \<times> page_meta) list) result" where
  "pages_from env h [] = Ok []"
| "pages_from env h (v # vs) =
     (case to_map v of
        None \<Rightarrow> pages_from env h vs
      | Some m \<Rightarrow>
          rbind (page_meta_from env m h) (\<lambda>meta.
          rbind (pages_from env h vs) (\<lambda>rest. Ok ((pm_id meta, meta) # rest))))"

definition read_pages :: "core_env \<Rightarrow> ytype_ref \<Rightarrow> heap \<Rightarrow> ('e, page_map) result option" where
  "read_pages env pages h =
     obind (array_all (ce_dflt env) pages h) (\<lambda>vs.
     Some (rbind (pages_from env h vs) (\<lambda>entries. Ok (hm_collect entries))))"

text \<open>The loop of \<open>check_pinboard\<close>; the top of the stack is the head of the list.\<close>

lemma pin_search_measure:
  fixes pages :: page_map
  defines "U \<equiv> \<Union> ((\<lambda>e. set (pm_sub_page_ids (snd e))) ` set pages)"
  assumes "map_of pages current = Some page" "current \<notin> set visited"
  shows "card ((U \<union> set (rev (pm_sub_page_ids page) @ stack)) - set (current # visited))
    < card ((U \<union> set (current # stack)) - set visited)"
proof -
  have "set (pm_sub_page_ids page) \<subseteq> U" using assms(2) unfolding U_def by (force dest: map_of_SomeD)
  then have "(U \<union> set (rev (pm_sub_page_ids page) @ stack)) - set (current # visited) \<subseteq> (U \<union> set (current # stack)) - set visited - {current}"
    by auto
  moreover have "finite (U \<union> set (current # stack))" unfolding U_def by simp
  moreover have "current \<in> (U \<union> set (current # stack)) - set visited" using assms(3) by simp
  ultimately show ?thesis by (metis (no_types, lifting) card_Diff1_less card_mono finite_Diff le_less_trans)
qed

function pin_search :: "page_map \<Rightarrow> bytes \<Rightarrow> bytes list \<Rightarrow> bytes list \<Rightarrow> bool" where
  "pin_search pages page_id visited [] = False"
| "pin_search pages page_id visited (current # stack) =
     (if current \<in> set visited then pin_search pages page_id visited stack
      else (case map_of pages current of
              Some page \<Rightarrow>
                if pm_id page = page_id then True
                else pin_search pages page_id (visited @ [current]) (rev (pm_sub_page_ids page) @ stack)
            | None \<Rightarrow> pin_search pages page_id (visited @ [current]) stack))"
  by pat_completeness auto
termination
proof (relation "measures [\<lambda>(pages, page_id, visited, stack).
    card ((\<Union> ((\<lambda>e. set (pm_sub_page_ids (snd e))) ` set pages) \<union> set stack) - set visited), \<lambda>(pages, page_id, visited, stack). length stack]",
    goal_cases)
  case (2 pages page_id visited current stack)
  let ?U = "\<Union> ((\<lambda>e. set (pm_sub_page_ids (snd e))) ` set pages)"
  have "card ((?U \<union> set stack) - set visited) \<le> card ((?U \<union> set (current # stack)) - set visited)"
    by (rule card_mono) auto
  then show ?case by (auto simp: less_le)
next
  case (3 pages page_id visited current stack)
  let ?U = "\<Union> ((\<lambda>e. set (pm_sub_page_ids (snd e))) ` set pages)"
  have "card ((?U \<union> set stack) - set (visited @ [current])) \<le> card ((?U \<union> set (current # stack)) - set visited - {current})"
    by (rule card_mono) auto
  moreover have "card ((?U \<union> set (current # stack)) - set visited - {current}) < card ((?U \<union> set (current # stack)) - set visited)"
    using 3 by (intro card_Diff1_less) auto
  ultimately show ?case by simp
next
  case (4 pages page_id visited current stack page)
  then show ?case using pin_search_measure [of pages current page visited stack] by simp
qed simp

declare pin_search.simps [simp del]

definition check_pinboard :: "page_map \<Rightarrow> bytes \<Rightarrow> bool" where
  "check_pinboard pages page_id =
     (case find (\<lambda>meta. pm_is_pinboard meta = Some True \<and> pm_is_shared meta = Some True) (map snd pages) of
        Some root_pinboard_page \<Rightarrow> pin_search pages page_id [] [pm_id root_pinboard_page]
      | None \<Rightarrow> False)"

definition pages_shared :: "page_map \<Rightarrow> bytes \<Rightarrow> bool" where
  "pages_shared pages page_id =
     (if map_of pages page_id \<noteq> None then
        check_pinboard pages page_id \<or> list_ex (\<lambda>meta. pm_is_shared meta = Some True \<and> pm_id meta = page_id) (map snd pages)
      else False)"

definition check_shared :: "core_env \<Rightarrow> ytype_ref \<Rightarrow> bytes \<Rightarrow> heap \<Rightarrow> ('e, bool) result option" where
  "check_shared env pages page_id h =
     obind (read_pages env pages h) (\<lambda>pages. Some (Ok (pages_shared pages page_id)))"

section \<open>Properties\<close>

text \<open>The page tree as a relation: from a page to the pages it names.\<close>

definition subpage :: "page_map \<Rightarrow> (bytes \<times> bytes) set" where
  "subpage pages = {(a, b). \<exists>page. map_of pages a = Some page \<and> b \<in> set (pm_sub_page_ids page)}"

definition keyed :: "page_map \<Rightarrow> bool" where
  "keyed pages \<longleftrightarrow> hm_wf pages \<and> (\<forall>(k, page) \<in> set pages. pm_id page = k)"

lemma keyed_id: "keyed pages \<Longrightarrow> map_of pages k = Some page \<Longrightarrow> pm_id page = k"
  by (auto simp: keyed_def dest: map_of_SomeD)

text \<open>
  What the loop keeps: a page that has been visited was not the one looked for, and the pages it names have
  been visited or are on the stack.
\<close>

lemma leaves_visited:
  assumes "(a, p) \<in> (subpage pages)\<^sup>*" "a \<in> V" "p \<notin> V" "\<forall>x \<in> V. \<forall>b. (x, b) \<in> subpage pages \<longrightarrow> b \<in> V \<union> S"
  shows "\<exists>s \<in> S - V. (s, p) \<in> (subpage pages)\<^sup>*"
  using assms(1,2)
proof (induction rule: converse_rtrancl_induct)
  case (step y z)
  show ?case
  proof (cases "z \<in> V")
    case False
    then have "z \<in> S - V" using assms(4) step.hyps(1) step.prems by blast
    with step.hyps(2) show ?thesis by blast
  qed (rule step.IH)
qed (use assms(3) in blast)

lemma pin_search_exact:
  assumes "keyed pages" "map_of pages page_id \<noteq> None"
    and "\<forall>a \<in> set visited. a \<noteq> page_id \<and> (\<forall>b. (a, b) \<in> subpage pages \<longrightarrow> b \<in> set visited \<union> set stack)"
  shows "pin_search pages page_id visited stack \<longleftrightarrow> (\<exists>a \<in> set stack. (a, page_id) \<in> (subpage pages)\<^sup>*)"
  using assms
proof (induction pages page_id visited stack rule: pin_search.induct)
  case (1 pages page_id visited)
  then show ?case by (simp add: pin_search.simps)
next
  case (2 pages page_id visited current stack)
  let ?R = "subpage pages"
  have page: "pm_id page = current" if "map_of pages current = Some page" for page using 2(4) that by (rule keyed_id)
  consider (seen) "current \<in> set visited" | (found) page where "current \<notin> set visited" "map_of pages current = Some page" "current = page_id"
    | (go) page where "current \<notin> set visited" "map_of pages current = Some page" "current \<noteq> page_id"
    | (none) "current \<notin> set visited" "map_of pages current = None" by fastforce
  then show ?case
  proof cases
    case seen
    have "\<exists>a \<in> set stack. (a, page_id) \<in> ?R\<^sup>*" if "(current, page_id) \<in> ?R\<^sup>*"
      using leaves_visited [OF that seen, of "set (current # stack)"] 2(6) seen by auto
    moreover have "pin_search pages page_id visited stack = (\<exists>a \<in> set stack. (a, page_id) \<in> ?R\<^sup>*)"
      by (rule 2(1) [OF seen 2(4,5)]) (use 2(6) seen in auto)
    ultimately show ?thesis using seen by (auto simp: pin_search.simps)
  next
    case found
    then show ?thesis using page by (auto simp: pin_search.simps)
  next
    case go
    have id: "pm_id page \<noteq> page_id" using page [OF go(2)] go(3) by simp
    have sub: "(current, b) \<in> ?R \<longleftrightarrow> b \<in> set (pm_sub_page_ids page)" for b using go(2) by (simp add: subpage_def)
    have "(current, page_id) \<in> ?R\<^sup>* \<longleftrightarrow> (\<exists>b \<in> set (pm_sub_page_ids page). (b, page_id) \<in> ?R\<^sup>*)"
      using go(3) sub by (metis converse_rtranclE converse_rtrancl_into_rtrancl)
    moreover have "pin_search pages page_id (visited @ [current]) (rev (pm_sub_page_ids page) @ stack)
        = (\<exists>a \<in> set (rev (pm_sub_page_ids page) @ stack). (a, page_id) \<in> ?R\<^sup>*)"
      by (rule 2(3) [OF go(1,2) id 2(4,5)]) (use 2(6) go(3) sub in auto)
    ultimately show ?thesis using go(1,2) id by (auto simp: pin_search.simps)
  next
    case none
    have no: "(current, b) \<notin> ?R" for b using none(2) by (simp add: subpage_def)
    have "current \<noteq> page_id" using none(2) 2(5) by auto
    then have "(current, page_id) \<notin> ?R\<^sup>*" using no by (metis converse_rtranclE)
    moreover have "pin_search pages page_id (visited @ [current]) stack = (\<exists>a \<in> set stack. (a, page_id) \<in> ?R\<^sup>*)"
      by (rule 2(2) [OF none 2(4,5)]) (use 2(6) \<open>current \<noteq> page_id\<close> no in auto)
    ultimately show ?thesis using none by (simp add: pin_search.simps)
  qed
qed

text \<open>What is read from a document is keyed by the ids.\<close>

lemma hm_collect_keyed:
  assumes "\<forall>(k, page) \<in> set es. pm_id page = k"
  shows "keyed (hm_collect es)"
proof -
  have put: "keyed (fold (\<lambda>(k, v) m. hm_insert k v m) es m)" if "keyed m" for m
    using that assms
  proof (induction es arbitrary: m)
    case (Cons e es)
    have "keyed (hm_insert (fst e) (snd e) m)"
      using Cons.prems hm_insert_entries [of m "fst e" "snd e"] by (auto simp: keyed_def)
    then show ?case using Cons by (simp add: case_prod_unfold)
  qed simp
  have "keyed []" by (simp add: keyed_def hm_wf_def)
  from put [OF this] show ?thesis by (simp only: hm_collect_def)
qed

lemma read_pages_keyed:
  assumes "read_pages env pages h = Some (Ok m :: _ codec_result)"
  shows "keyed m"
proof -
  have "\<forall>(k, page) \<in> set es. pm_id page = k" if "pages_from env h vs = (Ok es :: _ codec_result)" for vs es
    using that by (induction vs arbitrary: es) (auto simp: outcome_simps split: option.splits)
  then show ?thesis using assms hm_collect_keyed by (auto simp: read_pages_def outcome_simps)
qed

text \<open>
  C9: A page is shared exactly when it is a page of the workspace and is shared itself, or lies below the root
  pinboard: the first page, in the order of the hash map, that is a pinboard and shared reaches it through
  the sub pages.  The search ends on every page tree, with cycles and with sub pages that do not exist.
\<close>

theorem check_shared_exact:
  assumes "read_pages env pages h = Some (Ok m :: _ codec_result)"
  shows "check_shared env pages page_id h = Some (Ok
      (page_id \<in> dom (map_of m)
       \<and> ((\<exists>root. find (\<lambda>meta. pm_is_pinboard meta = Some True \<and> pm_is_shared meta = Some True) (map snd m) = Some root
             \<and> (pm_id root, page_id) \<in> (subpage m)\<^sup>*)
          \<or> (\<exists>page. map_of m page_id = Some page \<and> pm_is_shared page = Some True))) :: _ codec_result)"
proof -
  note keyed = read_pages_keyed [OF assms]
  have "check_pinboard m page_id \<longleftrightarrow> (\<exists>root. find (\<lambda>meta. pm_is_pinboard meta = Some True \<and> pm_is_shared meta = Some True) (map snd m) = Some root
      \<and> (pm_id root, page_id) \<in> (subpage m)\<^sup>*)" if "map_of m page_id \<noteq> None"
    using pin_search_exact [OF keyed that, of "[]"] by (simp add: check_pinboard_def split: option.split)
  moreover have "list_ex (\<lambda>meta. pm_is_shared meta = Some True \<and> pm_id meta = page_id) (map snd m)
      \<longleftrightarrow> (\<exists>page. map_of m page_id = Some page \<and> pm_is_shared page = Some True)"
  proof -
    have in_m: "map_of m page_id = Some page" if "(k, page) \<in> set m" "pm_id page = page_id" for k page
      using keyed that by (auto simp: keyed_def hm_wf_def)
    show ?thesis
    proof
      assume "list_ex (\<lambda>meta. pm_is_shared meta = Some True \<and> pm_id meta = page_id) (map snd m)"
      then obtain e where "e \<in> set m" "pm_is_shared (snd e) = Some True" "pm_id (snd e) = page_id"
        by (auto simp: list_ex_iff)
      with in_m [of "fst e" "snd e"] show "\<exists>page. map_of m page_id = Some page \<and> pm_is_shared page = Some True" by auto
    next
      assume "\<exists>page. map_of m page_id = Some page \<and> pm_is_shared page = Some True"
      then obtain page where page: "map_of m page_id = Some page" "pm_is_shared page = Some True" by blast
      with keyed_id [OF keyed page(1)] map_of_SomeD [OF page(1)]
      show "list_ex (\<lambda>meta. pm_is_shared meta = Some True \<and> pm_id meta = page_id) (map snd m)"
        by (auto simp: list_ex_iff intro: bexI [of _ "(page_id, page)"])
    qed
  qed
  ultimately have "pages_shared m page_id \<longleftrightarrow> page_id \<in> dom (map_of m)
       \<and> ((\<exists>root. find (\<lambda>meta. pm_is_pinboard meta = Some True \<and> pm_is_shared meta = Some True) (map snd m) = Some root
             \<and> (pm_id root, page_id) \<in> (subpage m)\<^sup>*)
          \<or> (\<exists>page. map_of m page_id = Some page \<and> pm_is_shared page = Some True))"
    unfolding pages_shared_def by (cases "map_of m page_id = None") (simp_all only: domIff simp_thms if_True if_False not_False_eq_True)
  then show ?thesis using assms by (simp add: check_shared_def)
qed


text \<open>A workspace with one page, which is public.\<close>

definition page_ref :: ytype_ref where "page_ref = \<lparr>yr_store = True, yr_inner = SRef 1\<rparr>"

definition page_heap :: heap where
  "page_heap =
     \<lparr>h_items = [1 \<mapsto> single_item (ContentType page_ref), 2 \<mapsto> single_item (ContentAny [AnyString [99]]), 3 \<mapsto> single_item (ContentAny [AnyTrue])],
      h_types = [0 \<mapsto> (new_ytype KArray None)\<lparr>yt_start := SRef 1, yt_len := 1\<rparr>,
                 1 \<mapsto> (new_ytype KMap None)\<lparr>yt_map := [(str_bytes ''id'', SRef 2), (str_bytes ''isPublic'', SRef 3)]\<rparr>],
      h_next = 4\<rparr>"

definition page_env :: core_env where
  "page_env = \<lparr>ce_dflt = default_options 1 [], ce_float = \<lparr>show_f32 = \<lambda>_. [], show_f64 = \<lambda>_. []\<rparr>, ce_f64_of_i32 = \<lambda>_. 0,
     ce_i64_of_f64 = \<lambda>_. 0, ce_usize_of_f64 = \<lambda>_. 0, ce_now_secs = 0,
     ce_f64_of_i64 = \<lambda>_. 0, ce_now_millis = 0\<rparr>"

definition public_page :: page_meta where
  "public_page = \<lparr>pm_id = [99], pm_favorite = None, pm_is_pinboard = None, pm_is_shared = Some True, pm_init = None, pm_sub_page_ids = [],
     pm_title = None, pm_trash = None, pm_trash_date = None\<rparr>"

lemma public_page_meta: "page_meta_from page_env page_ref page_heap = (Ok public_page :: _ codec_result)"
proof -
  have ty: "get_ty page_heap page_ref = Some ((new_ytype KMap None)\<lparr>yt_map := [(str_bytes ''id'', SRef 2), (str_bytes ''isPublic'', SRef 3)]\<rparr>)"
    by (simp add: page_heap_def page_ref_def get_ty_def somr_lookup_def)
  have cell: "get_item page_heap (SRef 2) = Some (single_item (ContentAny [AnyString [99]]))"
    "get_item page_heap (SRef 3) = Some (single_item (ContentAny [AnyTrue]))" by (simp_all add: heap_simps page_heap_def)
  have get: "map_get dflt page_ref key page_heap =
      (Ok (if key = str_bytes ''id'' then Some (ValueAny (AnyString [99])) else if key = str_bytes ''isPublic'' then Some (ValueAny AnyTrue) else None) :: _ codec_result)"
    for dflt key
    using single_item_live(1) by (auto simp: map_get_def ty cell single_item_def str_bytes_def)
  show ?thesis
    by (simp add: page_meta_from_def get_text_def get_bool_def get_number_def get_string_array_def get value_display_def public_page_def
        str_bytes_def)
qed

lemma read_public_page: "read_pages page_env single_ref page_heap = Some (Ok [([99], public_page)] :: _ codec_result)"
proof -
  let ?i = "single_item (ContentType page_ref)"
  have start: "new_array_iter single_ref page_heap = (Ok \<lparr>ai_inner = SRef 1, ai_current_any = None\<rparr> :: _ codec_result)"
    by (simp add: new_array_iter_def page_heap_def single_ref_def get_ty_def somr_lookup_def)
  have i: "get_item page_heap (SRef 1) = Some ?i" "item_right ?i = SNone" "item_content ?i = ContentType page_ref"
    by (simp_all add: heap_simps page_heap_def single_item_def)
  have fuel: "h_next page_heap + 1 = Suc 4" by (simp add: page_heap_def)
  have clone: "clone_ytype_ref page_ref = page_ref" by (simp add: page_ref_def clone_ytype_ref_def)
  have kind: "yt_kind (new_ytype KMap None) = KMap" by (simp add: new_ytype_def)
  have ty: "\<exists>t. get_ty page_heap page_ref = Some t \<and> yt_kind t = KMap"
    using kind by (simp add: page_heap_def page_ref_def get_ty_def somr_lookup_def)
  have step: "array_next dflt page_heap \<lparr>ai_inner = SRef 1, ai_current_any = None\<rparr>
      = (Ok (Some (ValueMap page_ref), \<lparr>ai_inner = SNone, ai_current_any = None\<rparr>) :: _ codec_result)" for dflt
    using i ty clone single_item_live [of "ContentType page_ref"]
    by (auto simp: array_next_def fuel array_search.simps(2) list_next.simps(2))
  have stop: "array_next dflt page_heap \<lparr>ai_inner = SNone, ai_current_any = None\<rparr>
      = (Ok (None, \<lparr>ai_inner = SNone, ai_current_any = None\<rparr>) :: _ codec_result)" for dflt
    by (simp add: array_next_def fuel array_search.simps(2) list_next.simps(2) heap_simps)
  have "array_all dflt single_ref page_heap = Some (Ok [ValueMap page_ref] :: _ codec_result)" for dflt
    using start step stop by (simp add: array_all_def array_collect.simps)
  then show ?thesis using public_page_meta clone by (simp add: read_pages_def hm_collect_def public_page_def)
qed

lemma check_shared_exact_witness: "check_shared page_env single_ref [99] page_heap = Some (Ok True :: _ codec_result)"
  using check_shared_exact [OF read_public_page, of "[99]"] by (simp add: public_page_def)

text \<open>
  A list of sub pages that is written as a value loses its only element: an array with one element is read
  back as the element, which is not an array of ids.
\<close>

lemma single_sub_page_lost:
  assumes "map_ok h st m t" "plain_key h t key" "settable (ValueAny (AnyArray [AnyString s])) st h"
  shows "\<exists>st' h'. map_insert m key (ValueAny (AnyArray [AnyString s])) st h = Ok (st', h')
    \<and> get_string_array env m key h' = (Ok [] :: _ codec_result)"
proof -
  let ?c = "content_from_value (ValueAny (AnyArray [AnyString s]))"
  have v: "plain ?c" "content_countable ?c" "0 < clock_len ?c" "state_of h st (st_client st) + unat (clock_len ?c) < 2 ^ 64"
    using assms(3) by (simp_all add: settable_def content_from_any_def)
  show ?thesis
  proof (rule map_insert_keyed [OF assms(1,2) v])
    fix st' h' t'
    assume r: "map_insert m key (ValueAny (AnyArray [AnyString s])) st h = Ok (st', h')" "key_item h' m key = Some ?c"
    have "get_string_array env m key h' = (Ok [] :: _ codec_result)"
      using r(2) by (simp add: get_string_array_def map_get_item content_from_any_def)
    with r(1) show ?thesis by blast
  qed
qed

end
