(* ===== verification/Block_Model.thy ===== *)
theory Block_Model
  imports Page_Tree
begin

text \<open>
  Blocks, \<open>libs/jwst-core/src/block/mod.rs\<close>: the unit of content of a space, a map with a flavour, an
  array of the ids of its children, a parent and properties.  The operations take the store and
  the heap of the document; the time they write is that of the environment.  What goes through
  the children may not return on a heap with a cyclic list, so it is a result option.
\<close>

section \<open>Names\<close>

definition sys_id :: bytes where "sys_id = str_bytes ''sys:id''"
definition sys_children :: bytes where "sys_children = str_bytes ''sys:children''"
definition sys_created :: bytes where "sys_created = str_bytes ''sys:created''"
definition sys_flavour :: bytes where "sys_flavour = str_bytes ''sys:flavour''"
definition sys_parent :: bytes where "sys_parent = str_bytes ''sys:parent''"

lemmas sys_names = sys_id_def sys_children_def sys_created_def sys_flavour_def sys_parent_def str_bytes_def

section \<open>State\<close>

record block =
  blk_id :: bytes
  blk_space_id :: bytes
  blk_block_id :: bytes
  blk_doc :: doc
  blk_operator :: u64
  blk_block :: ytype_ref
  blk_children :: ytype_ref
  blk_updated :: ytype_ref

text \<open>The space a block belongs to; \<open>sp_pages\<close> is the array inside \<open>Pages\<close>.\<close>

record space =
  sp_workspace_id :: bytes
  sp_space_id :: bytes
  sp_doc :: doc
  sp_blocks :: ytype_ref
  sp_updated :: ytype_ref
  sp_metadata :: ytype_ref
  sp_pages :: ytype_ref

definition make_block :: "space \<Rightarrow> bytes \<Rightarrow> u64 \<Rightarrow> ytype_ref \<Rightarrow> ytype_ref \<Rightarrow> block" where
  "make_block space block_id operator block children =
     \<lparr>blk_id = sp_workspace_id space, blk_space_id = sp_space_id space, blk_block_id = block_id, blk_doc = sp_doc space,
      blk_operator = operator, blk_block = block, blk_children = children, blk_updated = clone_ytype_ref (sp_updated space)\<rparr>"

section \<open>Making and finding blocks\<close>

definition log_update :: "core_env \<Rightarrow> block \<Rightarrow> store \<Rightarrow> heap \<Rightarrow> (codec_error, store \<times> heap) result" where
  "log_update env b st h =
     map_insert (blk_updated b) (blk_block_id b) (ValueAny (AnyFloat64 (ce_f64_of_i64 env (ce_now_millis env)))) st h"

definition block_from :: "core_env \<Rightarrow> space \<Rightarrow> bytes \<Rightarrow> u64 \<Rightarrow> heap \<Rightarrow> ('e, block option) result" where
  "block_from env space block_id operator h =
     rbind (map_get (ce_dflt env) (sp_blocks space) block_id h) (\<lambda>b.
     case Option.bind b to_map of
       None \<Rightarrow> Ok None
     | Some block \<Rightarrow>
         rbind (map_get (ce_dflt env) block sys_children h) (\<lambda>c.
         case Option.bind c to_array of
           None \<Rightarrow> Ok None
         | Some children \<Rightarrow> Ok (Some (make_block space block_id operator block children))))"

text \<open>The part \<open>new\<close> and \<open>new_ffi\<close> have in common; they differ in the time of creation.\<close>

definition init_block ::
    "core_env \<Rightarrow> space \<Rightarrow> bytes \<Rightarrow> bytes \<Rightarrow> u64 \<Rightarrow> any \<Rightarrow> store \<Rightarrow> heap \<Rightarrow> (codec_error, block \<times> store \<times> heap) result" where
  "init_block env space block_id flavour operator created st h =
     rbind (create_map st h) (\<lambda>(m, st, h).
     rbind (map_insert (sp_blocks space) block_id (ValueMap m) st h) (\<lambda>(st, h).
     rbind (map_get (ce_dflt env) (sp_blocks space) block_id h) (\<lambda>b.
     rbind (unwrap (Option.bind b to_map)) (\<lambda>block.
     rbind (map_insert block sys_flavour (ValueAny (AnyString flavour)) st h) (\<lambda>(st, h).
     rbind (create_array st h) (\<lambda>(a, st, h).
     rbind (map_insert block sys_children (ValueArray a) st h) (\<lambda>(st, h).
     rbind (map_insert block sys_created (ValueAny created) st h) (\<lambda>(st, h).
     rbind (map_get (ce_dflt env) block sys_children h) (\<lambda>c.
     rbind (unwrap (Option.bind c to_array)) (\<lambda>children.
     let block = make_block space block_id operator block children
     in rbind (log_update env block st h) (\<lambda>(st, h). Ok (block, st, h))))))))))))"

definition block_new ::
    "core_env \<Rightarrow> space \<Rightarrow> bytes \<Rightarrow> bytes \<Rightarrow> u64 \<Rightarrow> store \<Rightarrow> heap \<Rightarrow> (codec_error, block \<times> store \<times> heap) result" where
  "block_new env space block_id flavour operator st h =
     rbind (block_from env space block_id operator h) (\<lambda>b.
     case b of
       Some block \<Rightarrow> Ok (block, st, h)
     | None \<Rightarrow> init_block env space block_id flavour operator (any_from_i64 (ce_now_millis env)) st h)"

definition block_new_ffi ::
    "core_env \<Rightarrow> space \<Rightarrow> bytes \<Rightarrow> bytes \<Rightarrow> u64 \<Rightarrow> u64 \<Rightarrow> store \<Rightarrow> heap \<Rightarrow> (codec_error, block \<times> store \<times> heap) result" where
  "block_new_ffi env space block_id flavour operator created st h =
     rbind (block_from env space block_id operator h) (\<lambda>b.
     case b of
       Some block \<Rightarrow> Ok (block, st, h)
     | None \<Rightarrow> init_block env space block_id flavour operator (any_from_u64 created) st h)"

definition block_from_raw_parts ::
    "core_env \<Rightarrow> bytes \<Rightarrow> bytes \<Rightarrow> bytes \<Rightarrow> doc \<Rightarrow> ytype_ref \<Rightarrow> ytype_ref \<Rightarrow> u64 \<Rightarrow> heap \<Rightarrow> ('e, block) result" where
  "block_from_raw_parts env i space_id block_id doc block updated operator h =
     rbind (map_get (ce_dflt env) block sys_children h) (\<lambda>c.
     rbind (unwrap c) (\<lambda>c.
     rbind (unwrap (to_array c)) (\<lambda>children.
     Ok \<lparr>blk_id = i, blk_space_id = space_id, blk_block_id = block_id, blk_doc = doc, blk_operator = operator,
         blk_block = block, blk_children = children, blk_updated = updated\<rparr>)))"

section \<open>Properties of a block\<close>

definition prop_key :: "bytes \<Rightarrow> bytes" where
  "prop_key key = str_bytes ''prop:'' @ key"

fun property_any :: "any \<Rightarrow> any option" where
  "property_any (AnyInteger n) = Some (AnyInteger n)"
| "property_any (AnyFloat32 n) = Some (AnyFloat32 n)"
| "property_any (AnyFloat64 n) = Some (AnyFloat64 n)"
| "property_any (AnyBigInt64 n) = Some (AnyBigInt64 n)"
| "property_any AnyTrue = Some AnyTrue"
| "property_any AnyFalse = Some AnyFalse"
| "property_any (AnyString s) = Some (AnyString s)"
| "property_any _ = None"

definition block_get :: "core_env \<Rightarrow> block \<Rightarrow> bytes \<Rightarrow> heap \<Rightarrow> ('e, any option) result" where
  "block_get env b key h =
     rbind (map_get (ce_dflt env) (blk_block b) (prop_key key) h) (\<lambda>v.
     case v of
       Some (ValueAny any) \<Rightarrow> Ok (property_any any)
     | Some (ValueText t) \<Rightarrow> rbind (text_display t h) (\<lambda>s. Ok (Some (AnyString s)))
     | _ \<Rightarrow> Ok None)"

definition block_set :: "core_env \<Rightarrow> block \<Rightarrow> bytes \<Rightarrow> any \<Rightarrow> store \<Rightarrow> heap \<Rightarrow> (codec_error, store \<times> heap) result" where
  "block_set env b key val st h =
     (let key = prop_key key in
      rbind (if val = AnyNull \<or> val = AnyUndefined then map_remove (blk_block b) key st h
             else map_insert (blk_block b) key (ValueAny val) st h) (\<lambda>(st, h).
      log_update env b st h))"

definition block_flavour :: "core_env \<Rightarrow> block \<Rightarrow> heap \<Rightarrow> ('e, bytes) result" where
  "block_flavour env b h =
     rbind (get_text env (blk_block b) sys_flavour h) (\<lambda>s. Ok (case s of Some s \<Rightarrow> s | None \<Rightarrow> []))"

fun created_value :: "doc_value \<Rightarrow> u64 option" where
  "created_value (ValueAny (AnyInteger n)) = Some (scast n)"
| "created_value (ValueAny (AnyBigInt64 n)) = Some n"
| "created_value _ = None"

definition block_created :: "core_env \<Rightarrow> block \<Rightarrow> heap \<Rightarrow> ('e, u64) result" where
  "block_created env b h =
     rbind (map_get (ce_dflt env) (blk_block b) sys_created h) (\<lambda>c.
     Ok (case Option.bind c created_value of Some n \<Rightarrow> n | None \<Rightarrow> 0))"

fun updated_value :: "doc_value \<Rightarrow> u64 option" where
  "updated_value (ValueAny (AnyBigInt64 n)) = Some n"
| "updated_value _ = None"

definition block_updated :: "core_env \<Rightarrow> block \<Rightarrow> heap \<Rightarrow> ('e, u64) result" where
  "block_updated env b h =
     rbind (map_get (ce_dflt env) (blk_updated b) (blk_block_id b) h) (\<lambda>i.
     case Option.bind i updated_value of
       Some n \<Rightarrow> Ok n
     | None \<Rightarrow> block_created env b h)"

definition block_parent :: "core_env \<Rightarrow> block \<Rightarrow> heap \<Rightarrow> ('e, bytes option) result" where
  "block_parent env b h =
     rbind (get_text env (blk_block b) sys_parent h) (\<lambda>s.
     Ok (case s of Some s \<Rightarrow> if s = [] then None else Some s | None \<Rightarrow> None))"

section \<open>Children\<close>

fun display_all :: "core_env \<Rightarrow> heap \<Rightarrow> doc_value list \<Rightarrow> ('e, bytes list) result" where
  "display_all env h [] = Ok []"
| "display_all env h (v # vs) =
     rbind (value_display (ce_float env) v h) (\<lambda>s. rbind (display_all env h vs) (\<lambda>rest. Ok (s # rest)))"

definition block_children :: "core_env \<Rightarrow> block \<Rightarrow> heap \<Rightarrow> ('e, bytes list) result option" where
  "block_children env b h =
     obind (array_all (ce_dflt env) (blk_children b) h) (\<lambda>vs. Some (display_all env h vs))"

definition children_len :: "block \<Rightarrow> heap \<Rightarrow> ('e, u64) result" where
  "children_len b h = array_len (blk_children b) h"

text \<open>\<open>position\<close> and \<open>any\<close> stop at the first child that is equal.\<close>

partial_function (option) position_loop ::
    "core_env \<Rightarrow> heap \<Rightarrow> bytes \<Rightarrow> array_iter \<Rightarrow> nat \<Rightarrow> ('e, nat option) result option" where
  "position_loop env h target it idx =
     obind (Some (array_next (ce_dflt env) h it)) (\<lambda>(r, it).
     case r of
       None \<Rightarrow> Some (Ok None)
     | Some v \<Rightarrow>
         obind (Some (value_display (ce_float env) v h)) (\<lambda>s.
         if s = target then Some (Ok (Some idx)) else position_loop env h target it (idx + 1)))"

definition child_position :: "core_env \<Rightarrow> block \<Rightarrow> bytes \<Rightarrow> heap \<Rightarrow> ('e, nat option) result option" where
  "child_position env b target h =
     obind (Some (new_array_iter (blk_children b) h)) (\<lambda>it. position_loop env h target it 0)"

definition children_exists :: "core_env \<Rightarrow> block \<Rightarrow> bytes \<Rightarrow> heap \<Rightarrow> ('e, bool) result option" where
  "children_exists env b block_id h =
     obind (child_position env b block_id h) (\<lambda>pos. Some (Ok (pos \<noteq> None)))"

definition exists_children :: "core_env \<Rightarrow> block \<Rightarrow> bytes \<Rightarrow> heap \<Rightarrow> ('e, nat option) result option" where
  "exists_children env b block_id h = child_position env b block_id h"

definition set_parent :: "block \<Rightarrow> bytes \<Rightarrow> store \<Rightarrow> heap \<Rightarrow> (codec_error, store \<times> heap) result" where
  "set_parent b block_id st h = map_insert (blk_block b) sys_parent (ValueAny (AnyString block_id)) st h"

definition remove_children :: "core_env \<Rightarrow> block \<Rightarrow> block \<Rightarrow> store \<Rightarrow> heap \<Rightarrow> (codec_error, store \<times> heap) result option" where
  "remove_children env self block st h =
     obind (Some (set_parent block (blk_block_id self) st h)) (\<lambda>(st, h).
     obind (child_position env self (blk_block_id block) h) (\<lambda>pos.
     case pos of
       Some current_pos \<Rightarrow>
         Some (rbind (array_remove (blk_children self) (of_nat current_pos) 1 st h) (\<lambda>(st, h). log_update env self st h))
     | None \<Rightarrow> Some (Ok (st, h))))"

text \<open>How all four insertions begin, and how they end.\<close>

definition adopt :: "core_env \<Rightarrow> block \<Rightarrow> block \<Rightarrow> store \<Rightarrow> heap \<Rightarrow> (codec_error, store \<times> heap) result option" where
  "adopt env self block st h =
     obind (remove_children env self block st h) (\<lambda>(st, h). Some (set_parent block (blk_block_id self) st h))"

definition push_child :: "block \<Rightarrow> block \<Rightarrow> store \<Rightarrow> heap \<Rightarrow> (codec_error, store \<times> heap) result" where
  "push_child self block st h = array_push (blk_children self) (ValueAny (AnyString (blk_block_id block))) st h"

definition insert_child :: "block \<Rightarrow> u64 \<Rightarrow> block \<Rightarrow> store \<Rightarrow> heap \<Rightarrow> (codec_error, store \<times> heap) result" where
  "insert_child self pos block st h = array_insert (blk_children self) pos (ValueAny (AnyString (blk_block_id block))) st h"

definition push_children :: "core_env \<Rightarrow> block \<Rightarrow> block \<Rightarrow> store \<Rightarrow> heap \<Rightarrow> (codec_error, store \<times> heap) result option" where
  "push_children env self block st h =
     obind (adopt env self block st h) (\<lambda>(st, h).
     Some (rbind (push_child self block st h) (\<lambda>(st, h). log_update env self st h)))"

definition insert_children_at ::
    "core_env \<Rightarrow> block \<Rightarrow> block \<Rightarrow> u64 \<Rightarrow> store \<Rightarrow> heap \<Rightarrow> (codec_error, store \<times> heap) result option" where
  "insert_children_at env self block pos st h =
     obind (adopt env self block st h) (\<lambda>(st, h).
     Some (rbind (children_len self h) (\<lambda>len.
           rbind (if pos < len then insert_child self pos block st h else push_child self block st h) (\<lambda>(st, h).
           log_update env self st h))))"

definition insert_children_before ::
    "core_env \<Rightarrow> block \<Rightarrow> block \<Rightarrow> bytes \<Rightarrow> store \<Rightarrow> heap \<Rightarrow> (codec_error, store \<times> heap) result option" where
  "insert_children_before env self block reference st h =
     obind (adopt env self block st h) (\<lambda>(st, h).
     obind (child_position env self reference h) (\<lambda>pos.
     Some (rbind (case pos of
                    Some pos \<Rightarrow> insert_child self (of_nat pos) block st h
                  | None \<Rightarrow> push_child self block st h) (\<lambda>(st, h).
           log_update env self st h))))"

definition insert_children_after ::
    "core_env \<Rightarrow> block \<Rightarrow> block \<Rightarrow> bytes \<Rightarrow> store \<Rightarrow> heap \<Rightarrow> (codec_error, store \<times> heap) result option" where
  "insert_children_after env self block reference st h =
     obind (adopt env self block st h) (\<lambda>(st, h).
     obind (child_position env self reference h) (\<lambda>pos.
     Some (rbind (case pos of
                    Some pos \<Rightarrow>
                      rbind (children_len self h) (\<lambda>len.
                      if of_nat pos < len
                      then rbind (add_u64 (of_nat pos) 1) (\<lambda>next. insert_child self next block st h)
                      else push_child self block st h)
                  | None \<Rightarrow> push_child self block st h) (\<lambda>(st, h).
           log_update env self st h))))"

end
