(* ===== verification/Space_Model.thy ===== *)
theory Space_Model
  imports Block_Model
begin

text \<open>
  Spaces, \<open>libs/jwst-core/src/space/mod.rs\<close>, and the rendering of their blocks as markdown,
  \<open>libs/jwst-core/src/block/convert.rs\<close> and \<open>space/convert.rs\<close>.  A space is a map from block ids to
  blocks, with a map of the times of their updates and the metadata of its workspace.
\<close>

section \<open>Names\<close>

definition space_prefix :: bytes where "space_prefix = str_bytes ''space:''"
definition space_updated_key :: bytes where "space_updated_key = str_bytes ''space:updated''"
definition space_meta_key :: bytes where "space_meta_key = str_bytes ''space:meta''"

section \<open>Spaces\<close>

definition new_space ::
    "doc \<Rightarrow> ytype_ref \<Rightarrow> bytes \<Rightarrow> bytes \<Rightarrow> store \<Rightarrow> heap \<Rightarrow> (codec_error, space \<times> store \<times> heap) result" where
  "new_space doc pages workspace_id space_id st h =
     rbind (get_or_create_map (space_prefix @ space_id) st h) (\<lambda>(blocks, st, h).
     rbind (get_or_create_map space_updated_key st h) (\<lambda>(updated, st, h).
     rbind (get_or_create_map space_meta_key st h) (\<lambda>(metadata, st, h).
     Ok (\<lparr>sp_workspace_id = workspace_id, sp_space_id = space_id, sp_doc = doc, sp_blocks = blocks, sp_updated = updated,
          sp_metadata = metadata, sp_pages = pages\<rparr>, st, h))))"

text \<open>An error of \<open>get_map\<close> is no space; what the failing cast had changed is nothing.\<close>

definition get_map_ok :: "bytes \<Rightarrow> store \<Rightarrow> heap \<Rightarrow> ('e, (ytype_ref \<times> heap) option) result" where
  "get_map_ok name st h =
     (case get_map name st h of Ok r \<Rightarrow> Ok (Some r) | Err _ \<Rightarrow> Ok None | Panic \<Rightarrow> Panic)"

definition space_from_exists ::
    "core_env \<Rightarrow> doc \<Rightarrow> bytes \<Rightarrow> bytes \<Rightarrow> store \<Rightarrow> heap \<Rightarrow> ('e, space option \<times> heap) result" where
  "space_from_exists env doc workspace_id space_id st h =
     rbind (get_map_ok (space_prefix @ space_id) st h) (\<lambda>r.
     case r of None \<Rightarrow> Ok (None, h) | Some (blocks, h) \<Rightarrow>
     rbind (get_map_ok space_updated_key st h) (\<lambda>r.
     case r of None \<Rightarrow> Ok (None, h) | Some (updated, h) \<Rightarrow>
     rbind (get_map_ok space_meta_key st h) (\<lambda>r.
     case r of None \<Rightarrow> Ok (None, h) | Some (metadata, h) \<Rightarrow>
     rbind (map_get (ce_dflt env) metadata (str_bytes ''pages'') h) (\<lambda>v.
     case Option.bind v to_array of None \<Rightarrow> Ok (None, h) | Some pages \<Rightarrow>
     Ok (Some \<lparr>sp_workspace_id = workspace_id, sp_space_id = space_id, sp_doc = doc, sp_blocks = blocks, sp_updated = updated,
          sp_metadata = metadata, sp_pages = pages\<rparr>, h)))))"

definition space_client_id :: "space \<Rightarrow> u64" where
  "space_client_id s = doc_client_id (sp_doc s)"

definition space_get :: "core_env \<Rightarrow> space \<Rightarrow> bytes \<Rightarrow> heap \<Rightarrow> ('e, block option) result" where
  "space_get env s block_id h = block_from env s block_id (space_client_id s) h"

definition block_count :: "space \<Rightarrow> heap \<Rightarrow> u64" where
  "block_count s h = map_len (sp_blocks s) h"

fun blocks_of :: "core_env \<Rightarrow> space \<Rightarrow> heap \<Rightarrow> (bytes \<times> doc_value) list \<Rightarrow> ('e, block list) result" where
  "blocks_of env s h [] = Ok []"
| "blocks_of env s h ((i, v) # es) =
     rbind (unwrap (to_map v)) (\<lambda>b.
     rbind (block_from_raw_parts env (sp_workspace_id s) (sp_space_id s) i (sp_doc s) b (clone_ytype_ref (sp_updated s))
              (space_client_id s) h) (\<lambda>b.
     rbind (blocks_of env s h es) (\<lambda>rest. Ok (b # rest))))"

definition space_blocks :: "core_env \<Rightarrow> space \<Rightarrow> heap \<Rightarrow> ('e, block list) result" where
  "space_blocks env s h = rbind (map_entries (ce_dflt env) (sp_blocks s) h) (blocks_of env s h)"

definition space_create ::
    "core_env \<Rightarrow> space \<Rightarrow> bytes \<Rightarrow> bytes \<Rightarrow> store \<Rightarrow> heap \<Rightarrow> (codec_error, block \<times> store \<times> heap) result" where
  "space_create env s block_id flavour st h = block_new env s block_id flavour (space_client_id s) st h"

definition space_create_ffi ::
    "core_env \<Rightarrow> space \<Rightarrow> bytes \<Rightarrow> bytes \<Rightarrow> u64 \<Rightarrow> store \<Rightarrow> heap \<Rightarrow> (codec_error, block \<times> store \<times> heap) result" where
  "space_create_ffi env s block_id flavour created st h =
     block_new_ffi env s block_id flavour (space_client_id s) created st h"

definition space_remove :: "space \<Rightarrow> bytes \<Rightarrow> store \<Rightarrow> heap \<Rightarrow> (codec_error, store \<times> heap) result" where
  "space_remove s block_id st h =
     rbind (map_remove (sp_blocks s) block_id st h) (\<lambda>(st, h). map_remove (sp_updated s) block_id st h)"

definition put_metadata :: "ytype_ref \<Rightarrow> bytes \<Rightarrow> any \<Rightarrow> store \<Rightarrow> heap \<Rightarrow> (codec_error, store \<times> heap) result" where
  "put_metadata metadata key val st h =
     (if val = AnyNull \<or> val = AnyUndefined then map_remove metadata key st h
      else map_insert metadata key (ValueAny val) st h)"

definition space_set_metadata :: "space \<Rightarrow> bytes \<Rightarrow> any \<Rightarrow> store \<Rightarrow> heap \<Rightarrow> (codec_error, store \<times> heap) result" where
  "space_set_metadata s key val st h = put_metadata (sp_metadata s) key val st h"

fun with_flavour :: "core_env \<Rightarrow> heap \<Rightarrow> bytes \<Rightarrow> block list \<Rightarrow> ('e, block list) result" where
  "with_flavour env h flavour [] = Ok []"
| "with_flavour env h flavour (b # bs) =
     rbind (block_flavour env b h) (\<lambda>f.
     rbind (with_flavour env h flavour bs) (\<lambda>rest. Ok (if f = flavour then b # rest else rest)))"

definition get_blocks_by_flavour :: "core_env \<Rightarrow> space \<Rightarrow> bytes \<Rightarrow> heap \<Rightarrow> ('e, block list) result" where
  "get_blocks_by_flavour env s flavour h = rbind (space_blocks env s h) (with_flavour env h flavour)"

definition space_exists :: "space \<Rightarrow> bytes \<Rightarrow> heap \<Rightarrow> bool" where
  "space_exists s block_id h = map_contains_key (sp_blocks s) block_id h"

definition space_shared :: "core_env \<Rightarrow> space \<Rightarrow> heap \<Rightarrow> ('e, bool) result option" where
  "space_shared env s h = check_shared env (sp_pages s) (sp_space_id s) h"

section \<open>Markdown\<close>

text \<open>\<open>self.get(key).map(to_string)\<close>.\<close>

definition block_text :: "core_env \<Rightarrow> block \<Rightarrow> string \<Rightarrow> heap \<Rightarrow> ('e, bytes option) result" where
  "block_text env b key h =
     rbind (block_get env b (str_bytes key) h) (\<lambda>v. Ok (map_option (any_display (ce_float env)) v))"

definition code_block :: "bytes option \<Rightarrow> bytes \<Rightarrow> bytes" where
  "code_block language text =
     (case language of
        Some language \<Rightarrow> str_bytes ''``` '' @ language @ [10] @ text @ [10] @ str_bytes ''```'' @ [10]
      | None \<Rightarrow> str_bytes ''```'' @ [10] @ text @ [10] @ str_bytes ''```'' @ [10])"

text \<open>The number of the heads \<open>h1\<close> to \<open>h5\<close>.\<close>

definition head_level :: "bytes \<Rightarrow> nat option" where
  "head_level t =
     (if t = str_bytes ''h1'' then Some 1 else if t = str_bytes ''h2'' then Some 2 else if t = str_bytes ''h3'' then Some 3
      else if t = str_bytes ''h4'' then Some 4 else if t = str_bytes ''h5'' then Some 5 else None)"

definition paragraph_block :: "bytes option \<Rightarrow> bytes \<Rightarrow> bytes" where
  "paragraph_block kind text =
     (case kind of
        None \<Rightarrow> text
      | Some kind \<Rightarrow>
          (case head_level kind of
             Some n \<Rightarrow> replicate n 35 @ [32] @ text @ [10]
           | None \<Rightarrow>
               if kind = str_bytes ''quote'' then str_bytes ''> '' @ text @ [10]
               else if kind = str_bytes ''text'' then text @ [10] else text))"

definition list_block :: "bytes option \<Rightarrow> bool \<Rightarrow> bytes \<Rightarrow> nat \<Rightarrow> bytes \<times> nat" where
  "list_block kind checked text numbered =
     (if kind = Some (str_bytes ''numbered'') then (digits (numbered + 1) @ str_bytes ''. '' @ text @ [10], numbered + 1)
      else if kind = Some (str_bytes ''todo'') then
        (str_bytes ''['' @ (if checked then str_bytes ''x'' else str_bytes '' '') @ str_bytes ''] '' @ text @ [10], numbered + 1)
      else if kind = Some (str_bytes ''bulleted'') then (str_bytes ''- '' @ text @ [10], numbered + 1)
      else (text, 0))"

definition block_to_markdown :: "core_env \<Rightarrow> block \<Rightarrow> nat \<Rightarrow> heap \<Rightarrow> ('e, bytes option \<times> nat) result" where
  "block_to_markdown env b numbered_count h =
     rbind (block_text env b ''text'' h) (\<lambda>text.
     rbind (block_flavour env b h) (\<lambda>flavour.
     case text of
       Some text \<Rightarrow>
         if flavour = str_bytes ''affine:code'' then
           rbind (block_text env b ''language'' h) (\<lambda>language. Ok (Some (code_block language text), 0))
         else if flavour = str_bytes ''affine:paragraph'' then
           rbind (block_text env b ''type'' h) (\<lambda>kind. Ok (Some (paragraph_block kind text), 0))
         else if flavour = str_bytes ''affine:list'' then
           rbind (block_text env b ''type'' h) (\<lambda>kind.
           rbind (if kind = Some (str_bytes ''todo'') then block_text env b ''checked'' h else Ok None) (\<lambda>checked.
           Ok (case list_block kind (checked = Some (str_bytes ''true'')) text numbered_count of (md, n) \<Rightarrow> (Some md, n))))
         else Ok (Some text, 0)
     | None \<Rightarrow>
         if flavour = str_bytes ''affine:divider'' then Ok (Some (str_bytes ''---'' @ [10]), 0)
         else if flavour = str_bytes ''affine:embed'' then
           rbind (block_text env b ''type'' h) (\<lambda>kind.
           if kind = Some (str_bytes ''image'') then
             rbind (block_text env b ''sourceId'' h) (\<lambda>source.
             Ok (map_option (\<lambda>v. str_bytes ''![](/api/workspace/'' @ blk_id b @ str_bytes ''/blob/'' @ v @ str_bytes '')'' @ [10]) source, 0))
           else Ok (None, 0))
         else Ok (None, 0)))"

text \<open>The children of one frame; a child that is no block or has no markdown is passed over.\<close>

fun children_markdown :: "core_env \<Rightarrow> space \<Rightarrow> heap \<Rightarrow> bytes list \<Rightarrow> nat \<Rightarrow> ('e, bytes) result" where
  "children_markdown env s h [] numbered_count = Ok []"
| "children_markdown env s h (kid # cs) numbered_count =
     rbind (space_get env s kid h) (\<lambda>b.
     case b of
       None \<Rightarrow> children_markdown env s h cs numbered_count
     | Some b \<Rightarrow>
         rbind (block_to_markdown env b numbered_count h) (\<lambda>(text, numbered_count).
         rbind (children_markdown env s h cs numbered_count) (\<lambda>rest.
         Ok (case text of Some text \<Rightarrow> text @ [10] @ rest | None \<Rightarrow> rest))))"

fun frames_markdown :: "core_env \<Rightarrow> space \<Rightarrow> heap \<Rightarrow> bytes list \<Rightarrow> ('e, bytes) result option" where
  "frames_markdown env s h [] = Some (Ok [])"
| "frames_markdown env s h (frame # fs) =
     obind (Some (space_get env s frame h)) (\<lambda>b.
     case b of
       None \<Rightarrow> frames_markdown env s h fs
     | Some b \<Rightarrow>
         obind (block_children env b h) (\<lambda>children.
         obind (Some (children_markdown env s h children 0)) (\<lambda>md.
         obind (frames_markdown env s h fs) (\<lambda>rest. Some (Ok (md @ rest))))))"

definition space_to_markdown :: "core_env \<Rightarrow> space \<Rightarrow> heap \<Rightarrow> ('e, bytes option) result option" where
  "space_to_markdown env s h =
     obind (Some (get_blocks_by_flavour env s (str_bytes ''affine:page'') h)) (\<lambda>pages.
     case pages of
       [] \<Rightarrow> Some (Ok None)
     | page # _ \<Rightarrow>
         obind (Some (block_text env page ''title'' h)) (\<lambda>title.
         obind (block_children env page h) (\<lambda>frames.
         obind (frames_markdown env s h frames) (\<lambda>md.
         Some (Ok (Some ((case title of Some t \<Rightarrow> str_bytes ''# '' @ t @ [10] | None \<Rightarrow> []) @ md)))))))"

end
