(* ===== verification/Awareness_State.thy ===== *)
theory Awareness_State
  imports Protocol
begin

text \<open>
  Presence of the clients, \<open>libs/jwst-codec/src/doc/awareness.rs\<close>: the states of all clients, the
  local one among them, and the update received from a peer.  An operation returns the new value
  and the event it hands to the callback, if one is registered.
\<close>

section \<open>Definitions\<close>

record awareness_event =
  ev_added :: "u64 list"
  ev_updated :: "u64 list"
  ev_removed :: "u64 list"

definition new_event :: awareness_event where
  "new_event = \<lparr>ev_added = [], ev_updated = [], ev_removed = []\<rparr>"

definition event_add :: "u64 \<Rightarrow> awareness_event \<Rightarrow> awareness_event" where
  "event_add client_id ev = ev\<lparr>ev_added := ev_added ev @ [client_id]\<rparr>"

definition event_update :: "u64 \<Rightarrow> awareness_event \<Rightarrow> awareness_event" where
  "event_update client_id ev = ev\<lparr>ev_updated := ev_updated ev @ [client_id]\<rparr>"

definition event_remove :: "u64 \<Rightarrow> awareness_event \<Rightarrow> awareness_event" where
  "event_remove client_id ev = ev\<lparr>ev_removed := ev_removed ev @ [client_id]\<rparr>"

definition get_updated :: "awareness_event \<Rightarrow> awareness_states \<Rightarrow> awareness_states" where
  "get_updated ev states =
     filter (\<lambda>(i, _). i \<in> set (ev_added ev) \<or> i \<in> set (ev_updated ev) \<or> i \<in> set (ev_removed ev)) states"

text \<open>\<open>aw_callback\<close> says whether a callback is registered.\<close>

record awareness =
  aw_states :: awareness_states
  aw_callback :: bool
  aw_local_id :: u64

definition new_awareness :: "u64 \<Rightarrow> awareness" where
  "new_awareness local_id = \<lparr>aw_states = [], aw_callback = False, aw_local_id = local_id\<rparr>"

definition on_update :: "awareness \<Rightarrow> awareness" where
  "on_update aw = aw\<lparr>aw_callback := True\<rparr>"

definition get_local_state :: "awareness \<Rightarrow> bytes option" where
  "get_local_state aw = map_option as_content (map_of (aw_states aw) (aw_local_id aw))"

definition notify :: "awareness \<Rightarrow> awareness_event \<Rightarrow> awareness \<times> awareness_event option" where
  "notify aw ev = (aw, if aw_callback aw then Some ev else None)"

definition local_state :: "awareness \<Rightarrow> awareness_state" where
  "local_state aw =
     (case map_of (aw_states aw) (aw_local_id aw) of None \<Rightarrow> default_awareness_state | Some s \<Rightarrow> s)"

definition put_local :: "awareness_state \<Rightarrow> awareness \<Rightarrow> awareness" where
  "put_local s aw = aw\<lparr>aw_states := hm_insert (aw_local_id aw) s (aw_states aw)\<rparr>"

definition set_local_state ::
    "bytes \<Rightarrow> awareness \<Rightarrow> (codec_error, awareness \<times> awareness_event option) result" where
  "set_local_state content aw =
     rbind (set_content content (local_state aw)) (\<lambda>s.
     Ok (notify (put_local s aw) (event_update (aw_local_id aw) new_event)))"

definition clear_local_state ::
    "awareness \<Rightarrow> (codec_error, awareness \<times> awareness_event option) result" where
  "clear_local_state aw =
     rbind (delete_state (local_state aw)) (\<lambda>s.
     Ok (notify (put_local s aw) (event_remove (aw_local_id aw) new_event)))"

text \<open>The body of the loop of \<open>apply_update\<close>, and the loop.\<close>

definition apply_entry ::
    "u64 \<Rightarrow> u64 \<Rightarrow> awareness_state \<Rightarrow> awareness_states \<times> awareness_event
     \<Rightarrow> (codec_error, awareness_states \<times> awareness_event) result" where
  "apply_entry local_id client_id s acc =
     (case acc of (states, event) \<Rightarrow>
       (case map_of states client_id of
          Some prev_state \<Rightarrow>
            if client_id = local_id then
              rbind (add_u64 (max (as_clock prev_state) (as_clock s)) 1) (\<lambda>clock.
              Ok (hm_insert client_id (set_clock clock prev_state) states, event_update client_id event))
            else if as_clock prev_state < as_clock s then
              (if is_deleted s then
                 rbind (delete_state prev_state) (\<lambda>prev_state.
                 Ok (hm_insert client_id prev_state states, event_remove client_id event))
               else Ok (hm_insert client_id s states, event_update client_id event))
            else Ok (states, event)
        | None \<Rightarrow> Ok (hm_insert client_id s states, event_add client_id event)))"

fun apply_entries ::
    "u64 \<Rightarrow> (u64 \<times> awareness_state) list \<Rightarrow> awareness_states \<times> awareness_event
     \<Rightarrow> (codec_error, awareness_states \<times> awareness_event) result" where
  "apply_entries local_id [] acc = Ok acc"
| "apply_entries local_id ((client_id, s) # update) acc =
     rbind (apply_entry local_id client_id s acc) (apply_entries local_id update)"

definition apply_update ::
    "awareness_states \<Rightarrow> awareness \<Rightarrow> (codec_error, awareness \<times> awareness_event option) result" where
  "apply_update update aw =
     rbind (apply_entries (aw_local_id aw) update (aw_states aw, new_event)) (\<lambda>(states, event).
     Ok (notify (aw\<lparr>aw_states := states\<rparr>) event))"

section \<open>The effect of an update on one client\<close>

text \<open>What the update leaves of a client it names, as a function of the old state.\<close>

definition merged_state ::
    "u64 \<Rightarrow> u64 \<Rightarrow> awareness_state option \<Rightarrow> awareness_state \<Rightarrow> awareness_state" where
  "merged_state local_id client_id prev s =
     (case prev of
        None \<Rightarrow> s
      | Some p \<Rightarrow>
          if client_id = local_id then p\<lparr>as_clock := max (as_clock p) (as_clock s) + 1\<rparr>
          else if as_clock p < as_clock s then
            (if is_deleted s then \<lparr>as_clock = as_clock p + 1, as_content = null_str\<rparr> else s)
          else p)"

datatype change = Added | Updated | Removed | Unchanged

definition change_of ::
    "u64 \<Rightarrow> u64 \<Rightarrow> awareness_state option \<Rightarrow> awareness_state \<Rightarrow> change" where
  "change_of local_id client_id prev s =
     (case prev of
        None \<Rightarrow> Added
      | Some p \<Rightarrow>
          if client_id = local_id then Updated
          else if as_clock p < as_clock s then (if is_deleted s then Removed else Updated)
          else Unchanged)"

text \<open>The clients of an update with a given kind of change, in the order of the update.\<close>

definition changed ::
    "change \<Rightarrow> u64 \<Rightarrow> awareness_states \<Rightarrow> (u64 \<times> awareness_state) list \<Rightarrow> u64 list" where
  "changed k local_id states update =
     map fst (filter (\<lambda>(c, s). change_of local_id c (map_of states c) s = k) update)"

definition event_changes ::
    "u64 \<Rightarrow> awareness_states \<Rightarrow> (u64 \<times> awareness_state) list \<Rightarrow> awareness_event \<Rightarrow> awareness_event" where
  "event_changes local_id states update ev =
     \<lparr>ev_added = ev_added ev @ changed Added local_id states update,
      ev_updated = ev_updated ev @ changed Updated local_id states update,
      ev_removed = ev_removed ev @ changed Removed local_id states update\<rparr>"

definition merged_map ::
    "u64 \<Rightarrow> awareness_states \<Rightarrow> (u64 \<times> awareness_state) list \<Rightarrow> u64 \<Rightarrow> awareness_state option" where
  "merged_map local_id states update c =
     (case map_of update c of
        None \<Rightarrow> map_of states c
      | Some s \<Rightarrow> Some (merged_state local_id c (map_of states c) s))"

text \<open>The clock of the local client can be raised over the one the update has for it.\<close>

definition clock_room :: "u64 \<Rightarrow> awareness_states \<Rightarrow> (u64 \<times> awareness_state) list \<Rightarrow> bool" where
  "clock_room local_id states update \<longleftrightarrow>
     (\<forall>s p. map_of update local_id = Some s \<longrightarrow> map_of states local_id = Some p \<longrightarrow>
        unat (max (as_clock p) (as_clock s)) + 1 < 2 ^ 64)"

lemma above_lower: "a < b \<Longrightarrow> unat (a :: u64) + 1 < 2 ^ 64"
  using unat_u64_less [of b] by (simp add: less_unat)

lemma delete_below:
  assumes "as_clock p < k"
  shows "delete_state p = (Ok \<lparr>as_clock = as_clock p + 1, as_content = null_str\<rparr> :: awareness_state codec_result)"
  using above_lower [OF assms]
  by (simp add: delete_state_def set_content_def add_clock_def add_u64_def)

lemma event_step:
  "event_changes local_id states [(c, s)] ev =
   (case change_of local_id c (map_of states c) s of
      Added \<Rightarrow> event_add c ev | Updated \<Rightarrow> event_update c ev | Removed \<Rightarrow> event_remove c ev | Unchanged \<Rightarrow> ev)"
  by (simp add: event_changes_def changed_def event_add_def event_update_def event_remove_def split: change.splits)

lemma apply_entry_effect:
  assumes "hm_wf states" "clock_room local_id states [(c, s)]"
  shows "\<exists>states'. apply_entry local_id c s (states, ev)
      = Ok (states', event_changes local_id states [(c, s)] ev)
    \<and> hm_wf states' \<and> map_of states' = (map_of states)(c \<mapsto> merged_state local_id c (map_of states c) s)"
proof (cases "map_of states c")
  case None
  then show ?thesis
    using assms(1) by (simp add: apply_entry_def event_step change_of_def merged_state_def)
next
  case (Some p)
  show ?thesis
  proof (cases "c = local_id")
    case True
    then have "unat (max (as_clock p) (as_clock s)) + 1 < 2 ^ 64"
      using assms(2) Some by (simp add: clock_room_def)
    then have "(add_u64 (max (as_clock p) (as_clock s)) 1 :: u64 codec_result) = Ok (max (as_clock p) (as_clock s) + 1)"
      by (simp add: add_u64_def)
    then show ?thesis
      using assms(1) Some True
      by (simp add: apply_entry_def event_step change_of_def merged_state_def set_clock_def)
  next
    case False
    have "map_of states = (map_of states)(c \<mapsto> p)" using Some by (simp add: fun_upd_idem)
    then show ?thesis
      using assms(1) Some False delete_below [of p "as_clock s"]
      by (simp add: apply_entry_def event_step change_of_def merged_state_def)
  qed
qed

lemma changed_cong:
  "(\<And>c. c \<in> fst ` set update \<Longrightarrow> map_of states c = map_of states' c) \<Longrightarrow>
   changed k local_id states update = changed k local_id states' update"
  unfolding changed_def by (intro arg_cong [where f = "map fst"] filter_cong) (auto simp: rev_image_eqI)

lemma apply_entries_effect:
  "hm_wf states \<Longrightarrow> hm_wf update \<Longrightarrow> clock_room local_id states update \<Longrightarrow>
   \<exists>states'. apply_entries local_id update (states, ev) = Ok (states', event_changes local_id states update ev)
     \<and> hm_wf states' \<and> map_of states' = merged_map local_id states update"
proof (induction update arbitrary: states ev)
  case Nil
  then show ?case by (simp add: event_changes_def changed_def merged_map_def fun_eq_iff)
next
  case (Cons e update)
  obtain c s where e: "e = (c, s)" by (cases e)
  have fresh: "c \<notin> fst ` set update" "hm_wf update" using Cons.prems(2) by (auto simp: hm_wf_def e)
  then have none: "map_of update c = None" by (simp add: map_of_eq_None_iff)
  have "clock_room local_id states [(c, s)]" using Cons.prems(3) by (auto simp: clock_room_def e split: if_splits)
  from apply_entry_effect [OF Cons.prems(1) this, of ev] obtain st where
    st: "apply_entry local_id c s (states, ev) = Ok (st, event_changes local_id states [(c, s)] ev)" "hm_wf st"
      "map_of st = (map_of states)(c \<mapsto> merged_state local_id c (map_of states c) s)" by blast
  have "clock_room local_id st update"
    using Cons.prems(3) none by (auto simp: clock_room_def e st(3) split: if_splits)
  from Cons.IH [OF st(2) fresh(2) this, of "event_changes local_id states [(c, s)] ev"] obtain st' where
    st': "apply_entries local_id update (st, event_changes local_id states [(c, s)] ev)
        = Ok (st', event_changes local_id st update (event_changes local_id states [(c, s)] ev))"
      "hm_wf st'" "map_of st' = merged_map local_id st update" by blast
  have "changed k local_id st update = changed k local_id states update" for k
    using fresh(1) by (intro changed_cong) (auto simp: st(3))
  then have "event_changes local_id st update (event_changes local_id states [(c, s)] ev)
      = event_changes local_id states (e # update) ev"
    by (simp add: event_changes_def e changed_def)
  moreover have "merged_map local_id st update = merged_map local_id states (e # update)"
    using none by (auto simp: merged_map_def e st(3) fun_eq_iff split: option.splits)
  ultimately show ?case using st st' by (simp add: e)
qed

lemma apply_update_effect:
  assumes "hm_wf (aw_states aw)" "hm_wf update" "clock_room (aw_local_id aw) (aw_states aw) update"
  shows "\<exists>states. apply_update update aw
      = Ok (notify (aw\<lparr>aw_states := states\<rparr>) (event_changes (aw_local_id aw) (aw_states aw) update new_event))
    \<and> hm_wf states \<and> map_of states = merged_map (aw_local_id aw) (aw_states aw) update"
  using apply_entries_effect [OF assms, of new_event] by (auto simp: apply_update_def)

lemma apply_entries_panics:
  "hm_wf states \<Longrightarrow> hm_wf update \<Longrightarrow> \<not> clock_room local_id states update \<Longrightarrow>
   apply_entries local_id update (states, ev) = Panic"
proof (induction update arbitrary: states ev)
  case Nil
  then show ?case by (simp add: clock_room_def)
next
  case (Cons e update)
  obtain c s where e: "e = (c, s)" by (cases e)
  have fresh: "map_of update c = None" "hm_wf update"
    using Cons.prems(2) by (auto simp: hm_wf_def e map_of_eq_None_iff)
  show ?case
  proof (cases "clock_room local_id states [(c, s)]")
    case True
    from apply_entry_effect [OF Cons.prems(1) this, of ev] obtain st where
      st: "apply_entry local_id c s (states, ev) = Ok (st, event_changes local_id states [(c, s)] ev)" "hm_wf st"
        "map_of st = (map_of states)(c \<mapsto> merged_state local_id c (map_of states c) s)" by blast
    have "\<not> clock_room local_id st update"
      using Cons.prems(3) True fresh(1) by (auto simp: clock_room_def e st(3) split: if_splits)
    from Cons.IH [OF st(2) fresh(2) this] st(1) show ?thesis by (simp add: e)
  next
    case False
    then obtain p where p: "c = local_id" "map_of states c = Some p"
      "\<not> unat (max (as_clock p) (as_clock s)) + 1 < 2 ^ 64"
      by (auto simp: clock_room_def split: if_splits)
    from p(3) have "(add_u64 (max (as_clock p) (as_clock s)) 1 :: u64 codec_result) = Panic"
      by (simp add: add_u64_def)
    then have "(apply_entry local_id c s (states, ev) :: _ codec_result) = Panic"
      using p(1,2) by (simp add: apply_entry_def)
    then show ?thesis by (simp add: e)
  qed
qed

section \<open>Properties\<close>

text \<open>C33: An awareness update has exactly its specified effect on every client.  A client that is new
  is taken over; a newer state replaces or removes the old one; an older one changes nothing; the
  local client keeps its content.  The event names exactly the clients that changed, by kind.\<close>

theorem awareness_update_effect:
  assumes "hm_wf (aw_states aw)" "hm_wf update" "clock_room (aw_local_id aw) (aw_states aw) update"
    "aw_callback aw"
  shows "\<exists>aw' ev. apply_update update aw = Ok (aw', Some ev)
    \<and> aw_local_id aw' = aw_local_id aw
    \<and> map_of (aw_states aw') c = (case map_of update c of
          None \<Rightarrow> map_of (aw_states aw) c
        | Some s \<Rightarrow> Some (merged_state (aw_local_id aw) c (map_of (aw_states aw) c) s))
    \<and> ev_added ev = changed Added (aw_local_id aw) (aw_states aw) update
    \<and> ev_updated ev = changed Updated (aw_local_id aw) (aw_states aw) update
    \<and> ev_removed ev = changed Removed (aw_local_id aw) (aw_states aw) update"
  using apply_update_effect [OF assms(1-3)] assms(4)
  by (auto simp: notify_def event_changes_def new_event_def merged_map_def)

lemma awareness_update_effect_witness:
  "\<exists>aw' ev. apply_update [(7, \<lparr>as_clock = 4, as_content = [1]\<rparr>)] \<lparr>aw_states = [(7, \<lparr>as_clock = 2, as_content = [2]\<rparr>)],
        aw_callback = True, aw_local_id = 1\<rparr> = Ok (aw', Some ev)
    \<and> map_of (aw_states aw') 7 = Some \<lparr>as_clock = 4, as_content = [1]\<rparr> \<and> ev_updated ev = [7]"
proof -
  have "null_str \<noteq> [1]" by (simp add: null_str_def str_bytes_def)
  then show ?thesis
    using awareness_update_effect [of "\<lparr>aw_states = [(7, \<lparr>as_clock = 2, as_content = [2]\<rparr>)],
        aw_callback = True, aw_local_id = 1\<rparr>" "[(7, \<lparr>as_clock = 4, as_content = [1]\<rparr>)]" 7]
    by (fastforce simp: hm_wf_def clock_room_def merged_state_def changed_def change_of_def is_deleted_def)
qed

text \<open>The clocks of the clients never go back, and the local client wins: after an update that
  has a state for the local client its own clock is above the received one and its content is kept.\<close>

lemma awareness_update_monotone:
  assumes "hm_wf (aw_states aw)" "hm_wf update" "clock_room (aw_local_id aw) (aw_states aw) update"
    "map_of (aw_states aw) c = Some p"
  shows "\<exists>aw' ev q. apply_update update aw = Ok (aw', ev) \<and> map_of (aw_states aw') c = Some q
    \<and> as_clock p \<le> as_clock q
    \<and> (\<forall>s. c = aw_local_id aw \<and> map_of update c = Some s \<longrightarrow>
          as_clock s < as_clock q \<and> as_clock p < as_clock q \<and> as_content q = as_content p)"
proof -
  let ?q = "case map_of update c of None \<Rightarrow> p | Some s \<Rightarrow> merged_state (aw_local_id aw) c (Some p) s"
  from apply_update_effect [OF assms(1-3)] obtain states where
    st: "apply_update update aw
        = Ok (notify (aw\<lparr>aw_states := states\<rparr>) (event_changes (aw_local_id aw) (aw_states aw) update new_event))"
      "map_of states c = Some ?q"
    using assms(4) by (auto simp: merged_map_def split: option.splits)
  have room: "unat (max (as_clock p) (as_clock s) + 1) = unat (max (as_clock p) (as_clock s)) + 1"
    if "map_of update c = Some s" "c = aw_local_id aw" for s
    using assms(3,4) that unat_plus_u64 [of "max (as_clock p) (as_clock s)" 1] by (simp add: clock_room_def)
  have "as_clock p \<le> as_clock p + 1" if "as_clock p < as_clock s" for s :: awareness_state
    using that unat_plus_u64 [of "as_clock p" 1] above_lower [OF that] by (simp add: le_unat)
  then have "as_clock p \<le> as_clock ?q"
    using room by (auto simp: merged_state_def le_unat max_def less_unat split: option.splits if_splits)
  moreover have "\<forall>s. c = aw_local_id aw \<and> map_of update c = Some s \<longrightarrow>
      as_clock s < as_clock ?q \<and> as_clock p < as_clock ?q \<and> as_content ?q = as_content p"
    using room by (auto simp: merged_state_def less_unat le_unat max_def)
  ultimately show ?thesis using st by (auto simp: notify_def)
qed

lemma awareness_update_monotone_witness:
  "\<exists>aw' ev q. apply_update [(1, \<lparr>as_clock = 9, as_content = [3]\<rparr>)] \<lparr>aw_states = [(1, \<lparr>as_clock = 2, as_content = [2]\<rparr>)],
        aw_callback = False, aw_local_id = 1\<rparr> = Ok (aw', ev)
    \<and> map_of (aw_states aw') 1 = Some q \<and> 9 < as_clock q \<and> as_content q = [2]"
  using awareness_update_monotone [of "\<lparr>aw_states = [(1, \<lparr>as_clock = 2, as_content = [2]\<rparr>)],
      aw_callback = False, aw_local_id = 1\<rparr>" "[(1, \<lparr>as_clock = 9, as_content = [3]\<rparr>)]" 1
      "\<lparr>as_clock = 2, as_content = [2]\<rparr>"]
  by (auto simp: hm_wf_def clock_room_def)

text \<open>An update makes the whole awareness panic exactly when the clock it carries for the local
  client, or the local clock itself, is \<open>u64::MAX\<close>: a peer can send that clock.\<close>

lemma awareness_update_panics_iff:
  assumes "hm_wf (aw_states aw)" "hm_wf update"
  shows "apply_update update aw = Panic \<longleftrightarrow> \<not> clock_room (aw_local_id aw) (aw_states aw) update"
  using apply_update_effect [OF assms] apply_entries_panics [OF assms]
  by (cases "clock_room (aw_local_id aw) (aw_states aw) update")
    (auto simp: apply_update_def)

lemma awareness_update_panics_iff_witness:
  "apply_update [(1, \<lparr>as_clock = - 1, as_content = []\<rparr>)] \<lparr>aw_states = [(1, \<lparr>as_clock = 2, as_content = [2]\<rparr>)],
     aw_callback = False, aw_local_id = 1\<rparr> = Panic"
  using awareness_update_panics_iff [of "\<lparr>aw_states = [(1, \<lparr>as_clock = 2, as_content = [2]\<rparr>)],
     aw_callback = False, aw_local_id = 1\<rparr>" "[(1, \<lparr>as_clock = - 1, as_content = []\<rparr>)]"]
  by (simp add: hm_wf_def clock_room_def unsigned_minus_1_eq_mask mask_eq_exp_minus_1)

text \<open>A removal does not keep the clock it was sent with.  The state is left with the old clock
  plus one, so a state the peer sent before it was removed, but which arrives later, is taken for
  a newer one and brings the client back.\<close>

lemma awareness_removal_loses_clock:
  assumes "c \<noteq> local_id" "is_deleted gone" "\<not> is_deleted stale"
    "as_clock p + 1 < as_clock stale" "as_clock stale < as_clock gone" "as_clock p < as_clock gone"
  shows "\<exists>states ev. apply_entries local_id [(c, gone), (c, stale)] ([(c, p)], new_event) = Ok (states, ev)
    \<and> map_of states c = Some stale"
  using assms delete_below [OF assms(6)] by (simp add: apply_entry_def)

lemma awareness_removal_loses_clock_witness:
  "\<exists>states ev. apply_entries 1 [(2, \<lparr>as_clock = 9, as_content = null_str\<rparr>), (2, \<lparr>as_clock = 5, as_content = []\<rparr>)]
      ([(2, \<lparr>as_clock = 1, as_content = [3]\<rparr>)], new_event) = Ok (states, ev)
    \<and> map_of states 2 = Some \<lparr>as_clock = 5, as_content = []\<rparr>"
  by (rule awareness_removal_loses_clock) (simp_all add: is_deleted_def null_str_def str_bytes_def)

end
