(* ===== verification/Workspace_Model.thy ===== *)
theory Workspace_Model
  imports Space_Model Awareness_State
begin

text \<open>
  Workspaces, \<open>libs/jwst-core/src/workspaces/workspace.rs\<close>, \<open>spaces.rs\<close>, \<open>metadata/meta.rs\<close>, and the sync
  protocol as a workspace speaks it, \<open>workspaces/sync.rs\<close>.  A workspace is a document with its
  awareness and two of its maps.
\<close>

section \<open>State\<close>

record workspace =
  ws_id :: bytes
  ws_awareness :: awareness
  ws_doc :: doc
  ws_updated :: ytype_ref
  ws_metadata :: ytype_ref

definition ws_from_doc :: "doc \<Rightarrow> bytes \<Rightarrow> store \<Rightarrow> heap \<Rightarrow> (codec_error, workspace \<times> store \<times> heap) result" where
  "ws_from_doc d workspace_id st h =
     rbind (get_or_create_map space_updated_key st h) (\<lambda>(updated, st, h).
     rbind (get_or_create_map space_meta_key st h) (\<lambda>(metadata, st, h).
     Ok (\<lparr>ws_id = workspace_id, ws_awareness = new_awareness (doc_client_id d), ws_doc = d, ws_updated = updated,
          ws_metadata = metadata\<rparr>, st, h)))"

definition ws_new :: "doc_options \<Rightarrow> bytes \<Rightarrow> heap \<Rightarrow> (codec_error, workspace \<times> store \<times> heap) result" where
  "ws_new dflt workspace_id h = (case with_options dflt of (d, st) \<Rightarrow> ws_from_doc d workspace_id st h)"

definition ws_from_binary ::
    "serde_env \<Rightarrow> doc_options \<Rightarrow> bytes \<Rightarrow> bytes \<Rightarrow> heap \<Rightarrow> (codec_error, workspace \<times> store \<times> heap) result" where
  "ws_from_binary senv dflt binary workspace_id h =
     rbind (try_from_binary_v1_with_options senv binary dflt h) (\<lambda>(d, st, h). ws_from_doc d workspace_id st h)"

definition ws_to_binary :: "serde_env \<Rightarrow> store \<Rightarrow> heap \<Rightarrow> (codec_error, bytes \<times> heap) result" where
  "ws_to_binary senv st h = encode_update_v1 senv st h"

definition ws_is_empty :: "workspace \<Rightarrow> heap \<Rightarrow> bool" where
  "ws_is_empty ws h = map_is_empty (ws_updated ws) h"

definition ws_doc_guid :: "workspace \<Rightarrow> bytes" where
  "ws_doc_guid ws = doc_guid (ws_doc ws)"

definition ws_client_id :: "workspace \<Rightarrow> u64" where
  "ws_client_id ws = doc_client_id (ws_doc ws)"

definition ws_history ::
    "history_env \<Rightarrow> store \<Rightarrow> heap \<Rightarrow> history_options \<Rightarrow> ('e, history list) result option" where
  "ws_history env st h options = parse_store (env\<lparr>he_parents := doc_history st h\<rparr>) st h options"

definition ws_encode_update_since ::
    "serde_env \<Rightarrow> state_vector \<Rightarrow> store \<Rightarrow> heap \<Rightarrow> (codec_error, bytes \<times> heap) result" where
  "ws_encode_update_since senv sv st h = encode_state_as_update_v1 senv sv st h"

definition ws_clone :: "workspace \<Rightarrow> workspace" where
  "ws_clone ws = ws\<lparr>ws_updated := clone_ytype_ref (ws_updated ws), ws_metadata := clone_ytype_ref (ws_metadata ws)\<rparr>"

section \<open>Metadata and spaces\<close>

record workspace_metadata =
  wm_name :: "bytes option"
  wm_avatar :: "bytes option"

definition name_key :: bytes where "name_key = str_bytes ''name''"
definition avatar_key :: bytes where "avatar_key = str_bytes ''avatar''"

definition metadata_from_map :: "core_env \<Rightarrow> ytype_ref \<Rightarrow> heap \<Rightarrow> ('e, workspace_metadata) result" where
  "metadata_from_map env m h =
     rbind (get_text env m name_key h) (\<lambda>name.
     rbind (get_text env m avatar_key h) (\<lambda>avatar. Ok \<lparr>wm_name = name, wm_avatar = avatar\<rparr>))"

definition any_from_metadata :: "workspace_metadata \<Rightarrow> any" where
  "any_from_metadata val =
     (let m = (case wm_name val of Some name \<Rightarrow> hm_insert name_key (AnyString name) [] | None \<Rightarrow> []);
          m = (case wm_avatar val of Some avatar \<Rightarrow> hm_insert avatar_key (AnyString avatar) m | None \<Rightarrow> m)
      in AnyObject m)"

definition ws_get_metadata :: "core_env \<Rightarrow> workspace \<Rightarrow> heap \<Rightarrow> ('e, workspace_metadata) result" where
  "ws_get_metadata env ws h = metadata_from_map env (ws_metadata ws) h"

definition ws_set_metadata :: "workspace \<Rightarrow> bytes \<Rightarrow> any \<Rightarrow> store \<Rightarrow> heap \<Rightarrow> (codec_error, store \<times> heap) result" where
  "ws_set_metadata ws key val st h = put_metadata (ws_metadata ws) key val st h"

definition ws_pages :: "core_env \<Rightarrow> workspace \<Rightarrow> store \<Rightarrow> heap \<Rightarrow> (codec_error, ytype_ref \<times> store \<times> heap) result" where
  "ws_pages env ws st h =
     rbind (map_get (ce_dflt env) (ws_metadata ws) (str_bytes ''pages'') h) (\<lambda>v.
     case Option.bind v to_array of
       Some pages \<Rightarrow> Ok (pages, st, h)
     | None \<Rightarrow>
         rbind (create_array st h) (\<lambda>(array, st, h).
         rbind (map_insert (ws_metadata ws) (str_bytes ''pages'') (ValueArray (clone_ytype_ref array)) st h) (\<lambda>(st, h).
         Ok (array, st, h))))"

definition ws_get_space ::
    "core_env \<Rightarrow> workspace \<Rightarrow> bytes \<Rightarrow> store \<Rightarrow> heap \<Rightarrow> (codec_error, space \<times> store \<times> heap) result" where
  "ws_get_space env ws space_id st h =
     rbind (ws_pages env ws st h) (\<lambda>(pages, st, h). new_space (ws_doc ws) pages (ws_id ws) space_id st h)"

definition ws_get_exists_space :: "core_env \<Rightarrow> workspace \<Rightarrow> bytes \<Rightarrow> store \<Rightarrow> heap \<Rightarrow> ('e, space option \<times> heap) result" where
  "ws_get_exists_space env ws space_id st h = space_from_exists env (ws_doc ws) (ws_id ws) space_id st h"

definition ws_get_blocks :: "core_env \<Rightarrow> workspace \<Rightarrow> store \<Rightarrow> heap \<Rightarrow> (codec_error, space \<times> store \<times> heap) result" where
  "ws_get_blocks env ws st h = ws_get_space env ws (str_bytes ''blocks'') st h"

definition reserve_space :: "bytes list" where
  "reserve_space = [space_meta_key, space_updated_key]"

fun spaces_of :: "core_env \<Rightarrow> workspace \<Rightarrow> bytes list \<Rightarrow> store \<Rightarrow> heap \<Rightarrow> ('e, space list \<times> heap) result" where
  "spaces_of env ws [] st h = Ok ([], h)"
| "spaces_of env ws (key # keys) st h =
     (if take 6 key = space_prefix \<and> key \<notin> set reserve_space then
        rbind (space_from_exists env (ws_doc ws) (ws_id ws) (drop 6 key) st h) (\<lambda>(s, h).
        rbind (spaces_of env ws keys st h) (\<lambda>(rest, h).
        Ok (case s of Some s \<Rightarrow> (s # rest, h) | None \<Rightarrow> (rest, h))))
      else spaces_of env ws keys st h)"

definition ws_spaces :: "core_env \<Rightarrow> workspace \<Rightarrow> store \<Rightarrow> heap \<Rightarrow> ('e, space list \<times> heap) result" where
  "ws_spaces env ws st h = spaces_of env ws (doc_keys st) st h"

section \<open>The sync protocol\<close>

text \<open>
  \<open>SyncMessageScanner::new(&buffer).flatten()\<close>: the errors the scanner gives are left out, and as it
  gives an error again and again, nothing comes after one.
\<close>

partial_function (option) scan_flat :: "bytes \<Rightarrow> (codec_error, sync_message list) result option" where
  "scan_flat buffer =
     (case scanner_next buffer of
        (None, _) \<Rightarrow> Some (Ok [])
      | (Some (Ok message), buffer) \<Rightarrow> obind (scan_flat buffer) (\<lambda>ms. Some (Ok (message # ms)))
      | (Some (Err e), buffer) \<Rightarrow> scan_flat buffer
      | (Some Panic, buffer) \<Rightarrow> Some Panic)"

fun is_awareness_message :: "sync_message \<Rightarrow> bool" where
  "is_awareness_message (Awareness _) = True"
| "is_awareness_message AwarenessQuery = True"
| "is_awareness_message _ = False"

fun scan_buffers :: "bytes list \<Rightarrow> (codec_error, sync_message list) result option" where
  "scan_buffers [] = Some (Ok [])"
| "scan_buffers (buffer # buffers) =
     obind (scan_flat buffer) (\<lambda>ms. obind (scan_buffers buffers) (\<lambda>rest. Some (Ok (ms @ rest))))"

fun sync_awareness :: "sync_message list \<Rightarrow> awareness \<Rightarrow> (codec_error, bytes list \<times> awareness \<times> awareness_event list) result" where
  "sync_awareness [] aw = Ok ([], aw, [])"
| "sync_awareness (AwarenessQuery # msgs) aw =
     rbind (sync_awareness msgs aw) (\<lambda>(replies, aw', events).
     Ok (write_sync_message [] (Awareness (aw_states aw)) # replies, aw', events))"
| "sync_awareness (Awareness update # msgs) aw =
     rbind (apply_update update aw) (\<lambda>(aw, ev).
     rbind (sync_awareness msgs aw) (\<lambda>(replies, aw, events).
     Ok (replies, aw, (case ev of Some ev \<Rightarrow> ev # events | None \<Rightarrow> events))))"
| "sync_awareness (_ # msgs) aw = sync_awareness msgs aw"

text \<open>
  What a failed update leaves behind in the store and the heap is not modelled; the code logs the error and
  goes on from there.  It is a parameter here, \<open>se_left\<close>, so that what is proved holds whatever it is.
\<close>

record sync_env =
  se_serde :: serde_env
  se_left :: "update \<Rightarrow> store \<Rightarrow> heap \<Rightarrow> store \<times> heap"

definition apply_or_left :: "sync_env \<Rightarrow> update \<Rightarrow> store \<Rightarrow> heap \<Rightarrow> (codec_error, bool \<times> store \<times> heap) result" where
  "apply_or_left env u st h =
     (case doc_apply_update u st h of
        Ok (st, h) \<Rightarrow> Ok (True, st, h)
      | Err _ \<Rightarrow> (case se_left env u st h of (st, h) \<Rightarrow> Ok (False, st, h))
      | Panic \<Rightarrow> Panic)"

definition answer_step1 :: "sync_env \<Rightarrow> bytes \<Rightarrow> store \<Rightarrow> heap \<Rightarrow> (codec_error, doc_message option \<times> store \<times> heap) result" where
  "answer_step1 env sv st h =
     (case read_state_vector (new_decoder sv) of
        Ok (sv, _) \<Rightarrow>
          (case encode_state_as_update_v1 (se_serde env) sv st h of
             Ok (update, h) \<Rightarrow> Ok (Some (Step2 update), st, h)
           | Err _ \<Rightarrow> Ok (None, st, h)
           | Panic \<Rightarrow> Panic)
      | Err _ \<Rightarrow> Ok (None, st, h)
      | Panic \<Rightarrow> Panic)"

definition answer_step2 :: "sync_env \<Rightarrow> bytes \<Rightarrow> store \<Rightarrow> heap \<Rightarrow> (codec_error, doc_message option \<times> store \<times> heap) result" where
  "answer_step2 env update st h =
     (case decode_v1 (se_serde env) h update of
        Ok (u, h) \<Rightarrow> rbind (apply_or_left env u st h) (\<lambda>(_, st, h). Ok (None, st, h))
      | Err _ \<Rightarrow> Ok (None, st, h)
      | Panic \<Rightarrow> Panic)"

definition answer_update :: "sync_env \<Rightarrow> bytes \<Rightarrow> store \<Rightarrow> heap \<Rightarrow> (codec_error, doc_message option \<times> store \<times> heap) result" where
  "answer_update env update st h =
     rbind (get_state_vector h st) (\<lambda>before_state.
     case decode_v1 (se_serde env) h update of
       Err _ \<Rightarrow> Ok (None, st, h)
     | Panic \<Rightarrow> Panic
     | Ok (u, h) \<Rightarrow>
         rbind (apply_or_left env u st h) (\<lambda>(applied, st, h).
         if \<not> applied then Ok (None, st, h)
         else (case encode_state_as_update before_state st h of
                 Err _ \<Rightarrow> Ok (None, st, h)
               | Panic \<Rightarrow> Panic
               | Ok (u, h) \<Rightarrow>
                   if is_content_empty u then Ok (None, st, h)
                   else (case encode_v1 (se_serde env) h u of
                           Ok update \<Rightarrow> Ok (Some (Update update), st, h)
                         | Err _ \<Rightarrow> Ok (None, st, h)
                         | Panic \<Rightarrow> Panic))))"

fun sync_content :: "sync_env \<Rightarrow> sync_message list \<Rightarrow> store \<Rightarrow> heap \<Rightarrow> (codec_error, bytes list \<times> store \<times> heap) result" where
  "sync_content env [] st h = Ok ([], st, h)"
| "sync_content env (Doc msg # msgs) st h =
     rbind (case msg of
              Step1 sv \<Rightarrow> answer_step1 env sv st h
            | Step2 update \<Rightarrow> answer_step2 env update st h
            | Update update \<Rightarrow> answer_update env update st h) (\<lambda>(reply, st, h).
     rbind (sync_content env msgs st h) (\<lambda>(replies, st, h).
     Ok ((case reply of Some m \<Rightarrow> [write_sync_message [] (Doc m)] | None \<Rightarrow> []) @ replies, st, h)))"
| "sync_content env (_ # msgs) st h = sync_content env msgs st h"

definition sync_messages ::
    "sync_env \<Rightarrow> workspace \<Rightarrow> bytes list \<Rightarrow> store \<Rightarrow> heap
       \<Rightarrow> (codec_error, bytes list \<times> workspace \<times> awareness_event list \<times> store \<times> heap) result option" where
  "sync_messages env ws buffers st h =
     obind (scan_buffers buffers) (\<lambda>msgs.
     Some (rbind (sync_awareness (filter is_awareness_message msgs) (ws_awareness ws)) (\<lambda>(result, aw, events).
           rbind (sync_content env (filter (\<lambda>m. \<not> is_awareness_message m) msgs) st h) (\<lambda>(replies, st, h).
           Ok (result @ replies, ws\<lparr>ws_awareness := aw\<rparr>, events, st, h)))))"

definition sync_migration :: "sync_env \<Rightarrow> store \<Rightarrow> heap \<Rightarrow> (codec_error, bytes \<times> heap) result" where
  "sync_migration env st h = encode_state_as_update_v1 (se_serde env) [] st h"

definition sync_init_message :: "workspace \<Rightarrow> store \<Rightarrow> heap \<Rightarrow> (codec_error, bytes) result" where
  "sync_init_message ws st h =
     rbind (get_state_vector h st) (\<lambda>sv.
     rbind (write_state_vector new_encoder sv) (\<lambda>encoder.
     let buffer = write_sync_message [] (Doc (Step1 (enc_buffer encoder)))
     in Ok (write_sync_message buffer (Awareness (aw_states (ws_awareness ws))))))"

end
