(* ===== verification/Workspace_Sync.thy ===== *)
theory Workspace_Sync
  imports Workspace_Model
begin

text \<open>
  What the sync protocol of a workspace gives: when \<open>sync_messages\<close> returns at all, and that the message a
  workspace opens with is answered with what its state vector says is missing.
\<close>

section \<open>Scanning a buffer\<close>

lemma scan_flat_stuck:
  assumes "scanner_next b = (Some (Err e), b)"
  shows "scan_flat b = None"
proof (rule ccontr)
  assume "scan_flat b \<noteq> None"
  then obtain y where "scan_flat b = Some y" by (cases "scan_flat b") auto
  then have "\<not> (\<exists>e. scanner_next b = (Some (Err e), b))"
  proof (rule scan_flat.raw_induct [where P = "\<lambda>b _. \<not> (\<exists>e. scanner_next b = (Some (Err e), b))", rotated])
    fix f and b and y
    assume IH: "\<And>b y. f b = Some y \<Longrightarrow> \<not> (\<exists>e. scanner_next b = (Some (Err e), b))"
      and b: "(case scanner_next b of (None, _) \<Rightarrow> Some (Ok [])
        | (Some (Ok m), b) \<Rightarrow> obind (f b) (\<lambda>ms. Some (Ok (m # ms)))
        | (Some (Err e), b) \<Rightarrow> f b | (Some Panic, b) \<Rightarrow> Some Panic) = Some y"
    show "\<not> (\<exists>e. scanner_next b = (Some (Err e), b))"
      using IH [of b y] b by auto
  qed
  with assms show False by blast
qed

lemma scan_flat_collect:
  "scan_flat b = (case scanner_collect b of Ok ms \<Rightarrow> Some (Ok ms) | Err _ \<Rightarrow> None | Panic \<Rightarrow> Some Panic)"
proof (induction b rule: scanner_collect.induct)
  case (1 b)
  obtain r tail where n: "scanner_next b = (r, tail)" by (cases "scanner_next b")
  note unfolded = scan_flat.simps [of b] scanner_collect.simps [of b] n
  show ?case
  proof (cases r)
    case None
    then show ?thesis by (simp add: unfolded)
  next
    case (Some m)
    show ?thesis
    proof (cases m)
      case (Ok message)
      have "scan_flat tail = (case scanner_collect tail of Ok ms \<Rightarrow> Some (Ok ms) | Err _ \<Rightarrow> None | Panic \<Rightarrow> Some Panic)"
        using "1.IH" [OF n [symmetric] Some Ok] .
      then show ?thesis by (cases "scanner_collect tail") (simp_all add: unfolded Some Ok)
    next
      case (Err e)
      with n Some have "scanner_next b = (Some (Err e), b)" using scanner_next_Err [of b e tail] by simp
      then show ?thesis using scan_flat_stuck by (simp add: scanner_collect.simps [of b])
    next
      case Panic
      with Some show ?thesis by (simp add: unfolded)
    qed
  qed
qed

lemma scan_buffers_collect:
  assumes "\<forall>b \<in> set buffers. scanner_collect b \<noteq> Panic"
  shows "case scan_buffers buffers of
      None \<Rightarrow> \<exists>b \<in> set buffers. \<exists>e. scanner_collect b = Err e
    | Some r \<Rightarrow> (\<forall>b \<in> set buffers. \<exists>ms. scanner_collect b = Ok ms) \<and> (\<exists>ms. r = Ok ms)"
  using assms
proof (induction buffers)
  case (Cons b buffers)
  then have IH: "case scan_buffers buffers of
      None \<Rightarrow> \<exists>b \<in> set buffers. \<exists>e. scanner_collect b = Err e
    | Some r \<Rightarrow> (\<forall>b \<in> set buffers. \<exists>ms. scanner_collect b = Ok ms) \<and> (\<exists>ms. r = Ok ms)" by simp
  show ?case
  proof (cases "scanner_collect b")
    case (Ok ms)
    with IH show ?thesis by (cases "scan_buffers buffers") (auto simp: scan_flat_collect)
  next
    case (Err e)
    then show ?thesis by (simp add: scan_flat_collect)
  next
    case Panic
    with Cons.prems show ?thesis by simp
  qed
qed simp

lemma scan_flat_messages:
  "\<forall>m \<in> set ms. sync_message_ok m \<Longrightarrow> scan_flat (concat (map sync_message_bytes ms)) = Some (Ok ms)"
  by (simp add: scan_flat_collect scanner_collect_messages)

section \<open>The opening message\<close>

lemma read_step1:
  assumes "write_state_vector new_encoder sv = Ok encoder" "state_vector_ok sv"
  shows "\<exists>d. read_state_vector (new_decoder (enc_buffer encoder)) = Ok (sv, d)"
  using appendsD [OF state_vector.wr_enc, OF assms(2), of new_encoder]
    decodes_fresh [OF state_vector.rd_enc, OF assms(2), of "[]"] assms(1)
  by (auto simp: new_encoder_def)

lemma init_message_eq:
  assumes "sync_init_message ws st h = Ok message"
  obtains sv encoder where "get_state_vector h st = Ok sv" "write_state_vector new_encoder sv = Ok encoder"
    "message = concat (map sync_message_bytes [Doc (Step1 (enc_buffer encoder)), Awareness (aw_states (ws_awareness ws))])"
  using assms by (auto simp: sync_init_message_def outcome_simps wire_sync.wr_enc Let_def intro: that)

section \<open>Properties\<close>


definition plain_env :: sync_env where "plain_env = \<lparr>se_serde = no_json, se_left = (\<lambda>u st h. (st, h))\<rparr>"

definition plain_workspace :: "client \<Rightarrow> workspace" where
  "plain_workspace c =
     \<lparr>ws_id = [], ws_awareness = new_awareness c,
      ws_doc = fst (with_options \<lparr>opt_guid = [], opt_client_id = c, opt_gc = True\<rparr>),
      ws_updated = \<lparr>yr_store = True, yr_inner = SNone\<rparr>, ws_metadata = \<lparr>yr_store = True, yr_inner = SNone\<rparr>\<rparr>"


text \<open>C8: The opening of a sync.  The peer that gets the opening message of a workspace answers with one
  message: the update its own document has over the state vector of the sender, and it takes over the awareness
  states of the sender; its document stays as it is.\<close>

theorem init_message_answered:
  assumes "sync_init_message ws st h = Ok message"
    and "get_state_vector h st = Ok sv" "state_vector_ok sv" "fits (state_vector_bytes sv)"
    and "sync_message_ok (Awareness (aw_states (ws_awareness ws)))"
    and "apply_update (aw_states (ws_awareness ws)) (ws_awareness peer) = Ok (aw, event)"
    and "encode_state_as_update_v1 (se_serde env) sv peer_st peer_h = Ok (update, peer_h')"
  shows "sync_messages env peer [message] peer_st peer_h
    = Some (Ok ([write_sync_message [] (Doc (Step2 update))], peer\<lparr>ws_awareness := aw\<rparr>,
        (case event of Some e \<Rightarrow> [e] | None \<Rightarrow> []), peer_st, peer_h'))"
proof -
  from init_message_eq [OF assms(1)] assms(2) obtain encoder where
    e: "write_state_vector new_encoder sv = Ok encoder" and
    m: "message = concat (map sync_message_bytes
          [Doc (Step1 (enc_buffer encoder)), Awareness (aw_states (ws_awareness ws))])"
    by (metis result.inject(1))
  have "enc_buffer encoder = state_vector_bytes sv"
    using appendsD [OF state_vector.wr_enc, OF assms(3), of new_encoder] e by (auto simp: new_encoder_def)
  with assms have "sync_message_ok (Doc (Step1 (enc_buffer encoder)))" by simp
  with assms have s: "scan_flat message = Some (Ok [Doc (Step1 (enc_buffer encoder)), Awareness (aw_states (ws_awareness ws))])"
    unfolding m by (intro scan_flat_messages) simp
  from read_step1 [OF e assms(3)] obtain d where
    "read_state_vector (new_decoder (enc_buffer encoder)) = Ok (sv, d)" by blast
  then have "answer_step1 env (enc_buffer encoder) peer_st peer_h = Ok (Some (Step2 update), peer_st, peer_h')"
    using assms(7) by (simp add: answer_step1_def)
  with s assms(6) show ?thesis by (simp add: sync_messages_def)
qed

lemma init_message_answered_witness:
  "\<exists>message update. sync_init_message (plain_workspace 1) (with_client 1) empty_heap = Ok message
    \<and> sync_messages plain_env (plain_workspace 2) [message] (with_client 2) empty_heap
        = Some (Ok ([write_sync_message [] (Doc (Step2 update))], plain_workspace 2, [], with_client 2, empty_heap))"
proof -
  have sv: "get_state_vector empty_heap (with_client 1) = Ok []"
    by (simp add: get_state_vector_def with_client_def)
  have ok: "state_vector_ok []" "fits (state_vector_bytes [])" "sync_message_ok (Awareness (aw_states (ws_awareness (plain_workspace 1))))"
    by (simp_all add: state_vector_ok_def hm_wf_def fits_def state_vector_bytes_def plain_workspace_def new_awareness_def
        awareness_ok_def awareness_bytes_def var_u64_bytes_base128 base128.simps)
  obtain message where m: "sync_init_message (plain_workspace 1) (with_client 1) empty_heap = Ok message"
    using appendsD [OF state_vector.wr_enc, OF ok(1), of new_encoder] by (simp add: sync_init_message_def sv Let_def)
  have aw: "apply_update (aw_states (ws_awareness (plain_workspace 1))) (ws_awareness (plain_workspace 2))
      = Ok (ws_awareness (plain_workspace 2), None)"
    by (simp add: plain_workspace_def new_awareness_def apply_update_def notify_def)
  obtain update where "encode_state_as_update_v1 (se_serde plain_env) [] (with_client 2) empty_heap = Ok (update, empty_heap)"
    by (simp add: encode_state_as_update_v1_def encode_state_as_update_def diff_state_vector_def with_client_def
        default_update_def encode_v1_def write_update_def write_delete_set_def diff_structs_def
        diff_state_vectors_def generate_delete_set_def get_state_vector_def appendsD [OF var_u64.wr_enc])
  from init_message_answered [OF m sv ok aw this] m show ?thesis by auto
qed

end
