(* ===== verification/Block_Laws.thy ===== *)
theory Block_Laws
  imports Block_Model
begin

text \<open>
  What an edit of a block does to the two maps it writes: the properties of the block, in the map of the block,
  and the time of its last change, in a map all blocks of the document share.
\<close>

section \<open>The invariant\<close>

definition block_ok :: "heap \<Rightarrow> store \<Rightarrow> block \<Rightarrow> ytype \<Rightarrow> ytype \<Rightarrow> bool" where
  "block_ok h st b t u \<longleftrightarrow>
     map_ok h st (blk_block b) t \<and> map_ok h st (blk_updated b) u \<and> \<not> same_type (blk_updated b) (blk_block b)
     \<and> plain_key h u (blk_block_id b)"

lemma block_okD:
  assumes "block_ok h st b t u"
  shows "map_ok h st (blk_block b) t" "map_ok h st (blk_updated b) u" "\<not> same_type (blk_updated b) (blk_block b)"
    "\<not> same_type (blk_block b) (blk_updated b)" "plain_key h u (blk_block_id b)"
  using assms by (auto simp: block_ok_def same_type_def)

text \<open>What a step may change: one key of the map of the block, and the time of the block.\<close>

definition block_step :: "block \<Rightarrow> bytes option \<Rightarrow> bytes option \<Rightarrow> heap \<Rightarrow> heap \<Rightarrow> bool" where
  "block_step b key stamp h h' \<longleftrightarrow> same_kinds h h'
     \<and> (\<forall>k. key \<noteq> Some k \<longrightarrow> key_item h' (blk_block b) k = key_item h (blk_block b) k)
     \<and> (\<forall>k. stamp \<noteq> Some k \<longrightarrow> key_item h' (blk_updated b) k = key_item h (blk_updated b) k)"

lemma block_step_trans:
  "block_step b key stamp h h1 \<Longrightarrow> block_step b key' stamp' h1 h2 \<Longrightarrow> key' \<in> {None, key} \<Longrightarrow> stamp \<in> {None, stamp'}
     \<Longrightarrow> block_step b key stamp' h h2"
  by (auto simp: block_step_def same_kinds_def)

lemma set_in_block:
  assumes "block_ok h st b t u" "plain_key h t k" "settable (ValueAny val) st h"
  obtains st' h' t' where "map_insert (blk_block b) k (ValueAny val) st h = Ok (st', h')" "block_ok h' st' b t' u"
    "block_step b (Some k) None h h'" "key_item h' (blk_block b) k = Some (content_from_value (ValueAny val))"
    "state_of h' st' (st_client st') = state_of h st (st_client st) + unat (clock_len (content_from_value (ValueAny val)))"
proof -
  note ok = block_okD [OF assms(1)]
  have v: "plain (content_from_value (ValueAny val))" "content_countable (content_from_value (ValueAny val))"
    "0 < clock_len (content_from_value (ValueAny val))"
    "state_of h st (st_client st) + unat (clock_len (content_from_value (ValueAny val))) < 2 ^ 64"
    using assms(3) by (simp_all add: settable_def content_from_any_def split: any.split)
  show thesis
  proof (rule map_insert_keyed [OF ok(1) assms(2) v])
    fix st' h' t'
    assume r: "map_insert (blk_block b) k (ValueAny val) st h = Ok (st', h')" "map_ok h' st' (blk_block b) t'"
      "key_item h' (blk_block b) k = Some (content_from_value (ValueAny val))"
      "\<And>k'. k' \<noteq> k \<Longrightarrow> key_item h' (blk_block b) k' = key_item h (blk_block b) k'" "elsewhere h (blk_block b) h'"
      "st_client st' = st_client st"
      "state_of h' st' (st_client st) = state_of h st (st_client st) + unat (clock_len (content_from_value (ValueAny val)))"
    note e = elsewhereD [OF r(5)] and s = map_okD(1) [OF r(2)]
    have "block_ok h' st' b t' u"
      using r(2) e(2) [OF ok(2,3) s] e(4) [OF ok(2,3) s ok(5)] ok(3) by (simp add: block_ok_def)
    moreover have "block_step b (Some k) None h h'"
      using r(4) e(1) e(3) [OF ok(2,3) s] by (auto simp: block_step_def)
    ultimately show thesis using that r(1,3,6,7) by simp
  qed
qed

lemma remove_in_block:
  assumes "block_ok h st b t u" "plain_key h t k"
  obtains st' h' where "map_remove (blk_block b) k st h = Ok (st', h')" "block_ok h' st' b t u"
    "block_step b (Some k) None h h'" "key_item h' (blk_block b) k = None"
    "state_of h' st' (st_client st') = state_of h st (st_client st)"
proof -
  note ok = block_okD [OF assms(1)]
  show thesis
  proof (rule map_remove_keyed [OF ok(1) assms(2)])
    fix st' h'
    assume r: "map_remove (blk_block b) k st h = Ok (st', h')" "map_ok h' st' (blk_block b) t" "key_item h' (blk_block b) k = None"
      "\<And>k'. k' \<noteq> k \<Longrightarrow> key_item h' (blk_block b) k' = key_item h (blk_block b) k'" "elsewhere h (blk_block b) h'"
      "st_client st' = st_client st" "\<And>c. state_of h' st' c = state_of h st c"
    note e = elsewhereD [OF r(5)] and s = map_okD(1) [OF r(2)]
    have "block_ok h' st' b t u"
      using r(2) e(2) [OF ok(2,3) s] e(4) [OF ok(2,3) s ok(5)] ok(3) by (simp add: block_ok_def)
    moreover have "block_step b (Some k) None h h'"
      using r(4) e(1) e(3) [OF ok(2,3) s] by (auto simp: block_step_def)
    ultimately show thesis using that r(1,3,6,7) by simp
  qed
qed

lemma log_update_exact:
  assumes "block_ok h st b t u" "state_of h st (st_client st) + 1 < 2 ^ 64"
  obtains st' h' u' where "log_update env b st h = Ok (st', h')" "block_ok h' st' b t u'"
    "block_step b None (Some (blk_block_id b)) h h'"
    "key_item h' (blk_updated b) (blk_block_id b) = Some (ContentAny [AnyFloat64 (ce_f64_of_i64 env (ce_now_millis env))])"
    "\<And>k. plain_key h t k \<Longrightarrow> plain_key h' t k"
proof -
  note ok = block_okD [OF assms(1)]
  let ?v = "ValueAny (AnyFloat64 (ce_f64_of_i64 env (ce_now_millis env)))"
  have v: "plain (content_from_value ?v)" "content_countable (content_from_value ?v)" "0 < clock_len (content_from_value ?v)"
    "state_of h st (st_client st) + unat (clock_len (content_from_value ?v)) < 2 ^ 64"
    using assms(2) by (simp_all add: content_from_any_def plain_def)
  show thesis
  proof (rule map_insert_keyed [OF ok(2,5) v])
    fix st' h' u'
    assume r: "map_insert (blk_updated b) (blk_block_id b) ?v st h = Ok (st', h')" "map_ok h' st' (blk_updated b) u'"
      "key_item h' (blk_updated b) (blk_block_id b) = Some (content_from_value ?v)"
      "\<And>k. k \<noteq> blk_block_id b \<Longrightarrow> key_item h' (blk_updated b) k = key_item h (blk_updated b) k" "elsewhere h (blk_updated b) h'"
      "\<And>k. k = blk_block_id b \<or> plain_key h u k \<Longrightarrow> plain_key h' u' k"
    note e = elsewhereD [OF r(5)] and s = map_okD(1) [OF r(2)]
    have "block_ok h' st' b t u'"
      using r(2,6) e(2) [OF ok(1,4) s] ok(3) by (simp add: block_ok_def)
    moreover have "block_step b None (Some (blk_block_id b)) h h'"
      using r(4) e(1) e(3) [OF ok(1,4) s] by (auto simp: block_step_def)
    moreover have "plain_key h t k \<Longrightarrow> plain_key h' t k" for k by (rule e(4) [OF ok(1,4) s])
    ultimately show thesis using that r(1,3) by (simp add: log_update_def content_from_any_def)
  qed
qed

lemma step_map_get:
  assumes "block_step b key stamp h h'"
  shows "key \<noteq> Some k \<Longrightarrow> map_get dflt (blk_block b) k h' = map_get dflt (blk_block b) k h"
    "stamp \<noteq> Some k \<Longrightarrow> map_get dflt (blk_updated b) k h' = map_get dflt (blk_updated b) k h"
  using assms by (auto simp: block_step_def intro!: map_get_cong)

text \<open>What an array of one element is read back as.\<close>

fun read_back :: "any \<Rightarrow> any" where
  "read_back (AnyArray [x]) = x"
| "read_back a = a"

lemma read_content_any: "value_from_content dflt h (content_from_any a) = Ok (ValueAny (read_back a))"
  by (cases a rule: read_back.cases) (simp_all add: content_from_any_def)

definition null_any :: "any \<Rightarrow> bool" where
  "null_any a \<longleftrightarrow> a = AnyNull \<or> a = AnyUndefined"

text \<open>The first part of \<open>set\<close>, before the time is noted.\<close>

lemma set_property:
  assumes "block_ok h st b t u" "plain_key h t k" "null_any val \<or> settable (ValueAny val) st h"
  obtains st' h' t' where
    "(if val = AnyNull \<or> val = AnyUndefined then map_remove (blk_block b) k st h else map_insert (blk_block b) k (ValueAny val) st h) = Ok (st', h')"
    "block_ok h' st' b t' u" "block_step b (Some k) None h h'"
    "key_item h' (blk_block b) k = (if null_any val then None else Some (content_from_any val))"
    "state_of h' st' (st_client st') \<le> state_of h st (st_client st) + unat (clock_len (content_from_any val))"
proof (cases "null_any val")
  case True
  show ?thesis by (rule remove_in_block [OF assms(1,2)]) (use True that in \<open>auto simp: null_any_def\<close>)
next
  case False
  with assms(3) have "settable (ValueAny val) st h" by simp
  then show ?thesis by (rule set_in_block [OF assms(1,2)]) (use False that in \<open>auto simp: null_any_def\<close>)
qed

section \<open>Properties\<close>

text \<open>
  C6: Block::set sets one property.  Reading it gives the value, or nothing when it was set to null or undefined;
  an array of one element is read as its element, and a value no property can have as nothing.  Every other entry of
  the block, its children and flavour among them, and the times of the other blocks read as before, and the
  invariant is kept.  The time of the change is written, but \<open>updated\<close> never reads it: it gives what \<open>created\<close> gave.
\<close>

theorem block_set_exact:
  assumes "block_ok h st b t u" "plain_key h t (prop_key key)" "null_any val \<or> settable (ValueAny val) st h"
    and "state_of h st (st_client st) + unat (clock_len (content_from_any val)) + 1 < 2 ^ 64"
  shows "\<exists>st' h' t' u'. block_set env b key val st h = Ok (st', h') \<and> block_ok h' st' b t' u'
    \<and> block_get env b key h' = (Ok (if null_any val then None else property_any (read_back val)) :: _ codec_result)
    \<and> (\<forall>k. k \<noteq> prop_key key \<longrightarrow> map_get (ce_dflt env) (blk_block b) k h' = (map_get (ce_dflt env) (blk_block b) k h :: _ codec_result))
    \<and> (\<forall>i. i \<noteq> blk_block_id b \<longrightarrow> map_get (ce_dflt env) (blk_updated b) i h' = (map_get (ce_dflt env) (blk_updated b) i h :: _ codec_result))
    \<and> map_get (ce_dflt env) (blk_updated b) (blk_block_id b) h'
        = (Ok (Some (ValueAny (AnyFloat64 (ce_f64_of_i64 env (ce_now_millis env))))) :: _ codec_result)
    \<and> block_updated env b h' = (block_created env b h :: _ codec_result)"
proof -
  let ?k = "prop_key key" and ?now = "AnyFloat64 (ce_f64_of_i64 env (ce_now_millis env))"
  obtain st1 h1 t1 where one:
    "(if val = AnyNull \<or> val = AnyUndefined then map_remove (blk_block b) ?k st h else map_insert (blk_block b) ?k (ValueAny val) st h) = Ok (st1, h1)"
    "block_ok h1 st1 b t1 u" "block_step b (Some ?k) None h h1"
    "key_item h1 (blk_block b) ?k = (if null_any val then None else Some (content_from_any val))"
    "state_of h1 st1 (st_client st1) \<le> state_of h st (st_client st) + unat (clock_len (content_from_any val))"
    by (rule set_property [OF assms(1-3)])
  have room: "state_of h1 st1 (st_client st1) + 1 < 2 ^ 64" using one(5) assms(4) by simp
  obtain st' h' u' where two: "log_update env b st1 h1 = Ok (st', h')" "block_ok h' st' b t1 u'"
    "block_step b None (Some (blk_block_id b)) h1 h'"
    "key_item h' (blk_updated b) (blk_block_id b) = Some (ContentAny [?now])"
    by (rule log_update_exact [OF one(2) room])
  have run: "block_set env b key val st h = Ok (st', h')" using one(1) two(1) by (simp add: block_set_def Let_def)
  have step: "block_step b (Some ?k) (Some (blk_block_id b)) h h'" by (rule block_step_trans [OF one(3) two(3)]) simp_all
  note other = step_map_get [OF step]
  have "key_item h' (blk_block b) ?k = (if null_any val then None else Some (content_from_any val))"
    using one(4) two(3) by (simp add: block_step_def)
  then have read: "block_get env b key h' = (Ok (if null_any val then None else property_any (read_back val)) :: _ codec_result)"
    by (simp add: block_get_def map_get_item read_content_any)
  have time: "map_get (ce_dflt env) (blk_updated b) (blk_block_id b) h' = Ok (Some (ValueAny ?now))"
    using two(4) by (simp add: map_get_item)
  have "?k \<noteq> sys_created" by (simp add: prop_key_def sys_created_def str_bytes_def)
  then have "map_get (ce_dflt env) (blk_block b) sys_created h' = (map_get (ce_dflt env) (blk_block b) sys_created h :: _ codec_result)"
    by (intro other(1)) simp
  then have same: "block_updated env b h' = (block_created env b h :: _ codec_result)"
    by (simp add: block_updated_def block_created_def time)
  have others: "\<forall>k. k \<noteq> ?k \<longrightarrow> map_get (ce_dflt env) (blk_block b) k h' = (map_get (ce_dflt env) (blk_block b) k h :: _ codec_result)"
    "\<forall>i. i \<noteq> blk_block_id b \<longrightarrow> map_get (ce_dflt env) (blk_updated b) i h' = (map_get (ce_dflt env) (blk_updated b) i h :: _ codec_result)"
    by (intro allI impI other; simp)+
  show ?thesis
    by (rule exI [of _ st'], rule exI [of _ h'], rule exI [of _ t1], rule exI [of _ u'])
      (intro conjI run two(2) read others time same)
qed

text \<open>A block with no entries in a store with nothing in it.\<close>

definition blank_heap :: heap where
  "blank_heap = \<lparr>h_items = Map.empty, h_types = [0 \<mapsto> new_ytype KMap None, 1 \<mapsto> new_ytype KMap None], h_next = 2\<rparr>"

definition blank_block :: block where
  "blank_block = \<lparr>blk_id = [], blk_space_id = [], blk_block_id = [98], blk_doc = fst (with_options (default_options 1 [])), blk_operator = 1,
     blk_block = \<lparr>yr_store = True, yr_inner = SRef 0\<rparr>, blk_children = \<lparr>yr_store = True, yr_inner = SNone\<rparr>,
     blk_updated = \<lparr>yr_store = True, yr_inner = SRef 1\<rparr>\<rparr>"

lemma blank_block_ok: "block_ok blank_heap (with_client 1) blank_block (new_ytype KMap None) (new_ytype KMap None)"
  by (simp add: block_ok_def map_ok_def blank_heap_def blank_block_def with_client_def store_ok_def fresh_def get_ty_def
      somr_lookup_def parent_dead_def bounded_def hm_wf_def new_ytype_def get_item_def holds_type_def same_type_def plain_key_def)

lemma block_set_exact_witness:
  "\<exists>st' h'. block_set page_env blank_block [97] AnyTrue (with_client 1) blank_heap = Ok (st', h')
    \<and> block_get page_env blank_block [97] h' = (Ok (Some AnyTrue) :: _ codec_result)"
proof -
  have "settable (ValueAny AnyTrue) (with_client 1) blank_heap"
    "state_of blank_heap (with_client 1) (st_client (with_client 1)) + unat (clock_len (content_from_any AnyTrue)) + 1 < 2 ^ 64"
    by (simp_all add: settable_def plain_def content_from_any_def state_of_def nodes_of_def with_client_def)
  then show ?thesis
    using block_set_exact [OF blank_block_ok empty_map_plain, where val = AnyTrue and key = "[97]" and env = page_env] by (auto simp: null_any_def)
qed

end
