(* ===== verification/Page_Clone.thy ===== *)
theory Page_Clone
  imports Workspace_Model
begin

text \<open>
  Exporting one page as a workspace of its own, \<open>libs/jwst-core/src/block/convert.rs\<close> and
  \<open>space/convert.rs\<close>.  Two documents take part, so the operations here take the store of each, the one
  the page is in (\<open>src\<close>) and the new one (\<open>dst\<close>), over one heap.  A type writes to the store it was
  created in; so what is put into the copies made by \<open>self.doc\<close> goes to \<open>src\<close>.
\<close>

section \<open>Errors\<close>

datatype core_error =
    CodecFailed codec_error
  | VersionNotFound bytes
  | PageTreeNotFound bytes
  | PageItemNotFound bytes

fun lift_codec :: "(codec_error, 'a) result \<Rightarrow> (core_error, 'a) result" where
  "lift_codec (Ok x) = Ok x"
| "lift_codec (Err e) = Err (CodecFailed e)"
| "lift_codec Panic = Panic"

section \<open>Cloning a block\<close>

text \<open>
  \<open>max_stack\<close> levels of nesting are copied; the functions count the levels that are left, \<open>MAX_STACK + 1 - stack\<close>,
  so 0 is the case \<open>stack > MAX_STACK\<close>.  Texts are copied as empty texts (\<open>clone_text\<close> does nothing).
\<close>

definition max_stack :: nat where "max_stack = 10"

function clone_value :: "core_env \<Rightarrow> nat \<Rightarrow> bytes \<Rightarrow> doc_value \<Rightarrow> ytype_ref \<Rightarrow> store \<Rightarrow> heap
      \<Rightarrow> (codec_error, store \<times> heap) result option"
  and clone_entries :: "core_env \<Rightarrow> nat \<Rightarrow> (bytes \<times> doc_value) list \<Rightarrow> ytype_ref \<Rightarrow> store \<Rightarrow> heap
      \<Rightarrow> (codec_error, store \<times> heap) result option"
  and clone_array :: "core_env \<Rightarrow> nat \<Rightarrow> ytype_ref \<Rightarrow> ytype_ref \<Rightarrow> store \<Rightarrow> heap
      \<Rightarrow> (codec_error, store \<times> heap) result option"
  and clone_items :: "core_env \<Rightarrow> nat \<Rightarrow> doc_value list \<Rightarrow> ytype_ref \<Rightarrow> store \<Rightarrow> heap
      \<Rightarrow> (codec_error, store \<times> heap) result option" where
  "clone_value env 0 key v new_map st h = Some (Ok (st, h))"
| "clone_value env (Suc left) key v new_map st h =
     (case v of
        ValueAny any \<Rightarrow> Some (map_insert new_map key (ValueAny any) st h)
      | ValueText _ \<Rightarrow>
          Some (rbind (create_text st h) (\<lambda>(created_text, st, h).
                map_insert new_map key (ValueText (clone_ytype_ref created_text)) st h))
      | ValueMap m \<Rightarrow>
          obind (Some (create_map st h)) (\<lambda>(created_map, st, h).
          obind (Some (map_insert new_map key (ValueMap (clone_ytype_ref created_map)) st h)) (\<lambda>(st, h).
          obind (Some (map_entries (ce_dflt env) m h)) (\<lambda>entries.
          clone_entries env left entries created_map st h)))
      | ValueArray array \<Rightarrow>
          obind (Some (create_array st h)) (\<lambda>(created_array, st, h).
          obind (Some (map_insert new_map key (ValueArray (clone_ytype_ref created_array)) st h)) (\<lambda>(st, h).
          clone_array env left array created_array st h))
      | _ \<Rightarrow> Some (Ok (st, h)))"
| "clone_entries env left [] created_map st h = Some (Ok (st, h))"
| "clone_entries env left ((key, v) # entries) created_map st h =
     obind (clone_value env left key v created_map st h) (\<lambda>(st, h). clone_entries env left entries created_map st h)"
| "clone_array env 0 array new_array st h = Some (Ok (st, h))"
| "clone_array env (Suc left) array new_array st h =
     obind (array_all (ce_dflt env) array h) (\<lambda>vs. clone_items env left vs new_array st h)"
| "clone_items env left [] new_array st h = Some (Ok (st, h))"
| "clone_items env left (v # vs) new_array st h =
     obind (case v of
              ValueAny any \<Rightarrow> Some (array_push new_array (ValueAny any) st h)
            | ValueText _ \<Rightarrow>
                Some (rbind (create_text st h) (\<lambda>(created_text, st, h).
                      array_push new_array (ValueText (clone_ytype_ref created_text)) st h))
            | ValueMap m \<Rightarrow>
                obind (Some (create_map st h)) (\<lambda>(created_map, st, h).
                obind (Some (array_push new_array (ValueMap (clone_ytype_ref created_map)) st h)) (\<lambda>(st, h).
                obind (Some (map_entries (ce_dflt env) m h)) (\<lambda>entries.
                clone_entries env left entries created_map st h)))
            | ValueArray array \<Rightarrow>
                obind (Some (create_array st h)) (\<lambda>(created_array, st, h).
                obind (Some (array_push new_array (ValueArray (clone_ytype_ref created_array)) st h)) (\<lambda>(st, h).
                clone_array env left array created_array st h))
            | _ \<Rightarrow> Some (Ok (st, h))) (\<lambda>(st, h).
     clone_items env left vs new_array st h)"
  by pat_completeness auto
termination
  by (relation "measures [\<lambda>x. case x of
        Inl (Inl (env, left, _)) \<Rightarrow> 3 * left
      | Inl (Inr (env, left, _)) \<Rightarrow> 3 * left + 1
      | Inr (Inl (env, left, _)) \<Rightarrow> 3 * left
      | Inr (Inr (env, left, _)) \<Rightarrow> 3 * left + 2,
    \<lambda>x. case x of
        Inl (Inr (_, _, entries, _)) \<Rightarrow> length entries
      | Inr (Inr (_, _, vs, _)) \<Rightarrow> length vs
      | _ \<Rightarrow> 0]") auto

text \<open>
  A child that cannot be pushed is logged and passed over; what the failed push leaves is the parameter \<open>left\<close>.
\<close>

fun clone_children ::
    "(store \<Rightarrow> heap \<Rightarrow> store \<times> heap) \<Rightarrow> ytype_ref \<Rightarrow> bytes list \<Rightarrow> store \<Rightarrow> heap \<Rightarrow> (codec_error, store \<times> heap) result" where
  "clone_children left created_children [] st h = Ok (st, h)"
| "clone_children left created_children (block_id # ids) st h =
     (case array_push created_children (ValueAny (AnyString block_id)) st h of
        Ok (st, h) \<Rightarrow> clone_children left created_children ids st h
      | Err _ \<Rightarrow> (case left st h of (st, h) \<Rightarrow> clone_children left created_children ids st h)
      | Panic \<Rightarrow> Panic)"

definition ext_key :: bytes where "ext_key = str_bytes ''ext:''"

definition is_property :: "bytes \<Rightarrow> bool" where
  "is_property k \<longleftrightarrow> take 5 k = prop_key [] \<or> take 4 k = ext_key"

fun clone_props :: "core_env \<Rightarrow> block \<Rightarrow> bytes list \<Rightarrow> ytype_ref \<Rightarrow> store \<Rightarrow> heap \<Rightarrow> (codec_error, store \<times> heap) result option" where
  "clone_props env b [] created_block st h = Some (Ok (st, h))"
| "clone_props env b (key # keys) created_block st h =
     obind (Some (map_get (ce_dflt env) (blk_block b) key h)) (\<lambda>v.
     obind (case v of
              Some v \<Rightarrow> clone_value env (max_stack + 1) key v created_block st h
            | None \<Rightarrow> Some (Ok (st, h))) (\<lambda>(st, h).
     clone_props env b keys created_block st h))"

definition clone_block ::
    "core_env \<Rightarrow> (store \<Rightarrow> heap \<Rightarrow> store \<times> heap) \<Rightarrow> block \<Rightarrow> ytype_ref \<Rightarrow> store \<Rightarrow> store \<Rightarrow> heap
      \<Rightarrow> (codec_error, store \<times> store \<times> heap) result option" where
  "clone_block env left b new_blocks src dst h =
     obind (Some (create_map src h)) (\<lambda>(created_block, src, h).
     obind (Some (map_insert new_blocks (blk_block_id b) (ValueMap (clone_ytype_ref created_block)) dst h)) (\<lambda>(dst, h).
     obind (Some (map_insert created_block sys_id (ValueAny (AnyString (blk_block_id b))) src h)) (\<lambda>(src, h).
     obind (Some (block_flavour env b h)) (\<lambda>flavour.
     obind (Some (map_insert created_block sys_flavour (ValueAny (AnyString flavour)) src h)) (\<lambda>(src, h).
     obind (Some (create_array src h)) (\<lambda>(created_children, src, h).
     obind (Some (map_insert created_block sys_children (ValueArray (clone_ytype_ref created_children)) src h)) (\<lambda>(src, h).
     obind (block_children env b h) (\<lambda>children.
     obind (Some (clone_children left created_children children src h)) (\<lambda>(src, h).
     obind (clone_props env b (filter is_property (map_keys (blk_block b) h)) created_block src h) (\<lambda>(src, h).
     Some (Ok (src, dst, h))))))))))))"

fun clone_blocks ::
    "core_env \<Rightarrow> (store \<Rightarrow> heap \<Rightarrow> store \<times> heap) \<Rightarrow> block list \<Rightarrow> ytype_ref \<Rightarrow> store \<Rightarrow> store \<Rightarrow> heap
      \<Rightarrow> (codec_error, store \<times> store \<times> heap) result option" where
  "clone_blocks env left [] new_blocks src dst h = Some (Ok (src, dst, h))"
| "clone_blocks env left (b # bs) new_blocks src dst h =
     obind (clone_block env left b new_blocks src dst h) (\<lambda>(src, dst, h). clone_blocks env left bs new_blocks src dst h)"

section \<open>The new workspace\<close>

definition init_workspace :: "space \<Rightarrow> workspace_metadata \<Rightarrow> store \<Rightarrow> heap \<Rightarrow> (codec_error, store \<times> heap) result" where
  "init_workspace s meta st h =
     rbind (map_insert (sp_metadata s) name_key (ValueAny (any_from_option AnyString (wm_name meta))) st h) (\<lambda>(st, h).
     map_insert (sp_metadata s) avatar_key (ValueAny (any_from_option AnyString (wm_avatar meta))) st h)"

definition pages_key :: bytes where "pages_key = str_bytes ''pages''"

definition space_pages :: "core_env \<Rightarrow> space \<Rightarrow> heap \<Rightarrow> (core_error, ytype_ref) result" where
  "space_pages env s h =
     rbind (map_get (ce_dflt env) (sp_metadata s) pages_key h) (\<lambda>v.
     case Option.bind v to_array of
       Some pages \<Rightarrow> Ok pages
     | None \<Rightarrow> Err (PageTreeNotFound (sp_workspace_id s)))"

definition init_pages :: "core_env \<Rightarrow> space \<Rightarrow> store \<Rightarrow> heap \<Rightarrow> (core_error, ytype_ref \<times> store \<times> heap) result" where
  "init_pages env s st h =
     (case space_pages env s h of
        Ok pages \<Rightarrow> Ok (pages, st, h)
      | Err _ \<Rightarrow>
          lift_codec (rbind (create_array st h) (\<lambda>(array, st, h).
            rbind (map_insert (sp_metadata s) pages_key (ValueArray (clone_ytype_ref array)) st h) (\<lambda>(st, h).
            Ok (array, st, h))))
      | Panic \<Rightarrow> Panic)"

text \<open>The versions a new workspace starts with.\<close>

definition block_versions :: "(bytes \<times> i32) list" where
  "block_versions =
     [(str_bytes ''affine:code'', 1), (str_bytes ''affine:database'', 1), (str_bytes ''affine:divider'', 1),
      (str_bytes ''affine:embed'', 1), (str_bytes ''affine:frame'', 1), (str_bytes ''affine:list'', 1),
      (str_bytes ''affine:page'', 2), (str_bytes ''affine:paragraph'', 1), (str_bytes ''affine:surface'', 1)]"

fun put_versions :: "ytype_ref \<Rightarrow> (bytes \<times> i32) list \<Rightarrow> store \<Rightarrow> heap \<Rightarrow> (codec_error, store \<times> heap) result" where
  "put_versions m [] st h = Ok (st, h)"
| "put_versions m ((flavour, version) # vs) st h =
     rbind (map_insert m flavour (ValueAny (AnyInteger version)) st h) (\<lambda>(st, h). put_versions m vs st h)"

definition init_version :: "core_env \<Rightarrow> space \<Rightarrow> store \<Rightarrow> heap \<Rightarrow> (codec_error, ytype_ref \<times> store \<times> heap) result" where
  "init_version env s st h =
     rbind (map_get (ce_dflt env) (sp_metadata s) (str_bytes ''versions'') h) (\<lambda>v.
     case Option.bind v to_map of
       Some m \<Rightarrow> Ok (m, st, h)
     | None \<Rightarrow>
         rbind (create_map st h) (\<lambda>(m, st, h).
         rbind (map_insert (sp_metadata s) (str_bytes ''versions'') (ValueMap (clone_ytype_ref m)) st h) (\<lambda>(st, h).
         rbind (put_versions m block_versions st h) (\<lambda>(st, h). Ok (m, st, h)))))"

text \<open>\<open>find\<close> stops at the first page with the id.\<close>

definition is_page :: "core_env \<Rightarrow> bytes \<Rightarrow> doc_value \<Rightarrow> heap \<Rightarrow> (core_error, bool) result" where
  "is_page env space_id page h =
     (case to_map page of
        None \<Rightarrow> Ok False
      | Some m \<Rightarrow> rbind (get_text env m (str_bytes ''id'') h) (\<lambda>i. Ok (i = Some space_id)))"

partial_function (option) find_page ::
    "core_env \<Rightarrow> heap \<Rightarrow> bytes \<Rightarrow> array_iter \<Rightarrow> (core_error, doc_value option) result option" where
  "find_page env h space_id it =
     obind (Some (array_next (ce_dflt env) h it)) (\<lambda>(r, it).
     case r of
       None \<Rightarrow> Some (Ok None)
     | Some v \<Rightarrow>
         obind (Some (is_page env space_id v h)) (\<lambda>found.
         if found then Some (Ok (Some v)) else find_page env h space_id it))"

definition page_item :: "core_env \<Rightarrow> space \<Rightarrow> heap \<Rightarrow> (core_error, ytype_ref) result option" where
  "page_item env s h =
     obind (Some (space_pages env s h)) (\<lambda>pages.
     obind (Some (new_array_iter pages h)) (\<lambda>it.
     obind (find_page env h (sp_space_id s) it) (\<lambda>page.
     Some (case Option.bind page to_map of
             Some m \<Rightarrow> Ok m
           | None \<Rightarrow> Err (PageItemNotFound (sp_space_id s))))))"

definition root_flavours :: "bytes list" where
  "root_flavours = [str_bytes ''affine:surface'', str_bytes ''affine:page'']"

fun partition_roots :: "core_env \<Rightarrow> heap \<Rightarrow> block list \<Rightarrow> ('e, block list \<times> block list) result" where
  "partition_roots env h [] = Ok ([], [])"
| "partition_roots env h (b # bs) =
     rbind (block_flavour env b h) (\<lambda>flavour.
     rbind (partition_roots env h bs) (\<lambda>(roots, blocks).
     Ok (if flavour \<in> set root_flavours then (b # roots, blocks) else (roots, b # blocks))))"

definition page_title :: "core_env \<Rightarrow> space \<Rightarrow> heap \<Rightarrow> ('e, bytes) result" where
  "page_title env s h =
     rbind (get_blocks_by_flavour env s (str_bytes ''affine:page'') h) (\<lambda>pages.
     case pages of
       [] \<Rightarrow> Ok (str_bytes ''Untitled'')
     | b # _ \<Rightarrow>
         rbind (block_text env b ''title'' h) (\<lambda>title.
         Ok (case title of Some t \<Rightarrow> t | None \<Rightarrow> str_bytes ''Untitled'')))"

text \<open>
  The entry of the page in the new workspace.  \<open>vec![].into()\<close>, the sub pages of a page that has none, is an
  empty binary: the only conversion of a vector to a value is that of bytes.
\<close>

definition new_page_entry ::
    "core_env \<Rightarrow> space \<Rightarrow> space \<Rightarrow> ytype_ref \<Rightarrow> bytes \<Rightarrow> store \<Rightarrow> heap \<Rightarrow> (core_error, store \<times> heap) result" where
  "new_page_entry env self s item title st h =
     rbind (lift_codec (create_map st h)) (\<lambda>(m, st, h).
     rbind (init_pages env s st h) (\<lambda>(pages, st, h).
     lift_codec (
     rbind (array_push pages (ValueMap (clone_ytype_ref m)) st h) (\<lambda>(st, h).
     rbind (map_insert m (str_bytes ''id'') (ValueAny (AnyString (sp_space_id self))) st h) (\<lambda>(st, h).
     rbind (map_get (ce_dflt env) item (str_bytes ''createDate'') h) (\<lambda>created.
     rbind (map_insert m (str_bytes ''createDate'')
              (case created of Some v \<Rightarrow> v | None \<Rightarrow> ValueAny (any_from_i64 (ce_now_millis env))) st h) (\<lambda>(st, h).
     rbind (map_get (ce_dflt env) item (str_bytes ''subpageIds'') h) (\<lambda>ids.
     rbind (map_insert m (str_bytes ''subpageIds'')
              (case ids of Some v \<Rightarrow> v | None \<Rightarrow> ValueAny (AnyBinary [])) st h) (\<lambda>(st, h).
     rbind (create_text st h) (\<lambda>(title_text, st, h).
     rbind (map_insert m (str_bytes ''title'') (ValueText (clone_ytype_ref title_text)) st h) (\<lambda>(st, h).
     text_insert title_text 0 title st h)))))))))))"

text \<open>
  The result is the update of the new workspace; \<open>dflt\<close> holds the client and guid it is made with.  The stores
  of both documents are given back, as the cloning writes to both.
\<close>

definition to_single_page ::
    "serde_env \<Rightarrow> core_env \<Rightarrow> (store \<Rightarrow> heap \<Rightarrow> store \<times> heap) \<Rightarrow> space \<Rightarrow> doc_options \<Rightarrow> store \<Rightarrow> heap
      \<Rightarrow> (core_error, bytes \<times> store \<times> store \<times> heap) result option" where
  "to_single_page senv env left self dflt src h =
     obind (page_item env self h) (\<lambda>item.
     obind (Some (lift_codec (ws_new dflt (sp_workspace_id self) h))) (\<lambda>(ws, dst, h).
     obind (Some (lift_codec (ws_get_space env ws (sp_space_id self) dst h))) (\<lambda>(s, dst, h).
     obind (Some (space_blocks env self h)) (\<lambda>blocks.
     obind (Some (partition_roots env h blocks)) (\<lambda>(roots, others).
     obind (map_option lift_codec (clone_blocks env left (roots @ others) (clone_ytype_ref (sp_blocks s)) src dst h)) (\<lambda>(src, dst, h).
     obind (Some (metadata_from_map env (sp_metadata self) h)) (\<lambda>meta.
     obind (Some (lift_codec (init_workspace s meta dst h))) (\<lambda>(dst, h).
     obind (Some (lift_codec (init_version env s dst h))) (\<lambda>(_, dst, h).
     obind (Some (page_title env self h)) (\<lambda>title.
     obind (Some (new_page_entry env self s item title dst h)) (\<lambda>(dst, h).
     obind (Some (lift_codec (ws_to_binary senv dst h))) (\<lambda>(update, h).
     Some (Ok (update, src, dst, h))))))))))))))"

section \<open>What reaches the new document\<close>

text \<open>
  A cloned block reaches the new document as one entry: of the whole clone, only the map under the id of the
  block is written to the store of the new document.  Its flavour, children and properties go to the store of the
  document it was cloned from, which the update of the new one does not cover.
\<close>

lemma clone_block_loses_contents:
  assumes "clone_block env left b new_blocks src dst h = Some (Ok (src', dst', h'))"
  shows "\<exists>created src1 h1 h2. create_map src h = Ok (created, src1, h1)
    \<and> map_insert new_blocks (blk_block_id b) (ValueMap (clone_ytype_ref created)) dst h1 = Ok (dst', h2)"
  using assms by (auto simp: clone_block_def outcome_simps)

end
