(* ===== verification/Database.thy ===== *)
theory Database
  imports Workspace_Sync "HOL-Library.Multiset"
begin

text \<open>
  The database behind \<open>src/libs/jwst-storage\<close>, a third-party service reached through an object mapper: a
  parameter.  \<open>table\<close> holds the queries the storage code makes on a table, \<open>table_laws\<close> what SQL says of
  them, each time the query succeeds; every query may fail.
\<close>

section \<open>Errors\<close>

text \<open>The variants of \<open>JwstStorageError\<close> this code makes, with the codec error a nested \<open>JwstError\<close> stands for.\<close>

datatype storage_error =
    DbFailed
  | DocJwstCodec codec_error
  | JwstFailed codec_error
  | DocMerge
  | BlockingThread
  | Crud
  | WorkspaceNotFound bytes
  | WorkspaceExists bytes

fun from_codec :: "(codec_error, 'a) result \<Rightarrow> (storage_error, 'a) result" where
  "from_codec (Ok x) = Ok x"
| "from_codec (Err e) = Err (DocJwstCodec e)"
| "from_codec Panic = Panic"

fun from_jwst :: "(codec_error, 'a) result \<Rightarrow> (storage_error, 'a) result" where
  "from_jwst (Ok x) = Ok x"
| "from_jwst (Err e) = Err (JwstFailed e)"
| "from_jwst Panic = Panic"

text \<open>\<open>map_err\<close> to one error.\<close>

fun or_error :: "storage_error \<Rightarrow> ('e, 'a) result \<Rightarrow> (storage_error, 'a) result" where
  "or_error e (Ok x) = Ok x"
| "or_error e (Err _) = Err e"
| "or_error e Panic = Panic"

text \<open>What runs on a blocking thread of its own turns its panics into an error of the join.\<close>

fun on_thread :: "storage_error \<Rightarrow> (storage_error, 'a) result \<Rightarrow> (storage_error, 'a) result" where
  "on_thread e Panic = Err e"
| "on_thread e r = r"

section \<open>Tables\<close>

record ('db, 'row) table =
  t_all :: "('row \<Rightarrow> bool) \<Rightarrow> 'db \<Rightarrow> (storage_error, 'row list) result"
  t_one :: "('row \<Rightarrow> bool) \<Rightarrow> 'db \<Rightarrow> (storage_error, 'row option) result"
  t_count :: "('row \<Rightarrow> bool) \<Rightarrow> 'db \<Rightarrow> (storage_error, u64) result"
  t_insert :: "'row \<Rightarrow> 'db \<Rightarrow> (storage_error, 'db) result"
  t_delete :: "('row \<Rightarrow> bool) \<Rightarrow> 'db \<Rightarrow> (storage_error, 'db) result"
  t_update :: "('row \<Rightarrow> bool) \<Rightarrow> ('row \<Rightarrow> 'row) \<Rightarrow> 'db \<Rightarrow> (storage_error, u64 \<times> 'db) result"

definition table_laws :: "('db, 'row) table \<Rightarrow> ('db \<Rightarrow> 'row multiset) \<Rightarrow> bool" where
  "table_laws tb rows \<longleftrightarrow>
     (\<forall>p db rs. t_all tb p db = Ok rs \<longrightarrow> mset rs = filter_mset p (rows db))
   \<and> (\<forall>p db r. t_one tb p db = Ok r \<longrightarrow>
        (case r of None \<Rightarrow> filter_mset p (rows db) = {#} | Some x \<Rightarrow> x \<in># filter_mset p (rows db)))
   \<and> (\<forall>p db n. t_count tb p db = Ok n \<longrightarrow> unat n = size (filter_mset p (rows db)))
   \<and> (\<forall>r db db'. t_insert tb r db = Ok db' \<longrightarrow> rows db' = add_mset r (rows db))
   \<and> (\<forall>p db db'. t_delete tb p db = Ok db' \<longrightarrow> rows db' = filter_mset (\<lambda>r. \<not> p r) (rows db))
   \<and> (\<forall>p f db n db'. t_update tb p f db = Ok (n, db') \<longrightarrow>
        rows db' = image_mset (\<lambda>r. if p r then f r else r) (rows db) \<and> unat n = size (filter_mset p (rows db)))"

lemma table_lawsD:
  assumes "table_laws tb rows"
  shows "t_all tb p db = Ok rs \<Longrightarrow> mset rs = filter_mset p (rows db)"
    and "t_one tb p db = Ok None \<Longrightarrow> filter_mset p (rows db) = {#}"
    and "t_one tb p db = Ok (Some x) \<Longrightarrow> x \<in># rows db \<and> p x"
    and "t_count tb p db = Ok n \<Longrightarrow> unat n = size (filter_mset p (rows db))"
    and "t_insert tb r db = Ok db' \<Longrightarrow> rows db' = add_mset r (rows db)"
    and "t_delete tb p db = Ok db' \<Longrightarrow> rows db' = filter_mset (\<lambda>r. \<not> p r) (rows db)"
    and "t_update tb p f db = Ok (n, db') \<Longrightarrow> rows db' = image_mset (\<lambda>r. if p r then f r else r) (rows db)"
    and "t_update tb p f db = Ok (n, db') \<Longrightarrow> unat n = size (filter_mset p (rows db))"
proof -
  show "t_one tb p db = Ok None \<Longrightarrow> filter_mset p (rows db) = {#}" "t_one tb p db = Ok (Some x) \<Longrightarrow> x \<in># rows db \<and> p x"
    using assms unfolding table_laws_def by fastforce+
qed (use assms in \<open>simp_all add: table_laws_def\<close>)

lemma no_rows:
  assumes "table_laws tb rows" "t_one tb p db = Ok None" "x \<in># rows db"
  shows "\<not> p x"
proof -
  have "set_mset (filter_mset p (rows db)) = {}" using table_lawsD(2) [OF assms(1,2)] by simp
  then show ?thesis using assms(3) by auto
qed

text \<open>A table that is a list of its rows satisfies the laws.\<close>

definition list_table :: "('row list, 'row) table" where
  "list_table =
     \<lparr>t_all = (\<lambda>p db. Ok (filter p db)), t_one = (\<lambda>p db. Ok (find p db)),
      t_count = (\<lambda>p db. if length db < 2 ^ 64 then Ok (of_nat (length (filter p db))) else Err DbFailed),
      t_insert = (\<lambda>r db. Ok (db @ [r])), t_delete = (\<lambda>p db. Ok (filter (\<lambda>r. \<not> p r) db)),
      t_update = (\<lambda>p f db. if length db < 2 ^ 64 then Ok (of_nat (length (filter p db)), map (\<lambda>r. if p r then f r else r) db)
                           else Err DbFailed)\<rparr>"

lemma unat_count: "length db < 2 ^ 64 \<Longrightarrow> unat (of_nat (length (filter p db)) :: u64) = size (filter_mset p (mset db))"
proof -
  assume "length db < 2 ^ 64"
  then have "length (filter p db) < 2 ^ 64" using length_filter_le [of p db] by linarith
  then show ?thesis by (simp add: unat_length flip: mset_filter)
qed

lemma list_table_laws: "table_laws list_table mset"
  unfolding table_laws_def
proof (intro conjI allI impI)
  show "case r of None \<Rightarrow> filter_mset p (mset db) = {#} | Some x \<Rightarrow> x \<in># filter_mset p (mset db)"
    if "t_one list_table p db = Ok r" for p db r
    using that by (auto simp: list_table_def find_None_iff find_Some_iff filter_mset_eq_conv split: option.split)
qed (auto simp: list_table_def unat_count split: if_splits)

end
