(* ===== verification/Doc_Storage.thy ===== *)
theory Doc_Storage
  imports Database
begin

text \<open>
  The storage of documents, \<open>src/libs/jwst-storage/src/storage/docs/database.rs\<close> and \<open>utils.rs\<close>, and
  the interface over it, \<open>storage/mod.rs\<close>.  A document is kept as the updates it was sent, one record each,
  until there are too many and they are merged into one.
\<close>

section \<open>State\<close>

record doc_row =
  dr_workspace_id :: bytes
  dr_guid :: bytes
  dr_blob :: bytes
  dr_created_at :: i64
  dr_is_workspace :: bool

text \<open>
  Workspaces that were asked for stay in memory, the cache, as handles to the store of their document;
  \<open>ds_remote\<close> has, for the documents somebody listens to, what has been sent.
\<close>

record 'db doc_storage =
  ds_pool :: 'db
  ds_workspaces :: "(bytes, workspace \<times> nat) hashmap"
  ds_stores :: "store list"
  ds_heap :: heap
  ds_remote :: "(bytes, bytes list) hashmap"
  ds_last_migrate :: "(bytes, nat) hashmap"

text \<open>The table, the handling of updates that fail, the random options of a new document, and the time.\<close>

record 'db storage_env =
  sv_docs :: "('db, doc_row) table"
  sv_sync :: sync_env
  sv_dflt :: doc_options
  sv_now :: i64
  sv_millis :: nat

definition max_trim_update_limit :: u64 where "max_trim_update_limit = 500"

section \<open>Queries\<close>

definition in_workspace :: "bytes \<Rightarrow> doc_row \<Rightarrow> bool" where
  "in_workspace workspace r \<longleftrightarrow> dr_workspace_id r = workspace"

definition of_guid :: "bytes \<Rightarrow> doc_row \<Rightarrow> bool" where
  "of_guid guid r \<longleftrightarrow> dr_guid r = guid"

definition root_of :: "bytes \<Rightarrow> doc_row \<Rightarrow> bool" where
  "root_of workspace r \<longleftrightarrow> dr_workspace_id r = workspace \<and> dr_is_workspace r"

definition doc_all :: "'db storage_env \<Rightarrow> bytes \<Rightarrow> 'db \<Rightarrow> (storage_error, doc_row list) result" where
  "doc_all env guid db = t_all (sv_docs env) (of_guid guid) db"

definition doc_count :: "'db storage_env \<Rightarrow> bytes \<Rightarrow> 'db \<Rightarrow> (storage_error, u64) result" where
  "doc_count env guid db = t_count (sv_docs env) (of_guid guid) db"

definition workspace_count :: "'db storage_env \<Rightarrow> bytes \<Rightarrow> 'db \<Rightarrow> (storage_error, u64) result" where
  "workspace_count env workspace db = t_count (sv_docs env) (in_workspace workspace) db"

definition workspace_guid :: "'db storage_env \<Rightarrow> bytes \<Rightarrow> 'db \<Rightarrow> (storage_error, bytes option) result" where
  "workspace_guid env workspace db =
     rbind (t_one (sv_docs env) (root_of workspace) db) (\<lambda>r. Ok (map_option dr_guid r))"

definition is_workspace :: "'db storage_env \<Rightarrow> bytes \<Rightarrow> 'db \<Rightarrow> (storage_error, bool) result" where
  "is_workspace env guid db =
     rbind (t_one (sv_docs env) (of_guid guid) db) (\<lambda>r. Ok (case r of None \<Rightarrow> False | Some r \<Rightarrow> dr_is_workspace r))"

definition insert_row :: "'db storage_env \<Rightarrow> bytes \<Rightarrow> bytes \<Rightarrow> bytes \<Rightarrow> 'db \<Rightarrow> (storage_error, 'db) result" where
  "insert_row env workspace guid blob db =
     rbind (workspace_guid env workspace db) (\<lambda>g.
     t_insert (sv_docs env)
       \<lparr>dr_workspace_id = workspace, dr_guid = guid, dr_blob = blob, dr_created_at = sv_now env,
        dr_is_workspace = (case g of None \<Rightarrow> True | Some g \<Rightarrow> g = guid)\<rparr> db)"

definition replace_with :: "'db storage_env \<Rightarrow> bytes \<Rightarrow> bytes \<Rightarrow> bytes \<Rightarrow> 'db \<Rightarrow> (storage_error, 'db) result" where
  "replace_with env workspace guid blob db =
     rbind (is_workspace env guid db) (\<lambda>flag.
     rbind (t_delete (sv_docs env) (of_guid guid) db) (\<lambda>db.
     t_insert (sv_docs env)
       \<lparr>dr_workspace_id = workspace, dr_guid = guid, dr_blob = blob, dr_created_at = sv_now env, dr_is_workspace = flag\<rparr> db))"

definition delete_rows_of_doc :: "'db storage_env \<Rightarrow> bytes \<Rightarrow> 'db \<Rightarrow> (storage_error, 'db) result" where
  "delete_rows_of_doc env guid db = t_delete (sv_docs env) (of_guid guid) db"

definition delete_rows_of_workspace :: "'db storage_env \<Rightarrow> bytes \<Rightarrow> 'db \<Rightarrow> (storage_error, 'db) result" where
  "delete_rows_of_workspace env workspace db = t_delete (sv_docs env) (in_workspace workspace) db"

section \<open>Merging records\<close>

text \<open>A record that does not decode or apply is logged and passed over.\<close>

fun apply_records :: "sync_env \<Rightarrow> doc_row list \<Rightarrow> store \<Rightarrow> heap \<Rightarrow> (codec_error, store \<times> heap) result" where
  "apply_records env [] st h = Ok (st, h)"
| "apply_records env (record # records) st h =
     (case decode_v1 (se_serde env) h (dr_blob record) of
        Ok (u, h) \<Rightarrow> rbind (apply_or_left env u st h) (\<lambda>(_, st, h). apply_records env records st h)
      | Err _ \<Rightarrow> apply_records env records st h
      | Panic \<Rightarrow> Panic)"

definition migrate_update :: "sync_env \<Rightarrow> doc_row list \<Rightarrow> store \<Rightarrow> heap \<Rightarrow> (codec_error, store \<times> heap) result" where
  "migrate_update env records st h =
     rbind (apply_records env records st h) (\<lambda>(st, h). doc_gc st h)"

definition merge_doc_records :: "'db storage_env \<Rightarrow> doc_row list \<Rightarrow> heap \<Rightarrow> (storage_error, bytes \<times> heap) result" where
  "merge_doc_records env records h =
     rbind (from_jwst (migrate_update (sv_sync env) records (snd (with_options (sv_dflt env))) h)) (\<lambda>(st, h).
     from_codec (encode_state_as_update_v1 (se_serde (sv_sync env)) [] st h))"

section \<open>Writing an update\<close>

definition send_remote :: "bytes \<Rightarrow> bytes \<Rightarrow> 'db doc_storage \<Rightarrow> (storage_error, 'db doc_storage) result" where
  "send_remote guid blob s =
     (case map_of (ds_remote s) guid of
        Some sent \<Rightarrow>
          rbind (from_codec (encode_update_as_message blob)) (\<lambda>m.
          Ok (s\<lparr>ds_remote := hm_insert guid (sent @ [m]) (ds_remote s)\<rparr>))
      | None \<Rightarrow> Ok s)"

definition trim_doc :: "'db storage_env \<Rightarrow> bytes \<Rightarrow> bytes \<Rightarrow> 'db doc_storage \<Rightarrow> (storage_error, 'db doc_storage) result" where
  "trim_doc env workspace guid s =
     rbind (doc_all env guid (ds_pool s)) (\<lambda>doc_records.
     rbind (on_thread DocMerge (merge_doc_records env doc_records (ds_heap s))) (\<lambda>(data, h).
     rbind (replace_with env workspace guid data (ds_pool s)) (\<lambda>db.
     Ok (s\<lparr>ds_pool := db, ds_heap := h\<rparr>))))"

definition storage_update ::
    "'db storage_env \<Rightarrow> bytes \<Rightarrow> bytes \<Rightarrow> bytes \<Rightarrow> 'db doc_storage \<Rightarrow> (storage_error, 'db doc_storage) result" where
  "storage_update env workspace guid blob s =
     rbind (doc_count env guid (ds_pool s)) (\<lambda>update_size.
     rbind (if max_trim_update_limit - 1 < update_size then trim_doc env workspace guid s else Ok s) (\<lambda>s.
     rbind (insert_row env workspace guid blob (ds_pool s)) (\<lambda>db.
     send_remote guid blob (s\<lparr>ds_pool := db\<rparr>))))"

definition docs_full_migrate :: "'db storage_env \<Rightarrow> bytes \<Rightarrow> bytes \<Rightarrow> bytes \<Rightarrow> 'db doc_storage \<Rightarrow> (storage_error, 'db doc_storage) result" where
  "docs_full_migrate env workspace guid blob s =
     rbind (replace_with env workspace guid blob (ds_pool s)) (\<lambda>db. Ok (s\<lparr>ds_pool := db\<rparr>))"

text \<open>The root document of a workspace: made when there is none, else merged from its records.\<close>

definition docs_init_workspace ::
    "'db storage_env \<Rightarrow> bytes \<Rightarrow> 'db doc_storage \<Rightarrow> (storage_error, (workspace \<times> store) \<times> 'db doc_storage) result" where
  "docs_init_workspace env workspace s =
     (let serde = se_serde (sv_sync env) in
      rbind (t_all (sv_docs env) (root_of workspace) (ds_pool s)) (\<lambda>all_data.
      case all_data of
        [] \<Rightarrow>
          (case with_options ((sv_dflt env)\<lparr>opt_guid := workspace\<rparr>) of (d, st) \<Rightarrow>
             rbind (from_jwst (ws_from_doc d workspace st (ds_heap s))) (\<lambda>(ws, st, h).
             rbind (from_codec (encode_state_as_update_v1 serde [] st h)) (\<lambda>(update, h).
             rbind (insert_row env workspace (doc_guid d) update (ds_pool s)) (\<lambda>db.
             Ok ((ws, st), s\<lparr>ds_pool := db, ds_heap := h\<rparr>)))))
      | row # _ \<Rightarrow>
          (case with_options ((sv_dflt env)\<lparr>opt_guid := dr_guid row\<rparr>) of (d, st) \<Rightarrow>
             rbind (on_thread BlockingThread (from_jwst (migrate_update (sv_sync env) all_data st (ds_heap s)))) (\<lambda>(st, h).
             rbind (if 1 < length all_data
                    then rbind (from_codec (encode_state_as_update_v1 serde [] st h)) (\<lambda>(update, h).
                         rbind (replace_with env workspace (doc_guid d) update (ds_pool s)) (\<lambda>db. Ok (db, h)))
                    else Ok (ds_pool s, h)) (\<lambda>(db, h).
             rbind (from_jwst (ws_from_doc d workspace st h)) (\<lambda>(ws, st, h).
             Ok ((ws, st), s\<lparr>ds_pool := db, ds_heap := h\<rparr>)))))))"

section \<open>The interface\<close>

definition detect_workspace :: "'db storage_env \<Rightarrow> bytes \<Rightarrow> 'db doc_storage \<Rightarrow> (storage_error, bool) result" where
  "detect_workspace env workspace_id s =
     (if map_of (ds_workspaces s) workspace_id \<noteq> None then Ok True
      else rbind (workspace_count env workspace_id (ds_pool s)) (\<lambda>c. Ok (0 < c)))"

definition get_or_create_workspace ::
    "'db storage_env \<Rightarrow> bytes \<Rightarrow> 'db doc_storage \<Rightarrow> (storage_error, (workspace \<times> nat) \<times> 'db doc_storage) result" where
  "get_or_create_workspace env workspace_id s =
     (case map_of (ds_workspaces s) workspace_id of
        Some (ws, handle) \<Rightarrow> Ok ((ws_clone ws, handle), s)
      | None \<Rightarrow>
          rbind (docs_init_workspace env workspace_id s) (\<lambda>((ws, st), s).
          let handle = length (ds_stores s);
              s = s\<lparr>ds_stores := ds_stores s @ [st], ds_workspaces := hm_insert workspace_id (ws, handle) (ds_workspaces s)\<rparr>
          in Ok ((ws_clone ws, handle), s)))"

definition flush_workspace ::
    "'db storage_env \<Rightarrow> bytes \<Rightarrow> bytes \<Rightarrow> 'db doc_storage \<Rightarrow> (storage_error, (workspace \<times> store) \<times> 'db doc_storage) result" where
  "flush_workspace env workspace_id data s =
     rbind (docs_init_workspace env workspace_id s) (\<lambda>((ws, st), s).
     rbind (docs_full_migrate env workspace_id (ws_doc_guid ws) data s) (\<lambda>s.
     rbind (workspace_count env workspace_id (ds_pool s)) (\<lambda>n.
     rbind (debug_assert (n = 1)) (\<lambda>_.
     Ok ((ws, st), s)))))"

definition docs_delete_workspace :: "'db storage_env \<Rightarrow> bytes \<Rightarrow> 'db doc_storage \<Rightarrow> (storage_error, 'db doc_storage) result" where
  "docs_delete_workspace env workspace_id s =
     (let s = s\<lparr>ds_workspaces := hm_remove workspace_id (ds_workspaces s)\<rparr> in
      rbind (delete_rows_of_workspace env workspace_id (ds_pool s)) (\<lambda>db. Ok (s\<lparr>ds_pool := db\<rparr>)))"

definition detect_doc :: "'db storage_env \<Rightarrow> bytes \<Rightarrow> 'db doc_storage \<Rightarrow> (storage_error, bool) result" where
  "detect_doc env guid s = rbind (doc_count env guid (ds_pool s)) (\<lambda>c. Ok (0 < c))"

definition get_doc :: "'db storage_env \<Rightarrow> bytes \<Rightarrow> 'db doc_storage \<Rightarrow> (storage_error, (doc \<times> store) option \<times> heap) result" where
  "get_doc env guid s =
     rbind (t_all (sv_docs env) (of_guid guid) (ds_pool s)) (\<lambda>records.
     if records = [] then Ok (None, ds_heap s)
     else (case with_options (sv_dflt env) of (d, st) \<Rightarrow>
       rbind (on_thread BlockingThread (from_jwst (migrate_update (sv_sync env) records st (ds_heap s)))) (\<lambda>(st, h).
       Ok (Some (d, st), h))))"

definition update_doc ::
    "'db storage_env \<Rightarrow> bytes \<Rightarrow> bytes \<Rightarrow> bytes \<Rightarrow> 'db doc_storage \<Rightarrow> (storage_error, 'db doc_storage) result" where
  "update_doc env workspace_id guid data s = storage_update env workspace_id guid data s"

definition update_doc_with_guid ::
    "'db storage_env \<Rightarrow> bytes \<Rightarrow> bytes \<Rightarrow> 'db doc_storage \<Rightarrow> (storage_error, 'db doc_storage) result" where
  "update_doc_with_guid env workspace_id data s =
     rbind (from_codec (dec_read_var_string (new_decoder data))) (\<lambda>(guid, decoder).
     rbind (from_codec (drain decoder)) (\<lambda>update.
     storage_update env workspace_id guid update s))"

definition delete_doc :: "'db storage_env \<Rightarrow> bytes \<Rightarrow> 'db doc_storage \<Rightarrow> (storage_error, 'db doc_storage) result" where
  "delete_doc env guid s = rbind (delete_rows_of_doc env guid (ds_pool s)) (\<lambda>db. Ok (s\<lparr>ds_pool := db\<rparr>))"

text \<open>The framing of an update with its document, as the broadcast makes it and the storage takes it apart.\<close>

definition encode_update_with_guid :: "bytes \<Rightarrow> bytes \<Rightarrow> (codec_error, bytes) result" where
  "encode_update_with_guid u guid =
     rbind (enc_write_var_string new_encoder guid) (\<lambda>encoder. Ok (enc_buffer encoder @ u))"

definition decode_update_with_guid :: "bytes \<Rightarrow> (codec_error, bytes \<times> bytes) result" where
  "decode_update_with_guid u =
     rbind (dec_read_var_string (new_decoder u)) (\<lambda>(guid, decoder).
     rbind (drain decoder) (\<lambda>u. Ok (guid, u)))"

section \<open>The storage of workspaces\<close>

definition storage_create_workspace ::
    "'db storage_env \<Rightarrow> bytes \<Rightarrow> 'db doc_storage \<Rightarrow> (storage_error, (workspace \<times> nat) \<times> 'db doc_storage) result" where
  "storage_create_workspace env workspace_id s = or_error Crud (get_or_create_workspace env workspace_id s)"

definition storage_get_workspace ::
    "'db storage_env \<Rightarrow> bytes \<Rightarrow> 'db doc_storage \<Rightarrow> (storage_error, (workspace \<times> nat) \<times> 'db doc_storage) result" where
  "storage_get_workspace env workspace_id s =
     rbind (or_error Crud (detect_workspace env workspace_id s)) (\<lambda>found.
     if found then or_error Crud (get_or_create_workspace env workspace_id s)
     else Err (WorkspaceNotFound workspace_id))"

definition storage_init_workspace ::
    "'db storage_env \<Rightarrow> bytes \<Rightarrow> bytes \<Rightarrow> 'db doc_storage \<Rightarrow> (storage_error, 'db doc_storage) result" where
  "storage_init_workspace env workspace_id data s =
     rbind (or_error Crud (detect_workspace env workspace_id s)) (\<lambda>found.
     if \<not> found then rbind (or_error Crud (flush_workspace env workspace_id data s)) (\<lambda>(_, s). Ok s)
     else Err (WorkspaceExists workspace_id))"

definition storage_export_workspace ::
    "'db storage_env \<Rightarrow> bytes \<Rightarrow> 'db doc_storage \<Rightarrow> (storage_error, bytes \<times> heap) result" where
  "storage_export_workspace env workspace_id s =
     rbind (get_doc env workspace_id s) (\<lambda>(d, h).
     case d of
       Some (_, st) \<Rightarrow> or_error Crud (encode_update_v1 (se_serde (sv_sync env)) st h)
     | None \<Rightarrow> Err (WorkspaceNotFound workspace_id))"

text \<open>
  \<open>full_migrate\<close> replaces the records of a workspace by one update, at most every five seconds unless forced.
  What a query that fails leaves is the parameter \<open>left\<close>.
\<close>

definition storage_full_migrate ::
    "('db doc_storage \<Rightarrow> 'db doc_storage) \<Rightarrow> 'db storage_env \<Rightarrow> bytes \<Rightarrow> bytes option \<Rightarrow> bool \<Rightarrow> 'db doc_storage
       \<Rightarrow> (storage_error, bool \<times> 'db doc_storage) result" where
  "storage_full_migrate left env workspace_id update force s =
     (let ts = (case map_of (ds_last_migrate s) workspace_id of Some ts \<Rightarrow> ts | None \<Rightarrow> sv_millis env);
          s = s\<lparr>ds_last_migrate := hm_insert workspace_id ts (ds_last_migrate s)\<rparr>
      in if 5 < (sv_millis env - ts) div 1000 \<or> force then
        (case get_or_create_workspace env workspace_id s of
           Panic \<Rightarrow> Panic
         | Err _ \<Rightarrow> Ok (False, left s)
         | Ok ((ws, handle), s) \<Rightarrow>
             (case (case update of
                      Some u \<Rightarrow> rbind (docs_delete_workspace env workspace_id s) (\<lambda>s. Ok (Some u, s))
                    | None \<Rightarrow>
                        (case encode_state_as_update_v1 (se_serde (sv_sync env)) [] (ds_stores s ! handle) (ds_heap s) of
                           Ok (u, h) \<Rightarrow> Ok (Some u, s\<lparr>ds_heap := h\<rparr>)
                         | Err _ \<Rightarrow> Ok (None, s)
                         | Panic \<Rightarrow> Panic)) of
                Panic \<Rightarrow> Panic
              | Err _ \<Rightarrow> Ok (False, left s)
              | Ok (None, s) \<Rightarrow> Ok (False, s)
              | Ok (Some u, s) \<Rightarrow>
                  (case flush_workspace env workspace_id u s of
                     Panic \<Rightarrow> Panic
                   | Err _ \<Rightarrow> Ok (False, left s)
                   | Ok (_, s) \<Rightarrow>
                       Ok (True, s\<lparr>ds_last_migrate := hm_insert workspace_id (sv_millis env) (ds_last_migrate s)\<rparr>))))
      else Ok (True, s))"

end
