(* ===== verification/Storage_Laws.thy ===== *)
theory Storage_Laws
  imports Doc_Storage
begin

text \<open>
  What the storage of documents keeps: how many records a document can have, which document is the root of a
  workspace, and that an update framed with its document is written to that document.
\<close>

section \<open>The queries on the rows\<close>

lemma insert_row_rows:
  assumes "table_laws (sv_docs env) rows" "insert_row env workspace guid blob db = Ok db'"
  obtains r where "rows db' = add_mset r (rows db)" "in_workspace workspace r" "of_guid guid r" "dr_blob r = blob"
    "dr_is_workspace r \<longleftrightarrow> (\<forall>x. x \<in># rows db \<longrightarrow> \<not> root_of workspace x)
        \<or> (\<exists>x. x \<in># rows db \<and> root_of workspace x \<and> workspace_guid env workspace db = Ok (Some (dr_guid x)) \<and> dr_guid x = guid)"
proof -
  note laws = table_lawsD [OF assms(1)]
  obtain o' where o': "t_one (sv_docs env) (root_of workspace) db = Ok o'"
    and ins: "t_insert (sv_docs env)
       \<lparr>dr_workspace_id = workspace, dr_guid = guid, dr_blob = blob, dr_created_at = sv_now env,
        dr_is_workspace = (case map_option dr_guid o' of None \<Rightarrow> True | Some g \<Rightarrow> g = guid)\<rparr> db = Ok db'"
    using assms(2) by (auto simp: insert_row_def workspace_guid_def outcome_simps)
  have wg: "workspace_guid env workspace db = Ok (map_option dr_guid o')" by (simp add: workspace_guid_def o')
  show thesis
  proof (cases o')
    case None
    then have "\<forall>x. x \<in># rows db \<longrightarrow> \<not> root_of workspace x"
      using no_rows [OF assms(1)] o' by blast
    then show thesis using that [OF laws(5) [OF ins]] None by (simp add: in_workspace_def of_guid_def)
  next
    case (Some x)
    then have "x \<in># rows db" "root_of workspace x" using laws(3) [of "root_of workspace" db x] o' by auto
    then show thesis using that [OF laws(5) [OF ins]] Some wg by (auto simp: in_workspace_def of_guid_def)
  qed
qed

lemma replace_with_rows:
  assumes "table_laws (sv_docs env) rows" "replace_with env workspace guid blob db = Ok db'"
  obtains r where "rows db' = add_mset r (filter_mset (\<lambda>r. \<not> of_guid guid r) (rows db))" "in_workspace workspace r" "of_guid guid r"
    "dr_blob r = blob" "dr_is_workspace r \<longrightarrow> (\<exists>x. x \<in># rows db \<and> of_guid guid x \<and> dr_is_workspace x)"
    "\<not> dr_is_workspace r \<longrightarrow> (\<forall>x. x \<in># rows db \<longrightarrow> \<not> of_guid guid x) \<or> (\<exists>x. x \<in># rows db \<and> of_guid guid x \<and> \<not> dr_is_workspace x)"
proof -
  note laws = table_lawsD [OF assms(1)]
  obtain o' db1 where o': "t_one (sv_docs env) (of_guid guid) db = Ok o'" and del: "t_delete (sv_docs env) (of_guid guid) db = Ok db1"
    and ins: "t_insert (sv_docs env)
       \<lparr>dr_workspace_id = workspace, dr_guid = guid, dr_blob = blob, dr_created_at = sv_now env,
        dr_is_workspace = (case o' of None \<Rightarrow> False | Some r \<Rightarrow> dr_is_workspace r)\<rparr> db1 = Ok db'"
    using assms(2) by (auto simp: replace_with_def is_workspace_def outcome_simps)
  note rows = laws(5) [OF ins] laws(6) [OF del]
  show thesis
  proof (cases o')
    case None
    then have "\<forall>x. x \<in># rows db \<longrightarrow> \<not> of_guid guid x"
      using no_rows [OF assms(1)] o' by blast
    then show thesis using that rows None by (simp add: in_workspace_def of_guid_def)
  next
    case (Some x)
    then have "x \<in># rows db" "of_guid guid x" using laws(3) [of "of_guid guid" db x] o' by auto
    then show thesis using that rows Some by (auto simp: in_workspace_def of_guid_def)
  qed
qed

lemma trim_doc_rows:
  assumes "trim_doc env workspace guid s = Ok s'"
  shows "\<exists>data. replace_with env workspace guid data (ds_pool s) = Ok (ds_pool s')"
  using assms by (auto simp: trim_doc_def outcome_simps)

lemma send_remote_pool: "send_remote guid blob s = Ok s' \<Longrightarrow> ds_pool s' = ds_pool s"
  by (auto simp: send_remote_def outcome_simps split: option.splits)

lemma storage_update_steps:
  assumes "table_laws (sv_docs env) rows" "storage_update env workspace guid blob s = Ok s'"
  obtains db where "insert_row env workspace guid blob db = Ok (ds_pool s')"
    "size (filter_mset (of_guid guid) (rows (ds_pool s))) < 500 \<Longrightarrow> db = ds_pool s"
    "500 \<le> size (filter_mset (of_guid guid) (rows (ds_pool s))) \<Longrightarrow>
       \<exists>data. replace_with env workspace guid data (ds_pool s) = Ok db"
proof -
  obtain n s1 db' where n: "doc_count env guid (ds_pool s) = Ok n"
    and s1: "(if max_trim_update_limit - 1 < n then trim_doc env workspace guid s else Ok s) = Ok s1"
    and ins: "insert_row env workspace guid blob (ds_pool s1) = Ok db'"
    and send: "send_remote guid blob (s1\<lparr>ds_pool := db'\<rparr>) = Ok s'"
    using assms(2) by (auto simp: storage_update_def outcome_simps)
  have count: "unat n = size (filter_mset (of_guid guid) (rows (ds_pool s)))"
    using table_lawsD(4) [OF assms(1)] n by (simp add: doc_count_def)
  have cmp: "max_trim_update_limit - 1 < n \<longleftrightarrow> 500 \<le> unat n"
    by (simp add: max_trim_update_limit_def word_less_nat_alt) linarith
  show thesis
  proof (rule that [of "ds_pool s1"])
    show "insert_row env workspace guid blob (ds_pool s1) = Ok (ds_pool s')" using ins send_remote_pool [OF send] by simp
    show "ds_pool s1 = ds_pool s" if "size (filter_mset (of_guid guid) (rows (ds_pool s))) < 500"
      using s1 that cmp count by (auto split: if_splits)
    show "\<exists>data. replace_with env workspace guid data (ds_pool s) = Ok (ds_pool s1)"
      if "500 \<le> size (filter_mset (of_guid guid) (rows (ds_pool s)))"
      using s1 that cmp count trim_doc_rows [of env workspace guid s s1] by (auto split: if_splits)
  qed
qed

section \<open>Properties\<close>

lemma filter_other_guid [simp]:
  "filter_mset (of_guid guid) (filter_mset (\<lambda>r. \<not> of_guid guid r) rs) = {#}"
  "filter_mset (\<lambda>r. \<not> of_guid guid r) (filter_mset (\<lambda>r. \<not> of_guid guid r) rs) = filter_mset (\<lambda>r. \<not> of_guid guid r) rs"
  by (induction rs) auto


text \<open>
  The root of a workspace: the records of one document are of one workspace and agree on being its root, a workspace
  has at most one root document, and one as soon as it has any record.
\<close>

definition rooted :: "doc_row multiset \<Rightarrow> bool" where
  "rooted rs \<longleftrightarrow>
     (\<forall>r r'. r \<in># rs \<longrightarrow> r' \<in># rs \<longrightarrow> dr_guid r = dr_guid r' \<longrightarrow>
        dr_workspace_id r = dr_workspace_id r' \<and> dr_is_workspace r = dr_is_workspace r')
   \<and> (\<forall>r r'. r \<in># rs \<longrightarrow> r' \<in># rs \<longrightarrow> dr_workspace_id r = dr_workspace_id r' \<longrightarrow> dr_is_workspace r \<longrightarrow> dr_is_workspace r' \<longrightarrow>
        dr_guid r = dr_guid r')
   \<and> (\<forall>r. r \<in># rs \<longrightarrow> (\<exists>r'. r' \<in># rs \<and> root_of (dr_workspace_id r) r'))"

lemma rooted_add:
  assumes "rooted rs"
    and "\<And>x. x \<in># rs \<Longrightarrow> dr_guid x = dr_guid r \<Longrightarrow> dr_workspace_id x = dr_workspace_id r \<and> dr_is_workspace x = dr_is_workspace r"
    and "\<And>x. x \<in># rs \<Longrightarrow> dr_is_workspace r \<Longrightarrow> root_of (dr_workspace_id r) x \<Longrightarrow> dr_guid x = dr_guid r"
    and "dr_is_workspace r \<or> (\<exists>x. x \<in># rs \<and> root_of (dr_workspace_id r) x)"
  shows "rooted (add_mset r rs)"
proof -
  have mem: "x \<in># add_mset r rs \<longleftrightarrow> x = r \<or> x \<in># rs" for x by auto
  note old = assms(1) [unfolded rooted_def]
  have same: "dr_workspace_id a = dr_workspace_id b \<and> dr_is_workspace a = dr_is_workspace b"
    if "a = r \<or> a \<in># rs" "b = r \<or> b \<in># rs" "dr_guid a = dr_guid b" for a b
    using that old assms(2) by metis
  have one: "dr_guid a = dr_guid b"
    if "a = r \<or> a \<in># rs" "b = r \<or> b \<in># rs" "dr_workspace_id a = dr_workspace_id b" "dr_is_workspace a" "dr_is_workspace b" for a b
    using that old assms(3) unfolding root_of_def by metis
  have root: "\<exists>b. (b = r \<or> b \<in># rs) \<and> root_of (dr_workspace_id a) b" if "a = r \<or> a \<in># rs" for a
    using that old assms(4) unfolding root_of_def by metis
  show ?thesis unfolding rooted_def mem using same one root by blast
qed

lemma rooted_insert:
  assumes "table_laws (sv_docs env) rows" "insert_row env workspace guid blob db = Ok db'" "rooted (rows db)"
    and "\<And>r. r \<in># rows db \<Longrightarrow> of_guid guid r \<Longrightarrow> in_workspace workspace r"
  shows "rooted (rows db')"
proof -
  obtain r where r: "rows db' = add_mset r (rows db)" "in_workspace workspace r" "of_guid guid r"
    and flag: "dr_is_workspace r \<longleftrightarrow> (\<forall>x. x \<in># rows db \<longrightarrow> \<not> root_of workspace x)
        \<or> (\<exists>x. x \<in># rows db \<and> root_of workspace x \<and> workspace_guid env workspace db = Ok (Some (dr_guid x)) \<and> dr_guid x = guid)"
    using insert_row_rows [OF assms(1,2)] by metis
  show ?thesis
  proof (cases "\<exists>x. x \<in># rows db \<and> root_of workspace x")
    case True
    then obtain x where x: "x \<in># rows db" "root_of workspace x" by blast
    obtain o' where "t_one (sv_docs env) (root_of workspace) db = Ok o'"
      using assms(2) by (auto simp: insert_row_def workspace_guid_def outcome_simps)
    moreover from this obtain y where "o' = Some y" "y \<in># rows db" "root_of workspace y"
      using table_lawsD(3) [OF assms(1), of "root_of workspace" db] no_rows [OF assms(1), of "root_of workspace" db] x
      by (cases o') auto
    ultimately have "workspace_guid env workspace db = Ok (Some (dr_guid y))" "y \<in># rows db" "root_of workspace y"
      by (simp_all add: workspace_guid_def)
    moreover have "dr_guid z = dr_guid x" if "z \<in># rows db" "root_of workspace z" for z
      using assms(3) that x unfolding rooted_def root_of_def by metis
    ultimately have flag': "dr_is_workspace r \<longleftrightarrow> dr_guid x = guid"
      using flag x by metis
    have dr: "dr_guid r = guid" "dr_workspace_id r = workspace" using r by (simp_all add: of_guid_def in_workspace_def)
    show ?thesis
      unfolding r(1)
    proof (rule rooted_add [OF assms(3)])
      fix z assume z: "z \<in># rows db"
      show "dr_workspace_id z = dr_workspace_id r \<and> dr_is_workspace z = dr_is_workspace r" if "dr_guid z = dr_guid r"
      proof -
        have w: "dr_workspace_id z = workspace" using assms(4) [OF z] that dr by (simp add: of_guid_def in_workspace_def)
        have "dr_is_workspace z \<longleftrightarrow> dr_guid x = guid"
          using assms(3) x z w that dr unfolding rooted_def root_of_def by metis
        then show ?thesis using w dr flag' by simp
      qed
      show "dr_guid z = dr_guid r" if "dr_is_workspace r" "root_of (dr_workspace_id r) z"
        using that flag' x z dr assms(3) unfolding rooted_def root_of_def by metis
    qed (use x dr in blast)
  next
    case False
    then have "dr_is_workspace r" and none: "\<And>x. x \<in># rows db \<Longrightarrow> dr_workspace_id x \<noteq> workspace"
      using flag assms(3) unfolding rooted_def by metis+
    have dr: "dr_guid r = guid" "dr_workspace_id r = workspace" using r by (simp_all add: of_guid_def in_workspace_def)
    show ?thesis
      unfolding r(1)
    proof (rule rooted_add [OF assms(3)])
      show "dr_workspace_id z = dr_workspace_id r \<and> dr_is_workspace z = dr_is_workspace r"
        if "z \<in># rows db" "dr_guid z = dr_guid r" for z
        using assms(4) [OF that(1)] none [OF that(1)] that dr by (simp add: of_guid_def in_workspace_def)
    qed (use none dr \<open>dr_is_workspace r\<close> in \<open>auto simp: root_of_def\<close>)
  qed
qed

lemma rooted_replace:
  assumes "table_laws (sv_docs env) rows" "replace_with env workspace guid blob db = Ok db'" "rooted (rows db)"
    and "\<And>r. r \<in># rows db \<Longrightarrow> of_guid guid r \<Longrightarrow> in_workspace workspace r" "\<exists>x. x \<in># rows db \<and> of_guid guid x"
  shows "rooted (rows db')" "r \<in># rows db' \<Longrightarrow> of_guid guid r \<Longrightarrow> in_workspace workspace r"
proof -
  obtain r where r: "rows db' = add_mset r (filter_mset (\<lambda>r. \<not> of_guid guid r) (rows db))" "in_workspace workspace r" "of_guid guid r"
    and flag: "dr_is_workspace r \<longrightarrow> (\<exists>x. x \<in># rows db \<and> of_guid guid x \<and> dr_is_workspace x)"
      "\<not> dr_is_workspace r \<longrightarrow> (\<forall>x. x \<in># rows db \<longrightarrow> \<not> of_guid guid x) \<or> (\<exists>x. x \<in># rows db \<and> of_guid guid x \<and> \<not> dr_is_workspace x)"
    using replace_with_rows [OF assms(1,2)] by metis
  obtain y where y: "y \<in># rows db" "dr_guid y = guid" "dr_workspace_id y = workspace" "dr_is_workspace y = dr_is_workspace r"
    using flag assms(3-5) unfolding rooted_def of_guid_def in_workspace_def by metis
  have dr: "dr_guid r = guid" "dr_workspace_id r = workspace" using r by (simp_all add: of_guid_def in_workspace_def)
  have mem: "x \<in># rows db' \<longleftrightarrow> x = r \<or> x \<in># rows db \<and> dr_guid x \<noteq> guid" for x by (auto simp: r(1) of_guid_def)
  note old = assms(3) [unfolded rooted_def]
  have same: "dr_workspace_id a = dr_workspace_id b \<and> dr_is_workspace a = dr_is_workspace b"
    if "a \<in># rows db'" "b \<in># rows db'" "dr_guid a = dr_guid b" for a b
    using that old mem dr by metis
  have one: "dr_guid a = dr_guid b"
    if "a \<in># rows db'" "b \<in># rows db'" "dr_workspace_id a = dr_workspace_id b" "dr_is_workspace a" "dr_is_workspace b" for a b
    using that old mem dr y by metis
  have root: "\<exists>b. b \<in># rows db' \<and> root_of (dr_workspace_id a) b" if a: "a \<in># rows db'" for a
  proof -
    obtain a0 where "a0 \<in># rows db" "dr_workspace_id a0 = dr_workspace_id a" using a mem dr y by metis
    then obtain b where b: "b \<in># rows db" "dr_workspace_id b = dr_workspace_id a" "dr_is_workspace b"
      using old unfolding root_of_def by metis
    show ?thesis
    proof (cases "dr_guid b = guid")
      case True
      then have "dr_workspace_id r = dr_workspace_id a" "dr_is_workspace r" using b y old dr by metis+
      then show ?thesis using mem unfolding root_of_def by blast
    next
      case False
      then show ?thesis using b mem unfolding root_of_def by blast
    qed
  qed
  show "rooted (rows db')" unfolding rooted_def using same one root by blast
  show "r \<in># rows db' \<Longrightarrow> of_guid guid r \<Longrightarrow> in_workspace workspace r" for r
    using mem dr by (auto simp: of_guid_def in_workspace_def)
qed


text \<open>
  C21: An update framed with its document reaches that document.  What \<open>encode_update_with_guid\<close> makes is taken apart
  into the same document and update, and writing it to the storage is writing the update to the document.
\<close>

theorem update_with_guid_roundtrip:
  assumes "string_ok guid"
  shows "\<exists>data. encode_update_with_guid u guid = Ok data \<and> decode_update_with_guid data = Ok (guid, u)
    \<and> update_doc_with_guid env workspace data s = update_doc env workspace guid u s"
proof -
  have e: "encode_update_with_guid u guid = Ok (buffer_bytes guid @ u)"
    using appendsD [OF var_string.wr_enc [OF assms], of new_encoder]
    by (simp add: encode_update_with_guid_def new_encoder_def)
  have d: "dec_read_var_string (new_decoder (buffer_bytes guid @ u))
      = Ok (guid, \<lparr>dec_buffer = buffer_bytes guid @ u, dec_pos = length (buffer_bytes guid)\<rparr>)"
    by (rule decodes_fresh [OF var_string.rd_enc [OF assms]])
  have "drain \<lparr>dec_buffer = buffer_bytes guid @ u, dec_pos = length (buffer_bytes guid)\<rparr> = Ok u"
    by (auto simp: drain_def)
  with e d show ?thesis
    by (simp add: decode_update_with_guid_def update_doc_with_guid_def update_doc_def)
qed

text \<open>
  Deleting the root document of a workspace that has other documents leaves it without a root, and the next update of
  one of these is taken for the data of a new root: its records no longer agree.
\<close>

definition row :: "bytes \<Rightarrow> bytes \<Rightarrow> bool \<Rightarrow> doc_row" where
  "row workspace guid flag =
     \<lparr>dr_workspace_id = workspace, dr_guid = guid, dr_blob = [], dr_created_at = 0, dr_is_workspace = flag\<rparr>"

definition list_env :: "doc_row list storage_env" where
  "list_env = \<lparr>sv_docs = list_table, sv_sync = plain_env, sv_dflt = \<lparr>opt_guid = [], opt_client_id = 1, opt_gc = True\<rparr>,
     sv_now = 0, sv_millis = 0\<rparr>"

definition list_storage :: "doc_row list \<Rightarrow> doc_row list doc_storage" where
  "list_storage rows = \<lparr>ds_pool = rows, ds_workspaces = [], ds_stores = [], ds_heap = empty_heap, ds_remote = [], ds_last_migrate = []\<rparr>"

lemma root_and_sub_document: "rooted (mset [row [1] [1] True, row [1] [2] False])"
  by (simp add: rooted_def root_of_def row_def conj_disj_distribR ex_disj_distrib)

lemma delete_root_promotes_sub_document:
  "(\<exists>s s'. delete_doc list_env [1] (list_storage [row [1] [1] True, row [1] [2] False]) = Ok s
        \<and> storage_update list_env [1] [2] [] s = Ok s'
        \<and> ds_pool s' = [row [1] [2] False, row [1] [2] True])"
  by (simp add: root_of_def row_def delete_doc_def delete_rows_of_doc_def list_env_def list_table_def list_storage_def
      of_guid_def storage_update_def doc_count_def max_trim_update_limit_def insert_row_def workspace_guid_def send_remote_def)

section \<open>Witnesses\<close>

lemma list_env_laws: "table_laws (sv_docs list_env) mset"
  by (simp add: list_env_def list_table_laws)

lemma one_update:
  "storage_update list_env [1] [2] [7] (list_storage [row [1] [1] True])
     = Ok (list_storage [row [1] [1] True, (row [1] [2] False)\<lparr>dr_blob := [7]\<rparr>])"
  by (simp add: row_def list_env_def list_table_def list_storage_def of_guid_def root_of_def storage_update_def doc_count_def
      max_trim_update_limit_def insert_row_def workspace_guid_def send_remote_def)



lemma update_with_guid_roundtrip_witness:
  "\<exists>data. encode_update_with_guid [7] [0x61] = Ok data
    \<and> update_doc_with_guid list_env [1] data (list_storage []) = update_doc list_env [1] [0x61] [7] (list_storage [])"
proof -
  have "string_ok [0x61]" by (simp add: string_ok_def fits_def utf8_valid_def utf8_chars.simps utf8_char_def)
  from update_with_guid_roundtrip [OF this] show ?thesis by blast
qed

end
