(* ===== verification/Blob_Storage.thy ===== *)
theory Blob_Storage
  imports Database
begin

text \<open>
  The storage of blobs in the database, \<open>src/libs/jwst-storage/src/storage/blobs/blob_storage.rs\<close> and
  \<open>utils.rs\<close>.  A blob is addressed by the hash of its bytes; deleting one sets the time of its deletion, and
  writing it again takes that back.
\<close>

section \<open>State\<close>

record blob_row =
  br_workspace_id :: bytes
  br_hash :: bytes
  br_blob :: bytes
  br_length :: i64
  br_created_at :: i64
  br_deleted_at :: "i64 option"

text \<open>The table, the hash (SHA-256 in the URL-safe form of base 64), and the time.\<close>

record 'db blob_env =
  bv_blobs :: "('db, blob_row) table"
  bv_hash :: "bytes \<Rightarrow> bytes"
  bv_now :: i64

record blob_metadata =
  bm_content_type :: bytes
  bm_last_modified :: i64
  bm_size :: i64

datatype blob_error = BlobNotFound bytes | BlobDatabase

section \<open>Queries\<close>

definition blob_id :: "bytes \<Rightarrow> bytes \<Rightarrow> blob_row \<Rightarrow> bool" where
  "blob_id workspace hash r \<longleftrightarrow> br_workspace_id r = workspace \<and> br_hash r = hash"

definition not_deleted :: "blob_row \<Rightarrow> bool" where
  "not_deleted r \<longleftrightarrow> br_deleted_at r = None"

definition live_blob :: "bytes \<Rightarrow> bytes \<Rightarrow> blob_row \<Rightarrow> bool" where
  "live_blob workspace hash r \<longleftrightarrow> blob_id workspace hash r \<and> not_deleted r"

definition blob_rows :: "'db blob_env \<Rightarrow> bytes \<Rightarrow> 'db \<Rightarrow> (storage_error, blob_row list) result" where
  "blob_rows env workspace db = t_all (bv_blobs env) (\<lambda>r. br_workspace_id r = workspace \<and> not_deleted r) db"

definition blob_keys :: "'db blob_env \<Rightarrow> bytes \<Rightarrow> 'db \<Rightarrow> (storage_error, bytes list) result" where
  "blob_keys env workspace db = rbind (blob_rows env workspace db) (\<lambda>rs. Ok (map br_hash rs))"

definition blob_count :: "'db blob_env \<Rightarrow> bytes \<Rightarrow> 'db \<Rightarrow> (storage_error, u64) result" where
  "blob_count env workspace db = t_count (bv_blobs env) (\<lambda>r. br_workspace_id r = workspace \<and> not_deleted r) db"

definition blob_exists :: "'db blob_env \<Rightarrow> bytes \<Rightarrow> bytes \<Rightarrow> 'db \<Rightarrow> (storage_error, bool) result" where
  "blob_exists env workspace hash db =
     rbind (t_count (bv_blobs env) (live_blob workspace hash) db) (\<lambda>c. Ok (0 < c))"

definition blob_get :: "'db blob_env \<Rightarrow> bytes \<Rightarrow> bytes \<Rightarrow> 'db \<Rightarrow> (blob_error, blob_row) result" where
  "blob_get env workspace hash db =
     (case t_one (bv_blobs env) (live_blob workspace hash) db of
        Ok (Some r) \<Rightarrow> Ok r
      | Ok None \<Rightarrow> Err (BlobNotFound hash)
      | Err _ \<Rightarrow> Err BlobDatabase
      | Panic \<Rightarrow> Panic)"

definition octet_stream :: bytes where "octet_stream = str_bytes ''application/octet-stream''"

definition blob_metadata_of :: "'db blob_env \<Rightarrow> bytes \<Rightarrow> bytes \<Rightarrow> 'db \<Rightarrow> (blob_error, blob_metadata) result" where
  "blob_metadata_of env workspace hash db =
     rbind (blob_get env workspace hash db) (\<lambda>r.
     Ok \<lparr>bm_content_type = octet_stream, bm_last_modified = br_created_at r, bm_size = br_length r\<rparr>)"

text \<open>The sum over no rows is the null of SQL.\<close>

definition sum_blobs_size :: "'db blob_env \<Rightarrow> bytes list \<Rightarrow> 'db \<Rightarrow> (storage_error, i64 option) result" where
  "sum_blobs_size env workspaces db =
     rbind (t_all (bv_blobs env) (\<lambda>r. br_workspace_id r \<in> set workspaces \<and> not_deleted r) db) (\<lambda>rs.
     Ok (if rs = [] then None else Some (sum_list (map br_length rs))))"

definition blob_insert :: "'db blob_env \<Rightarrow> bytes \<Rightarrow> bytes \<Rightarrow> bytes \<Rightarrow> 'db \<Rightarrow> (storage_error, 'db) result" where
  "blob_insert env workspace hash blob db =
     rbind (t_one (bv_blobs env) (blob_id workspace hash) db) (\<lambda>model.
     case model of
       Some model \<Rightarrow>
         if br_deleted_at model \<noteq> None
         then rbind (t_update (bv_blobs env) (blob_id workspace hash) (\<lambda>r. r\<lparr>br_deleted_at := None\<rparr>) db) (\<lambda>(_, db). Ok db)
         else Ok db
     | None \<Rightarrow>
         if length blob < 2 ^ 63 then
           t_insert (bv_blobs env)
             \<lparr>br_workspace_id = workspace, br_hash = hash, br_blob = blob, br_length = of_nat (length blob),
              br_created_at = bv_now env, br_deleted_at = None\<rparr> db
         else Panic)"

definition blob_delete :: "'db blob_env \<Rightarrow> bytes \<Rightarrow> bytes \<Rightarrow> 'db \<Rightarrow> (storage_error, bool \<times> 'db) result" where
  "blob_delete env workspace hash db =
     rbind (t_update (bv_blobs env) (live_blob workspace hash) (\<lambda>r. r\<lparr>br_deleted_at := Some (bv_now env)\<rparr>) db) (\<lambda>(n, db).
     Ok (n = 1, db))"

definition blob_drop :: "'db blob_env \<Rightarrow> bytes \<Rightarrow> 'db \<Rightarrow> (storage_error, 'db) result" where
  "blob_drop env workspace db = t_delete (bv_blobs env) (\<lambda>r. br_workspace_id r = workspace) db"

section \<open>The interface\<close>

text \<open>Every failure is reported as a workspace that was not found.\<close>

definition default_workspace :: "bytes option \<Rightarrow> bytes" where
  "default_workspace workspace = (case workspace of Some w \<Rightarrow> w | None \<Rightarrow> str_bytes ''__default__'')"

definition list_blobs :: "'db blob_env \<Rightarrow> bytes option \<Rightarrow> 'db \<Rightarrow> (storage_error, bytes list) result" where
  "list_blobs env workspace db =
     (let w = default_workspace workspace in or_error (WorkspaceNotFound w) (blob_keys env w db))"

definition check_blob :: "'db blob_env \<Rightarrow> bytes option \<Rightarrow> bytes \<Rightarrow> 'db \<Rightarrow> (storage_error, bool) result" where
  "check_blob env workspace i db =
     (let w = default_workspace workspace in or_error (WorkspaceNotFound w) (blob_exists env w i db))"

definition get_blob :: "'db blob_env \<Rightarrow> bytes option \<Rightarrow> bytes \<Rightarrow> 'db \<Rightarrow> (storage_error, bytes) result" where
  "get_blob env workspace i db =
     (let w = default_workspace workspace
      in or_error (WorkspaceNotFound w) (rbind (blob_get env w i db) (\<lambda>r. Ok (br_blob r))))"

definition get_metadata :: "'db blob_env \<Rightarrow> bytes option \<Rightarrow> bytes \<Rightarrow> 'db \<Rightarrow> (storage_error, blob_metadata) result" where
  "get_metadata env workspace i db =
     (let w = default_workspace workspace in or_error (WorkspaceNotFound w) (blob_metadata_of env w i db))"

definition put_blob :: "'db blob_env \<Rightarrow> bytes option \<Rightarrow> bytes \<Rightarrow> 'db \<Rightarrow> (storage_error, bytes \<times> 'db) result" where
  "put_blob env workspace blob db =
     (let w = default_workspace workspace; hash = bv_hash env blob
      in or_error (WorkspaceNotFound w) (rbind (blob_insert env w hash blob db) (\<lambda>db. Ok (hash, db))))"

text \<open>\<open>get_hash\<close> of a stream of chunks.\<close>

definition get_hash :: "'db blob_env \<Rightarrow> bytes list \<Rightarrow> bytes \<times> bytes" where
  "get_hash env stream = (bv_hash env (concat stream), concat stream)"

definition put_blob_stream :: "'db blob_env \<Rightarrow> bytes option \<Rightarrow> bytes list \<Rightarrow> 'db \<Rightarrow> (storage_error, bytes \<times> 'db) result" where
  "put_blob_stream env workspace stream db =
     (let w = default_workspace workspace
      in case get_hash env stream of (hash, blob) \<Rightarrow>
        or_error (WorkspaceNotFound w) (rbind (blob_insert env w hash blob db) (\<lambda>db. Ok (hash, db))))"

definition delete_blob :: "'db blob_env \<Rightarrow> bytes option \<Rightarrow> bytes \<Rightarrow> 'db \<Rightarrow> (storage_error, bool \<times> 'db) result" where
  "delete_blob env workspace i db =
     (let w = default_workspace workspace in or_error (WorkspaceNotFound w) (blob_delete env w i db))"

definition delete_blob_workspace :: "'db blob_env \<Rightarrow> bytes \<Rightarrow> 'db \<Rightarrow> (storage_error, 'db) result" where
  "delete_blob_workspace env workspace db = or_error (WorkspaceNotFound workspace) (blob_drop env workspace db)"

definition get_blobs_size :: "'db blob_env \<Rightarrow> bytes list \<Rightarrow> 'db \<Rightarrow> (storage_error, i64) result" where
  "get_blobs_size env workspaces db =
     rbind (sum_blobs_size env workspaces db) (\<lambda>size. Ok (case size of Some n \<Rightarrow> n | None \<Rightarrow> 0))"

section \<open>Properties\<close>

text \<open>Every row is under the hash of its bytes.\<close>

definition addressed :: "'db blob_env \<Rightarrow> blob_row multiset \<Rightarrow> bool" where
  "addressed env rs \<longleftrightarrow> (\<forall>r. r \<in># rs \<longrightarrow> br_hash r = bv_hash env (br_blob r) \<and> br_length r = of_nat (length (br_blob r)))"

lemma blob_insert_rows:
  assumes "table_laws (bv_blobs env) rows" "addressed env (rows db)" "blob_insert env w (bv_hash env blob) blob db = Ok db'"
  shows "addressed env (rows db')" "\<exists>r. r \<in># rows db' \<and> live_blob w (bv_hash env blob) r"
    "filter_mset (\<lambda>r. \<not> blob_id w (bv_hash env blob) r) (rows db') = filter_mset (\<lambda>r. \<not> blob_id w (bv_hash env blob) r) (rows db)"
proof -
  note laws = table_lawsD [OF assms(1)]
  let ?id = "blob_id w (bv_hash env blob)"
  obtain m where m: "t_one (bv_blobs env) ?id db = Ok m" using assms(3) by (auto simp: blob_insert_def outcome_simps)
  have "addressed env (rows db') \<and> (\<exists>r. r \<in># rows db' \<and> live_blob w (bv_hash env blob) r)
    \<and> filter_mset (\<lambda>r. \<not> ?id r) (rows db') = filter_mset (\<lambda>r. \<not> ?id r) (rows db)"
  proof (cases m)
    case None
    then have "t_insert (bv_blobs env) \<lparr>br_workspace_id = w, br_hash = bv_hash env blob, br_blob = blob,
        br_length = of_nat (length blob), br_created_at = bv_now env, br_deleted_at = None\<rparr> db = Ok db'"
      using assms(3) m by (simp add: blob_insert_def split: if_splits)
    from laws(5) [OF this] assms(2) show ?thesis
      by (auto simp: addressed_def live_blob_def blob_id_def not_deleted_def)
  next
    case (Some r)
    then have r: "r \<in># rows db" "?id r" using laws(3) m by blast+
    show ?thesis
    proof (cases "br_deleted_at r")
      case None
      then have "db' = db" using assms(3) m Some by (simp add: blob_insert_def)
      then show ?thesis using r None assms(2) by (auto simp: live_blob_def not_deleted_def)
    next
      case (Some d)
      then obtain n where "t_update (bv_blobs env) ?id (\<lambda>r. r\<lparr>br_deleted_at := None\<rparr>) db = Ok (n, db')"
        using assms(3) m \<open>m = Some r\<close> by (auto simp: blob_insert_def outcome_simps)
      from laws(7) [OF this] have rows: "rows db' = image_mset (\<lambda>r. if ?id r then r\<lparr>br_deleted_at := None\<rparr> else r) (rows db)" .
      have id: "?id (x\<lparr>br_deleted_at := None\<rparr>) \<longleftrightarrow> ?id x" for x by (simp add: blob_id_def)
      have "filter_mset (\<lambda>r. \<not> ?id r) (image_mset (\<lambda>r. if ?id r then r\<lparr>br_deleted_at := None\<rparr> else r) rs)
          = filter_mset (\<lambda>r. \<not> ?id r) rs" for rs
        by (induction rs) (auto simp: id)
      moreover have "live_blob w (bv_hash env blob) (r\<lparr>br_deleted_at := None\<rparr>)" "r\<lparr>br_deleted_at := None\<rparr> \<in># rows db'"
        using r by (auto simp: rows live_blob_def not_deleted_def id intro!: image_eqI [of _ _ r])
      ultimately show ?thesis using assms(2) by (auto simp: rows addressed_def)
    qed
  qed
  then show "addressed env (rows db')" "\<exists>r. r \<in># rows db' \<and> live_blob w (bv_hash env blob) r"
    "filter_mset (\<lambda>r. \<not> ?id r) (rows db') = filter_mset (\<lambda>r. \<not> ?id r) (rows db)" by blast+
qed

text \<open>
  C20: A blob that was put can be got.  Whether it is new, there already, or was deleted, reading it under the hash
  that \<open>put_blob\<close> gave yields its bytes, as long as the query succeeds and no other blob has the hash.  The rows stay
  under the hash of their bytes, and the rows of every other blob are untouched.
\<close>

theorem put_blob_get:
  assumes "table_laws (bv_blobs env) rows" "addressed env (rows db)" "put_blob env workspace blob db = Ok (hash, db')"
    and "\<forall>b. bv_hash env b = bv_hash env blob \<longrightarrow> b = blob"
    and "t_one (bv_blobs env) (live_blob (default_workspace workspace) hash) db' = Ok found"
  shows "get_blob env workspace hash db' = Ok blob \<and> addressed env (rows db')
    \<and> filter_mset (\<lambda>r. \<not> blob_id (default_workspace workspace) hash r) (rows db')
        = filter_mset (\<lambda>r. \<not> blob_id (default_workspace workspace) hash r) (rows db)"
proof -
  let ?w = "default_workspace workspace"
  have hash: "hash = bv_hash env blob" and ins: "blob_insert env ?w (bv_hash env blob) blob db = Ok db'"
    using assms(3) by (cases "blob_insert env ?w (bv_hash env blob) blob db"; simp add: put_blob_def Let_def)+
  note rows = blob_insert_rows [OF assms(1,2) ins]
  obtain r where r: "found = Some r" "r \<in># rows db'" "live_blob ?w hash r"
  proof (cases found)
    case None
    then show thesis using no_rows [OF assms(1)] rows(2) assms(5) hash by blast
  next
    case (Some r)
    then show thesis using that table_lawsD(3) [OF assms(1)] assms(5) by blast
  qed
  then have "br_blob r = blob" using rows(1) assms(4) hash by (auto simp: addressed_def live_blob_def blob_id_def)
  then show ?thesis using r(1) assms(5) rows(1,3) hash by (simp add: get_blob_def blob_get_def Let_def)
qed

definition list_blobs_env :: "blob_row list blob_env" where
  "list_blobs_env = \<lparr>bv_blobs = list_table, bv_hash = (\<lambda>b. b), bv_now = 7\<rparr>"

lemma put_blob_get_witness:
  "\<exists>db'. put_blob list_blobs_env None [1, 2] [] = Ok ([1, 2], db') \<and> get_blob list_blobs_env None [1, 2] db' = Ok [1, 2]"
proof -
  let ?w = "default_workspace None"
  let ?r = "\<lparr>br_workspace_id = ?w, br_hash = [1, 2], br_blob = [1, 2], br_length = 2, br_created_at = 7, br_deleted_at = None\<rparr>"
  have put: "put_blob list_blobs_env None [1, 2] [] = Ok ([1, 2], [?r])"
    by (simp add: put_blob_def blob_insert_def list_blobs_env_def list_table_def Let_def)
  have one: "t_one (bv_blobs list_blobs_env) (live_blob ?w [1, 2]) [?r] = Ok (Some ?r)"
    by (simp add: list_blobs_env_def list_table_def live_blob_def blob_id_def not_deleted_def)
  have laws: "table_laws (bv_blobs list_blobs_env) mset" using list_table_laws by (simp add: list_blobs_env_def)
  have "get_blob list_blobs_env None [1, 2] [?r] = Ok [1, 2]"
    using put_blob_get [OF laws _ put _ one] by (simp add: addressed_def list_blobs_env_def)
  then show ?thesis using put by blast
qed

end
